(* ===== verification/Prelude.thy ===== *)
theory Prelude
  imports Main "HOL-Library.Word" "HOL-Library.Monad_Syntax" "HOL-Library.List_Lexorder"
begin

unbundle bit_operations_syntax

text \<open>
  Types, memory and byte-order lemmas shared by every component: the C integer types as
  machine words, a block of memory as a list of bytes whose reads and writes are checked
  (an access outside the block is \<open>None\<close>, the undefined behaviour of C), the big-endian
  value of a byte string, and the \<open>memcmp\<close> order of keys.
\<close>

type_synonym u8 = "8 word"
type_synonym u16 = "16 word"
type_synonym u32 = "32 word"
type_synonym u64 = "64 word"
type_synonym i64 = "64 word"
type_synonym bytes = "8 word list"

named_theorems mem_simps
named_theorems byte_simps

subsection \<open>Blocks of memory\<close>

definition memget :: "bytes \<Rightarrow> nat \<Rightarrow> nat \<Rightarrow> bytes option" where
  "memget buf off n = (if off + n \<le> length buf then Some (take n (drop off buf)) else None)"

definition memput :: "bytes \<Rightarrow> nat \<Rightarrow> bytes \<Rightarrow> bytes option" where
  "memput buf off bs =
     (if off + length bs \<le> length buf
      then Some (take off buf @ bs @ drop (off + length bs) buf) else None)"

lemma memget_SomeD: "memget buf off n = Some bs \<Longrightarrow> length bs = n \<and> off + n \<le> length buf"
  by (auto simp: memget_def split: if_splits)

lemma memget_in [mem_simps]:
  "off + n \<le> length buf \<Longrightarrow> memget buf off n = Some (take n (drop off buf))"
  by (simp add: memget_def)

lemma memput_length: "memput buf off bs = Some buf' \<Longrightarrow> length buf' = length buf"
  by (auto simp: memput_def split: if_splits)

lemma memput_in: "off + length bs \<le> length buf \<Longrightarrow> \<exists>buf'. memput buf off bs = Some buf'"
  by (simp add: memput_def)

lemma memget_memput_same [mem_simps]:
  "memput buf off bs = Some buf' \<Longrightarrow> n = length bs \<Longrightarrow> memget buf' off n = Some bs"
  by (auto simp: memput_def memget_def split: if_splits)

lemma memget_memput_before:
  assumes "memput buf off bs = Some buf'" and "o2 + n \<le> off"
  shows "memget buf' o2 n = memget buf o2 n"
  using assms by (auto simp: memput_def memget_def take_drop min_def split: if_splits)

lemma memget_memput_after:
  assumes "memput buf off bs = Some buf'" and "off + length bs \<le> o2"
  shows "memget buf' o2 n = memget buf o2 n"
proof -
  have "drop o2 buf' = drop o2 buf" and "length buf' = length buf"
    using assms by (auto simp: memput_def split: if_splits)
  then show ?thesis by (simp add: memget_def)
qed

lemma memget_memput_other:
  assumes "memput buf off bs = Some buf'" and "o2 + n \<le> off \<or> off + length bs \<le> o2"
  shows "memget buf' o2 n = memget buf o2 n"
  using assms memget_memput_before memget_memput_after by blast

subsection \<open>Bytes of a word\<close>

definition byte :: "nat \<Rightarrow> 'a::len word \<Rightarrow> u8" where
  "byte k w = ucast (drop_bit (8 * k) w)"

lemma unat_byte [byte_simps]: "unat (byte k (w :: 'a::len word)) = unat w div 256 ^ k mod 256"
proof -
  have "unat (byte k w) = take_bit 8 (drop_bit (8 * k) (unat w))"
    by (simp add: byte_def unsigned_ucast_eq unsigned_drop_bit_eq take_bit_nat_eq_self)
  also have "\<dots> = unat w div 256 ^ k mod 256"
    by (simp add: take_bit_eq_mod drop_bit_eq_div power_mult)
  finally show ?thesis .
qed

text \<open>The value of a byte string read most significant byte first.\<close>

fun be_val :: "bytes \<Rightarrow> nat" where
  "be_val [] = 0"
| "be_val (b # bs) = unat b * 256 ^ length bs + be_val bs"

lemma be_val_less: "be_val bs < 256 ^ length bs"
proof (induction bs)
  case (Cons b bs)
  have "unat b < 256" using unsigned_less [of b] by simp
  then have "Suc (unat b) * 256 ^ length bs \<le> 256 * 256 ^ length bs"
    by (intro mult_right_mono) auto
  with Cons.IH show ?case by (simp only: be_val.simps list.size power_Suc mult_Suc add.right_neutral add_Suc_right)
qed simp

lemma be_val_inj: "length xs = length ys \<Longrightarrow> be_val xs = be_val ys \<Longrightarrow> xs = ys"
proof (induction xs ys rule: list_induct2)
  case (Cons x xs y ys)
  have "be_val (x # xs) div 256 ^ length xs = unat x"
    using be_val_less [of xs] by simp
  moreover have "be_val (y # ys) div 256 ^ length ys = unat y"
    using be_val_less [of ys] by simp
  ultimately have "unat x = unat y"
    using Cons.hyps Cons.prems by (simp del: be_val.simps)
  with Cons show ?case by (simp add: word_unat_eq_iff)
qed simp

fun be_bytes :: "nat \<Rightarrow> 'a::len word \<Rightarrow> bytes" where
  "be_bytes 0 w = []"
| "be_bytes (Suc n) w = byte n w # be_bytes n w"

lemma be_bytes_num:
  "be_bytes (Suc 0) w = [byte 0 w]" "be_bytes 1 w = [byte 0 w]" "be_bytes 2 w = [byte 1 w, byte 0 w]"
  "be_bytes 3 w = [byte 2 w, byte 1 w, byte 0 w]"
  "be_bytes 4 w = [byte 3 w, byte 2 w, byte 1 w, byte 0 w]"
  "be_bytes 5 w = [byte 4 w, byte 3 w, byte 2 w, byte 1 w, byte 0 w]"
  "be_bytes 6 w = [byte 5 w, byte 4 w, byte 3 w, byte 2 w, byte 1 w, byte 0 w]"
  "be_bytes 7 w = [byte 6 w, byte 5 w, byte 4 w, byte 3 w, byte 2 w, byte 1 w, byte 0 w]"
  "be_bytes 8 w = [byte 7 w, byte 6 w, byte 5 w, byte 4 w, byte 3 w, byte 2 w, byte 1 w, byte 0 w]"
  by (simp_all add: eval_nat_numeral)

lemma length_be_bytes [simp]: "length (be_bytes n w) = n"
  by (induction n) auto

lemma be_val_be_bytes: "be_val (be_bytes n w) = unat w mod 256 ^ n"
proof (induction n)
  case (Suc n)
  have "unat w mod 256 ^ Suc n = (unat w div 256 ^ n mod 256) * 256 ^ n + unat w mod 256 ^ n"
    using mod_mult2_eq [of "unat w" "256 ^ n" 256] by (simp add: ac_simps)
  with Suc show ?case by (simp add: unat_byte)
qed simp

lemma be_val_append: "be_val (xs @ ys) = be_val xs * 256 ^ length ys + be_val ys"
  by (induction xs) (auto simp: algebra_simps power_add)

lemma be_val_be_bytes_id: "unat w < 256 ^ n \<Longrightarrow> be_val (be_bytes n w) = unat w"
  by (simp add: be_val_be_bytes)

text \<open>The word a byte string denotes: what a C shift-and-add decoder computes.\<close>

definition be_word :: "bytes \<Rightarrow> 'a::len word" where
  "be_word bs = of_nat (be_val bs)"

lemma be_word_Nil: "be_word [] = 0"
  by (simp add: be_word_def)

lemma be_word_Cons: "be_word (b # bs) = ucast b * 2 ^ (8 * length bs) + be_word bs"
  by (simp add: be_word_def power_mult)

lemmas be_word_simps = be_word_Nil be_word_Cons

lemma be_word_be_bytes:
  "unat w < 256 ^ n \<Longrightarrow> (be_word (be_bytes n w) :: 'b::len word) = ucast w"
  by (simp add: be_word_def be_val_be_bytes_id)

subsection \<open>Little-endian words and arrays of them\<close>

text \<open>
  An array of \<open>k\<close>-byte elements in memory is its bytes, least significant first (the hosts
  the program targets); \<open>mem_rd\<close> and \<open>mem_wr\<close> are \<open>a[i]\<close> read and written, \<open>load\<close> and
  \<open>store\<close> the loops over a prefix of the array.
\<close>

definition le_word :: "bytes \<Rightarrow> 'a::len word" where
  "le_word bs = be_word (rev bs)"

definition le_bytes :: "nat \<Rightarrow> 'a::len word \<Rightarrow> bytes" where
  "le_bytes n w = rev (be_bytes n w)"

lemma length_le_bytes [simp]: "length (le_bytes n w) = n"
  by (simp add: le_bytes_def)

lemma le_word_le_bytes:
  "LENGTH('a) \<le> 8 * n \<Longrightarrow> le_word (le_bytes n (w :: 'a::len word)) = w"
proof -
  assume a: "LENGTH('a) \<le> 8 * n"
  have "unat w < 2 ^ LENGTH('a)" by simp
  also have "\<dots> \<le> 256 ^ n" using a power_increasing [of "LENGTH('a)" "8 * n" "2 :: nat"] by (simp add: power_mult)
  finally show ?thesis by (simp add: le_word_def le_bytes_def be_word_be_bytes)
qed

lemma le_bytes_inj: "LENGTH('a) \<le> 8 * n \<Longrightarrow> le_bytes n (v :: 'a::len word) = le_bytes n w \<longleftrightarrow> v = w"
  using le_word_le_bytes by metis

lemma be_bytes_be_word:
  assumes "8 * length bs \<le> LENGTH('a)"
  shows "be_bytes (length bs) (be_word bs :: 'a::len word) = bs"
proof (rule be_val_inj)
  have "be_val bs < 256 ^ length bs" by (rule be_val_less)
  also have "(256 :: nat) ^ length bs \<le> 2 ^ LENGTH('a)"
    using assms power_increasing [of "8 * length bs" "LENGTH('a)" "2 :: nat"] by (simp add: power_mult)
  finally have "unat (be_word bs :: 'a word) = be_val bs"
    by (simp add: be_word_def unat_of_nat)
  then show "be_val (be_bytes (length bs) (be_word bs :: 'a word)) = be_val bs"
    using be_val_less [of bs] by (simp add: be_val_be_bytes)
qed simp

lemma le_bytes_le_word:
  assumes "length bs = n" and "8 * n \<le> LENGTH('a)"
  shows "le_bytes n (le_word bs :: 'a::len word) = bs"
  using assms be_bytes_be_word [of "rev bs", where 'a='a] by (simp add: le_bytes_def le_word_def)

definition mem_rd :: "nat \<Rightarrow> bytes \<Rightarrow> nat \<Rightarrow> 'a::len word option" where
  "mem_rd k m i = map_option le_word (memget m (k * i) k)"

definition mem_wr :: "nat \<Rightarrow> bytes \<Rightarrow> nat \<Rightarrow> 'a::len word \<Rightarrow> bytes option" where
  "mem_wr k m i v = memput m (k * i) (le_bytes k v)"

definition load :: "nat \<Rightarrow> bytes \<Rightarrow> nat \<Rightarrow> 'a::len word list option" where
  "load k m n = those (map (mem_rd k m) [0..<n])"

fun store :: "nat \<Rightarrow> bytes \<Rightarrow> nat \<Rightarrow> 'a::len word list \<Rightarrow> bytes option" where
  "store k m i [] = Some m"
| "store k m i (v # vs) = Option.bind (mem_wr k m i v) (\<lambda>m'. store k m' (Suc i) vs)"

lemma those_map_Some: "(\<And>x. x \<in> set xs \<Longrightarrow> f x = Some (g x)) \<Longrightarrow> those (map f xs) = Some (map g xs)"
  by (induction xs) auto

lemma those_length: "those xs = Some ys \<Longrightarrow> length ys = length xs"
  by (induction xs arbitrary: ys) (auto split: option.splits)

lemma those_nth: "those xs = Some ys \<Longrightarrow> i < length xs \<Longrightarrow> xs ! i = Some (ys ! i)"
  by (induction xs arbitrary: ys i) (auto split: option.splits simp: nth_Cons')

lemma load_in:
  assumes "k * n \<le> length m"
  shows "load k m n = Some (map (\<lambda>i. le_word (take k (drop (k * i) m))) [0..<n])"
  unfolding load_def
proof (rule those_map_Some)
  fix i assume "i \<in> set [0..<n]"
  then have "k * i + k \<le> k * n" by (metis Suc_leI add.commute atLeastLessThan_iff mult_Suc_right mult_le_mono2 set_upt)
  with assms show "mem_rd k m i = Some (le_word (take k (drop (k * i) m)))"
    by (simp add: mem_rd_def memget_def)
qed

lemma load_length: "load k m n = Some xs \<Longrightarrow> length xs = n"
  unfolding load_def by (auto dest!: those_length)

lemma memput_append:
  "memput m off (xs @ ys) = Option.bind (memput m off xs) (\<lambda>m'. memput m' (off + length xs) ys)"
  by (auto simp: memput_def ac_simps)

lemma store_memput:
  "i * k \<le> length m \<Longrightarrow> store k m i vs = memput m (k * i) (concat (map (le_bytes k) vs))"
proof (induction vs arbitrary: m i)
  case Nil
  then show ?case by (simp add: memput_def mult.commute)
next
  case (Cons v vs)
  show ?case
  proof (cases "memput m (k * i) (le_bytes k v)")
    case None
    then show ?thesis by (simp only: store.simps mem_wr_def list.map concat.simps memput_append) simp
  next
    case (Some m')
    then have "Suc i * k \<le> length m'"
      by (auto simp: memput_def mult.commute split: if_splits)
    with Some show ?thesis
      by (simp only: store.simps mem_wr_def list.map concat.simps memput_append bind.bind_lunit Cons.IH length_le_bytes)
         (simp add: add.commute)
  qed
qed

lemma length_concat_le_bytes [simp]: "length (concat (map (le_bytes k) vs)) = k * length vs"
  by (induction vs) auto

lemma load_concat:
  fixes vs :: "'a::len word list"
  assumes "LENGTH('a) \<le> 8 * k"
  shows "load k (concat (map (le_bytes k) vs) @ rest) (length vs) = Some vs"
proof -
  let ?m = "concat (map (le_bytes k) vs) @ rest"
  have nth: "take k (drop (k * i) ?m) = le_bytes k (vs ! i)" if "i < length vs" for i
    using that
  proof (induction vs arbitrary: i)
    case (Cons v vs)
    then show ?case by (cases i) auto
  qed simp
  have "load k ?m (length vs) = Some (map (\<lambda>i. le_word (take k (drop (k * i) ?m))) [0..<length vs])"
    by (rule load_in) simp
  also have "map (\<lambda>i. le_word (take k (drop (k * i) ?m))) [0..<length vs] = map (\<lambda>i. vs ! i) [0..<length vs]"
    using assms by (intro map_cong refl) (simp only: set_upt atLeastLessThan_iff nth le_word_le_bytes)
  finally show ?thesis by (simp add: map_nth)
qed

text \<open>Big-endian strings of one length compare as their values.\<close>

lemma be_val_less_iff: "length xs = length ys \<Longrightarrow> xs < ys \<longleftrightarrow> be_val xs < be_val ys"
proof (induction xs ys rule: list_induct2)
  case (Cons x xs y ys)
  have bx: "be_val xs < 256 ^ length ys" and by': "be_val ys < 256 ^ length ys"
    using be_val_less [of xs] be_val_less [of ys] Cons.hyps by simp_all
  show ?case
  proof (cases x y rule: linorder_cases)
    case less
    then have "Suc (unat x) * 256 ^ length ys \<le> unat y * 256 ^ length ys"
      by (intro mult_right_mono) (auto simp: word_less_nat_alt)
    then have "be_val (x # xs) < be_val (y # ys)"
      using bx Cons.hyps by simp
    with less show ?thesis by (simp del: be_val.simps)
  next
    case greater
    then have "Suc (unat y) * 256 ^ length ys \<le> unat x * 256 ^ length ys"
      by (intro mult_right_mono) (auto simp: word_less_nat_alt)
    then have "be_val (y # ys) < be_val (x # xs)"
      using by' Cons.hyps by simp
    with greater show ?thesis by (auto simp del: be_val.simps)
  qed (use Cons in simp)
qed simp

subsection \<open>Bytes put together by shifts\<close>

lemma and_0xff: "(w :: 'a::len word) AND 0xFF = take_bit 8 w"
  by (simp add: take_bit_eq_mask mask_eq_exp_minus_1)

lemma ucast_and_0xff: "(ucast ((w :: 'a::len word) AND 0xFF) :: u8) = ucast w"
  unfolding and_0xff by (rule bit_word_eqI) (auto simp: bit_simps dest: bit_imp_le_length)

lemma or_next_byte:
  "take_bit m w OR push_bit m (ucast (ucast (drop_bit m (w :: 'a::len word)) :: u8)) = take_bit (m + 8) w"
  by (rule bit_word_eqI) (auto simp: bit_simps dest: bit_imp_le_length)

lemma first_byte: "ucast (ucast (w :: 'a::len word) :: u8) = take_bit 8 w"
  by (rule bit_word_eqI) (auto simp: bit_simps)

lemma or_bytes_4:
  "((ucast (byte 0 w) OR push_bit 8 (ucast (byte (Suc 0) w))) OR push_bit 16 (ucast (byte 2 w)))
     OR push_bit 24 (ucast (byte 3 w)) = (w :: 32 word)"
  using or_next_byte [of 8 w] or_next_byte [of 16 w] or_next_byte [of 24 w] first_byte [of w]
  by (simp add: byte_def take_bit_word_eq_self)

subsection \<open>The order of keys\<close>

text \<open>
  C's \<open>memcmp\<close> on two blocks of one size: negative, zero or positive as the first
  differing bytes compare. With the lengths as tie-break it is the order \<open><\<close> of
  \<open>List_Lexorder\<close> on byte strings.
\<close>

fun memcmp :: "bytes \<Rightarrow> bytes \<Rightarrow> int" where
  "memcmp (a # as) (b # bs) = (if a < b then -1 else if b < a then 1 else memcmp as bs)"
| "memcmp _ _ = 0"

lemma memcmp_take:
  "memcmp (take (min (length a) (length b)) a) (take (min (length a) (length b)) b) = memcmp a b"
  by (induction a b rule: memcmp.induct) auto

lemma memcmp_eq_0: "length a = length b \<Longrightarrow> memcmp a b = 0 \<longleftrightarrow> a = b"
  by (induction a b rule: memcmp.induct) auto

subsection \<open>Assertions\<close>

text \<open>\<open>assert(b)\<close> in a build that checks assertions: a failure ends the program.\<close>

definition c_assert :: "bool \<Rightarrow> unit option" where
  "c_assert b = (if b then Some () else None)"

lemma c_assert_simps [simp]: "c_assert True = Some ()" "c_assert False = None"
  by (simp_all add: c_assert_def)

lemma c_assert_bind: "Option.bind (c_assert b) f = (if b then f () else None)"
  by (simp add: c_assert_def)

end
