(* ===== verification/Varint.thy ===== *)
theory Varint
  imports Prelude
begin

unbundle bit_operations_syntax

text \<open>
  The variable-length integers of \<open>varint.c\<close> (SQLite4) and \<open>lsm_varint.c\<close> (the LSM
  engine's copy): encoders and decoders on the bytes they write and read, with the
  results that the two decoders invert the encoders, that a truncated input is refused
  and that \<open>memcmp\<close> order on encodings is numeric order.
\<close>

subsection \<open>varint.c\<close>

text \<open>
  The byte list is the \<open>n\<close> bytes at \<open>z\<close> the caller lets the decoder read; \<open>None\<close>
  is the return value 0, and \<open>Some (k, v)\<close> is the return value \<open>k\<close> with \<open>v\<close> in
  \<open>*pResult\<close>.
\<close>

definition sqlite4GetVarint64 :: "bytes \<Rightarrow> (nat \<times> u64) option" where
  "sqlite4GetVarint64 z =
     (let n = length z; u = (\<lambda>k. ucast (z ! k) :: u64); u32 = (\<lambda>k. ucast (z ! k) :: u32) in
      if n < 1 then None
      else if z ! 0 \<le> 240 then Some (1, u 0)
      else if z ! 0 \<le> 248 then
        (if n < 2 then None else Some (2, (u 0 - 241) * 256 + u 1 + 240))
      else if int n < int (unat (z ! 0)) - 246 then None
      else if z ! 0 = 249 then Some (3, 2288 + 256 * u 1 + u 2)
      else if z ! 0 = 250 then Some (4, push_bit 16 (u 1) + push_bit 8 (u 2) + u 3)
      else
        let x = push_bit 24 (u32 1) + push_bit 16 (u32 2) + push_bit 8 (u32 3) + u32 4 in
        if z ! 0 = 251 then Some (5, ucast x)
        else if z ! 0 = 252 then Some (6, push_bit 8 (ucast x) + u 5)
        else if z ! 0 = 253 then Some (7, push_bit 16 (ucast x) + push_bit 8 (u 5) + u 6)
        else if z ! 0 = 254 then
          Some (8, push_bit 24 (ucast x) + push_bit 16 (u 5) + push_bit 8 (u 6) + u 7)
        else
          Some (9, push_bit 32 (ucast x)
                   + ucast (push_bit 24 (u32 5) + push_bit 16 (u32 6) + push_bit 8 (u32 7) + u32 8)))"

definition varintWrite32 :: "u32 \<Rightarrow> bytes" where
  "varintWrite32 y = [ucast (drop_bit 24 y), ucast (drop_bit 16 y), ucast (drop_bit 8 y), ucast y]"

definition sqlite4PutVarint64 :: "u64 \<Rightarrow> bytes" where
  "sqlite4PutVarint64 x =
     (if x \<le> 240 then [ucast x]
      else if x \<le> 2287 then
        let y = (ucast (x - 240) :: u32) in [ucast (y div 256 + 241), ucast (y mod 256)]
      else if x \<le> 67823 then
        let y = (ucast (x - 2288) :: u32) in [249, ucast (y div 256), ucast (y mod 256)]
      else
        let y = (ucast x :: u32); w = (ucast (drop_bit 32 x) :: u32) in
        if w = 0 then
          (if y \<le> 16777215 then [250, ucast (drop_bit 16 y), ucast (drop_bit 8 y), ucast y]
           else 251 # varintWrite32 y)
        else if w \<le> 255 then 252 # ucast w # varintWrite32 y
        else if w \<le> 65535 then 253 # ucast (drop_bit 8 w) # ucast w # varintWrite32 y
        else if w \<le> 16777215 then
          254 # ucast (drop_bit 16 w) # ucast (drop_bit 8 w) # ucast w # varintWrite32 y
        else 255 # varintWrite32 w @ varintWrite32 y)"

definition sqlite4VarintLen :: "u64 \<Rightarrow> nat" where
  "sqlite4VarintLen v = length (sqlite4PutVarint64 v)"

definition sqlite4GetVarint32 :: "bytes \<Rightarrow> (nat \<times> u32) option" where
  "sqlite4GetVarint32 z = map_option (\<lambda>(k, r). (k, ucast r)) (sqlite4GetVarint64 (take 9 z))"

definition sqlite4PutVarint32 :: "u32 \<Rightarrow> bytes" where
  "sqlite4PutVarint32 v = sqlite4PutVarint64 (ucast v)"

subsection \<open>lsm_varint.c\<close>

text \<open>
  The engine's copy. Its decoder has no length argument, so a read past the end of the
  buffer is \<open>None\<close>, and its encoder switches from six to seven payload bytes at
  \<open>w \<le> 32767\<close> where \<open>varint.c\<close> has 65535.
\<close>

definition lsmSqlite4GetVarint64 :: "bytes \<Rightarrow> (nat \<times> u64) option" where
  "lsmSqlite4GetVarint64 z =
     (let n = length z; u = (\<lambda>k. ucast (z ! k) :: u64); u32 = (\<lambda>k. ucast (z ! k) :: u32) in
      if n < 1 then None
      else if z ! 0 \<le> 240 then Some (1, u 0)
      else if z ! 0 \<le> 248 then
        (if n < 2 then None else Some (2, (u 0 - 241) * 256 + u 1 + 240))
      else if z ! 0 = 249 then (if n < 3 then None else Some (3, 2288 + 256 * u 1 + u 2))
      else if z ! 0 = 250 then
        (if n < 4 then None else Some (4, push_bit 16 (u 1) + push_bit 8 (u 2) + u 3))
      else if n < 5 then None
      else
        let x = push_bit 24 (u32 1) + push_bit 16 (u32 2) + push_bit 8 (u32 3) + u32 4 in
        if z ! 0 = 251 then Some (5, ucast x)
        else if z ! 0 = 252 then (if n < 6 then None else Some (6, push_bit 8 (ucast x) + u 5))
        else if z ! 0 = 253 then
          (if n < 7 then None else Some (7, push_bit 16 (ucast x) + push_bit 8 (u 5) + u 6))
        else if z ! 0 = 254 then
          (if n < 8 then None
           else Some (8, push_bit 24 (ucast x) + push_bit 16 (u 5) + push_bit 8 (u 6) + u 7))
        else if n < 9 then None
        else
          Some (9, push_bit 32 (ucast x)
                   + ucast (push_bit 24 (u32 5) + push_bit 16 (u32 6) + push_bit 8 (u32 7) + u32 8)))"

definition lsmVarintWrite32 :: "u32 \<Rightarrow> bytes" where
  "lsmVarintWrite32 y = [ucast (drop_bit 24 y), ucast (drop_bit 16 y), ucast (drop_bit 8 y), ucast y]"

definition lsmSqlite4PutVarint64 :: "u64 \<Rightarrow> bytes" where
  "lsmSqlite4PutVarint64 x =
     (if x \<le> 240 then [ucast x]
      else if x \<le> 2287 then
        let y = (ucast (x - 240) :: u32) in [ucast (y div 256 + 241), ucast (y mod 256)]
      else if x \<le> 67823 then
        let y = (ucast (x - 2288) :: u32) in [249, ucast (y div 256), ucast (y mod 256)]
      else
        let y = (ucast x :: u32); w = (ucast (drop_bit 32 x) :: u32) in
        if w = 0 then
          (if y \<le> 16777215 then [250, ucast (drop_bit 16 y), ucast (drop_bit 8 y), ucast y]
           else 251 # lsmVarintWrite32 y)
        else if w \<le> 255 then 252 # ucast w # lsmVarintWrite32 y
        else if w \<le> 32767 then 253 # ucast (drop_bit 8 w) # ucast w # lsmVarintWrite32 y
        else if w \<le> 16777215 then
          254 # ucast (drop_bit 16 w) # ucast (drop_bit 8 w) # ucast w # lsmVarintWrite32 y
        else 255 # lsmVarintWrite32 w @ lsmVarintWrite32 y)"

definition lsmVarintPut64 :: "i64 \<Rightarrow> bytes" where
  "lsmVarintPut64 iVal = lsmSqlite4PutVarint64 iVal"

definition lsmVarintGet64 :: "bytes \<Rightarrow> (nat \<times> i64) option" where
  "lsmVarintGet64 aData = lsmSqlite4GetVarint64 aData"

definition lsmVarintPut32 :: "32 word \<Rightarrow> bytes" where
  "lsmVarintPut32 iVal = lsmSqlite4PutVarint64 (scast iVal)"

definition lsmVarintGet32 :: "bytes \<Rightarrow> (nat \<times> 32 word) option" where
  "lsmVarintGet32 z =
     (let n = length z; u = (\<lambda>k. ucast (z ! k) :: 32 word) in
      if n < 1 then None
      else if z ! 0 \<le> 240 then Some (1, u 0)
      else if z ! 0 \<le> 248 then
        (if n < 2 then None else Some (2, (u 0 - 241) * 256 + u 1 + 240))
      else if z ! 0 = 249 then (if n < 3 then None else Some (3, 2288 + 256 * u 1 + u 2))
      else if z ! 0 = 250 then
        (if n < 4 then None else Some (4, push_bit 16 (u 1) + push_bit 8 (u 2) + u 3))
      else map_option (\<lambda>(k, i). (k, ucast i)) (lsmSqlite4GetVarint64 z))"

definition lsmVarintLen32 :: "32 word \<Rightarrow> nat" where
  "lsmVarintLen32 n = length (lsmVarintPut32 n)"

definition lsmVarintLen64 :: "i64 \<Rightarrow> nat" where
  "lsmVarintLen64 n = length (lsmVarintPut64 n)"

definition lsmVarintSize :: "u8 \<Rightarrow> nat" where
  "lsmVarintSize c = (if c < 241 then 1 else if c < 249 then 2 else unat (c - 246))"

subsection \<open>The shape of an encoding\<close>

lemma varintWrite32_bytes: "varintWrite32 y = be_bytes 4 y"
  by (simp add: varintWrite32_def eval_nat_numeral byte_def)

lemma lsmVarintWrite32_bytes: "lsmVarintWrite32 y = be_bytes 4 y"
  by (simp add: lsmVarintWrite32_def eval_nat_numeral byte_def)

lemma byte_lo: "k < 4 \<Longrightarrow> byte k (ucast (x :: u64) :: u32) = byte k x"
  unfolding byte_def by (rule bit_word_eqI) (auto simp: bit_simps)

lemma byte_hi: "byte k (ucast (drop_bit 32 (x :: u64)) :: u32) = byte (k + 4) x"
  unfolding byte_def by (rule bit_word_eqI) (auto simp: bit_simps ac_simps dest: bit_imp_le_length)

lemma byte_drop32: "byte k (drop_bit 32 (x :: u64)) = byte (k + 4) x"
  unfolding byte_def by (simp add: ac_simps)

lemma cast_byte_lo:
  "ucast (ucast (x :: u64) :: u32) = byte 0 x"
  "ucast (drop_bit 8 (ucast (x :: u64) :: u32)) = byte 1 x"
  "ucast (drop_bit 16 (ucast (x :: u64) :: u32)) = byte 2 x"
  using byte_lo [of 0 x] byte_lo [of 1 x] byte_lo [of 2 x] by (simp_all add: byte_def)

lemma cast_byte_hi:
  "ucast (ucast (drop_bit 32 (x :: u64)) :: u32) = byte 4 x"
  "ucast (drop_bit 8 (ucast (drop_bit 32 (x :: u64)) :: u32)) = byte 5 x"
  "ucast (drop_bit 16 (ucast (drop_bit 32 (x :: u64)) :: u32)) = byte 6 x"
  using byte_hi [of 0 x] byte_hi [of 1 x] byte_hi [of 2 x] by (simp_all add: byte_def)

lemma unat_lo: "unat (ucast (x :: u64) :: u32) = unat x mod 2 ^ 32"
  by (simp add: unsigned_ucast_eq take_bit_eq_mod)

lemma unat_hi: "unat (ucast (drop_bit 32 (x :: u64)) :: u32) = unat x div 2 ^ 32"
proof -
  have "unat x < 2 ^ 64" using unsigned_less [of x] by simp
  then have "unat x div 2 ^ 32 < 2 ^ 32" by simp
  moreover have "unat (ucast (drop_bit 32 x) :: u32) = take_bit 32 (drop_bit 32 (unat x))"
    using \<open>unat x < 2 ^ 64\<close>
    by (simp only: unsigned_ucast_eq unsigned_drop_bit_eq) (simp add: take_bit_nat_eq_self)
  ultimately show ?thesis
    by (simp only: drop_bit_eq_div take_bit_eq_mod mod_less)
qed

text \<open>
  Above 67823 an encoding is a header that gives the number of payload bytes, then the
  value big-endian in that many bytes, as few as hold it (one more than that is allowed
  for: the engine's encoder does not always use the shortest form).
\<close>

lemma sqlite4Put_big:
  assumes "67823 < x"
  shows "\<exists>n \<in> {3, 4, 5, 6, 7, 8}. sqlite4PutVarint64 x = of_nat (247 + n) # be_bytes n x
           \<and> unat x < 256 ^ n \<and> (n = 3 \<or> 256 ^ (n - 1) \<le> unat x)"
proof -
  let ?y = "ucast x :: u32" and ?w = "ucast (drop_bit 32 x) :: u32"
  have x64: "unat x < 2 ^ 64" using unsigned_less [of x] by simp
  have bytes: "be_bytes 4 ?y = be_bytes 4 x" "be_bytes 4 ?w = [byte 7 x, byte 6 x, byte 5 x, byte 4 x]"
    by (simp_all add: be_bytes_num byte_lo byte_hi)
  have nat_tests: "?w = 0 \<longleftrightarrow> unat x < 2 ^ 32" "?w \<le> 255 \<longleftrightarrow> unat x < 2 ^ 40"
      "?w \<le> 65535 \<longleftrightarrow> unat x < 2 ^ 48" "?w \<le> 16777215 \<longleftrightarrow> unat x < 2 ^ 56"
    unfolding word_le_nat_alt word_unat_eq_iff unat_hi by (simp_all, linarith+)
  have y_test: "unat x < 2 ^ 32 \<Longrightarrow> ?y \<le> 16777215 \<longleftrightarrow> unat x < 2 ^ 24"
    unfolding word_le_nat_alt unat_lo by simp linarith
  have big: "\<not> x \<le> 240" "\<not> x \<le> 2287" "\<not> x \<le> 67823"
    using assms by (auto simp: word_le_nat_alt word_less_nat_alt)
  note shape = sqlite4PutVarint64_def Let_def big if_False varintWrite32_bytes bytes nat_tests
  consider "unat x < 2 ^ 24" | "2 ^ 24 \<le> unat x" "unat x < 2 ^ 32"
    | "2 ^ 32 \<le> unat x" "unat x < 2 ^ 40" | "2 ^ 40 \<le> unat x" "unat x < 2 ^ 48"
    | "2 ^ 48 \<le> unat x" "unat x < 2 ^ 56" | "2 ^ 56 \<le> unat x"
    by linarith
  then show ?thesis
  proof cases
    case 1
    then have "sqlite4PutVarint64 x = of_nat (247 + 3) # be_bytes 3 x"
      by (simp add: shape y_test cast_byte_lo be_bytes_num)
    with 1 show ?thesis by (intro bexI [of _ 3]) auto
  next
    case 2
    then have "sqlite4PutVarint64 x = of_nat (247 + 4) # be_bytes 4 x"
      by (simp add: shape y_test)
    with 2 show ?thesis by (intro bexI [of _ 4]) auto
  next
    case 3
    then have "sqlite4PutVarint64 x = of_nat (247 + 5) # be_bytes 5 x"
      by (simp add: shape cast_byte_hi byte_lo be_bytes_num)
    with 3 show ?thesis by (intro bexI [of _ 5]) auto
  next
    case 4
    then have "sqlite4PutVarint64 x = of_nat (247 + 6) # be_bytes 6 x"
      by (simp add: shape cast_byte_hi byte_lo be_bytes_num)
    with 4 show ?thesis by (intro bexI [of _ 6]) auto
  next
    case 5
    then have "sqlite4PutVarint64 x = of_nat (247 + 7) # be_bytes 7 x"
      by (simp add: shape cast_byte_hi byte_lo be_bytes_num)
    with 5 show ?thesis by (intro bexI [of _ 7]) auto
  next
    case 6
    then have "sqlite4PutVarint64 x = of_nat (247 + 8) # be_bytes 8 x"
      by (simp add: shape byte_lo byte_drop32 be_bytes_num)
    with 6 x64 show ?thesis by (intro bexI [of _ 8]) auto
  qed
qed

lemma sqlite4Put_small:
  "x \<le> 240 \<Longrightarrow> sqlite4PutVarint64 x = [of_nat (unat x)]"
  "240 < x \<Longrightarrow> x \<le> 2287 \<Longrightarrow> sqlite4PutVarint64 x =
     [of_nat (241 + (unat x - 240) div 256), of_nat ((unat x - 240) mod 256)]"
  "2287 < x \<Longrightarrow> x \<le> 67823 \<Longrightarrow> sqlite4PutVarint64 x =
     [249, of_nat ((unat x - 2288) div 256), of_nat ((unat x - 2288) mod 256)]"
proof -
  show "x \<le> 240 \<Longrightarrow> sqlite4PutVarint64 x = [of_nat (unat x)]"
    by (simp add: sqlite4PutVarint64_def)
next
  assume a: "240 < x" "x \<le> 2287"
  define y :: u32 where "y = ucast (x - 240)"
  have "unat (x - 240) = unat x - 240"
    using a by (simp add: unat_sub word_le_nat_alt word_less_nat_alt)
  then have y: "unat y = unat x - 240"
    using a by (simp add: y_def unat_lo word_le_nat_alt)
  have "unat (ucast (y div 256 + 241) :: u8) = unat (of_nat (241 + (unat x - 240) div 256) :: u8)"
    using a y by (simp add: unsigned_ucast_eq unat_word_ariths unat_div take_bit_eq_mod word_le_nat_alt unat_of_nat)
  moreover have "unat (ucast (y mod 256) :: u8) = unat (of_nat ((unat x - 240) mod 256) :: u8)"
    using y by (simp add: unsigned_ucast_eq unat_mod take_bit_eq_mod unat_of_nat)
  ultimately show "sqlite4PutVarint64 x =
     [of_nat (241 + (unat x - 240) div 256), of_nat ((unat x - 240) mod 256)]"
    using a by (simp add: sqlite4PutVarint64_def Let_def y_def word_unat_eq_iff)
next
  assume a: "2287 < x" "x \<le> 67823"
  define y :: u32 where "y = ucast (x - 2288)"
  have "unat (x - 2288) = unat x - 2288"
    using a by (simp add: unat_sub word_le_nat_alt word_less_nat_alt)
  then have y: "unat y = unat x - 2288"
    using a by (simp add: y_def unat_lo word_le_nat_alt)
  have "unat (ucast (y div 256) :: u8) = unat (of_nat ((unat x - 2288) div 256) :: u8)"
    using a y by (simp add: unsigned_ucast_eq unat_div take_bit_eq_mod word_le_nat_alt unat_of_nat)
  moreover have "unat (ucast (y mod 256) :: u8) = unat (of_nat ((unat x - 2288) mod 256) :: u8)"
    using y by (simp add: unsigned_ucast_eq unat_mod take_bit_eq_mod unat_of_nat)
  moreover have "\<not> x \<le> 240" using a by (simp add: word_le_nat_alt word_less_nat_alt)
  ultimately show "sqlite4PutVarint64 x =
     [249, of_nat ((unat x - 2288) div 256), of_nat ((unat x - 2288) mod 256)]"
    using a by (simp add: sqlite4PutVarint64_def Let_def y_def word_unat_eq_iff)
qed

lemma ucast_sum4:
  "(ucast (ucast a * 16777216 + ucast b * 65536 + ucast c * 256 + ucast d :: u32) :: u64)
     = ucast (a :: u8) * 16777216 + ucast (b :: u8) * 65536 + ucast (c :: u8) * 256 + ucast (d :: u8)"
proof -
  let ?m = "unat a * 16777216 + unat b * 65536 + unat c * 256 + unat d"
  have u: "unat a < 256" "unat b < 256" "unat c < 256" "unat d < 256"
    using unsigned_less [of a] unsigned_less [of b] unsigned_less [of c] unsigned_less [of d] by simp_all
  have "(ucast a * 16777216 + ucast b * 65536 + ucast c * 256 + ucast d :: u32) = of_nat ?m"
    by simp
  moreover have "unat (of_nat ?m :: u32) = ?m"
    using u by (simp only: unat_of_nat) simp
  ultimately have "(ucast (ucast a * 16777216 + ucast b * 65536 + ucast c * 256 + ucast d :: u32) :: u64)
      = of_nat ?m"
    by (metis of_nat_unat)
  then show ?thesis by simp
qed

lemma sqlite4Get_big:
  assumes "n \<in> {3, 4, 5, 6, 7, 8}" and "length bs = n"
  shows "sqlite4GetVarint64 (of_nat (247 + n) # bs @ rest) = Some (Suc n, be_word bs)"
proof -
  note get = sqlite4GetVarint64_def Let_def ucast_sum4 be_word_simps push_bit_eq_mult distrib_left distrib_right mult.commute [of 256]
    mult.commute [of 65536] mult.commute [of 16777216] mult.commute [of 4294967296]
  consider a b c where "n = 3" "bs = [a, b, c]" | a b c d where "n = 4" "bs = [a, b, c, d]"
    | a b c d e where "n = 5" "bs = [a, b, c, d, e]"
    | a b c d e f where "n = 6" "bs = [a, b, c, d, e, f]"
    | a b c d e f g where "n = 7" "bs = [a, b, c, d, e, f, g]"
    | a b c d e f g h where "n = 8" "bs = [a, b, c, d, e, f, g, h]"
    using assms by (auto simp: numeral_eq_Suc length_Suc_conv)
  then show ?thesis
    by cases (simp_all add: get)
qed

lemma lsmSqlite4Get_eq: "lsmSqlite4GetVarint64 z = sqlite4GetVarint64 z"
proof (cases z)
  case (Cons b bs)
  consider "b \<le> 248" | "b = 249" | "b = 250" | "b = 251" | "b = 252" | "b = 253" | "b = 254" | "b = 255"
    | "248 < b" "b \<notin> {249, 250, 251, 252, 253, 254, 255}" by force
  then show ?thesis
  proof cases
    case 9
    have "unat b < 256" using unsigned_less [of b] by simp
    then have False using 9 by (auto simp: word_less_nat_alt word_unat_eq_iff)
    then show ?thesis ..
  qed (auto simp: lsmSqlite4GetVarint64_def sqlite4GetVarint64_def Let_def Cons word_le_nat_alt word_less_nat_alt)
qed (simp add: lsmSqlite4GetVarint64_def sqlite4GetVarint64_def)

subsection \<open>Decoding inverts encoding\<close>

lemma sqlite4_roundtrip_small:
  assumes "x \<le> 67823"
  shows "sqlite4GetVarint64 (sqlite4PutVarint64 x @ rest) = Some (length (sqlite4PutVarint64 x), x)"
proof -
  consider "x \<le> 240" | "240 < x" "x \<le> 2287" | "2287 < x" by force
  then show ?thesis
  proof cases
    case 1
    then have "unat x \<le> 240" by (simp add: word_le_nat_alt)
    then have "(of_nat (unat x) :: u8) \<le> 240" "unat (of_nat (unat x) :: u8) = unat x"
      by (simp_all only: word_le_nat_alt unat_of_nat) simp_all
    then show ?thesis
      using sqlite4Put_small(1) [OF 1] by (simp add: sqlite4GetVarint64_def word_unat_eq_iff unsigned_ucast_eq take_bit_eq_mod unat_mod)
  next
    case 2
    let ?m = "unat x - 240"
    have m: "?m \<le> 2047" "unat x = ?m + 240" using 2 by (auto simp: word_le_nat_alt word_less_nat_alt)
    let ?a = "of_nat (241 + ?m div 256) :: u8" and ?b = "of_nat (?m mod 256) :: u8"
    have ab: "unat ?a = 241 + ?m div 256" "unat ?b = ?m mod 256"
      using m by (simp_all only: unat_of_nat) simp_all
    moreover have "?m div 256 \<le> 7" using m(1) by simp
    ultimately have "\<not> ?a \<le> 240" "?a \<le> 248" by (simp_all only: word_le_nat_alt) simp_all
    moreover have "ucast ?a = (of_nat (241 + ?m div 256) :: u64)" "ucast ?b = (of_nat (?m mod 256) :: u64)"
      using ab by (metis of_nat_unat)+
    moreover have "(of_nat (241 + ?m div 256) - 241) * 256 + of_nat (?m mod 256) + 240 = (of_nat (?m div 256 * 256 + ?m mod 256 + 240) :: u64)"
      by (simp only: of_nat_add of_nat_mult of_nat_numeral) simp
    moreover have "\<dots> = x" using m by (simp only: div_mult_mod_eq) simp
    ultimately show ?thesis
      using sqlite4Put_small(2) [OF 2] by (simp add: sqlite4GetVarint64_def del: of_nat_add)
  next
    case 3
    let ?m = "unat x - 2288"
    have m: "?m \<le> 65535" "unat x = ?m + 2288" using 3 assms by (auto simp: word_le_nat_alt word_less_nat_alt)
    let ?a = "of_nat (?m div 256) :: u8" and ?b = "of_nat (?m mod 256) :: u8"
    have ab: "unat ?a = ?m div 256" "unat ?b = ?m mod 256"
      using m by (simp_all only: unat_of_nat) simp_all
    then have "ucast ?a = (of_nat (?m div 256) :: u64)" "ucast ?b = (of_nat (?m mod 256) :: u64)"
      by (metis of_nat_unat)+
    moreover have "2288 + 256 * of_nat (?m div 256) + of_nat (?m mod 256) = (of_nat (?m div 256 * 256 + ?m mod 256 + 2288) :: u64)"
      by (simp only: of_nat_add of_nat_mult of_nat_numeral) simp
    moreover have "\<dots> = x" using m by (simp only: div_mult_mod_eq) simp
    ultimately have "2288 + 256 * ucast ?a + ucast ?b = x" by metis
    then show ?thesis
      using sqlite4Put_small(3) [OF 3 assms] by (simp add: sqlite4GetVarint64_def)
  qed
qed

lemma sqlite4_roundtrip:
  "sqlite4GetVarint64 (sqlite4PutVarint64 x @ rest) = Some (length (sqlite4PutVarint64 x), x)"
proof (cases "x \<le> 67823")
  case False
  then obtain n where n: "n \<in> {3, 4, 5, 6, 7, 8}" "sqlite4PutVarint64 x = of_nat (247 + n) # be_bytes n x"
    "unat x < 256 ^ n" using sqlite4Put_big [of x] not_le by blast
  have "sqlite4GetVarint64 (of_nat (247 + n) # be_bytes n x @ rest) = Some (Suc n, be_word (be_bytes n x))"
    by (rule sqlite4Get_big [OF n(1) length_be_bytes])
  then show ?thesis
    by (simp only: n(2) append_Cons list.size length_be_bytes be_word_be_bytes [OF n(3)] ucast_id add_0 Suc_eq_plus1)
qed (rule sqlite4_roundtrip_small)

lemma sqlite4Put_nonempty: "sqlite4PutVarint64 x \<noteq> []"
  using sqlite4_roundtrip [of x "[]"] by (auto simp: sqlite4GetVarint64_def)

text \<open>A decoder that answers has read a prefix whose length the first byte fixes.\<close>

lemma sqlite4Get_length:
  "sqlite4GetVarint64 z = Some (k, v) \<Longrightarrow> k = lsmVarintSize (z ! 0) \<and> 1 \<le> k \<and> k \<le> length z"
proof -
  assume a: "sqlite4GetVarint64 z = Some (k, v)"
  then obtain b bs where z: "z = b # bs" by (cases z) (auto simp: sqlite4GetVarint64_def)
  consider "b \<le> 240" | "\<not> b \<le> 240" "b \<le> 248" | "b \<in> {249, 250, 251, 252, 253, 254, 255}"
  proof -
    have "unat b < 256" using unsigned_less [of b] by simp
    then have "b \<le> 248 \<or> b \<in> {249, 250, 251, 252, 253, 254, 255}"
      by (auto simp: word_le_nat_alt word_unat_eq_iff)
    then show ?thesis using that by blast
  qed
  then show ?thesis
    by cases (use a in \<open>auto simp: sqlite4GetVarint64_def z Let_def lsmVarintSize_def word_le_nat_alt
      word_less_nat_alt Suc_le_eq split: if_splits\<close>)
qed

lemma sqlite4Get_take:
  assumes "k < lsmVarintSize (z ! 0)"
  shows "sqlite4GetVarint64 (take k z) = None"
proof (cases k)
  case (Suc j)
  then show ?thesis
    using assms sqlite4Get_length [of "take k z"]
    by (cases "sqlite4GetVarint64 (take k z)") (fastforce simp: nth_take)+
qed (simp add: sqlite4GetVarint64_def)

subsection \<open>Order\<close>

lemma small_header:
  assumes "x \<le> 67823"
  shows "\<exists>h t. sqlite4PutVarint64 x = of_nat h # t \<and> h \<le> 249"
proof -
  consider "x \<le> 240" | "240 < x" "x \<le> 2287" | "2287 < x" by force
  then show ?thesis
  proof cases
    case 1
    have "sqlite4PutVarint64 x = of_nat (unat x) # []" "unat x \<le> 249"
      using sqlite4Put_small(1) [OF 1] 1 by (auto simp: word_le_nat_alt)
    then show ?thesis by blast
  next
    case 2
    have "241 + (unat x - 240) div 256 \<le> 249" using 2 by (simp add: word_le_nat_alt)
    then show ?thesis using sqlite4Put_small(2) [OF 2] by blast
  next
    case 3
    have "sqlite4PutVarint64 x = of_nat 249 # [of_nat ((unat x - 2288) div 256), of_nat ((unat x - 2288) mod 256)]"
      using sqlite4Put_small(3) [OF 3 assms] by simp
    then show ?thesis by blast
  qed
qed

lemma of_nat_byte_less: "a < 256 \<Longrightarrow> b < 256 \<Longrightarrow> (of_nat a :: u8) < of_nat b \<longleftrightarrow> a < b"
  by (simp only: word_less_nat_alt unat_of_nat) simp

lemma two_digits_less:
  assumes "a < b" "b < 65536"
  shows "a div 256 < b div 256 \<or> a div 256 = b div 256 \<and> a mod 256 < b mod (256 :: nat)"
  using assms div_le_mono [of a b 256] div_mult_mod_eq [of a 256] div_mult_mod_eq [of b 256] by linarith

lemma Put_mono_small:
  assumes "x < y" "y \<le> 67823"
  shows "sqlite4PutVarint64 x < sqlite4PutVarint64 y"
proof -
  have xy: "unat x < unat y" "x \<le> 67823" using assms by (auto simp: word_less_nat_alt word_le_nat_alt)
  consider "x \<le> 240" "y \<le> 240" | "x \<le> 240" "240 < y" "y \<le> 2287" | "x \<le> 240" "2287 < y"
    | "240 < x" "x \<le> 2287" "240 < y" "y \<le> 2287" | "240 < x" "x \<le> 2287" "2287 < y"
    | "2287 < x" "2287 < y"
    using assms(1) by force
  then show ?thesis
  proof cases
    case 1
    then have "unat x \<le> 240" "unat y \<le> 240" by (simp_all add: word_le_nat_alt)
    with xy have "(of_nat (unat x) :: u8) < of_nat (unat y)" by (subst of_nat_byte_less) auto
    then show ?thesis by (simp only: sqlite4Put_small(1) [OF 1(1)] sqlite4Put_small(1) [OF 1(2)] Cons_less_Cons simp_thms)
  next
    case 2
    then have "unat x \<le> 240" "unat y \<le> 2287" by (simp_all add: word_le_nat_alt)
    with xy have "(of_nat (unat x) :: u8) < of_nat (241 + (unat y - 240) div 256)" by (subst of_nat_byte_less) auto
    then show ?thesis by (simp only: sqlite4Put_small(1) [OF 2(1)] sqlite4Put_small(2) [OF 2(2,3)] Cons_less_Cons simp_thms)
  next
    case 3
    then have "unat x \<le> 240" by (simp_all add: word_le_nat_alt)
    with xy have "(of_nat (unat x) :: u8) < of_nat 249" by (subst of_nat_byte_less) auto
    then show ?thesis by (simp only: sqlite4Put_small(1) [OF 3(1)] sqlite4Put_small(3) [OF 3(2) assms(2)] Cons_less_Cons of_nat_numeral simp_thms)
  next
    case 4
    then have b: "unat x \<ge> 240" "unat y \<le> 2287" by (simp_all add: word_le_nat_alt word_less_nat_alt)
    then have d: "241 + (unat x - 240) div 256 < 256" "241 + (unat y - 240) div 256 < 256" using xy by auto
    have "(unat x - 240) div 256 < (unat y - 240) div 256 \<or> (unat x - 240) div 256 = (unat y - 240) div 256
            \<and> (unat x - 240) mod 256 < (unat y - 240) mod 256"
      using b xy by (intro two_digits_less) auto
    then show ?thesis
      by (auto simp only: sqlite4Put_small(2) [OF 4(1,2)] sqlite4Put_small(2) [OF 4(3,4)] Cons_less_Cons of_nat_byte_less d
          mod_less_divisor zero_less_numeral add_less_cancel_left)
  next
    case 5
    then have "unat x \<le> 2287" by (simp_all add: word_le_nat_alt)
    then have "(of_nat (241 + (unat x - 240) div 256) :: u8) < of_nat 249" by (subst of_nat_byte_less) auto
    then show ?thesis by (simp only: sqlite4Put_small(2) [OF 5(1,2)] sqlite4Put_small(3) [OF 5(3) assms(2)] Cons_less_Cons of_nat_numeral simp_thms)
  next
    case 6
    then have b: "unat x \<ge> 2288" "unat y \<le> 67823" using assms(2) by (simp_all add: word_le_nat_alt word_less_nat_alt)
    then have d: "(unat x - 2288) div 256 < 256" "(unat y - 2288) div 256 < 256" using xy by auto
    have "(unat x - 2288) div 256 < (unat y - 2288) div 256 \<or> (unat x - 2288) div 256 = (unat y - 2288) div 256
            \<and> (unat x - 2288) mod 256 < (unat y - 2288) mod 256"
      using b xy by (intro two_digits_less) auto
    then show ?thesis
      by (auto simp only: sqlite4Put_small(3) [OF 6(1) xy(2)] sqlite4Put_small(3) [OF 6(2) assms(2)] Cons_less_Cons of_nat_byte_less d
          mod_less_divisor zero_less_numeral)
  qed
qed

lemma Put_mono_big:
  assumes "x < y" "67823 < x"
  shows "sqlite4PutVarint64 x < sqlite4PutVarint64 y"
proof -
  have xy: "unat x < unat y" using assms by (simp add: word_less_nat_alt)
  obtain n where n: "n \<in> {3, 4, 5, 6, 7, 8}" "sqlite4PutVarint64 x = of_nat (247 + n) # be_bytes n x"
    "unat x < 256 ^ n" "n = 3 \<or> 256 ^ (n - 1) \<le> unat x" using sqlite4Put_big [OF assms(2)] by blast
  obtain m where m: "m \<in> {3, 4, 5, 6, 7, 8}" "sqlite4PutVarint64 y = of_nat (247 + m) # be_bytes m y"
    "unat y < 256 ^ m" "m = 3 \<or> 256 ^ (m - 1) \<le> unat y" using sqlite4Put_big [of y] assms less_trans by blast
  have "n \<le> m"
  proof (rule ccontr)
    assume "\<not> n \<le> m"
    then have "m \<le> n - 1" "n \<noteq> 3" using m(1) by auto
    then have "(256 :: nat) ^ m \<le> 256 ^ (n - 1)" by (intro power_increasing) auto
    then show False using n(4) m(3) xy \<open>n \<noteq> 3\<close> by linarith
  qed
  have nm: "247 + n < 256" "247 + m < 256" using n(1) m(1) by auto
  show ?thesis
  proof (cases "n = m")
    case True
    have "be_bytes n x < be_bytes n y"
      using xy n(3) m(3) True by (simp add: be_val_less_iff be_val_be_bytes_id)
    then show ?thesis unfolding n(2) m(2) True Cons_less_Cons by simp
  next
    case False
    then have "(of_nat (247 + n) :: u8) < of_nat (247 + m)"
      using \<open>n \<le> m\<close> nm by (subst of_nat_byte_less) auto
    then show ?thesis by (simp only: n(2) m(2) Cons_less_Cons simp_thms)
  qed
qed

lemma Put_mono: assumes "x < y" shows "sqlite4PutVarint64 x < sqlite4PutVarint64 y"
proof -
  consider "y \<le> 67823" | "67823 < x" | "x \<le> 67823" "67823 < y" by force
  then show ?thesis
  proof cases
    case 3
    obtain h t where h: "sqlite4PutVarint64 x = of_nat h # t" "h \<le> 249" using small_header [OF 3(1)] by blast
    obtain m where m: "m \<in> {3, 4, 5, 6, 7, 8}" "sqlite4PutVarint64 y = of_nat (247 + m) # be_bytes m y"
      using sqlite4Put_big [OF 3(2)] by blast
    have "(of_nat h :: u8) < of_nat (247 + m)" using h m(1) by (subst of_nat_byte_less) auto
    then show ?thesis by (simp only: h(1) m(2) Cons_less_Cons simp_thms)
  qed (use assms Put_mono_small Put_mono_big in auto)
qed

subsection \<open>The engine's encoder against SQLite4's\<close>

lemma lsmPut_eq:
  "lsmSqlite4PutVarint64 x =
     (if 2 ^ 47 \<le> unat x \<and> unat x < 2 ^ 48 then 254 # be_bytes 7 x else sqlite4PutVarint64 x)"
proof -
  let ?w = "ucast (drop_bit 32 x) :: u32" and ?y = "ucast x :: u32"
  have tests: "?w \<le> 32767 \<longleftrightarrow> unat x < 2 ^ 47" "?w \<le> 65535 \<longleftrightarrow> unat x < 2 ^ 48" "?w = 0 \<longleftrightarrow> unat x < 2 ^ 32"
      "?w \<le> 255 \<longleftrightarrow> unat x < 2 ^ 40" "?w \<le> 16777215 \<longleftrightarrow> unat x < 2 ^ 56"
    unfolding word_le_nat_alt word_unat_eq_iff unat_hi by (simp_all, linarith+)
  have wr: "lsmVarintWrite32 = varintWrite32"
    by (rule ext) (simp add: lsmVarintWrite32_bytes varintWrite32_bytes)
  show ?thesis
  proof (cases "2 ^ 47 \<le> unat x \<and> unat x < 2 ^ 48")
    case True
    then have "\<not> x \<le> 240" "\<not> x \<le> 2287" "\<not> x \<le> 67823" by (auto simp: word_le_nat_alt)
    moreover have "be_bytes 4 ?y = be_bytes 4 x" by (simp add: be_bytes_num byte_lo)
    ultimately have "lsmSqlite4PutVarint64 x = 254 # be_bytes 7 x"
      using True by (simp add: lsmSqlite4PutVarint64_def Let_def tests lsmVarintWrite32_bytes cast_byte_hi be_bytes_num)
    with True show ?thesis by simp
  next
    case False
    then have "?w \<le> 32767 \<longleftrightarrow> ?w \<le> 65535" by (auto simp: tests(1) tests(2))
    then have "lsmSqlite4PutVarint64 x = sqlite4PutVarint64 x"
      unfolding lsmSqlite4PutVarint64_def sqlite4PutVarint64_def wr Let_def by simp
    then show ?thesis by (simp only: if_not_P [OF False])
  qed
qed

lemma lsm_roundtrip:
  "lsmSqlite4GetVarint64 (lsmSqlite4PutVarint64 x @ rest) = Some (length (lsmSqlite4PutVarint64 x), x)"
proof (cases "2 ^ 47 \<le> unat x \<and> unat x < 2 ^ 48")
  case True
  then have "unat x < 256 ^ 7" by simp
  then show ?thesis
    using sqlite4Get_big [of 7 "be_bytes 7 x" rest] True
    by (simp add: lsmSqlite4Get_eq lsmPut_eq be_word_be_bytes del: be_bytes.simps)
next
  case False
  then have "lsmSqlite4PutVarint64 x = sqlite4PutVarint64 x" by (simp only: lsmPut_eq if_False)
  then show ?thesis by (simp add: lsmSqlite4Get_eq sqlite4_roundtrip)
qed

subsection \<open>Properties\<close>

text \<open>C26. A value written by \<open>sqlite4PutVarint64\<close>, whatever follows it in the buffer, is read back by
  \<open>sqlite4GetVarint64\<close>, which consumes exactly the bytes written; and any strict prefix of the
  encoding, down to the empty one, is refused, so the decoder never takes a truncated value for a
  shorter one.\<close>

theorem varint64_roundtrip:
  "sqlite4GetVarint64 (sqlite4PutVarint64 x @ rest) = Some (length (sqlite4PutVarint64 x), x)
   \<and> (\<forall>k. length (sqlite4PutVarint64 x) \<le> k \<or> sqlite4GetVarint64 (take k (sqlite4PutVarint64 x)) = None)"
proof -
  have "length (sqlite4PutVarint64 x) = lsmVarintSize (sqlite4PutVarint64 x ! 0)"
    using sqlite4_roundtrip [of x "[]"] sqlite4Get_length [of "sqlite4PutVarint64 x"] by simp
  then have "sqlite4GetVarint64 (take k (sqlite4PutVarint64 x)) = None" if "k < length (sqlite4PutVarint64 x)" for k
    using that by (intro sqlite4Get_take) simp
  then show ?thesis by (intro conjI allI sqlite4_roundtrip) (meson not_less)
qed

text \<open>C27. The encoding of \<open>varint.c\<close> keeps order: \<open>memcmp\<close> order of two encodings (shorter first on a
  tie) is the numeric order of the two 64-bit values. Keys that embed varints sort numerically.\<close>

theorem varint64_order: "sqlite4PutVarint64 x < sqlite4PutVarint64 y \<longleftrightarrow> x < y"
proof (cases x y rule: linorder_cases)
  case greater
  then show ?thesis using Put_mono [OF greater] by (meson less_asym)
qed (simp_all add: Put_mono)

text \<open>C33. The engine's own codec (\<open>lsm_varint.c\<close>): every 64-bit value is read back after the bytes the
  encoder wrote, \<open>lsmVarintSize\<close> tells their number from the first byte alone, and the bytes are those
  of \<open>varint.c\<close> except for values from 2^47 up to 2^48, which take eight bytes here instead of seven;
  there the copy is not the original.\<close>

theorem lsm_varint_codec:
  "lsmVarintGet64 (lsmVarintPut64 x @ rest) = Some (lsmVarintLen64 x, x)
   \<and> lsmVarintSize (lsmVarintPut64 x ! 0) = lsmVarintLen64 x
   \<and> (if 2 ^ 47 \<le> unat x \<and> unat x < 2 ^ 48
      then lsmVarintPut64 x = 254 # be_bytes 7 x \<and> sqlite4PutVarint64 x = 253 # be_bytes 6 x
      else lsmVarintPut64 x = sqlite4PutVarint64 x)"
proof -
  have "sqlite4PutVarint64 x = 253 # be_bytes 6 x" if "2 ^ 47 \<le> unat x" "unat x < 2 ^ 48"
  proof -
    have "67823 < x" using that by (auto simp: word_less_nat_alt)
    then obtain n where n: "n \<in> {3, 4, 5, 6, 7, 8}" "sqlite4PutVarint64 x = of_nat (247 + n) # be_bytes n x"
      "unat x < 256 ^ n" "n = 3 \<or> 256 ^ (n - 1) \<le> unat x" using sqlite4Put_big [of x] by blast
    have "n = 6" using n(1,3,4) that by auto
    with n(2) show ?thesis by (simp del: be_bytes.simps)
  qed
  moreover have "lsmVarintSize (lsmVarintPut64 x ! 0) = lsmVarintLen64 x"
    using lsm_roundtrip [of x "[]"] sqlite4Get_length [of "lsmSqlite4PutVarint64 x"]
    by (auto simp: lsmSqlite4Get_eq lsmVarintPut64_def lsmVarintLen64_def)
  ultimately show ?thesis
    using lsm_roundtrip [of x rest] lsmPut_eq [of x]
    by (simp add: lsmVarintPut64_def lsmVarintGet64_def lsmVarintLen64_def del: be_bytes.simps)
qed

end
