(* ===== verification/SoftFloat.thy ===== *)
theory SoftFloat
  imports Prelude
begin

unbundle bit_operations_syntax

text \<open>
  The C types \<open>float\<close> and \<open>double\<close> as the language gives them: IEEE 754 binary32 and
  binary64, kept as bit patterns, with round-to-nearest-even arithmetic that evaluates.
  A number is decoded into sign, significand and exponent, the operation is done exactly
  on integers, and one rounding step encodes the result (\<open>FLT_EVAL_METHOD\<close> 0, no
  contraction of \<open>a*b+c\<close>). C leaves the payload of a NaN open; here every operation that
  yields a NaN yields the quiet NaN with an empty payload.
\<close>

type_synonym f32 = u32
type_synonym f64 = u64

datatype fp = FNaN | FInf bool | FFin bool int int

function nbits :: "int \<Rightarrow> int" where
  "nbits n = (if n \<le> 0 then 0 else 1 + nbits (n div 2))"
  by pat_completeness auto
termination by (relation "measure nat") auto

declare nbits.simps [simp del]

function isqrt :: "int \<Rightarrow> int" where
  "isqrt n = (if n \<le> 0 then 0
              else let r = 2 * isqrt (n div 4) in if (r + 1) * (r + 1) \<le> n then r + 1 else r)"
  by pat_completeness auto
termination by (relation "measure nat") auto

declare isqrt.simps [simp del]

subsection \<open>Bit patterns and numbers\<close>

text \<open>\<open>mb\<close> fraction bits and \<open>eb\<close> exponent bits; \<open>FFin s m e\<close> is \<open>(-1)^s * m * 2^e\<close>.\<close>

definition fp_bias :: "nat \<Rightarrow> int" where
  "fp_bias eb = 2 ^ (eb - 1) - 1"

definition fp_decode :: "nat \<Rightarrow> nat \<Rightarrow> int \<Rightarrow> fp" where
  "fp_decode mb eb b =
     (let m = b mod 2 ^ mb; e = b div 2 ^ mb mod 2 ^ eb; s = (b div 2 ^ (mb + eb) mod 2 = 1) in
      if e = 2 ^ eb - 1 then (if m = 0 then FInf s else FNaN)
      else if e = 0 then FFin s m (1 - fp_bias eb - int mb)
      else FFin s (2 ^ mb + m) (e - fp_bias eb - int mb))"

definition fp_inf :: "nat \<Rightarrow> nat \<Rightarrow> int" where
  "fp_inf mb eb = (2 ^ eb - 1) * 2 ^ mb"

definition fp_sign :: "nat \<Rightarrow> nat \<Rightarrow> bool \<Rightarrow> int" where
  "fp_sign mb eb s = (if s then 2 ^ (mb + eb) else 0)"

text \<open>
  Rounding of a magnitude \<open>m * 2^e\<close>, or slightly more when \<open>sticky\<close>: \<open>q\<close> is the exponent
  of the last place kept, and since the implicit bit carries into the exponent field one
  sum encodes subnormal, normal and carried-over results alike.
\<close>

definition fp_round :: "nat \<Rightarrow> nat \<Rightarrow> bool \<Rightarrow> int \<Rightarrow> int \<Rightarrow> bool \<Rightarrow> int" where
  "fp_round mb eb s m e sticky =
     (let emin = 1 - fp_bias eb - int mb;
          q = max emin (e + nbits m - int (mb + 1));
          h = (if q \<le> e then m * 2 ^ nat (e - q)
               else
                 let w = 2 ^ nat (q - e); h = m div w; r = 2 * (m mod w) in
                 if w < r \<or> r = w \<and> (sticky \<or> h mod 2 = 1) then h + 1 else h) in
      fp_sign mb eb s + (if m = 0 then 0 else min ((q - emin) * 2 ^ mb + h) (fp_inf mb eb)))"

definition fp_encode :: "nat \<Rightarrow> nat \<Rightarrow> fp \<Rightarrow> int" where
  "fp_encode mb eb x =
     (case x of FNaN \<Rightarrow> fp_inf mb eb + 2 ^ (mb - 1)
      | FInf s \<Rightarrow> fp_sign mb eb s + fp_inf mb eb
      | FFin s m e \<Rightarrow> fp_round mb eb s m e False)"

subsection \<open>Exact operations\<close>

text \<open>A sum of zero is \<open>+0\<close>, except that two negative zeros add up to \<open>-0\<close>.\<close>

fun fp_add :: "fp \<Rightarrow> fp \<Rightarrow> fp" where
  "fp_add FNaN _ = FNaN"
| "fp_add _ FNaN = FNaN"
| "fp_add (FInf s) (FInf t) = (if s = t then FInf s else FNaN)"
| "fp_add (FInf s) (FFin _ _ _) = FInf s"
| "fp_add (FFin _ _ _) (FInf t) = FInf t"
| "fp_add (FFin s m e) (FFin t n f) =
     (let g = min e f;
          a = (if s then -1 else 1) * (m * 2 ^ nat (e - g));
          b = (if t then -1 else 1) * (n * 2 ^ nat (f - g)) in
      if a + b = 0 then FFin (s \<and> t) 0 g else FFin (a + b < 0) \<bar>a + b\<bar> g)"

fun fp_neg :: "fp \<Rightarrow> fp" where
  "fp_neg FNaN = FNaN"
| "fp_neg (FInf s) = FInf (\<not> s)"
| "fp_neg (FFin s m e) = FFin (\<not> s) m e"

fun fp_mul :: "fp \<Rightarrow> fp \<Rightarrow> fp" where
  "fp_mul FNaN _ = FNaN"
| "fp_mul _ FNaN = FNaN"
| "fp_mul (FInf s) (FInf t) = FInf (s \<noteq> t)"
| "fp_mul (FInf s) (FFin t n _) = (if n = 0 then FNaN else FInf (s \<noteq> t))"
| "fp_mul (FFin s m _) (FInf t) = (if m = 0 then FNaN else FInf (s \<noteq> t))"
| "fp_mul (FFin s m e) (FFin t n f) = FFin (s \<noteq> t) (m * n) (e + f)"

lemma fp_add_commute: "fp_add x y = fp_add y x"
  by (cases x; cases y) (auto simp: Let_def min.commute add.commute)

lemma fp_mul_commute: "fp_mul x y = fp_mul y x"
  by (cases x; cases y) (auto simp: ac_simps)

text \<open>Quotient and root round once: the exact result is cut off far below the last place
  kept and the remainder goes into the sticky bit.\<close>

fun fp_div :: "nat \<Rightarrow> nat \<Rightarrow> fp \<Rightarrow> fp \<Rightarrow> int" where
  "fp_div mb eb (FInf s) (FFin t _ _) = fp_encode mb eb (FInf (s \<noteq> t))"
| "fp_div mb eb (FFin s _ _) (FInf t) = fp_encode mb eb (FFin (s \<noteq> t) 0 0)"
| "fp_div mb eb (FFin s m e) (FFin t n f) =
     (if n = 0 then fp_encode mb eb (if m = 0 then FNaN else FInf (s \<noteq> t))
      else let k = mb + 3 + nat (nbits n); a = m * 2 ^ k in
        fp_round mb eb (s \<noteq> t) (a div n) (e - f - int k) (a mod n \<noteq> 0))"
| "fp_div mb eb _ _ = fp_encode mb eb FNaN"

fun fp_sqrt :: "nat \<Rightarrow> nat \<Rightarrow> fp \<Rightarrow> int" where
  "fp_sqrt mb eb (FInf False) = fp_encode mb eb (FInf False)"
| "fp_sqrt mb eb (FFin s m e) =
     (if m = 0 then fp_encode mb eb (FFin s 0 0)
      else if s then fp_encode mb eb FNaN
      else
        let k = 2 * (mb + 3) + nat (e mod 2); a = m * 2 ^ k; r = isqrt a in
        fp_round mb eb False r ((e - int k) div 2) (r * r \<noteq> a))"
| "fp_sqrt mb eb _ = fp_encode mb eb FNaN"

subsection \<open>binary32 and binary64\<close>

definition f32_dec :: "f32 \<Rightarrow> fp" where "f32_dec x = fp_decode 23 8 (uint x)"
definition f32_enc :: "fp \<Rightarrow> f32" where "f32_enc x = of_int (fp_encode 23 8 x)"
definition f64_dec :: "f64 \<Rightarrow> fp" where "f64_dec x = fp_decode 52 11 (uint x)"
definition f64_enc :: "fp \<Rightarrow> f64" where "f64_enc x = of_int (fp_encode 52 11 x)"

definition f32_add :: "f32 \<Rightarrow> f32 \<Rightarrow> f32" where "f32_add x y = f32_enc (fp_add (f32_dec x) (f32_dec y))"
definition f32_sub :: "f32 \<Rightarrow> f32 \<Rightarrow> f32" where "f32_sub x y = f32_enc (fp_add (f32_dec x) (fp_neg (f32_dec y)))"
definition f32_mul :: "f32 \<Rightarrow> f32 \<Rightarrow> f32" where "f32_mul x y = f32_enc (fp_mul (f32_dec x) (f32_dec y))"
definition f32_div :: "f32 \<Rightarrow> f32 \<Rightarrow> f32" where "f32_div x y = of_int (fp_div 23 8 (f32_dec x) (f32_dec y))"
definition f32_sqrt :: "f32 \<Rightarrow> f32" where "f32_sqrt x = of_int (fp_sqrt 23 8 (f32_dec x))"

definition f64_add :: "f64 \<Rightarrow> f64 \<Rightarrow> f64" where "f64_add x y = f64_enc (fp_add (f64_dec x) (f64_dec y))"
definition f64_sub :: "f64 \<Rightarrow> f64 \<Rightarrow> f64" where "f64_sub x y = f64_enc (fp_add (f64_dec x) (fp_neg (f64_dec y)))"
definition f64_mul :: "f64 \<Rightarrow> f64 \<Rightarrow> f64" where "f64_mul x y = f64_enc (fp_mul (f64_dec x) (f64_dec y))"
definition f64_div :: "f64 \<Rightarrow> f64 \<Rightarrow> f64" where "f64_div x y = of_int (fp_div 52 11 (f64_dec x) (f64_dec y))"
definition f64_sqrt :: "f64 \<Rightarrow> f64" where "f64_sqrt x = of_int (fp_sqrt 52 11 (f64_dec x))"

text \<open>Conversions: exact to \<open>double\<close>, rounded to \<open>float\<close>, truncated to an integer
  (\<open>None\<close> where the truncated value does not fit an \<open>int\<close>, which C leaves undefined).\<close>

definition f64_of_f32 :: "f32 \<Rightarrow> f64" where "f64_of_f32 x = f64_enc (f32_dec x)"
definition f32_of_f64 :: "f64 \<Rightarrow> f32" where "f32_of_f64 x = f32_enc (f64_dec x)"

definition f32_of_int :: "int \<Rightarrow> f32" where "f32_of_int i = f32_enc (FFin (i < 0) \<bar>i\<bar> 0)"
definition f64_of_int :: "int \<Rightarrow> f64" where "f64_of_int i = f64_enc (FFin (i < 0) \<bar>i\<bar> 0)"

fun fp_trunc :: "fp \<Rightarrow> int option" where
  "fp_trunc (FFin s m e) =
     Some ((if s then -1 else 1) * (if 0 \<le> e then m * 2 ^ nat e else m div 2 ^ nat (- e)))"
| "fp_trunc _ = None"

definition int_of_fp :: "fp \<Rightarrow> int option" where
  "int_of_fp x =
     Option.bind (fp_trunc x) (\<lambda>i. if - (2 ^ 31) \<le> i \<and> i < 2 ^ 31 then Some i else None)"

subsection \<open>Comparison\<close>

text \<open>A pattern as a sign and a magnitude; apart from NaN the numbers are ordered as these keys.\<close>

definition f32_nan :: "f32 \<Rightarrow> bool" where
  "f32_nan x = (uint x mod 2 ^ 31 > 0x7f800000)"

definition f32_key :: "f32 \<Rightarrow> int" where
  "f32_key x = (if uint x < 2 ^ 31 then uint x else 2 ^ 31 - uint x)"

definition f32_lt :: "f32 \<Rightarrow> f32 \<Rightarrow> bool" where
  "f32_lt x y = (\<not> f32_nan x \<and> \<not> f32_nan y \<and> f32_key x < f32_key y)"

definition f32_le :: "f32 \<Rightarrow> f32 \<Rightarrow> bool" where
  "f32_le x y = (\<not> f32_nan x \<and> \<not> f32_nan y \<and> f32_key x \<le> f32_key y)"

definition f32_eq :: "f32 \<Rightarrow> f32 \<Rightarrow> bool" where
  "f32_eq x y = (\<not> f32_nan x \<and> \<not> f32_nan y \<and> f32_key x = f32_key y)"

definition f64_nan :: "f64 \<Rightarrow> bool" where
  "f64_nan x = (uint x mod 2 ^ 63 > 0x7ff0000000000000)"

definition f64_key :: "f64 \<Rightarrow> int" where
  "f64_key x = (if uint x < 2 ^ 63 then uint x else 2 ^ 63 - uint x)"

definition f64_lt :: "f64 \<Rightarrow> f64 \<Rightarrow> bool" where
  "f64_lt x y = (\<not> f64_nan x \<and> \<not> f64_nan y \<and> f64_key x < f64_key y)"

definition f64_le :: "f64 \<Rightarrow> f64 \<Rightarrow> bool" where
  "f64_le x y = (\<not> f64_nan x \<and> \<not> f64_nan y \<and> f64_key x \<le> f64_key y)"

definition f64_eq :: "f64 \<Rightarrow> f64 \<Rightarrow> bool" where
  "f64_eq x y = (\<not> f64_nan x \<and> \<not> f64_nan y \<and> f64_key x = f64_key y)"

lemma f32_not_lt: "\<not> f32_nan x \<Longrightarrow> \<not> f32_nan y \<Longrightarrow> \<not> f32_lt x y \<longleftrightarrow> f32_le y x"
  by (auto simp: f32_lt_def f32_le_def)

lemma f32_le_trans: "f32_le x y \<Longrightarrow> f32_le y z \<Longrightarrow> f32_le x z"
  by (auto simp: f32_le_def)

lemma f32_lt_le: "f32_lt x y \<Longrightarrow> f32_le x y"
  by (auto simp: f32_lt_def f32_le_def)

lemma f32_le_refl: "\<not> f32_nan x \<Longrightarrow> f32_le x x"
  by (auto simp: f32_le_def)

lemma f32_add_commute: "f32_add x y = f32_add y x"
  by (simp add: f32_add_def fp_add_commute)

lemma f32_mul_commute: "f32_mul x y = f32_mul y x"
  by (simp add: f32_mul_def fp_mul_commute)

lemma f64_mul_commute: "f64_mul x y = f64_mul y x"
  by (simp add: f64_mul_def fp_mul_commute)

subsection \<open>Squares forget the sign\<close>

text \<open>
  A difference and its mirror image have the same magnitude bits, and the square of a
  number is the same for both signs: \<open>(a-b)*(a-b)\<close> and \<open>(b-a)*(b-a)\<close> agree bit for bit.
\<close>

fun fp_mag :: "fp \<Rightarrow> fp" where
  "fp_mag FNaN = FNaN"
| "fp_mag (FInf s) = FInf False"
| "fp_mag (FFin s m e) = FFin False m e"

lemma fp_mul_mag: "fp_mul (fp_mag x) (fp_mag x) = fp_mul x x"
  by (cases x) auto

lemma fp_sub_mag: "fp_mag (fp_add x (fp_neg y)) = fp_mag (fp_add y (fp_neg x))"
proof (cases x; cases y)
  fix s m e t n f
  assume "x = FFin s m e" "y = FFin t n f"
  then show ?thesis by (auto simp: Let_def min.commute abs_if)
qed auto

lemma fp_decode_mag: "fp_mag (fp_decode mb eb (b mod 2 ^ (mb + eb))) = fp_mag (fp_decode mb eb b)"
proof -
  have "b mod 2 ^ (mb + eb) mod 2 ^ mb = b mod 2 ^ mb"
    by (simp add: mod_mod_cancel le_imp_power_dvd)
  moreover have "b mod 2 ^ (mb + eb) div 2 ^ mb mod 2 ^ eb = b div 2 ^ mb mod 2 ^ eb"
    by (simp add: power_add zmod_zmult2_eq)
  ultimately show ?thesis by (simp add: fp_decode_def Let_def)
qed

lemma fp_encode_mag: "fp_encode mb eb x mod 2 ^ (mb + eb) = fp_encode mb eb (fp_mag x) mod 2 ^ (mb + eb)"
proof -
  have sgn: "(fp_sign mb eb s + b) mod 2 ^ (mb + eb) = (fp_sign mb eb False + b) mod 2 ^ (mb + eb)" for s b
    by (cases s) (simp_all only: fp_sign_def if_True if_False mod_add_self1 add_0)
  have "fp_round mb eb s m e False mod 2 ^ (mb + eb) = fp_round mb eb False m e False mod 2 ^ (mb + eb)" for s m e
    unfolding fp_round_def Let_def by (rule sgn)
  with sgn show ?thesis
    by (cases x) (simp_all only: fp_encode_def fp.case fp_mag.simps)
qed

lemma f32_sub_mod: "uint (f32_sub x y) mod 2 ^ 31 = uint (f32_sub y x) mod 2 ^ 31"
proof -
  have "uint (f32_enc x) mod 2 ^ 31 = fp_encode 23 8 (fp_mag x) mod 2 ^ 31" for x
    using fp_encode_mag [of 23 8 x] by (simp add: f32_enc_def uint_word_of_int mod_mod_cancel)
  then show ?thesis using fp_sub_mag unfolding f32_sub_def by metis
qed

lemma f32_square_mod: "uint x mod 2 ^ 31 = uint y mod 2 ^ 31 \<Longrightarrow> f32_mul x x = f32_mul y y"
  using fp_decode_mag [of 23 8 "uint x"] fp_decode_mag [of 23 8 "uint y"]
    fp_mul_mag [of "f32_dec x"] fp_mul_mag [of "f32_dec y"]
  by (simp add: f32_mul_def f32_dec_def)

lemma f32_sub_square: "f32_mul (f32_sub x y) (f32_sub x y) = f32_mul (f32_sub y x) (f32_sub y x)"
  using f32_square_mod [OF f32_sub_mod] .

lemma f64_sub_mod: "uint (f64_sub x y) mod 2 ^ 63 = uint (f64_sub y x) mod 2 ^ 63"
proof -
  have "uint (f64_enc x) mod 2 ^ 63 = fp_encode 52 11 (fp_mag x) mod 2 ^ 63" for x
    using fp_encode_mag [of 52 11 x] by (simp add: f64_enc_def uint_word_of_int mod_mod_cancel)
  then show ?thesis using fp_sub_mag unfolding f64_sub_def by metis
qed

lemma f64_square_mod: "uint x mod 2 ^ 63 = uint y mod 2 ^ 63 \<Longrightarrow> f64_mul x x = f64_mul y y"
  using fp_decode_mag [of 52 11 "uint x"] fp_decode_mag [of 52 11 "uint y"]
    fp_mul_mag [of "f64_dec x"] fp_mul_mag [of "f64_dec y"]
  by (simp add: f64_mul_def f64_dec_def)

lemma f64_sub_square: "f64_mul (f64_sub x y) (f64_sub x y) = f64_mul (f64_sub y x) (f64_sub y x)"
  using f64_square_mod [OF f64_sub_mod] .

end
