(* ===== verification/VectorFormats.thy ===== *)
theory VectorFormats
  imports SoftFloat
begin

unbundle bit_operations_syntax

text \<open>
  The six vector formats: \<open>vectorInt.h\<close> and \<open>vectorfloat32.c\<close>, \<open>vectorfloat64.c\<close>,
  \<open>vectorfloat1bit.c\<close>, \<open>vectorfloat8.c\<close>, \<open>vectorfloat16.c\<close>, \<open>vectorfloatb16.c\<close>. A vector holds
  the bytes its \<open>data\<close> pointer leads to; reading or writing past their end is \<open>None\<close>. Shown
  here: serialisers write exactly the data part and deserialisers invert them, the half
  formats convert without loss where they can and round as the code rounds, the integer
  sums of the quantised distance do not overflow, the bit-count table counts bits.
\<close>

subsection \<open>Vectors\<close>

datatype vector_type = FLOAT32 | FLOAT64 | FLOAT1BIT | FLOAT8 | FLOAT16 | FLOATB16

fun type_code :: "vector_type \<Rightarrow> nat" where
  "type_code FLOAT32 = 1"
| "type_code FLOAT64 = 2"
| "type_code FLOAT1BIT = 3"
| "type_code FLOAT8 = 4"
| "type_code FLOAT16 = 5"
| "type_code FLOATB16 = 6"

definition type_of_code :: "nat \<Rightarrow> vector_type option" where
  "type_of_code c =
     (if c = 1 then Some FLOAT32 else if c = 2 then Some FLOAT64
      else if c = 3 then Some FLOAT1BIT else if c = 4 then Some FLOAT8
      else if c = 5 then Some FLOAT16 else if c = 6 then Some FLOATB16 else None)"

record vector =
  vflags :: u16
  vtype :: vector_type
  vdims :: nat
  vdata :: bytes

definition MAX_VECTOR_SZ :: nat where "MAX_VECTOR_SZ = 65536"

definition align :: "nat \<Rightarrow> nat \<Rightarrow> nat" where
  "align n sz = (n + sz - 1) div sz * sz"

text \<open>Bytes of \<open>dims\<close> bits, \<open>(dims + 7) / 8\<close> in the 32-bit arithmetic of \<open>VectorDims\<close>.\<close>

definition bits_bytes :: "nat \<Rightarrow> nat" where
  "bits_bytes dims = (dims + 7) mod 2 ^ 32 div 8"

lemma bits_bytes_small: "dims \<le> MAX_VECTOR_SZ \<Longrightarrow> bits_bytes dims = (dims + 7) div 8"
  by (simp add: bits_bytes_def MAX_VECTOR_SZ_def)

fun vectorDataSize :: "vector_type \<Rightarrow> nat \<Rightarrow> nat" where
  "vectorDataSize FLOAT32 dims = dims * 4"
| "vectorDataSize FLOAT64 dims = dims * 8"
| "vectorDataSize FLOAT1BIT dims = bits_bytes dims"
| "vectorDataSize FLOAT8 dims = align dims 4 + 4 + 4"
| "vectorDataSize FLOAT16 dims = dims * 2"
| "vectorDataSize FLOATB16 dims = dims * 2"

text \<open>
  The assertions each serialiser and each deserialiser of the type \<open>ty\<close> starts with, and those of
  each distance. (\<open>0 <= dims\<close> holds, since \<open>VectorDims\<close> is unsigned.)
\<close>

definition blob_asserts :: "vector_type \<Rightarrow> vector \<Rightarrow> nat \<Rightarrow> unit option" where
  "blob_asserts ty pVector nBlobSize =
     do { c_assert (vtype pVector = ty);
          c_assert (vdims pVector \<le> MAX_VECTOR_SZ);
          c_assert (nBlobSize \<ge> vectorDataSize (vtype pVector) (vdims pVector)) }"

definition pair_asserts :: "vector_type \<Rightarrow> vector \<Rightarrow> vector \<Rightarrow> unit option" where
  "pair_asserts ty v1 v2 =
     do { c_assert (vdims v1 = vdims v2);
          c_assert (vtype v1 = ty);
          c_assert (vtype v2 = ty) }"

lemma blob_asserts_bind [simp]:
  "Option.bind (blob_asserts ty v n) f =
     (if vtype v = ty \<and> vdims v \<le> MAX_VECTOR_SZ \<and> vectorDataSize (vtype v) (vdims v) \<le> n then f () else None)"
  by (simp add: blob_asserts_def c_assert_def)

lemma pair_asserts_bind [simp]:
  "Option.bind (pair_asserts ty v1 v2) f =
     (if vdims v1 = vdims v2 \<and> vtype v1 = ty \<and> vtype v2 = ty then f () else None)"
  by (simp add: pair_asserts_def c_assert_def)

lemma pair_asserts_commute: "pair_asserts ty v1 v2 = pair_asserts ty v2 v1"
  by (auto simp: pair_asserts_def c_assert_def)

definition serializeF32 :: "f32 \<Rightarrow> bytes" where
  "serializeF32 p =
     [ucast (p AND 0xFF), ucast (drop_bit 8 p AND 0xFF), ucast (drop_bit 16 p AND 0xFF),
      ucast (drop_bit 24 p AND 0xFF)]"

definition deserializeF32 :: "bytes \<Rightarrow> f32" where
  "deserializeF32 pBuf =
     ((ucast (pBuf ! 0) OR push_bit 8 (ucast (pBuf ! 1))) OR push_bit 16 (ucast (pBuf ! 2)))
      OR push_bit 24 (ucast (pBuf ! 3))"

subsection \<open>float32\<close>

text \<open>The loop over the elements: each write is checked against the end of the blob.\<close>

fun putF32s :: "bytes \<Rightarrow> nat \<Rightarrow> f32 list \<Rightarrow> bytes option" where
  "putF32s pBlob off [] = Some pBlob"
| "putF32s pBlob off (e # es) =
     Option.bind (memput pBlob off (serializeF32 e)) (\<lambda>b. putF32s b (off + 4) es)"

definition vectorF32SerializeToBlob :: "vector \<Rightarrow> bytes \<Rightarrow> nat \<Rightarrow> nat \<Rightarrow> bytes option" where
  "vectorF32SerializeToBlob pVector pBlob off nBlobSize =
     do { blob_asserts FLOAT32 pVector nBlobSize;
          Option.bind (load 4 (vdata pVector) (vdims pVector)) (\<lambda>elems. putF32s pBlob off elems) }"

fun getF32s :: "bytes \<Rightarrow> nat \<Rightarrow> nat \<Rightarrow> f32 list option" where
  "getF32s pBlob off 0 = Some []"
| "getF32s pBlob off (Suc n) =
     Option.bind (memget pBlob off 4) (\<lambda>b.
       map_option (Cons (deserializeF32 b)) (getF32s pBlob (off + 4) n))"

definition vectorF32DeserializeFromBlob :: "vector \<Rightarrow> bytes \<Rightarrow> nat \<Rightarrow> vector option" where
  "vectorF32DeserializeFromBlob pVector pBlob nBlobSize =
     do { blob_asserts FLOAT32 pVector nBlobSize;
          Option.bind (getF32s pBlob 0 (vdims pVector)) (\<lambda>es.
            map_option (\<lambda>d. pVector\<lparr>vdata := d\<rparr>) (store 4 (vdata pVector) 0 es)) }"

text \<open>\<open>sqlite4_snprintf(.., 32, "%g", ..)\<close>: \<open>fmt\<close> is the formatter, cut to the buffer.\<close>

definition formatF32 :: "(f64 \<Rightarrow> string) \<Rightarrow> f32 \<Rightarrow> nat \<Rightarrow> string" where
  "formatF32 fmt v nBufSize = take (nBufSize - 1) (fmt (f64_of_f32 v))"

definition SINGLE_FLOAT_CHAR_LIMIT :: nat where "SINGLE_FLOAT_CHAR_LIMIT = 32"

definition marshal_text :: "string list \<Rightarrow> string" where
  "marshal_text vs =
     (let pText = ''['' @ concat (map (\<lambda>v. v @ '','') vs) in
      (if vs \<noteq> [] then butlast pText else pText) @ '']'')"

definition vectorF32MarshalToText :: "(f64 \<Rightarrow> string) \<Rightarrow> vector \<Rightarrow> string option" where
  "vectorF32MarshalToText fmt pVector =
     do { c_assert (vtype pVector = FLOAT32);
          c_assert (vdims pVector \<le> MAX_VECTOR_SZ);
          map_option (\<lambda>es. marshal_text (map (\<lambda>e. formatF32 fmt e SINGLE_FLOAT_CHAR_LIMIT) es))
            (load 4 (vdata pVector) (vdims pVector)) }"

text \<open>Dot product and squared norms, accumulated in \<open>float\<close>; the last step is in \<open>double\<close>.\<close>

fun cos_loop :: "(f32 \<times> f32) list \<Rightarrow> f32 \<times> f32 \<times> f32 \<Rightarrow> f32 \<times> f32 \<times> f32" where
  "cos_loop [] acc = acc"
| "cos_loop ((a, b) # es) (dot, norm1, norm2) =
     cos_loop es (f32_add dot (f32_mul a b), f32_add norm1 (f32_mul a a), f32_add norm2 (f32_mul b b))"

definition cos_result :: "f32 \<times> f32 \<times> f32 \<Rightarrow> f32" where
  "cos_result = (\<lambda>(dot, norm1, norm2).
     f32_of_f64 (f64_sub 0x3ff0000000000000
       (f64_div (f64_of_f32 dot) (f64_sqrt (f64_of_f32 (f32_mul norm1 norm2))))))"

definition vectorF32DistanceCos :: "vector \<Rightarrow> vector \<Rightarrow> f32 option" where
  "vectorF32DistanceCos v1 v2 =
     do { pair_asserts FLOAT32 v1 v2;
          Option.bind (load 4 (vdata v1) (vdims v1)) (\<lambda>e1.
          Option.bind (load 4 (vdata v2) (vdims v1)) (\<lambda>e2.
            Some (cos_result (cos_loop (zip e1 e2) (0, 0, 0))))) }"

fun l2_loop :: "(f32 \<times> f32) list \<Rightarrow> f32 \<Rightarrow> f32" where
  "l2_loop [] acc = acc"
| "l2_loop ((a, b) # es) acc = (let d = f32_sub a b in l2_loop es (f32_add acc (f32_mul d d)))"

definition l2_result :: "f32 \<Rightarrow> f32" where
  "l2_result acc = f32_of_f64 (f64_sqrt (f64_of_f32 acc))"

definition vectorF32DistanceL2 :: "vector \<Rightarrow> vector \<Rightarrow> f32 option" where
  "vectorF32DistanceL2 v1 v2 =
     do { pair_asserts FLOAT32 v1 v2;
          Option.bind (load 4 (vdata v1) (vdims v1)) (\<lambda>e1.
          Option.bind (load 4 (vdata v2) (vdims v1)) (\<lambda>e2.
            Some (l2_result (l2_loop (zip e1 e2) 0)))) }"

subsection \<open>float64\<close>

definition serializeF64 :: "f64 \<Rightarrow> bytes" where
  "serializeF64 p =
     [ucast (p AND 0xFF), ucast (drop_bit 8 p AND 0xFF), ucast (drop_bit 16 p AND 0xFF),
      ucast (drop_bit 24 p AND 0xFF), ucast (drop_bit 32 p AND 0xFF), ucast (drop_bit 40 p AND 0xFF),
      ucast (drop_bit 48 p AND 0xFF), ucast (drop_bit 56 p AND 0xFF)]"

definition deserializeF64 :: "bytes \<Rightarrow> f64" where
  "deserializeF64 pBuf =
     (((((((ucast (pBuf ! 0) OR push_bit 8 (ucast (pBuf ! 1))) OR push_bit 16 (ucast (pBuf ! 2)))
      OR push_bit 24 (ucast (pBuf ! 3))) OR push_bit 32 (ucast (pBuf ! 4)))
      OR push_bit 40 (ucast (pBuf ! 5))) OR push_bit 48 (ucast (pBuf ! 6)))
      OR push_bit 56 (ucast (pBuf ! 7)))"

fun putF64s :: "bytes \<Rightarrow> nat \<Rightarrow> f64 list \<Rightarrow> bytes option" where
  "putF64s pBlob off [] = Some pBlob"
| "putF64s pBlob off (e # es) =
     Option.bind (memput pBlob off (serializeF64 e)) (\<lambda>b. putF64s b (off + 8) es)"

definition vectorF64SerializeToBlob :: "vector \<Rightarrow> bytes \<Rightarrow> nat \<Rightarrow> nat \<Rightarrow> bytes option" where
  "vectorF64SerializeToBlob pVector pBlob off nBlobSize =
     do { blob_asserts FLOAT64 pVector nBlobSize;
          Option.bind (load 8 (vdata pVector) (vdims pVector)) (\<lambda>elems. putF64s pBlob off elems) }"

fun getF64s :: "bytes \<Rightarrow> nat \<Rightarrow> nat \<Rightarrow> f64 list option" where
  "getF64s pBlob off 0 = Some []"
| "getF64s pBlob off (Suc n) =
     Option.bind (memget pBlob off 8) (\<lambda>b.
       map_option (Cons (deserializeF64 b)) (getF64s pBlob (off + 8) n))"

definition vectorF64DeserializeFromBlob :: "vector \<Rightarrow> bytes \<Rightarrow> nat \<Rightarrow> vector option" where
  "vectorF64DeserializeFromBlob pVector pBlob nBlobSize =
     do { blob_asserts FLOAT64 pVector nBlobSize;
          Option.bind (getF64s pBlob 0 (vdims pVector)) (\<lambda>es.
            map_option (\<lambda>d. pVector\<lparr>vdata := d\<rparr>) (store 8 (vdata pVector) 0 es)) }"

definition formatF64 :: "(f64 \<Rightarrow> string) \<Rightarrow> f64 \<Rightarrow> nat \<Rightarrow> string" where
  "formatF64 fmt v nBufSize = take (nBufSize - 1) (fmt v)"

definition SINGLE_DOUBLE_CHAR_LIMIT :: nat where "SINGLE_DOUBLE_CHAR_LIMIT = 32"

definition vectorF64MarshalToText :: "(f64 \<Rightarrow> string) \<Rightarrow> vector \<Rightarrow> string option" where
  "vectorF64MarshalToText fmt pVector =
     do { c_assert (vtype pVector = FLOAT64);
          c_assert (vdims pVector \<le> MAX_VECTOR_SZ);
          map_option (\<lambda>es. marshal_text (map (\<lambda>e. formatF64 fmt e SINGLE_DOUBLE_CHAR_LIMIT) es))
            (load 8 (vdata pVector) (vdims pVector)) }"

fun cos_loop64 :: "(f64 \<times> f64) list \<Rightarrow> f64 \<times> f64 \<times> f64 \<Rightarrow> f64 \<times> f64 \<times> f64" where
  "cos_loop64 [] acc = acc"
| "cos_loop64 ((a, b) # es) (dot, norm1, norm2) =
     cos_loop64 es (f64_add dot (f64_mul a b), f64_add norm1 (f64_mul a a), f64_add norm2 (f64_mul b b))"

definition vectorF64DistanceCos :: "vector \<Rightarrow> vector \<Rightarrow> f64 option" where
  "vectorF64DistanceCos v1 v2 =
     do { pair_asserts FLOAT64 v1 v2;
          Option.bind (load 8 (vdata v1) (vdims v1)) (\<lambda>e1.
          Option.bind (load 8 (vdata v2) (vdims v1)) (\<lambda>e2.
            let (dot, norm1, norm2) = cos_loop64 (zip e1 e2) (0, 0, 0) in
            Some (f64_sub 0x3ff0000000000000 (f64_div dot (f64_sqrt (f64_mul norm1 norm2)))))) }"

fun l2_loop64 :: "(f64 \<times> f64) list \<Rightarrow> f64 \<Rightarrow> f64" where
  "l2_loop64 [] acc = acc"
| "l2_loop64 ((a, b) # es) acc = (let d = f64_sub a b in l2_loop64 es (f64_add acc (f64_mul d d)))"

definition vectorF64DistanceL2 :: "vector \<Rightarrow> vector \<Rightarrow> f64 option" where
  "vectorF64DistanceL2 v1 v2 =
     do { pair_asserts FLOAT64 v1 v2;
          Option.bind (load 8 (vdata v1) (vdims v1)) (\<lambda>e1.
          Option.bind (load 8 (vdata v2) (vdims v1)) (\<lambda>e2.
            Some (f64_sqrt (l2_loop64 (zip e1 e2) 0)))) }"

subsection \<open>float1bit\<close>

fun put1Bits :: "bytes \<Rightarrow> nat \<Rightarrow> u8 list \<Rightarrow> bytes option" where
  "put1Bits pPtr off [] = Some pPtr"
| "put1Bits pPtr off (e # es) = Option.bind (memput pPtr off [e]) (\<lambda>b. put1Bits b (Suc off) es)"

definition vector1BitSerializeToBlob :: "vector \<Rightarrow> bytes \<Rightarrow> nat \<Rightarrow> nat \<Rightarrow> bytes option" where
  "vector1BitSerializeToBlob pVector pBlob off nBlobSize =
     do { blob_asserts FLOAT1BIT pVector nBlobSize;
          Option.bind (load 1 (vdata pVector) (bits_bytes (vdims pVector))) (\<lambda>elems. put1Bits pBlob off elems) }"

definition vector1BitDeserializeFromBlob :: "vector \<Rightarrow> bytes \<Rightarrow> nat \<Rightarrow> vector option" where
  "vector1BitDeserializeFromBlob pVector pBlob nBlobSize =
     do { blob_asserts FLOAT1BIT pVector nBlobSize;
          Option.bind (memget pBlob 0 (bits_bytes (vdims pVector))) (\<lambda>bs.
            map_option (\<lambda>d. pVector\<lparr>vdata := d\<rparr>) (memput (vdata pVector) 0 bs)) }"

definition BitsCount :: "nat list" where
  "BitsCount = [
  0, 1, 1, 2, 1, 2, 2, 3, 1, 2, 2, 3, 2, 3, 3, 4,
  1, 2, 2, 3, 2, 3, 3, 4, 2, 3, 3, 4, 3, 4, 4, 5,
  1, 2, 2, 3, 2, 3, 3, 4, 2, 3, 3, 4, 3, 4, 4, 5,
  2, 3, 3, 4, 3, 4, 4, 5, 3, 4, 4, 5, 4, 5, 5, 6,
  1, 2, 2, 3, 2, 3, 3, 4, 2, 3, 3, 4, 3, 4, 4, 5,
  2, 3, 3, 4, 3, 4, 4, 5, 3, 4, 4, 5, 4, 5, 5, 6,
  2, 3, 3, 4, 3, 4, 4, 5, 3, 4, 4, 5, 4, 5, 5, 6,
  3, 4, 4, 5, 4, 5, 5, 6, 4, 5, 5, 6, 5, 6, 6, 7,
  1, 2, 2, 3, 2, 3, 3, 4, 2, 3, 3, 4, 3, 4, 4, 5,
  2, 3, 3, 4, 3, 4, 4, 5, 3, 4, 4, 5, 4, 5, 5, 6,
  2, 3, 3, 4, 3, 4, 4, 5, 3, 4, 4, 5, 4, 5, 5, 6,
  3, 4, 4, 5, 4, 5, 5, 6, 4, 5, 5, 6, 5, 6, 6, 7,
  2, 3, 3, 4, 3, 4, 4, 5, 3, 4, 4, 5, 4, 5, 5, 6,
  3, 4, 4, 5, 4, 5, 5, 6, 4, 5, 5, 6, 5, 6, 6, 7,
  3, 4, 4, 5, 4, 5, 5, 6, 4, 5, 5, 6, 5, 6, 6, 7,
  4, 5, 5, 6, 5, 6, 6, 7, 5, 6, 6, 7, 6, 7, 7, 8]"

definition sqlite4PopCount32 :: "u32 \<Rightarrow> nat" where
  "sqlite4PopCount32 a =
     BitsCount ! unat (drop_bit 24 a) + BitsCount ! unat (drop_bit 16 a AND 0xff)
     + BitsCount ! unat (drop_bit 8 a AND 0xff) + BitsCount ! unat (a AND 0xff)"

fun hamming_loop :: "(u32 \<times> u32) list \<Rightarrow> nat \<Rightarrow> nat" where
  "hamming_loop [] diff = diff"
| "hamming_loop ((a, b) # es) diff = hamming_loop es (diff + sqlite4PopCount32 (a XOR b))"

text \<open>Whole 32-bit words first, then the remaining bytes (each widened to \<open>u32\<close>).\<close>

definition vector1BitDistanceHamming :: "vector \<Rightarrow> vector \<Rightarrow> nat option" where
  "vector1BitDistanceHamming v1 v2 =
     do { pair_asserts FLOAT1BIT v1 v2;
          (let len8 = bits_bytes (vdims v1); len32 = vdims v1 div 32; offset8 = len32 * 4 in
           Option.bind (load 4 (vdata v1) len32) (\<lambda>w1.
           Option.bind (load 4 (vdata v2) len32) (\<lambda>w2.
           Option.bind (memget (vdata v1) offset8 (len8 - offset8)) (\<lambda>b1.
           Option.bind (memget (vdata v2) offset8 (len8 - offset8)) (\<lambda>b2.
             Some (hamming_loop (zip (map ucast b1) (map ucast b2))
                    (hamming_loop (zip w1 w2) 0))))))) }"

subsection \<open>float8\<close>

definition vectorF8GetParameters :: "bytes \<Rightarrow> nat \<Rightarrow> (f32 \<times> f32) option" where
  "vectorF8GetParameters pData dims =
     Option.bind (memget pData (align dims 4) 4) (\<lambda>a.
     map_option (\<lambda>s. (deserializeF32 a, deserializeF32 s)) (memget pData (align dims 4 + 4) 4))"

definition vectorF8SetParameters :: "bytes \<Rightarrow> nat \<Rightarrow> nat \<Rightarrow> f32 \<Rightarrow> f32 \<Rightarrow> bytes option" where
  "vectorF8SetParameters pData off dims alpha shift =
     Option.bind (memput pData (off + align dims 4) (serializeF32 alpha)) (\<lambda>d.
       memput d (off + align dims 4 + 4) (serializeF32 shift))"

definition vectorF8SerializeToBlob :: "vector \<Rightarrow> bytes \<Rightarrow> nat \<Rightarrow> nat \<Rightarrow> bytes option" where
  "vectorF8SerializeToBlob pVector pBlob off nBlobSize =
     do { blob_asserts FLOAT8 pVector nBlobSize;
          Option.bind (memget (vdata pVector) 0 (vdims pVector)) (\<lambda>bs.
          Option.bind (memput pBlob off bs) (\<lambda>b.
          Option.bind (vectorF8GetParameters (vdata pVector) (vdims pVector)) (\<lambda>(alpha, shift).
            vectorF8SetParameters b off (vdims pVector) alpha shift))) }"

definition f8_cos :: "nat \<Rightarrow> (u8 \<times> u8) list \<Rightarrow> f32 \<Rightarrow> f32 \<Rightarrow> f32 \<Rightarrow> f32 \<Rightarrow> f32" where
  "f8_cos dims es alpha1 shift1 alpha2 shift2 =
     (let sum1 = sum_list (map (\<lambda>(a, b). ucast a :: u32) es);
          sum2 = sum_list (map (\<lambda>(a, b). ucast b :: u32) es);
          sumsq1 = sum_list (map (\<lambda>(a, b). (ucast a * ucast a) :: u32) es);
          sumsq2 = sum_list (map (\<lambda>(a, b). (ucast b * ucast b) :: u32) es);
          doti = sum_list (map (\<lambda>(a, b). (ucast a * ucast b) :: u32) es);
          fl = (\<lambda>u. f32_of_int (uint (u :: u32)));
          d = f32_of_int (int dims);
          dot = f32_add (f32_add (f32_add (f32_mul (f32_mul alpha1 alpha2) (fl doti))
                                          (f32_mul (f32_mul alpha1 shift2) (fl sum1)))
                                 (f32_mul (f32_mul alpha2 shift1) (fl sum2)))
                        (f32_mul (f32_mul shift1 shift2) d);
          norm1 = f32_add (f32_add (f32_mul (f32_mul alpha1 alpha1) (fl sumsq1))
                                   (f32_mul (f32_mul (f32_mul 0x40000000 alpha1) shift1) (fl sum1)))
                          (f32_mul (f32_mul shift1 shift1) d);
          norm2 = f32_add (f32_add (f32_mul (f32_mul alpha2 alpha2) (fl sumsq2))
                                   (f32_mul (f32_mul (f32_mul 0x40000000 alpha2) shift2) (fl sum2)))
                          (f32_mul (f32_mul shift2 shift2) d) in
      cos_result (dot, norm1, norm2))"

definition vectorF8DistanceCos :: "vector \<Rightarrow> vector \<Rightarrow> f32 option" where
  "vectorF8DistanceCos v1 v2 =
     do { pair_asserts FLOAT8 v1 v2;
          Option.bind (vectorF8GetParameters (vdata v1) (vdims v1)) (\<lambda>(alpha1, shift1).
          Option.bind (vectorF8GetParameters (vdata v2) (vdims v2)) (\<lambda>(alpha2, shift2).
          Option.bind (memget (vdata v1) 0 (vdims v1)) (\<lambda>data1.
          Option.bind (memget (vdata v2) 0 (vdims v1)) (\<lambda>data2.
            Some (f8_cos (vdims v1) (zip data1 data2) alpha1 shift1 alpha2 shift2))))) }"

text \<open>One dequantised component, \<open>alpha * q + shift\<close>.\<close>

definition f8_elem :: "f32 \<Rightarrow> f32 \<Rightarrow> u8 \<Rightarrow> f32" where
  "f8_elem alpha shift q = f32_add (f32_mul alpha (f32_of_int (uint q))) shift"

definition vectorF8DistanceL2 :: "vector \<Rightarrow> vector \<Rightarrow> f32 option" where
  "vectorF8DistanceL2 v1 v2 =
     do { pair_asserts FLOAT8 v1 v2;
          Option.bind (vectorF8GetParameters (vdata v1) (vdims v1)) (\<lambda>(alpha1, shift1).
          Option.bind (vectorF8GetParameters (vdata v2) (vdims v2)) (\<lambda>(alpha2, shift2).
          Option.bind (memget (vdata v1) 0 (vdims v1)) (\<lambda>data1.
          Option.bind (memget (vdata v2) 0 (vdims v1)) (\<lambda>data2.
            Some (l2_result (l2_loop (zip (map (f8_elem alpha1 shift1) data1)
                                          (map (f8_elem alpha2 shift2) data2)) 0)))))) }"

definition vectorF8DeserializeFromBlob :: "vector \<Rightarrow> bytes \<Rightarrow> nat \<Rightarrow> vector option" where
  "vectorF8DeserializeFromBlob pVector pBlob nBlobSize =
     do { blob_asserts FLOAT8 pVector nBlobSize;
          Option.bind (memget pBlob 0 (align (vdims pVector) 4)) (\<lambda>bs.
          Option.bind (memput (vdata pVector) 0 bs) (\<lambda>d.
          Option.bind (vectorF8GetParameters pBlob (vdims pVector)) (\<lambda>(alpha, shift).
            map_option (\<lambda>d. pVector\<lparr>vdata := d\<rparr>) (vectorF8SetParameters d 0 (vdims pVector) alpha shift)))) }"

subsection \<open>float16\<close>

text \<open>The normalising loop, with as many rounds as the ten fraction bits can need.\<close>

fun f16_normalize :: "nat \<Rightarrow> u32 \<Rightarrow> int \<Rightarrow> (u32 \<times> int) option" where
  "f16_normalize 0 mnt e = None"
| "f16_normalize (Suc n) mnt e =
     (if mnt AND 0x400 = 0 then f16_normalize n (push_bit 1 mnt) (e - 1) else Some (mnt, e))"

definition vectorF16ToFloat :: "u16 \<Rightarrow> f32" where
  "vectorF16ToFloat f16 =
     (let sgn = push_bit 16 (ucast f16 AND 0x8000) :: u32;
          expBits = uint (drop_bit 10 f16 AND 0x1f);
          e = expBits - 15;
          mnt = ucast f16 AND 0x3ff :: u32;
          mntNonZero = (if mnt \<noteq> 0 then 1 else 0 :: u32);
          (e, mnt) =
            (if e = 16 then (128, push_bit 22 mntNonZero)
             else if e = -15 \<and> mnt = 0 then (-127, 0)
             else if e = -15 then
               (case f16_normalize 11 mnt (e + 1) of
                  Some (mnt, e) \<Rightarrow> (e, push_bit 13 (mnt AND 0x3ff))
                | None \<Rightarrow> (e, mnt))
             else (e, push_bit 13 mnt)) in
      sgn OR push_bit 23 (word_of_int (e + 127)) OR mnt)"

definition vectorF16FromFloat :: "f32 \<Rightarrow> u16" where
  "vectorF16FromFloat i =
     (let sgn = drop_bit 16 i AND 0x8000;
          expBits = uint (drop_bit 23 i AND 0xff);
          e = expBits - 127;
          mntBits = i AND 0x7fffff;
          mntNonZero = (if mntBits \<noteq> 0 then 1 else 0 :: u32);
          (e, mntBits) =
            (if e = 128 then (16, push_bit 22 mntNonZero)
             else if e > 15 then (16, 0)
             else if e < -14 \<and> e \<ge> -25 then (-15, drop_bit (nat (- e - 14)) (mntBits OR 0x800000))
             else if e < -24 then (-15, 0)
             else (e, mntBits));
          mntBits =
            (if mntBits AND 0x1fff > 0x1000 - (drop_bit 13 mntBits AND 1) then mntBits + 0x2000 else mntBits);
          mnt = drop_bit 13 mntBits in
      ucast (sgn OR push_bit 10 (word_of_int (e + 15) + drop_bit 10 mnt) OR (mnt AND 0x3ff)))"

definition vectorF16SerializeToBlob :: "vector \<Rightarrow> bytes \<Rightarrow> nat \<Rightarrow> nat \<Rightarrow> bytes option" where
  "vectorF16SerializeToBlob pVector pBlob off nBlobSize =
     do { blob_asserts FLOAT16 pVector nBlobSize;
          Option.bind (memget (vdata pVector) 0 (vdims pVector * 2)) (\<lambda>bs. memput pBlob off bs) }"

definition vectorF16DistanceCos :: "vector \<Rightarrow> vector \<Rightarrow> f32 option" where
  "vectorF16DistanceCos v1 v2 =
     do { pair_asserts FLOAT16 v1 v2;
          Option.bind (load 2 (vdata v1) (vdims v1)) (\<lambda>data1.
          Option.bind (load 2 (vdata v2) (vdims v1)) (\<lambda>data2.
            Some (cos_result (cos_loop (zip (map vectorF16ToFloat data1) (map vectorF16ToFloat data2)) (0, 0, 0))))) }"

definition vectorF16DistanceL2 :: "vector \<Rightarrow> vector \<Rightarrow> f32 option" where
  "vectorF16DistanceL2 v1 v2 =
     do { pair_asserts FLOAT16 v1 v2;
          Option.bind (load 2 (vdata v1) (vdims v1)) (\<lambda>data1.
          Option.bind (load 2 (vdata v2) (vdims v1)) (\<lambda>data2.
            Some (l2_result (l2_loop (zip (map vectorF16ToFloat data1) (map vectorF16ToFloat data2)) 0)))) }"

definition vectorF16DeserializeFromBlob :: "vector \<Rightarrow> bytes \<Rightarrow> nat \<Rightarrow> vector option" where
  "vectorF16DeserializeFromBlob pVector pBlob nBlobSize =
     do { blob_asserts FLOAT16 pVector nBlobSize;
          Option.bind (memget pBlob 0 (vdims pVector * 2)) (\<lambda>bs.
            map_option (\<lambda>d. pVector\<lparr>vdata := d\<rparr>) (memput (vdata pVector) 0 bs)) }"

subsection \<open>floatb16\<close>

definition vectorFB16ToFloat :: "u16 \<Rightarrow> f32" where
  "vectorFB16ToFloat f16 = push_bit 16 (ucast f16)"

definition vectorFB16FromFloat :: "f32 \<Rightarrow> u16" where
  "vectorFB16FromFloat f = ucast (drop_bit 16 f)"

definition vectorFB16SerializeToBlob :: "vector \<Rightarrow> bytes \<Rightarrow> nat \<Rightarrow> nat \<Rightarrow> bytes option" where
  "vectorFB16SerializeToBlob pVector pBlob off nBlobSize =
     do { blob_asserts FLOATB16 pVector nBlobSize;
          Option.bind (memget (vdata pVector) 0 (vdims pVector * 2)) (\<lambda>bs. memput pBlob off bs) }"

definition vectorFB16DistanceCos :: "vector \<Rightarrow> vector \<Rightarrow> f32 option" where
  "vectorFB16DistanceCos v1 v2 =
     do { pair_asserts FLOATB16 v1 v2;
          Option.bind (load 2 (vdata v1) (vdims v1)) (\<lambda>data1.
          Option.bind (load 2 (vdata v2) (vdims v1)) (\<lambda>data2.
            Some (cos_result (cos_loop (zip (map vectorFB16ToFloat data1) (map vectorFB16ToFloat data2)) (0, 0, 0))))) }"

definition vectorFB16DistanceL2 :: "vector \<Rightarrow> vector \<Rightarrow> f32 option" where
  "vectorFB16DistanceL2 v1 v2 =
     do { pair_asserts FLOATB16 v1 v2;
          Option.bind (load 2 (vdata v1) (vdims v1)) (\<lambda>data1.
          Option.bind (load 2 (vdata v2) (vdims v1)) (\<lambda>data2.
            Some (l2_result (l2_loop (zip (map vectorFB16ToFloat data1) (map vectorFB16ToFloat data2)) 0)))) }"

definition vectorFB16DeserializeFromBlob :: "vector \<Rightarrow> bytes \<Rightarrow> nat \<Rightarrow> vector option" where
  "vectorFB16DeserializeFromBlob pVector pBlob nBlobSize =
     do { blob_asserts FLOATB16 pVector nBlobSize;
          Option.bind (memget pBlob 0 (vdims pVector * 2)) (\<lambda>bs.
            map_option (\<lambda>d. pVector\<lparr>vdata := d\<rparr>) (memput (vdata pVector) 0 bs)) }"

subsection \<open>Elements and their bytes\<close>

lemma serializeF32_le: "serializeF32 p = le_bytes 4 p"
  by (simp add: serializeF32_def le_bytes_def be_bytes_num byte_def ucast_and_0xff)

lemma serializeF64_le: "serializeF64 p = le_bytes 8 p"
  by (simp add: serializeF64_def le_bytes_def be_bytes_num byte_def ucast_and_0xff)

lemma deserializeF32_le_bytes: "deserializeF32 (le_bytes 4 w) = w"
  using or_next_byte [of 8 w] or_next_byte [of 16 w] or_next_byte [of 24 w] first_byte [of w]
  by (simp add: deserializeF32_def le_bytes_def be_bytes_num byte_def take_bit_word_eq_self)

lemma deserializeF64_le_bytes: "deserializeF64 (le_bytes 8 w) = w"
  using or_next_byte [of 8 w] or_next_byte [of 16 w] or_next_byte [of 24 w] or_next_byte [of 32 w]
    or_next_byte [of 40 w] or_next_byte [of 48 w] or_next_byte [of 56 w] first_byte [of w]
  by (simp add: deserializeF64_def le_bytes_def be_bytes_num byte_def take_bit_word_eq_self)

lemma deserializeF32_le: "length b = 4 \<Longrightarrow> deserializeF32 b = le_word b"
  using deserializeF32_le_bytes [of "le_word b"] le_bytes_le_word [of b 4, where 'a=32] by simp

lemma deserializeF64_le: "length b = 8 \<Longrightarrow> deserializeF64 b = le_word b"
  using deserializeF64_le_bytes [of "le_word b"] le_bytes_le_word [of b 8, where 'a=64] by simp

lemma putF32s_memput:
  "off \<le> length b \<Longrightarrow> putF32s b off es = memput b off (concat (map (le_bytes 4) es))"
proof (induction es arbitrary: b off)
  case (Cons e es)
  show ?case
  proof (cases "memput b off (le_bytes 4 e)")
    case None
    then show ?thesis by (simp only: putF32s.simps serializeF32_le list.map concat.simps memput_append) simp
  next
    case (Some b')
    then have "off + 4 \<le> length b'" by (auto simp: memput_def split: if_splits)
    with Some show ?thesis
      by (simp only: putF32s.simps serializeF32_le list.map concat.simps memput_append bind.bind_lunit Cons.IH length_le_bytes)
  qed
qed (simp add: memput_def)

lemma putF64s_memput:
  "off \<le> length b \<Longrightarrow> putF64s b off es = memput b off (concat (map (le_bytes 8) es))"
proof (induction es arbitrary: b off)
  case (Cons e es)
  show ?case
  proof (cases "memput b off (le_bytes 8 e)")
    case None
    then show ?thesis by (simp only: putF64s.simps serializeF64_le list.map concat.simps memput_append) simp
  next
    case (Some b')
    then have "off + 8 \<le> length b'" by (auto simp: memput_def split: if_splits)
    with Some show ?thesis
      by (simp only: putF64s.simps serializeF64_le list.map concat.simps memput_append bind.bind_lunit Cons.IH length_le_bytes)
  qed
qed (simp add: memput_def)

lemma put1Bits_memput: "off \<le> length b \<Longrightarrow> put1Bits b off es = memput b off es"
proof (induction es arbitrary: b off)
  case (Cons e es)
  show ?case
  proof (cases "memput b off [e]")
    case (Some b')
    then have "Suc off \<le> length b'" by (auto simp: memput_def split: if_splits)
    with Some show ?thesis
      using memput_append [of b off "[e]" es] by (simp add: Cons.IH)
  qed (use memput_append [of b off "[e]" es] in simp)
qed (simp add: memput_def)

lemma memget_split:
  "memget b off (m + n) = Option.bind (memget b off m) (\<lambda>xs. map_option ((@) xs) (memget b (off + m) n))"
  by (auto simp: memget_def take_add add.commute add.left_commute)

text \<open>Reading \<open>n\<close> elements in turn reads their bytes, and storing them again gives those bytes.\<close>

lemma getF32s_memget:
  "map_option (\<lambda>es. concat (map (le_bytes 4) es)) (getF32s b off n) =
     (if off \<le> length b then memget b off (4 * n) else if n = 0 then Some [] else None)"
proof (induction n arbitrary: off)
  case (Suc n)
  show ?case
  proof (cases "memget b off 4")
    case None
    then show ?thesis using memget_split [of b off 4 "4 * n"] by (auto simp: memget_def split: if_splits)
  next
    case (Some x)
    then have x: "length x = 4" "off + 4 \<le> length b" using memget_SomeD by blast+
    have "memget b (off + 4) (4 * n) = map_option (\<lambda>es. concat (map (le_bytes 4) es)) (getF32s b (off + 4) n)"
      using Suc.IH [of "off + 4"] x by simp
    then show ?thesis
      using x Some memget_split [of b off 4 "4 * n"]
      by (cases "getF32s b (off + 4) n")
         (auto simp: deserializeF32_le le_bytes_le_word)
  qed
qed (auto simp: memget_def)

lemma getF64s_memget:
  "map_option (\<lambda>es. concat (map (le_bytes 8) es)) (getF64s b off n) =
     (if off \<le> length b then memget b off (8 * n) else if n = 0 then Some [] else None)"
proof (induction n arbitrary: off)
  case (Suc n)
  show ?case
  proof (cases "memget b off 8")
    case None
    then show ?thesis using memget_split [of b off 8 "8 * n"] by (auto simp: memget_def split: if_splits)
  next
    case (Some x)
    then have x: "length x = 8" "off + 8 \<le> length b" using memget_SomeD by blast+
    have "memget b (off + 8) (8 * n) = map_option (\<lambda>es. concat (map (le_bytes 8) es)) (getF64s b (off + 8) n)"
      using Suc.IH [of "off + 8"] x by simp
    then show ?thesis
      using x Some memget_split [of b off 8 "8 * n"]
      by (cases "getF64s b (off + 8) n")
         (auto simp: deserializeF64_le le_bytes_le_word)
  qed
qed (auto simp: memget_def)

lemma load_bytes:
  assumes "k * n \<le> length m" and "LENGTH('a) = 8 * k"
  shows "\<exists>es :: 'a::len word list. load k m n = Some es \<and> concat (map (le_bytes k) es) = take (k * n) m"
proof -
  have "concat (map (le_bytes k) (map (\<lambda>i. le_word (take k (drop (k * i) m)) :: 'a word) [0..<n])) = take (k * n) m"
    using assms(1)
  proof (induction n)
    case (Suc n)
    have "length (take k (drop (k * n) m)) = k" using Suc.prems by simp
    then have "le_bytes k (le_word (take k (drop (k * n) m)) :: 'a word) = take k (drop (k * n) m)"
      using assms(2) by (intro le_bytes_le_word) simp_all
    then show ?case using Suc by (simp add: take_add add.commute [of k])
  qed simp
  then show ?thesis using load_in [OF assms(1), where 'a='a] by blast
qed

subsection \<open>Half-precision conversions\<close>

lemma and_bit_mask: "(w :: 'a::len word) AND 2 ^ n = (if bit w n then 2 ^ n else 0)"
  by (rule bit_word_eqI) (auto simp: bit_simps bit_exp_iff)

lemma and_masks:
  "(w :: 'a::len word) AND 0x3ff = take_bit 10 w" "w AND 0x1f = take_bit 5 w"
  "w AND 0x7fffff = take_bit 23 w" "w AND 0x1fff = take_bit 13 w" "w AND 1 = take_bit 1 w"
  by (simp_all add: take_bit_eq_mask mask_eq_exp_minus_1)

lemma and_exp_shift: "(w :: 'a::len word) AND 2 ^ k = push_bit k (take_bit 1 (drop_bit k w))"
  using bit_iff_odd_drop_bit [of w k] by (auto simp: bit_simps bit_exp_iff intro!: bit_word_eqI)

lemma and_0x8000: "(w :: 'a::len word) AND 0x8000 = push_bit 15 (take_bit 1 (drop_bit 15 w))"
  using and_exp_shift [of w 15] by simp

lemma bit_unat: "bit (unat (w :: 'a::len word)) n = bit w n"
  by (auto simp: bit_unsigned_iff dest: bit_imp_le_length)

lemma and_0x400: "unat (w :: u32) < 2048 \<Longrightarrow> w AND 0x400 = 0 \<longleftrightarrow> unat w < 1024"
proof -
  assume a: "unat w < 2048"
  have "w AND 2 ^ 10 = (if bit w 10 then 2 ^ 10 else 0)" by (rule and_bit_mask)
  moreover have "bit w 10 \<longleftrightarrow> odd (unat w div 1024)"
    using bit_unat [of w 10] by (simp add: bit_iff_odd)
  moreover have "unat w div 1024 = (if unat w < 1024 then 0 else 1)"
    using a div_nat_eqI [of 1 1024 "unat w"] by auto
  ultimately show ?thesis by auto
qed

lemma f16_normalize_ok:
  "unat mnt < 2048 \<Longrightarrow> 2048 \<le> unat mnt * 2 ^ n \<Longrightarrow>
     \<exists>k. f16_normalize n mnt e = Some (push_bit k mnt, e - int k) \<and> k < n
       \<and> unat (push_bit k mnt) = unat mnt * 2 ^ k \<and> 1024 \<le> unat mnt * 2 ^ k \<and> unat mnt * 2 ^ k < 2048"
proof (induction n arbitrary: mnt e)
  case (Suc n)
  show ?case
  proof (cases "unat mnt < 1024")
    case True
    have u: "unat (push_bit 1 mnt) = 2 * unat mnt"
      using True by (simp add: push_bit_eq_mult unat_word_ariths)
    with Suc.prems True Suc.IH [of "push_bit 1 mnt" "e - 1"] obtain k where
      k: "f16_normalize n (push_bit 1 mnt) (e - 1) = Some (push_bit k (push_bit 1 mnt), e - 1 - int k)" "k < n"
        "unat (push_bit k (push_bit 1 mnt)) = 2 * unat mnt * 2 ^ k" "1024 \<le> 2 * unat mnt * 2 ^ k" "2 * unat mnt * 2 ^ k < 2048"
      by auto
    then show ?thesis
      using True Suc.prems and_0x400 [of mnt]
      by (intro exI [of _ "Suc k"]) (simp add: ac_simps)
  next
    case False
    then show ?thesis using Suc.prems and_0x400 [of mnt] by (intro exI [of _ 0]) simp
  qed
qed simp

lemma bit_masks:
  "bit (0x8000 :: int) n \<longleftrightarrow> n = 15" "bit (0x3ff :: int) n \<longleftrightarrow> n < 10" "bit (0x1f :: int) n \<longleftrightarrow> n < 5"
  "bit (0x7fffff :: int) n \<longleftrightarrow> n < 23" "bit (0x1fff :: int) n \<longleftrightarrow> n < 13" "bit (0xff :: int) n \<longleftrightarrow> n < 8"
proof -
  have "bit (2 ^ 15 :: int) n \<longleftrightarrow> n = 15" unfolding bit_exp_iff by auto
  then show "bit (0x8000 :: int) n \<longleftrightarrow> n = 15" by simp
  have m: "bit (2 ^ k - 1 :: int) n \<longleftrightarrow> n < k" for k
    by (auto simp: bit_mask_iff simp flip: mask_eq_exp_minus_1)
  show "bit (0x3ff :: int) n \<longleftrightarrow> n < 10" "bit (0x1f :: int) n \<longleftrightarrow> n < 5"
    "bit (0x7fffff :: int) n \<longleftrightarrow> n < 23" "bit (0x1fff :: int) n \<longleftrightarrow> n < 13" "bit (0xff :: int) n \<longleftrightarrow> n < 8"
    using m [of 10] m [of 5] m [of 23] m [of 13] m [of 8] by simp_all
qed

text \<open>The three fields of a packed binary32 word read back.\<close>

lemma f32_fields:
  fixes S M :: u32
  assumes "0 \<le> A" "A < 256" and M: "\<And>n. bit M n \<Longrightarrow> n < 23" and S: "\<And>n. bit S n \<Longrightarrow> n = 15"
  defines "i \<equiv> push_bit 16 S OR push_bit 23 (word_of_int A) OR M"
  shows "drop_bit 16 i AND 0x8000 = S"
    and "uint (drop_bit 23 i AND 0xff) = A" and "i AND 0x7fffff = M"
proof -
  have u: "uint (word_of_int A :: u32) = A" using assms(1,2) by (simp add: uint_word_of_int)
  have "take_bit 8 A = A" using assms(1,2) by (simp add: take_bit_int_eq_self)
  then have A': "bit A n \<Longrightarrow> n < 8" for n by (metis bit_take_bit_iff)
  then have nA: "\<not> bit A 8" by blast
  show "drop_bit 16 i AND 0x8000 = S"
    unfolding i_def by (rule bit_word_eqI) (use nA in \<open>auto simp: bit_simps bit_masks dest: M A' S\<close>)
  have "drop_bit 23 i AND 0xff = word_of_int A"
    unfolding i_def by (rule bit_word_eqI) (auto simp: bit_simps bit_masks dest: M A' S)
  then show "uint (drop_bit 23 i AND 0xff) = A"
    by (simp only: u)
  show "i AND 0x7fffff = M"
    unfolding i_def by (rule bit_word_eqI) (auto simp: bit_simps bit_masks dest: M A' S)
qed

lemma f16_pack:
  fixes h :: u16
  shows "ucast ((ucast h AND 0x8000 :: u32) OR push_bit 10 (word_of_int (uint (drop_bit 10 h AND 0x1f))) OR (ucast h AND 0x3ff)) = h"
proof -
  define E where "E = drop_bit 10 h AND 0x1f"
  have "word_of_int (uint E) = (ucast E :: u32)" by simp
  moreover have "ucast ((ucast h AND 0x8000 :: u32) OR push_bit 10 (ucast E) OR (ucast h AND 0x3ff)) = h"
    unfolding E_def by (rule bit_word_eqI) (auto simp: bit_simps bit_masks)
  ultimately show ?thesis unfolding E_def by simp
qed

lemma f16_roundtrip_normal:
  assumes "uint (drop_bit 10 h AND 0x1f) \<noteq> 31" "uint (drop_bit 10 h AND 0x1f) \<noteq> 0"
  shows "vectorF16FromFloat (vectorF16ToFloat h) = h"
proof -
  define E where "E = uint (drop_bit 10 h AND 0x1f)"
  define m where "m = (ucast h AND 0x3ff :: u32)"
  define S where "S = (ucast h AND 0x8000 :: u32)"
  have e: "0 \<le> E" "E < 32" "E \<noteq> 31" "E \<noteq> 0"
    using assms take_bit_int_less_exp [of 5 "uint (drop_bit 10 h)"]
    by (simp_all add: E_def and_masks unsigned_take_bit_eq)
  have m: "bit m n \<Longrightarrow> n < 10" and S: "bit S n \<Longrightarrow> n = 15" for n
    unfolding m_def S_def by (auto simp: bit_simps bit_masks)
  then have M: "bit (push_bit 13 m) n \<Longrightarrow> n < 23" for n
    by (fastforce simp: bit_simps)
  have to: "vectorF16ToFloat h = push_bit 16 S OR push_bit 23 (word_of_int (E + 112)) OR push_bit 13 m"
    unfolding vectorF16ToFloat_def E_def [symmetric] m_def [symmetric] S_def [symmetric] Let_def
    using e by (simp add: ac_simps)
  have r: "push_bit 13 m AND 0x1fff = 0" "drop_bit 13 (push_bit 13 m) = m" "drop_bit 10 m = 0" "m AND 0x3ff = m"
    "drop_bit 23 (push_bit 13 m) = 0"
    unfolding m_def by (rule bit_word_eqI, auto simp: bit_simps bit_masks)+
  have f: "drop_bit 16 (vectorF16ToFloat h) AND 0x8000 = S"
    "uint (drop_bit 23 (vectorF16ToFloat h) AND 0xff) = E + 112" "vectorF16ToFloat h AND 0x7fffff = push_bit 13 m"
    unfolding to using f32_fields [of "E + 112" "push_bit 13 m" S] e M S by simp_all
  have "vectorF16FromFloat (vectorF16ToFloat h) = ucast (S OR push_bit 10 (word_of_int E) OR m)"
    unfolding vectorF16FromFloat_def f Let_def using e r by simp
  then show ?thesis by (simp only: S_def E_def m_def f16_pack)
qed
lemma f16_back:
  fixes h :: u16 and M f :: u32
  assumes to: "f = push_bit 16 (ucast h AND 0x8000) OR push_bit 23 (word_of_int A) OR M"
    and A: "0 \<le> A" "A < 256" and M: "\<And>n. bit M n \<Longrightarrow> n < 23"
  shows "drop_bit 16 f AND 0x8000 = ucast h AND 0x8000"
    "uint (drop_bit 23 f AND 0xff) = A" "f AND 0x7fffff = M"
proof -
  have S: "bit (ucast h AND 0x8000 :: u32) n \<Longrightarrow> n = 15" for n
    by (auto simp: bit_simps bit_masks)
  show "drop_bit 16 f AND 0x8000 = ucast h AND 0x8000"
    "uint (drop_bit 23 f AND 0xff) = A" "f AND 0x7fffff = M"
    unfolding to using f32_fields [of A M "ucast h AND 0x8000", OF A M S] by blast+
qed

lemma f16_roundtrip_special:
  assumes "uint (drop_bit 10 h AND 0x1f) = 31 \<or> uint (drop_bit 10 h AND 0x1f) = 0" and m: "(ucast h AND 0x3ff :: u32) = 0"
  shows "vectorF16FromFloat (vectorF16ToFloat h) = h"
proof -
  define E where "E = uint (drop_bit 10 h AND 0x1f)"
  define A :: int where "A = (if E = 31 then 255 else 0)"
  define S where "S = (ucast h AND 0x8000 :: u32)"
  have E: "E = 31 \<or> E = 0" using assms(1) by (simp add: E_def)
  have to: "vectorF16ToFloat h = push_bit 16 S OR push_bit 23 (word_of_int A) OR 0"
    unfolding vectorF16ToFloat_def E_def [symmetric] S_def [symmetric] m Let_def
    using E by (auto simp: A_def)
  have f: "drop_bit 16 (vectorF16ToFloat h) AND 0x8000 = S"
    "uint (drop_bit 23 (vectorF16ToFloat h) AND 0xff) = A" "vectorF16ToFloat h AND 0x7fffff = 0"
    using f16_back [of _ h A 0, OF to [unfolded S_def]] by (simp_all add: A_def S_def)
  have "vectorF16FromFloat (vectorF16ToFloat h) = ucast (S OR push_bit 10 (word_of_int E) OR (ucast h AND 0x3ff))"
    unfolding vectorF16FromFloat_def f Let_def m using E by (auto simp: A_def)
  then show ?thesis by (simp only: S_def E_def f16_pack)
qed

lemma f16_roundtrip_denormal:
  assumes E0: "uint (drop_bit 10 h AND 0x1f) = 0" and m0: "(ucast h AND 0x3ff :: u32) \<noteq> 0"
  shows "vectorF16FromFloat (vectorF16ToFloat h) = h"
proof -
  define m where "m = (ucast h AND 0x3ff :: u32)"
  define S where "S = (ucast h AND 0x8000 :: u32)"
  have m: "bit m n \<Longrightarrow> n < 10" for n unfolding m_def by (auto simp: bit_simps bit_masks)
  have "unat m = take_bit 10 (unat (ucast h :: u32))" by (simp only: m_def and_masks unsigned_take_bit_eq)
  then have m1: "unat m < 1024" using take_bit_nat_less_exp [of 10 "unat (ucast h :: u32)"] by simp
  have m2: "1 \<le> unat m" using m0 by (simp add: m_def Suc_le_eq unat_gt_0)
  obtain k where norm: "f16_normalize 11 m (-14) = Some (push_bit k m, -14 - int k)" "k < 11"
    and u: "unat (push_bit k m) = unat m * 2 ^ k" "1024 \<le> unat m * 2 ^ k" "unat m * 2 ^ k < 2048"
    using f16_normalize_ok [of m 11 "-14"] m1 m2 by auto
  have k1: "1 \<le> k" using m1 u(2) by (cases k) auto
  define w where "w = push_bit k m"
  define M where "M = push_bit 13 (w AND 0x3ff)"
  have "take_bit 11 w = w"
    using u by (simp add: w_def word_unat_eq_iff unsigned_take_bit_eq take_bit_nat_eq_self)
  then have w: "bit w n \<Longrightarrow> n < 11" for n by (metis bit_take_bit_iff)
  have w10: "bit w 10"
  proof -
    have "\<not> unat w < 1024" "unat w < 2048" using u by (simp_all add: w_def)
    then have "w AND 2 ^ 10 \<noteq> 0" using and_0x400 [of w] by simp
    then show ?thesis unfolding and_bit_mask by (auto split: if_splits)
  qed
  have "bit (w AND 0x3ff) n \<Longrightarrow> n < 10" for n by (auto simp: bit_simps bit_masks)
  then have M: "bit M n \<Longrightarrow> n < 23" for n unfolding M_def by (fastforce simp only: bit_push_bit_iff)
  have "unat (drop_bit k w) = unat m"
    by (simp only: w_def unat_drop_bit_eq u(1)) (simp add: drop_bit_eq_div)
  then have mw: "m = drop_bit k w" by (simp add: word_unat_eq_iff)
  have M1: "M OR 0x800000 = push_bit 13 w"
  proof (rule bit_word_eqI)
    fix n
    have "bit (2 ^ 23 :: int) n \<longleftrightarrow> n = 23" unfolding bit_exp_iff by auto
    then have b: "bit (0x800000 :: u32) n \<longleftrightarrow> n = 23" by auto
    have b2: "bit M n \<longleftrightarrow> 13 \<le> n \<and> n < 32 \<and> bit w (n - 13) \<and> n - 13 < 10"
      unfolding M_def by (auto simp only: bit_push_bit_iff bit_and_iff) (auto simp: bit_masks)
    show "bit (M OR 0x800000) n \<longleftrightarrow> bit (push_bit 13 w) n"
      unfolding bit_or_iff b b2 bit_push_bit_iff using w [of "n - 13"] w10 by auto
  qed
  have bk: "drop_bit k (M OR 0x800000) = push_bit 13 m"
  proof (rule bit_word_eqI)
    fix n
    have "bit w (n + k - 13) \<Longrightarrow> n + k - 13 < 11 \<and> k \<le> n + k - 13"
      using w [of "n + k - 13"] by (auto simp: w_def bit_push_bit_iff)
    then show "bit (drop_bit k (M OR 0x800000)) n \<longleftrightarrow> bit (push_bit 13 m) n"
      unfolding M1 using w [of "n - 13 + k"]
      by (auto simp: mw bit_simps ac_simps)
  qed
  have to: "vectorF16ToFloat h = push_bit 16 S OR push_bit 23 (word_of_int (113 - int k)) OR M"
    unfolding vectorF16ToFloat_def E0 S_def [symmetric] m_def [symmetric] Let_def
    using m0 norm by (simp add: M_def w_def m_def [symmetric])
  have f: "drop_bit 16 (vectorF16ToFloat h) AND 0x8000 = S"
    "uint (drop_bit 23 (vectorF16ToFloat h) AND 0xff) = 113 - int k" "vectorF16ToFloat h AND 0x7fffff = M"
    using f16_back [of _ h "113 - int k" M, OF to [unfolded S_def]] M norm(2) by (simp_all add: S_def)
  have r: "push_bit 13 m AND 0x1fff = 0" "drop_bit 13 (push_bit 13 m) = m" "drop_bit 10 m = 0" "m AND 0x3ff = m"
    "drop_bit 23 (push_bit 13 m) = 0"
    unfolding m_def by (rule bit_word_eqI, auto simp: bit_simps bit_masks)+
  have k: "nat (- (113 - int k - 127) - 14) = k" by simp
  have "vectorF16FromFloat (vectorF16ToFloat h) = ucast (S OR m)"
    unfolding vectorF16FromFloat_def f Let_def k using k1 norm(2) r bk by simp
  then show ?thesis using f16_pack [of h] by (simp add: S_def m_def E0)
qed

lemma f16_fields:
  "uint (drop_bit 10 (h :: u16) AND 0x1f) = uint h div 2 ^ 10 mod 2 ^ 5"
  "(ucast h AND 0x3ff :: u32) = 0 \<longleftrightarrow> uint h mod 2 ^ 10 = 0"
proof -
  show "uint (drop_bit 10 h AND 0x1f) = uint h div 2 ^ 10 mod 2 ^ 5"
    unfolding and_masks by (simp only: unsigned_take_bit_eq drop_bit_eq_div uint_div take_bit_eq_mod) (simp add: uint_mod uint_div)
  have "(ucast h AND 0x3ff :: u32) = take_bit 10 (ucast h)" by (rule and_masks)
  then have "uint (ucast h AND 0x3ff :: u32) = uint h mod 2 ^ 10"
    by (simp only: unsigned_take_bit_eq unsigned_ucast_eq) (simp add: take_bit_eq_mod mod_mod_cancel)
  then show "(ucast h AND 0x3ff :: u32) = 0 \<longleftrightarrow> uint h mod 2 ^ 10 = 0"
    by (simp add: word_uint_eq_iff)
qed

lemma f16_roundtrip:
  "fp_decode 10 5 (uint h) = FNaN \<or> vectorF16FromFloat (vectorF16ToFloat h) = h"
proof -
  let ?E = "uint (drop_bit 10 h AND 0x1f)" and ?m = "ucast h AND 0x3ff :: u32"
  consider "?E = 31" "?m \<noteq> 0" | "?E \<noteq> 31" "?E \<noteq> 0" | "?E = 31 \<or> ?E = 0" "?m = 0" | "?E = 0" "?m \<noteq> 0" by blast
  then show ?thesis
  proof cases
    case 1
    then have "fp_decode 10 5 (uint h) = FNaN" by (simp add: fp_decode_def f16_fields)
    then show ?thesis ..
  qed (use f16_roundtrip_normal f16_roundtrip_special f16_roundtrip_denormal in blast)+
qed

subsection \<open>Distances do not depend on the order of their arguments\<close>

lemma cos_loop_swap:
  "length xs = length ys \<Longrightarrow>
     cos_loop (zip ys xs) (d, n2, n1) = (\<lambda>(a, b, c). (a, c, b)) (cos_loop (zip xs ys) (d, n1, n2))"
  by (induction xs ys arbitrary: d n1 n2 rule: list_induct2) (simp_all add: f32_mul_commute)

lemma cos_result_swap: "cos_result (a, c, b) = cos_result (a, b, c)"
  by (simp add: cos_result_def f32_mul_commute)

lemma cos_swap: "length xs = length ys \<Longrightarrow> cos_result (cos_loop (zip ys xs) (0, 0, 0)) = cos_result (cos_loop (zip xs ys) (0, 0, 0))"
  using cos_loop_swap [of xs ys 0 0 0]
  by (cases "cos_loop (zip xs ys) (0, 0, 0)") (simp add: cos_result_swap)

lemma l2_swap: "length xs = length ys \<Longrightarrow> l2_loop (zip ys xs) acc = l2_loop (zip xs ys) acc"
proof (induction xs ys arbitrary: acc rule: list_induct2)
  case (Cons x xs y ys)
  then show ?case using f32_sub_square [of x y] by (simp add: Let_def)
qed simp

lemma cos_loop64_swap:
  "length xs = length ys \<Longrightarrow>
     cos_loop64 (zip ys xs) (d, n2, n1) = (\<lambda>(a, b, c). (a, c, b)) (cos_loop64 (zip xs ys) (d, n1, n2))"
  by (induction xs ys arbitrary: d n1 n2 rule: list_induct2) (simp_all add: f64_mul_commute)

lemma l2_swap64: "length xs = length ys \<Longrightarrow> l2_loop64 (zip ys xs) acc = l2_loop64 (zip xs ys) acc"
proof (induction xs ys arbitrary: acc rule: list_induct2)
  case (Cons x xs y ys)
  then show ?case using f64_sub_square [of x y] by (simp add: Let_def)
qed simp

lemma hamming_swap: "length xs = length ys \<Longrightarrow> hamming_loop (zip ys xs) acc = hamming_loop (zip xs ys) acc"
  by (induction xs ys arbitrary: acc rule: list_induct2) (simp_all add: xor.commute)

lemma bind_swap: "Option.bind a (\<lambda>x. Option.bind b (\<lambda>y. f x y)) = Option.bind b (\<lambda>y. Option.bind a (\<lambda>x. f x y))"
  by (cases a; cases b) auto

lemma bind_cong2:
  assumes "\<And>x y. a = Some x \<Longrightarrow> b = Some y \<Longrightarrow> f x y = g y x"
  shows "Option.bind a (\<lambda>x. Option.bind b (\<lambda>y. f x y)) = Option.bind b (\<lambda>y. Option.bind a (\<lambda>x. g y x))"
  using assms by (cases a; cases b) auto

lemma F32_cos_sym: "vdims v1 = vdims v2 \<Longrightarrow> vectorF32DistanceCos v1 v2 = vectorF32DistanceCos v2 v1"
  unfolding vectorF32DistanceCos_def pair_asserts_commute [of _ v1] by (auto intro!: bind_cong2 cos_swap dest!: load_length)

lemma F32_l2_sym: "vdims v1 = vdims v2 \<Longrightarrow> vectorF32DistanceL2 v1 v2 = vectorF32DistanceL2 v2 v1"
  unfolding vectorF32DistanceL2_def pair_asserts_commute [of _ v1] by (auto intro!: bind_cong2 simp: l2_swap dest!: load_length)

lemma F16_cos_sym: "vdims v1 = vdims v2 \<Longrightarrow> vectorF16DistanceCos v1 v2 = vectorF16DistanceCos v2 v1"
  unfolding vectorF16DistanceCos_def pair_asserts_commute [of _ v1] by (auto intro!: bind_cong2 cos_swap dest!: load_length)

lemma F16_l2_sym: "vdims v1 = vdims v2 \<Longrightarrow> vectorF16DistanceL2 v1 v2 = vectorF16DistanceL2 v2 v1"
  unfolding vectorF16DistanceL2_def pair_asserts_commute [of _ v1] by (auto intro!: bind_cong2 simp: l2_swap dest!: load_length)

lemma FB16_cos_sym: "vdims v1 = vdims v2 \<Longrightarrow> vectorFB16DistanceCos v1 v2 = vectorFB16DistanceCos v2 v1"
  unfolding vectorFB16DistanceCos_def pair_asserts_commute [of _ v1] by (auto intro!: bind_cong2 cos_swap dest!: load_length)

lemma FB16_l2_sym: "vdims v1 = vdims v2 \<Longrightarrow> vectorFB16DistanceL2 v1 v2 = vectorFB16DistanceL2 v2 v1"
  unfolding vectorFB16DistanceL2_def pair_asserts_commute [of _ v1] by (auto intro!: bind_cong2 simp: l2_swap dest!: load_length)

lemma F64_cos_sym: "vdims v1 = vdims v2 \<Longrightarrow> vectorF64DistanceCos v1 v2 = vectorF64DistanceCos v2 v1"
proof -
  assume d: "vdims v1 = vdims v2"
  have sw: "(case cos_loop64 (zip e1 e2) (0, 0, 0) of (dot, n1, n2) \<Rightarrow> f dot (f64_mul n1 n2)) =
        (case cos_loop64 (zip e2 e1) (0, 0, 0) of (dot, n1, n2) \<Rightarrow> f dot (f64_mul n1 n2))"
    if "length e1 = length e2" for e1 e2 :: "f64 list" and f :: "f64 \<Rightarrow> f64 \<Rightarrow> f64 option"
    using cos_loop64_swap [OF that, of 0 0 0]
    by (cases "cos_loop64 (zip e1 e2) (0, 0, 0)") (simp add: f64_mul_commute)
  show ?thesis
    unfolding vectorF64DistanceCos_def pair_asserts_commute [of _ v1] d Let_def
    by (auto intro!: bind_cong2 sw [where f = "\<lambda>a b. Some (f64_sub 0x3ff0000000000000 (f64_div a (f64_sqrt b)))"]
        dest!: load_length)
qed

lemma F64_l2_sym: "vdims v1 = vdims v2 \<Longrightarrow> vectorF64DistanceL2 v1 v2 = vectorF64DistanceL2 v2 v1"
  unfolding vectorF64DistanceL2_def pair_asserts_commute [of _ v1] by (auto intro!: bind_cong2 simp: l2_swap64 dest!: load_length)

lemma F8_l2_sym: "vdims v1 = vdims v2 \<Longrightarrow> vectorF8DistanceL2 v1 v2 = vectorF8DistanceL2 v2 v1"
proof -
  assume d: "vdims v1 = vdims v2"
  show ?thesis
    unfolding vectorF8DistanceL2_def pair_asserts_commute [of _ v1] d
    by (cases "vectorF8GetParameters (vdata v1) (vdims v2)"; cases "vectorF8GetParameters (vdata v2) (vdims v2)")
       (auto intro!: bind_cong2 simp: l2_swap dest!: memget_SomeD split: prod.splits)
qed

lemma hamming_sym: "vdims v1 = vdims v2 \<Longrightarrow> vector1BitDistanceHamming v1 v2 = vector1BitDistanceHamming v2 v1"
proof -
  assume d: "vdims v1 = vdims v2"
  show ?thesis
    unfolding vector1BitDistanceHamming_def pair_asserts_commute [of _ v1] d Let_def
    apply (cases "load 4 (vdata v1) (vdims v2 div 32) :: u32 list option"; cases "load 4 (vdata v2) (vdims v2 div 32) :: u32 list option")
       apply (auto intro!: bind_cong2 dest!: memget_SomeD load_length)
    by (subst hamming_swap, simp, subst hamming_swap, simp_all)
qed

subsection \<open>Counting bits\<close>

lemma BitsCount_table:
  "BitsCount = map (\<lambda>n. n mod 2 + n div 2 mod 2 + n div 4 mod 2 + n div 8 mod 2
     + n div 16 mod 2 + n div 32 mod 2 + n div 64 mod 2 + n div 128 mod 2) [0..<256]"
  by (simp add: BitsCount_def upt_rec)

definition bits_set :: "'a::len word \<Rightarrow> nat" where
  "bits_set w = card {k. bit w k}"

lemma bits_set_u8: "bits_set (b :: u8) = (\<Sum>k<8. of_bool (bit b k))"
proof -
  have "{k. bit b k} = {k \<in> {..<8}. bit b k}" by (auto dest: bit_imp_le_length)
  then show ?thesis by (simp add: bits_set_def sum.If_cases of_bool_def Int_def)
qed

lemma sum8: "(\<Sum>k<8. f k) = f 0 + f 1 + f 2 + f 3 + f 4 + f 5 + f 6 + (f 7 :: nat)" for f :: "nat \<Rightarrow> nat"
  by (simp add: eval_nat_numeral)

lemma BitsCount_byte: "BitsCount ! unat (b :: u8) = bits_set b"
proof -
  have b: "unat b < 256" using unsigned_less [of b] by simp
  have c: "of_bool (bit b k) = unat b div 2 ^ k mod 2" for k
    using bit_unat [of b k] by (simp add: bit_iff_odd mod_2_eq_odd)
  show ?thesis
    unfolding BitsCount_table bits_set_u8 sum8 c using b by (simp only: nth_map length_upt nth_upt) simp
qed

lemma and_ff_byte: "BitsCount ! unat (drop_bit (8 * k) (a :: u32) AND 0xff) = bits_set (byte k a)"
proof -
  have "drop_bit (8 * k) a AND 0xff = ucast (byte k a)"
    unfolding and_0xff byte_def by (simp add: first_byte)
  moreover have "unat (byte k a) < 256" using unsigned_less [of "byte k a"] by simp
  then have "unat (ucast (byte k a) :: u32) = unat (byte k a)"
    by (simp add: unsigned_ucast_eq take_bit_nat_eq_self)
  ultimately show ?thesis using BitsCount_byte [of "byte k a"] by simp
qed

lemma popcount_bytes:
  "sqlite4PopCount32 a = bits_set (byte 3 a) + bits_set (byte 2 a) + bits_set (byte 1 a) + bits_set (byte 0 a)"
proof -
  have "drop_bit 24 a AND 0xff = drop_bit 24 a"
    unfolding and_0xff by (rule bit_word_eqI) (auto simp: bit_simps dest: bit_imp_le_length)
  then show ?thesis
    using and_ff_byte [of 0 a] and_ff_byte [of 1 a] and_ff_byte [of 2 a] and_ff_byte [of 3 a]
    by (simp add: sqlite4PopCount32_def)
qed

lemma byte_xor: "byte k (a XOR b) = byte k a XOR byte k b"
  unfolding byte_def by (rule bit_word_eqI) (auto simp: bit_simps)

lemma byte_le_word:
  assumes "length bs = 4" "k < 4"
  shows "byte k (le_word bs :: u32) = bs ! k"
proof -
  obtain a b c d where bs: "bs = [a, b, c, d]"
    using assms(1) by (auto simp: length_Suc_conv numeral_eq_Suc)
  have "le_bytes 4 (le_word bs :: u32) = bs" using assms(1) by (intro le_bytes_le_word) simp_all
  then have "byte 0 (le_word bs :: u32) = a" "byte 1 (le_word bs :: u32) = b"
    "byte 2 (le_word bs :: u32) = c" "byte 3 (le_word bs :: u32) = d"
    by (simp_all add: le_bytes_def be_bytes_num bs)
  moreover have "k \<in> {0, 1, 2, 3}" using assms(2) by auto
  ultimately show ?thesis by (auto simp: bs)
qed

lemma popcount_u8: "sqlite4PopCount32 (ucast (x :: u8) XOR ucast (y :: u8)) = bits_set (x XOR y)"
proof -
  have "byte k (ucast x XOR ucast y :: u32) = (if k = 0 then x XOR y else 0)" if "k < 4" for k
    unfolding byte_def by (rule bit_word_eqI) (use that in \<open>auto simp: bit_simps dest: bit_imp_le_length\<close>)
  then show ?thesis by (simp add: popcount_bytes) (simp add: bits_set_def)
qed

text \<open>The loop over words counts the same bits as a loop over their bytes.\<close>

lemma hamming_words:
  assumes "4 * n \<le> length a" "4 * n \<le> length b"
  shows "hamming_loop (zip (map (\<lambda>i. le_word (take 4 (drop (4 * i) a))) [0..<n])
                           (map (\<lambda>i. le_word (take 4 (drop (4 * i) b))) [0..<n])) acc
         = acc + (\<Sum>i<4 * n. bits_set (a ! i XOR b ! i))"
  using assms
proof (induction n arbitrary: acc)
  case (Suc n)
  have app: "hamming_loop (xs @ ys) acc = hamming_loop ys (hamming_loop xs acc)" for xs ys acc
    by (induction xs acc rule: hamming_loop.induct) auto
  let ?x = "take 4 (drop (4 * n) a)" and ?y = "take 4 (drop (4 * n) b)"
  have "length ?x = 4" "length ?y = 4" using Suc.prems by auto
  then have "sqlite4PopCount32 (le_word ?x XOR le_word ?y)
      = (\<Sum>i<4. bits_set (a ! (4 * n + i) XOR b ! (4 * n + i)))"
    using Suc.prems by (simp add: popcount_bytes byte_xor byte_le_word eval_nat_numeral)
  moreover have "(\<Sum>i<4 * Suc n. bits_set (a ! i XOR b ! i)) =
      (\<Sum>i<4 * n. bits_set (a ! i XOR b ! i)) + (\<Sum>i<4. bits_set (a ! (4 * n + i) XOR b ! (4 * n + i)))"
    using sum.nat_group by (simp add: eval_nat_numeral)
  ultimately show ?case using Suc by (simp add: app)
qed simp

lemma hamming_bytes:
  "length xs = length ys \<Longrightarrow>
     hamming_loop (zip (map ucast xs) (map ucast ys)) acc = acc + (\<Sum>i<length xs. bits_set ((xs :: u8 list) ! i XOR ys ! i))"
proof (induction xs ys arbitrary: acc rule: list_induct2)
  case (Cons x xs y ys)
  show ?case
    using Cons.IH by (simp add: popcount_u8 sum.lessThan_Suc_shift del: sum.lessThan_Suc)
qed simp

text \<open>Component \<open>i\<close> of a 1-bit vector, as the code reads it: \<open>(data[i / 8] >> (i & 7)) & 1\<close>.\<close>

definition bit_component :: "bytes \<Rightarrow> nat \<Rightarrow> bool" where
  "bit_component d i = bit (d ! (i div 8)) (i mod 8)"

lemma bits_set_xor: "bits_set (x XOR y) = (\<Sum>k<8. of_bool (bit (x :: u8) k \<noteq> bit y k))"
  unfolding bits_set_u8 by (simp add: bit_simps)

lemma sum_bits_bytes:
  "(\<Sum>i<n. bits_set (a ! i XOR b ! i)) = (\<Sum>i<n * 8. of_bool (bit_component a i \<noteq> bit_component b i))"
proof -
  have "(\<Sum>m<n. \<Sum>i\<in>{m * 8..<m * 8 + 8}. of_bool (bit_component a i \<noteq> bit_component b i)) =
        (\<Sum>i<n * 8. of_bool (bit_component a i \<noteq> bit_component b i) :: nat)"
    by (rule sum.nat_group)
  moreover have "(\<Sum>i\<in>{m * 8..<m * 8 + 8}. of_bool (bit_component a i \<noteq> bit_component b i)) = bits_set (a ! m XOR b ! m)" for m
  proof -
    have "(\<Sum>i\<in>{m * 8..<m * 8 + 8}. of_bool (bit_component a i \<noteq> bit_component b i)) =
          (\<Sum>i\<in>{0..<8}. of_bool (bit_component a (i + m * 8) \<noteq> bit_component b (i + m * 8)))"
      using sum.shift_bounds_nat_ivl [of _ 0 "m * 8" 8] by (simp add: add.commute)
    also have "\<dots> = bits_set (a ! m XOR b ! m)"
      unfolding bits_set_xor by (intro sum.cong) (auto simp: bit_component_def)
    finally show ?thesis .
  qed
  ultimately show ?thesis by simp
qed

lemma sum_split: "m \<le> n \<Longrightarrow> (\<Sum>i<n. f i) = (\<Sum>i<m. f i) + (\<Sum>i<n - m. f (m + i))" for f :: "nat \<Rightarrow> nat"
proof (induction n)
  case (Suc n)
  then show ?case by (cases "m = Suc n") (auto simp: Suc_diff_le le_Suc_eq)
qed simp

lemma hamming_eq:
  assumes "(vdims v1 + 7) div 8 \<le> length (vdata v1)" "(vdims v1 + 7) div 8 \<le> length (vdata v2)"
    and "vdims v1 \<le> MAX_VECTOR_SZ" and ty: "vdims v1 = vdims v2" "vtype v1 = FLOAT1BIT" "vtype v2 = FLOAT1BIT"
  shows "vector1BitDistanceHamming v1 v2 =
           Some (\<Sum>i<(vdims v1 + 7) div 8. bits_set (vdata v1 ! i XOR vdata v2 ! i))"
proof -
  let ?d = "vdims v1" and ?a = "vdata v1" and ?b = "vdata v2"
  let ?n = "?d div 32" and ?l = "(?d + 7) div 8"
  let ?x = "take (?l - ?n * 4) (drop (?n * 4) ?a)" and ?y = "take (?l - ?n * 4) (drop (?n * 4) ?b)"
  have n: "?n * 4 \<le> ?l"
  proof -
    have "?n * 4 * 8 \<le> ?d" by simp
    then show ?thesis by linarith
  qed
  have la: "?n * 4 + (?l - ?n * 4) \<le> length ?a" "4 * ?n \<le> length ?a"
    and lb: "?n * 4 + (?l - ?n * 4) \<le> length ?b" "4 * ?n \<le> length ?b"
    using n assms by linarith+
  have l: "length ?x = length ?y" "length ?x = ?l - ?n * 4" using la(1) lb(1) by simp_all
  have i: "i < ?l - ?n * 4 \<Longrightarrow> ?x ! i = ?a ! (?n * 4 + i)" "i < ?l - ?n * 4 \<Longrightarrow> ?y ! i = ?b ! (?n * 4 + i)" for i
    using la lb by simp_all
  have h: "hamming_loop (zip (map ucast ?x) (map ucast ?y)) acc =
      acc + (\<Sum>i<?l - ?n * 4. bits_set (?a ! (?n * 4 + i) XOR ?b ! (?n * 4 + i)))" for acc
    unfolding hamming_bytes [OF l(1)] l(2) using i by (intro arg_cong2 [of _ _ _ _ "(+)"] refl sum.cong) simp
  show ?thesis
    unfolding vector1BitDistanceHamming_def Let_def bits_bytes_small [OF assms(3)] load_in [OF la(2)] load_in [OF lb(2)]
      memget_in [OF la(1)] memget_in [OF lb(1)] bind.bind_lunit h hamming_words [OF la(2) lb(2)]
      sum_split [OF n]
    by (simp add: mult.commute ty)
qed

text \<open>C30. The Hamming distance of two 1-bit vectors, computed a 32-bit word at a time with a bit-count
  table, is the number of components in which they differ, provided the padding bits after the last
  component agree (the encoders clear them); on vectors of another type or of two dimensions an
  assertion fails.\<close>

theorem hamming_counts_components:
  assumes "(vdims v1 + 7) div 8 \<le> length (vdata v1)" "(vdims v1 + 7) div 8 \<le> length (vdata v2)"
    and "vdims v1 \<le> MAX_VECTOR_SZ"
    and "\<forall>i \<in> {vdims v1..<(vdims v1 + 7) div 8 * 8}. bit_component (vdata v1) i = bit_component (vdata v2) i"
  shows "vector1BitDistanceHamming v1 v2 =
           (if vdims v1 = vdims v2 \<and> vtype v1 = FLOAT1BIT \<and> vtype v2 = FLOAT1BIT
            then Some (card {i. i < vdims v1 \<and> bit_component (vdata v1) i \<noteq> bit_component (vdata v2) i})
            else None)"
proof -
  let ?l = "(vdims v1 + 7) div 8" and ?P = "\<lambda>i. bit_component (vdata v1) i \<noteq> bit_component (vdata v2) i"
  have "(\<Sum>i<?l * 8. of_bool (?P i)) = card {i \<in> {..<?l * 8}. ?P i}"
    by (simp add: of_bool_def sum.If_cases Int_def)
  also have "{i \<in> {..<?l * 8}. ?P i} = {i. i < vdims v1 \<and> ?P i}"
    using assms(4) by auto
  finally have c: "(\<Sum>i<?l * 8. of_bool (?P i)) = card {i. i < vdims v1 \<and> ?P i}" .
  show ?thesis
  proof (cases "vdims v1 = vdims v2 \<and> vtype v1 = FLOAT1BIT \<and> vtype v2 = FLOAT1BIT")
    case True
    then have t: "vdims v1 = vdims v2" "vtype v1 = FLOAT1BIT" "vtype v2 = FLOAT1BIT" by blast+
    from True show ?thesis unfolding hamming_eq [OF assms(1,2,3) t] sum_bits_bytes c by simp
  next
    case False
    then show ?thesis unfolding vector1BitDistanceHamming_def by (simp only: pair_asserts_bind if_False)
  qed
qed

theorem hamming_counts_components_witness:
  "vector1BitDistanceHamming \<lparr>vflags = 0, vtype = FLOAT1BIT, vdims = 10, vdata = [0xF0, 1]\<rparr>
     \<lparr>vflags = 0, vtype = FLOAT1BIT, vdims = 10, vdata = [0x0F, 3]\<rparr>
   = Some (card {i. i < 10 \<and> bit_component [0xF0, 1] i \<noteq> bit_component [0x0F, 3] i})"
proof -
  have "\<forall>i \<in> set [10..<16]. bit_component [0xF0, 1] i = bit_component [0x0F, 3] i"
    by (simp add: upt_rec bit_component_def)
  then have "\<forall>i \<in> {10..<16}. bit_component [0xF0, 1] i = bit_component [0x0F, 3] i"
    by (simp only: set_upt)
  then show ?thesis
    using hamming_counts_components [of "\<lparr>vflags = 0, vtype = FLOAT1BIT, vdims = 10, vdata = [0xF0, 1]\<rparr>"
      "\<lparr>vflags = 0, vtype = FLOAT1BIT, vdims = 10, vdata = [0x0F, 3]\<rparr>"] by (simp add: MAX_VECTOR_SZ_def)
qed

subsection \<open>The integer sums of the quantised cosine distance\<close>

text \<open>The same distance with sums that cannot wrap.\<close>

definition f8_cos_exact :: "nat \<Rightarrow> (u8 \<times> u8) list \<Rightarrow> f32 \<Rightarrow> f32 \<Rightarrow> f32 \<Rightarrow> f32 \<Rightarrow> f32" where
  "f8_cos_exact dims es alpha1 shift1 alpha2 shift2 =
     (let total = (\<lambda>f. f32_of_int (sum_list (map f es)));
          d = f32_of_int (int dims);
          dot = f32_add (f32_add (f32_add (f32_mul (f32_mul alpha1 alpha2) (total (\<lambda>(a, b). uint a * uint b)))
                                          (f32_mul (f32_mul alpha1 shift2) (total (\<lambda>(a, b). uint a))))
                                 (f32_mul (f32_mul alpha2 shift1) (total (\<lambda>(a, b). uint b))))
                        (f32_mul (f32_mul shift1 shift2) d);
          norm = (\<lambda>alpha shift q.
             f32_add (f32_add (f32_mul (f32_mul alpha alpha) (total (\<lambda>e. uint (q e) * uint (q e))))
                              (f32_mul (f32_mul (f32_mul 0x40000000 alpha) shift) (total (\<lambda>e. uint (q e :: u8)))))
                     (f32_mul (f32_mul shift shift) d)) in
      cos_result (dot, norm alpha1 shift1 fst, norm alpha2 shift2 snd))"

lemma sum_list_u32:
  assumes "\<And>e. e \<in> set es \<Longrightarrow> 0 \<le> g e \<and> g e \<le> 65025" and "length es \<le> MAX_VECTOR_SZ"
    and "\<And>e. e \<in> set es \<Longrightarrow> f e = (of_int (g e) :: u32)"
  shows "uint (sum_list (map f es)) = sum_list (map g es)"
proof -
  have "sum_list (map f es) = of_int (sum_list (map g es))"
    using assms(3) by (induction es) auto
  moreover have "0 \<le> sum_list (map g es) \<and> sum_list (map g es) \<le> 65025 * int (length es)"
    using assms(1) by (induction es) (auto simp: algebra_simps, smt (verit))
  moreover have "65025 * int (length es) \<le> 65025 * 65536"
    using assms(2) by (simp add: MAX_VECTOR_SZ_def)
  ultimately show ?thesis by (simp add: uint_word_of_int)
qed

lemma u8_square: "0 \<le> uint (a :: u8) * uint (b :: u8) \<and> uint a * uint b \<le> 65025"
proof -
  have "uint a \<le> 255" "uint b \<le> 255" using uint_lt2p [of a] uint_lt2p [of b] by simp_all
  then have "uint a * uint b \<le> 255 * 255" by (intro mult_mono) simp_all
  then show ?thesis by simp
qed

text \<open>C31. The 32-bit accumulators of the quantised cosine distance never overflow: for every vector
  the database accepts (at most 65536 components) it equals the distance computed with exact sums.\<close>

theorem f8_cos_no_overflow:
  assumes "length es \<le> MAX_VECTOR_SZ"
  shows "f8_cos dims es alpha1 shift1 alpha2 shift2 = f8_cos_exact dims es alpha1 shift1 alpha2 shift2"
proof -
  have b: "0 \<le> uint (a :: u8) \<and> uint a \<le> 65025" for a using uint_lt2p [of a] by simp
  have s: "uint (sum_list (map (\<lambda>(a, b). ucast a :: u32) es)) = sum_list (map (\<lambda>(a, b). uint a) es)"
    "uint (sum_list (map (\<lambda>(a, b). ucast b :: u32) es)) = sum_list (map (\<lambda>(a, b). uint b) es)"
    "uint (sum_list (map (\<lambda>(a, b). ucast a * ucast a :: u32) es)) = sum_list (map (\<lambda>(a, b). uint a * uint a) es)"
    "uint (sum_list (map (\<lambda>(a, b). ucast b * ucast b :: u32) es)) = sum_list (map (\<lambda>(a, b). uint b * uint b) es)"
    "uint (sum_list (map (\<lambda>(a, b). ucast a * ucast b :: u32) es)) = sum_list (map (\<lambda>(a, b). uint a * uint b) es)"
    by (rule sum_list_u32; use assms b u8_square in \<open>auto\<close>)+
  show ?thesis
    unfolding f8_cos_def f8_cos_exact_def Let_def s by (simp add: case_prod_unfold)
qed

theorem f8_cos_no_overflow_witness:
  "f8_cos 2 [(255, 255), (255, 255)] 0x3f800000 0 0x3f800000 0 = f8_cos_exact 2 [(255, 255), (255, 255)] 0x3f800000 0 0x3f800000 0"
  by (rule f8_cos_no_overflow) (simp add: MAX_VECTOR_SZ_def)

subsection \<open>Text output\<close>

lemma marshal_text_length:
  assumes "\<forall>v \<in> set vs. length v \<le> 31"
  shows "length (marshal_text vs) \<le> 2 + length vs * 32"
proof -
  have "length (concat (map (\<lambda>v. v @ '','') vs)) \<le> length vs * 32"
    using assms by (induction vs) auto
  then show ?thesis by (auto simp: marshal_text_def Let_def)
qed

lemma marshal_load_length:
  "load k d n = Some (es :: 'a::len word list) \<Longrightarrow> length (marshal_text (map (\<lambda>e. take 31 (f e)) es)) \<le> 2 + n * 33"
  using marshal_text_length [of "map (\<lambda>e. take 31 (f e)) es"] load_length [of k d n es] by auto

text \<open>C34. The text form of a vector fits the buffer allocated for it, \<open>2 + dims * 33\<close> bytes, whatever the
  element formatter prints, for both marshalling routines.\<close>

theorem marshal_fits_buffer:
  "(case vectorF32MarshalToText fmt v of None \<Rightarrow> True
    | Some t \<Rightarrow> length t \<le> 2 + vdims v * (SINGLE_FLOAT_CHAR_LIMIT + 1) \<and> hd t = CHR ''['' \<and> last t = CHR '']'')
   \<and> (case vectorF64MarshalToText fmt v of None \<Rightarrow> True
    | Some t \<Rightarrow> length t \<le> 2 + vdims v * (SINGLE_DOUBLE_CHAR_LIMIT + 1) \<and> hd t = CHR ''['' \<and> last t = CHR '']'')"
proof -
  have ends: "hd (marshal_text vs) = CHR ''['' \<and> last (marshal_text vs) = CHR '']''" for vs
    by (cases vs) (auto simp: marshal_text_def Let_def butlast_append)
  show ?thesis
    unfolding vectorF32MarshalToText_def vectorF64MarshalToText_def formatF32_def formatF64_def c_assert_bind
      SINGLE_FLOAT_CHAR_LIMIT_def SINGLE_DOUBLE_CHAR_LIMIT_def
    using marshal_load_length [where f = fmt] marshal_load_length [where f = "\<lambda>e. fmt (f64_of_f32 e)"] by (auto simp: ends split: option.splits)
qed

subsection \<open>Properties of the half formats\<close>

text \<open>C32. Every binary16 number other than a NaN survives the trip through \<open>float\<close> and back: zeroes,
  denormals, normal numbers and infinities are widened exactly and rounded back to themselves. (The
  normalising loop for denormals ends within its bound.)\<close>

theorem f16_roundtrip_all:
  "fp_decode 10 5 (uint h) = FNaN \<or> vectorF16FromFloat (vectorF16ToFloat h) = h"
  by (rule f16_roundtrip)

text \<open>Narrowing to a binary16 denormal does not round to nearest as its comment says: the fraction is
  shifted before the rounding test, so the bits shifted out are lost. The float just above 2^-25 is
  nearest to the smallest denormal, yet the code returns zero.\<close>

theorem f16_denormal_rounding:
  "vectorF16FromFloat 0x33000001 = 0 \<and> fp_encode 10 5 (f32_dec 0x33000001) = 1"
  by code_simp

text \<open>The bfloat16 codec: widening and narrowing again is the identity on all 65536 patterns, and
  narrowing keeps the upper half of the \<open>float\<close> (it truncates towards zero).\<close>

theorem fb16_codec:
  "vectorFB16FromFloat (vectorFB16ToFloat h) = h
   \<and> vectorFB16ToFloat (vectorFB16FromFloat f) = f AND 0xFFFF0000"
proof
  show "vectorFB16FromFloat (vectorFB16ToFloat h) = h"
    unfolding vectorFB16FromFloat_def vectorFB16ToFloat_def
    by (rule bit_word_eqI) (auto simp: bit_simps)
  have m: "(0xFFFF0000 :: u32) = NOT (mask 16)" by (simp add: mask_eq_exp_minus_1)
  show "vectorFB16ToFloat (vectorFB16FromFloat f) = f AND 0xFFFF0000"
    unfolding vectorFB16FromFloat_def vectorFB16ToFloat_def m
    by (rule bit_word_eqI) (auto simp: bit_simps)
qed

end
