(* ===== verification/VectorCore.thy ===== *)
theory VectorCore
  imports VectorFormats
begin

unbundle bit_operations_syntax

text \<open>
  \<open>vector.c\<close>: sizes, allocation, dispatch over the six formats, the blob form with its
  trailing meta bytes, the text parser, detection of type and dimensions, conversion
  between formats and the SQL functions. \<open>None\<close> stands for undefined behaviour of the C
  code (an access outside a buffer, a float out of the range of \<open>int\<close>) and for a failed
  \<open>assert\<close>, an error is the left side of a sum with the C return code. The fresh memory
  \<open>malloc\<close> hands out has arbitrary contents, given by \<open>junk\<close>; \<open>strtod\<close> and the \<open>%g\<close> formatter are parameters.
\<close>

subsection \<open>Values, errors, results\<close>

datatype sqlvalue = VNull | VInteger i64 | VFloat f64 | VText bytes | VBlob bytes

datatype vec_error =
    ErrStart | ErrFloatLength | ErrInvalidFloat nat | ErrMaxSize | ErrEnd | ErrAfterEnd
  | ErrMetaLength vector_type nat | ErrMetaType nat | ErrDataSize | ErrMaxDims int
  | ErrTypeHint | ErrValueType | ErrTypesDiffer | ErrDimsDiffer | ErrL2OnBits

datatype sqlresult = RNone | RNull | RError vec_error | RBlob bytes | RText string | RDouble f64

subsection \<open>Sizes and objects\<close>

definition vectorInit :: "vector_type \<Rightarrow> nat \<Rightarrow> bytes \<Rightarrow> vector" where
  "vectorInit ty dims d = \<lparr>vflags = 0, vtype = ty, vdims = dims, vdata = d\<rparr>"

definition malloc :: "(nat \<Rightarrow> u8) \<Rightarrow> nat \<Rightarrow> bytes" where
  "malloc junk n = map junk [0..<n]"

definition vectorAlloc :: "(nat \<Rightarrow> u8) \<Rightarrow> vector_type \<Rightarrow> nat \<Rightarrow> vector" where
  "vectorAlloc junk ty dims = vectorInit ty dims (malloc junk (vectorDataSize ty dims))"

definition VECTOR_FLAGS_STATIC :: u16 where "VECTOR_FLAGS_STATIC = 1"

definition vectorInitStatic :: "vector_type \<Rightarrow> nat \<Rightarrow> bytes \<Rightarrow> vector" where
  "vectorInitStatic ty dims pBlob =
     \<lparr>vflags = VECTOR_FLAGS_STATIC, vtype = ty, vdims = dims, vdata = pBlob\<rparr>"

text \<open>\<open>int dims\<close> handed to the allocator becomes the unsigned \<open>VectorDims\<close>.\<close>

definition vectorContextAlloc :: "(nat \<Rightarrow> u8) \<Rightarrow> vector_type \<Rightarrow> int \<Rightarrow> vector" where
  "vectorContextAlloc junk ty dims =
     (let d = nat (dims mod 2 ^ 32) in vectorInit ty d (malloc junk (vectorDataSize ty d)))"

subsection \<open>Dispatch over the formats\<close>

definition vectorDistanceCos :: "vector \<Rightarrow> vector \<Rightarrow> f32 option" where
  "vectorDistanceCos v1 v2 =
     do { c_assert (vtype v1 = vtype v2);
          (case vtype v1 of
             FLOAT32 \<Rightarrow> vectorF32DistanceCos v1 v2
           | FLOAT64 \<Rightarrow> map_option f32_of_f64 (vectorF64DistanceCos v1 v2)
           | FLOAT1BIT \<Rightarrow> map_option (\<lambda>n. f32_of_int (int n)) (vector1BitDistanceHamming v1 v2)
           | FLOAT8 \<Rightarrow> vectorF8DistanceCos v1 v2
           | FLOAT16 \<Rightarrow> vectorF16DistanceCos v1 v2
           | FLOATB16 \<Rightarrow> vectorFB16DistanceCos v1 v2) }"

definition vectorDistanceL2 :: "vector \<Rightarrow> vector \<Rightarrow> f32 option" where
  "vectorDistanceL2 v1 v2 =
     do { c_assert (vtype v1 = vtype v2);
          (case vtype v1 of
             FLOAT32 \<Rightarrow> vectorF32DistanceL2 v1 v2
           | FLOAT64 \<Rightarrow> map_option f32_of_f64 (vectorF64DistanceL2 v1 v2)
           | FLOAT8 \<Rightarrow> vectorF8DistanceL2 v1 v2
           | FLOAT16 \<Rightarrow> vectorF16DistanceL2 v1 v2
           | FLOATB16 \<Rightarrow> vectorFB16DistanceL2 v1 v2
           | FLOAT1BIT \<Rightarrow> None) }"

definition vectorSerializeToBlob :: "vector \<Rightarrow> bytes \<Rightarrow> nat \<Rightarrow> nat \<Rightarrow> bytes option" where
  "vectorSerializeToBlob pVector pBlob off nBlobSize =
     (case vtype pVector of
        FLOAT32 \<Rightarrow> vectorF32SerializeToBlob pVector pBlob off nBlobSize
      | FLOAT64 \<Rightarrow> vectorF64SerializeToBlob pVector pBlob off nBlobSize
      | FLOAT1BIT \<Rightarrow> vector1BitSerializeToBlob pVector pBlob off nBlobSize
      | FLOAT8 \<Rightarrow> vectorF8SerializeToBlob pVector pBlob off nBlobSize
      | FLOAT16 \<Rightarrow> vectorF16SerializeToBlob pVector pBlob off nBlobSize
      | FLOATB16 \<Rightarrow> vectorFB16SerializeToBlob pVector pBlob off nBlobSize)"

definition vectorMarshalToText :: "(f64 \<Rightarrow> string) \<Rightarrow> vector \<Rightarrow> sqlresult option" where
  "vectorMarshalToText fmt pVector =
     (case vtype pVector of
        FLOAT32 \<Rightarrow> map_option RText (vectorF32MarshalToText fmt pVector)
      | FLOAT64 \<Rightarrow> map_option RText (vectorF64MarshalToText fmt pVector)
      | _ \<Rightarrow> None)"

subsection \<open>Text\<close>

definition sqlite4Isspace :: "u8 \<Rightarrow> bool" where
  "sqlite4Isspace c = (9 \<le> c \<and> c \<le> 13 \<or> c = 32)"

definition sqlite4Isdigit :: "u8 \<Rightarrow> bool" where
  "sqlite4Isdigit c = (48 \<le> c \<and> c \<le> 57)"

definition MAX_FLOAT_CHAR_SZ :: nat where "MAX_FLOAT_CHAR_SZ = 1024"

text \<open>The string a \<open>char *\<close> into the buffer denotes; without a NUL the read runs off its end.\<close>

definition cstr :: "bytes \<Rightarrow> bytes option" where
  "cstr buf = (if 0 \<in> set buf then Some (takeWhile (\<lambda>c. c \<noteq> 0) buf) else None)"

text \<open>
  The element loop. \<open>pzText\<close> is what is left of the text up to its NUL; the result is the
  text where the loop stopped, the number of elements and the data written. Formatting
  \<open>valueBuf\<close> into a message reads it as a string, like \<open>strtod\<close>.
\<close>

fun parseElems ::
  "(bytes \<Rightarrow> f64 \<times> nat) \<Rightarrow> vector_type \<Rightarrow> bytes \<Rightarrow> bytes \<Rightarrow> nat \<Rightarrow> nat \<Rightarrow> bytes
     \<Rightarrow> (vec_error + bytes \<times> nat \<times> bytes) option" where
  "parseElems strtod ty [] valueBuf iBuf iElem d = Some (Inr ([], iElem, d))"
| "parseElems strtod ty (this # rest) valueBuf iBuf iElem d =
     (if sqlite4Isspace this then parseElems strtod ty rest valueBuf iBuf iElem d
      else if this \<noteq> 44 \<and> this \<noteq> 93 then
        (if iBuf > MAX_FLOAT_CHAR_SZ then map_option (\<lambda>s. Inl ErrFloatLength) (cstr valueBuf)
         else Option.bind (memput valueBuf iBuf [this]) (\<lambda>valueBuf.
                parseElems strtod ty rest valueBuf (iBuf + 1) iElem d))
      else if this = 93 \<and> iElem = 0 \<and> iBuf = 0 then Some (Inr (this # rest, iElem, d))
      else Option.bind (cstr valueBuf) (\<lambda>s.
        let (elem, consumed) = strtod s in
        if consumed = 0 then Some (Inl (ErrInvalidFloat iElem))
        else if iElem \<ge> MAX_VECTOR_SZ then Some (Inl ErrMaxSize)
        else Option.bind (memput valueBuf 0 (replicate iBuf 0)) (\<lambda>valueBuf.
          Option.bind
            (case ty of
               FLOAT32 \<Rightarrow> mem_wr 4 d iElem (f32_of_f64 elem)
             | FLOAT64 \<Rightarrow> mem_wr 8 d iElem elem
             | _ \<Rightarrow> Some d) (\<lambda>d.
          if this = 93 then Some (Inr (this # rest, iElem + 1, d))
          else parseElems strtod ty rest valueBuf 0 (iElem + 1) d))))"

definition vectorParseSqliteText ::
  "(bytes \<Rightarrow> f64 \<times> nat) \<Rightarrow> bytes \<Rightarrow> vector \<Rightarrow> (int \<times> vec_error + vector) option" where
  "vectorParseSqliteText strtod txt pVector =
     do { c_assert (vtype pVector = FLOAT32 \<or> vtype pVector = FLOAT64);
          (let pzText = dropWhile sqlite4Isspace (takeWhile (\<lambda>c. c \<noteq> 0) txt) in
           case pzText of
             [] \<Rightarrow> Some (Inl (-1, ErrStart))
           | c # pzText \<Rightarrow>
               if c \<noteq> 91 then Some (Inl (-1, ErrStart))
               else
                 map_option
                   (\<lambda>r. case r of
                      Inl e \<Rightarrow> Inl (-1, e)
                    | Inr (pzText, iElem, d) \<Rightarrow>
                        (case dropWhile sqlite4Isspace pzText of
                           [] \<Rightarrow> Inl (-1, ErrEnd)
                         | c # pzText \<Rightarrow>
                             if c \<noteq> 93 then Inl (-1, ErrEnd)
                             else if dropWhile sqlite4Isspace pzText \<noteq> [] then Inl (-1, ErrAfterEnd)
                             else Inr (pVector\<lparr>vdims := iElem, vdata := d\<rparr>)))
                   (parseElems strtod (vtype pVector) pzText (replicate (MAX_FLOAT_CHAR_SZ + 1) 0) 0 0
                      (vdata pVector))) }"

subsection \<open>The blob form\<close>

definition to_int32 :: "int \<Rightarrow> int" where
  "to_int32 x = (x + 2 ^ 31) mod 2 ^ 32 - 2 ^ 31"

definition c_div :: "int \<Rightarrow> int \<Rightarrow> int" where
  "c_div a b = (if 0 \<le> a then a div b else - (- a div b))"

text \<open>Type, dimensions (an \<open>int\<close>) and size of the data part; return code 1 with an error.\<close>

definition vectorParseMeta :: "bytes \<Rightarrow> int \<times> vec_error + vector_type \<times> int \<times> nat" where
  "vectorParseMeta pBlob =
     (let nBlobSize = length pBlob in
      if nBlobSize mod 2 = 0 then Inr (FLOAT32, int (nBlobSize div 4), nBlobSize)
      else
        let ty = unat (pBlob ! (nBlobSize - 1)); nBlobSize = nBlobSize - 1 in
        case type_of_code ty of
          Some FLOAT32 \<Rightarrow>
            if nBlobSize mod 4 \<noteq> 0 then Inl (1, ErrMetaLength FLOAT32 nBlobSize)
            else Inr (FLOAT32, int (nBlobSize div 4), nBlobSize)
        | Some FLOAT64 \<Rightarrow>
            if nBlobSize mod 8 \<noteq> 0 then Inl (1, ErrMetaLength FLOAT64 nBlobSize)
            else Inr (FLOAT64, int (nBlobSize div 8), nBlobSize)
        | Some FLOAT1BIT \<Rightarrow>
            if nBlobSize = 0 \<or> nBlobSize mod 2 \<noteq> 0 then Inl (1, ErrMetaLength FLOAT1BIT nBlobSize)
            else
              let dims = to_int32 (int nBlobSize * 8 - int (unat (pBlob ! (nBlobSize - 1)))) in
              Inr (FLOAT1BIT, dims, nat (c_div (dims + 7) 8 mod 2 ^ 64))
        | Some FLOAT8 \<Rightarrow>
            if nBlobSize < 2 \<or> nBlobSize mod 2 \<noteq> 0 then Inl (1, ErrMetaLength FLOAT8 nBlobSize)
            else
              Inr (FLOAT8, to_int32 (int nBlobSize - 2 - 4 - 4 - int (unat (pBlob ! (nBlobSize - 1)))),
                   nBlobSize - 2)
        | Some FLOAT16 \<Rightarrow>
            if nBlobSize mod 2 \<noteq> 0 then Inl (1, ErrMetaLength FLOAT16 nBlobSize)
            else Inr (FLOAT16, int (nBlobSize div 2), nBlobSize)
        | Some FLOATB16 \<Rightarrow>
            if nBlobSize mod 2 \<noteq> 0 then Inl (1, ErrMetaLength FLOATB16 nBlobSize)
            else Inr (FLOATB16, int (nBlobSize div 2), nBlobSize)
        | None \<Rightarrow> Inl (1, ErrMetaType ty))"

definition vectorDeserializeFromBlob :: "vector \<Rightarrow> bytes \<Rightarrow> nat \<Rightarrow> vector option" where
  "vectorDeserializeFromBlob pVector pBlob nBlobSize =
     (case vtype pVector of
        FLOAT32 \<Rightarrow> vectorF32DeserializeFromBlob pVector pBlob nBlobSize
      | FLOAT64 \<Rightarrow> vectorF64DeserializeFromBlob pVector pBlob nBlobSize
      | FLOAT1BIT \<Rightarrow> vector1BitDeserializeFromBlob pVector pBlob nBlobSize
      | FLOAT8 \<Rightarrow> vectorF8DeserializeFromBlob pVector pBlob nBlobSize
      | FLOAT16 \<Rightarrow> vectorF16DeserializeFromBlob pVector pBlob nBlobSize
      | FLOATB16 \<Rightarrow> vectorFB16DeserializeFromBlob pVector pBlob nBlobSize)"

definition vectorParseSqliteBlobWithType ::
  "bytes \<Rightarrow> vector \<Rightarrow> (int \<times> vec_error + vector) option" where
  "vectorParseSqliteBlobWithType pBlob pVector =
     (case vectorParseMeta pBlob of
        Inl (rc, e) \<Rightarrow> Some (Inl (1, e))
      | Inr (ty, dims, nDataSize) \<Rightarrow>
          if nDataSize \<noteq> vectorDataSize (vtype pVector) (vdims pVector) then Some (Inl (1, ErrDataSize))
          else map_option Inr (vectorDeserializeFromBlob pVector pBlob nDataSize))"

definition detectBlobVectorParameters :: "bytes \<Rightarrow> int \<times> vec_error + vector_type \<times> int" where
  "detectBlobVectorParameters pBlob =
     (case vectorParseMeta pBlob of
        Inl (rc, e) \<Rightarrow> Inl (1, e)
      | Inr (ty, dims, nDataSize) \<Rightarrow>
          if dims > int MAX_VECTOR_SZ then Inl (1, ErrMaxDims dims) else Inr (ty, dims))"

text \<open>The hint is 0 (\<open>None\<close>) or a type; dimensions are commas, plus one if there is a digit.\<close>

definition detectTextVectorParameters ::
  "bytes \<Rightarrow> vector_type option \<Rightarrow> int \<times> vec_error + vector_type \<times> int" where
  "detectTextVectorParameters txt typeHint =
     (let dims = int (length (filter (\<lambda>c. c = 44) txt)) + (if \<exists>c \<in> set txt. sqlite4Isdigit c then 1 else 0) in
      case typeHint of
        None \<Rightarrow> Inr (FLOAT32, dims)
      | Some FLOAT32 \<Rightarrow> Inr (FLOAT32, dims)
      | Some FLOAT64 \<Rightarrow> Inr (FLOAT64, dims)
      | _ \<Rightarrow> Inl (-1, ErrTypeHint))"

definition detectVectorParameters ::
  "sqlvalue \<Rightarrow> vector_type option \<Rightarrow> int \<times> vec_error + vector_type \<times> int" where
  "detectVectorParameters arg typeHint =
     (case arg of
        VBlob b \<Rightarrow> detectBlobVectorParameters b
      | VText t \<Rightarrow> detectTextVectorParameters t typeHint
      | _ \<Rightarrow> Inl (-1, ErrValueType))"

definition vectorParseWithType ::
  "(bytes \<Rightarrow> f64 \<times> nat) \<Rightarrow> sqlvalue \<Rightarrow> vector \<Rightarrow> (int \<times> vec_error + vector) option" where
  "vectorParseWithType strtod arg pVector =
     (case arg of
        VBlob b \<Rightarrow> vectorParseSqliteBlobWithType b pVector
      | VText t \<Rightarrow> vectorParseSqliteText strtod t pVector
      | _ \<Rightarrow> Some (Inl (-1, ErrValueType)))"

text \<open>For \<open>FLOAT8\<close> the assertion that the size of the data is even always holds (it ends with two floats).\<close>

definition vectorMetaSize :: "vector_type \<Rightarrow> nat \<Rightarrow> nat" where
  "vectorMetaSize ty dims =
     (case ty of
        FLOAT32 \<Rightarrow> 0
      | FLOAT1BIT \<Rightarrow> (if vectorDataSize ty dims mod 2 = 0 then 1 else 0) + 1 + 1
      | FLOAT8 \<Rightarrow> 1 + 1 + 1
      | _ \<Rightarrow> 1)"

definition vectorSerializeMeta :: "vector \<Rightarrow> nat \<Rightarrow> bytes \<Rightarrow> bytes option" where
  "vectorSerializeMeta pVector nDataSize pBlob =
     (let nBlobSize = length pBlob; ty = of_nat (type_code (vtype pVector)) :: u8 in
      case vtype pVector of
        FLOAT32 \<Rightarrow> Some pBlob
      | FLOAT1BIT \<Rightarrow>
          do { c_assert (nBlobSize mod 2 = 1);
               c_assert (nBlobSize \<ge> 3);
               b \<leftarrow> memput pBlob (nBlobSize - 1) [ty];
               b \<leftarrow> memput b (nBlobSize - 2) [of_int (8 * (int nBlobSize - 1) - int (vdims pVector))];
               if vectorMetaSize FLOAT1BIT (vdims pVector) = 3 then memput b (nBlobSize - 3) [0] else Some b }
      | FLOAT8 \<Rightarrow>
          do { c_assert (nBlobSize mod 2 = 1);
               c_assert (nDataSize mod 2 = 0);
               c_assert (nBlobSize = nDataSize + 3);
               b \<leftarrow> memput pBlob (nBlobSize - 1) [ty];
               b \<leftarrow> memput b (nBlobSize - 2) [of_nat (align (vdims pVector) 4 - vdims pVector)];
               memput b (nBlobSize - 3) [0] }
      | _ \<Rightarrow>
          do { c_assert (nDataSize mod 2 = 0);
               c_assert (nBlobSize = nDataSize + 1);
               memput pBlob (nBlobSize - 1) [ty] })"

text \<open>
  The blob a vector function returns. Without any byte the code hands \<open>sqlite4_result_blob\<close> a null
  pointer, which makes the result SQL NULL. (A blob has at most 524289 bytes, far below the
  default length limit of a value.)
\<close>

definition vectorSerializeWithMeta :: "(nat \<Rightarrow> u8) \<Rightarrow> vector \<Rightarrow> sqlresult option" where
  "vectorSerializeWithMeta junk pVector =
     do { c_assert (vdims pVector \<le> MAX_VECTOR_SZ);
          let nDataSize = vectorDataSize (vtype pVector) (vdims pVector);
          let nMetaSize = vectorMetaSize (vtype pVector) (vdims pVector);
          let nBlobSize = nDataSize + nMetaSize;
          if nBlobSize = 0 then Some RNull
          else do {
            pBlob \<leftarrow> vectorSerializeToBlob pVector (malloc junk nBlobSize) 0 nDataSize;
            pBlob \<leftarrow> vectorSerializeMeta pVector nDataSize pBlob;
            Some (RBlob pBlob) } }"

subsection \<open>Conversion\<close>

text \<open>
  The destination loops: \<open>put_f32\<close> and its siblings store the elements in order,
  \<open>put_1bit\<close> clears the bytes it will use and sets the bits of the positive elements.
\<close>

definition put_f32 :: "vector \<Rightarrow> f32 list \<Rightarrow> vector option" where
  "put_f32 pTo es = map_option (\<lambda>d. pTo\<lparr>vdata := d\<rparr>) (store 4 (vdata pTo) 0 es)"

definition put_f64 :: "vector \<Rightarrow> f64 list \<Rightarrow> vector option" where
  "put_f64 pTo es = map_option (\<lambda>d. pTo\<lparr>vdata := d\<rparr>) (store 8 (vdata pTo) 0 es)"

definition put_u16 :: "vector \<Rightarrow> u16 list \<Rightarrow> vector option" where
  "put_u16 pTo es = map_option (\<lambda>d. pTo\<lparr>vdata := d\<rparr>) (store 2 (vdata pTo) 0 es)"

fun set_bits :: "bytes \<Rightarrow> nat \<Rightarrow> bool list \<Rightarrow> bytes option" where
  "set_bits d i [] = Some d"
| "set_bits d i (b # bs) =
     (if b then
        Option.bind (mem_rd 1 d (i div 8)) (\<lambda>x.
        Option.bind (mem_wr 1 d (i div 8) ((x :: u8) OR push_bit (i mod 8) 1)) (\<lambda>d. set_bits d (Suc i) bs))
      else set_bits d (Suc i) bs)"

definition put_1bit :: "vector \<Rightarrow> bool list \<Rightarrow> vector option" where
  "put_1bit pTo bs =
     Option.bind (memput (vdata pTo) 0 (replicate ((length bs + 7) div 8) 0)) (\<lambda>d.
       map_option (\<lambda>d. pTo\<lparr>vdata := d\<rparr>) (set_bits d 0 bs))"

text \<open>The bits of a 1-bit vector: \<open>((src[i / 8] >> (i & 7)) & 1) == 1\<close>.\<close>

definition get_1bit :: "bytes \<Rightarrow> nat \<Rightarrow> bool list option" where
  "get_1bit d n =
     those (map (\<lambda>i. map_option (\<lambda>x. drop_bit (i mod 8) (x :: u8) AND 1 = 1) (mem_rd 1 d (i div 8))) [0..<n])"

text \<open>The assertions of each conversion from the type \<open>ty\<close>; the default branches are \<open>assert(0)\<close>.\<close>

definition convert_asserts :: "vector_type \<Rightarrow> vector \<Rightarrow> vector \<Rightarrow> unit option" where
  "convert_asserts ty pFrom pTo =
     do { c_assert (vdims pFrom = vdims pTo);
          c_assert (vtype pFrom \<noteq> vtype pTo);
          c_assert (vtype pFrom = ty) }"

lemma convert_asserts_bind [simp]:
  "Option.bind (convert_asserts ty v w) f =
     (if vdims v = vdims w \<and> vtype v \<noteq> vtype w \<and> vtype v = ty then f () else None)"
  by (simp add: convert_asserts_def c_assert_def)

definition vectorConvertFromF32 :: "vector \<Rightarrow> vector \<Rightarrow> vector option" where
  "vectorConvertFromF32 pFrom pTo =
     do { convert_asserts FLOAT32 pFrom pTo;
          Option.bind (load 4 (vdata pFrom) (vdims pFrom)) (\<lambda>src.
            case vtype pTo of
              FLOAT64 \<Rightarrow> put_f64 pTo (map f64_of_f32 src)
            | FLOAT1BIT \<Rightarrow> put_1bit pTo (map (\<lambda>x. f32_lt 0 x) src)
            | FLOAT16 \<Rightarrow> put_u16 pTo (map vectorF16FromFloat src)
            | FLOATB16 \<Rightarrow> put_u16 pTo (map vectorFB16FromFloat src)
            | _ \<Rightarrow> None) }"

definition vectorConvertFromF64 :: "vector \<Rightarrow> vector \<Rightarrow> vector option" where
  "vectorConvertFromF64 pFrom pTo =
     do { convert_asserts FLOAT64 pFrom pTo;
          Option.bind (load 8 (vdata pFrom) (vdims pFrom)) (\<lambda>src.
            case vtype pTo of
              FLOAT32 \<Rightarrow> put_f32 pTo (map f32_of_f64 src)
            | FLOAT1BIT \<Rightarrow> put_1bit pTo (map (\<lambda>x. f64_lt 0 x) src)
            | FLOAT16 \<Rightarrow> put_u16 pTo (map (\<lambda>x. vectorF16FromFloat (f32_of_f64 x)) src)
            | FLOATB16 \<Rightarrow> put_u16 pTo (map (\<lambda>x. vectorFB16FromFloat (f32_of_f64 x)) src)
            | _ \<Rightarrow> None) }"

definition vectorConvertFrom1Bit :: "vector \<Rightarrow> vector \<Rightarrow> vector option" where
  "vectorConvertFrom1Bit pFrom pTo =
     do { convert_asserts FLOAT1BIT pFrom pTo;
          Option.bind (get_1bit (vdata pFrom) (vdims pFrom)) (\<lambda>src.
            case vtype pTo of
              FLOAT32 \<Rightarrow> put_f32 pTo (map (\<lambda>b. if b then f32_of_int 1 else f32_of_int (-1)) src)
            | FLOAT64 \<Rightarrow> put_f64 pTo (map (\<lambda>b. if b then f64_of_int 1 else f64_of_int (-1)) src)
            | FLOAT16 \<Rightarrow>
                (let positive = vectorF16FromFloat (f32_of_int 1); negative = vectorF16FromFloat (f32_of_int (-1)) in
                 put_u16 pTo (map (\<lambda>b. if b then positive else negative) src))
            | FLOATB16 \<Rightarrow>
                (let positive = vectorFB16FromFloat (f32_of_int 1); negative = vectorFB16FromFloat (f32_of_int (-1)) in
                 put_u16 pTo (map (\<lambda>b. if b then positive else negative) src))
            | _ \<Rightarrow> None) }"

definition vectorConvertFromF8 :: "vector \<Rightarrow> vector \<Rightarrow> vector option" where
  "vectorConvertFromF8 pFrom pTo =
     do { convert_asserts FLOAT8 pFrom pTo;
          Option.bind (vectorF8GetParameters (vdata pFrom) (vdims pFrom)) (\<lambda>(alpha, shift).
          Option.bind (memget (vdata pFrom) 0 (vdims pFrom)) (\<lambda>qs.
            let src = map (f8_elem alpha shift) qs in
            case vtype pTo of
              FLOAT32 \<Rightarrow> put_f32 pTo src
            | FLOAT64 \<Rightarrow> put_f64 pTo (map f64_of_f32 src)
            | FLOAT1BIT \<Rightarrow> put_1bit pTo (map (\<lambda>x. f32_lt 0 x) src)
            | FLOAT16 \<Rightarrow> put_u16 pTo (map vectorF16FromFloat src)
            | FLOATB16 \<Rightarrow> put_u16 pTo (map vectorFB16FromFloat src)
            | _ \<Rightarrow> None)) }"

definition vectorConvertFromF16 :: "vector \<Rightarrow> vector \<Rightarrow> vector option" where
  "vectorConvertFromF16 pFrom pTo =
     do { convert_asserts FLOAT16 pFrom pTo;
          Option.bind (load 2 (vdata pFrom) (vdims pFrom)) (\<lambda>src.
            case vtype pTo of
              FLOAT32 \<Rightarrow> put_f32 pTo (map vectorF16ToFloat src)
            | FLOAT64 \<Rightarrow> put_f64 pTo (map (\<lambda>h. f64_of_f32 (vectorF16ToFloat h)) src)
            | FLOATB16 \<Rightarrow> put_u16 pTo (map (\<lambda>h. vectorFB16FromFloat (vectorF16ToFloat h)) src)
            | FLOAT1BIT \<Rightarrow> put_1bit pTo (map (\<lambda>h. f32_lt 0 (vectorF16ToFloat h)) src)
            | _ \<Rightarrow> None) }"

definition vectorConvertFromFB16 :: "vector \<Rightarrow> vector \<Rightarrow> vector option" where
  "vectorConvertFromFB16 pFrom pTo =
     do { convert_asserts FLOATB16 pFrom pTo;
          Option.bind (load 2 (vdata pFrom) (vdims pFrom)) (\<lambda>src.
            case vtype pTo of
              FLOAT32 \<Rightarrow> put_f32 pTo (map vectorFB16ToFloat src)
            | FLOAT64 \<Rightarrow> put_f64 pTo (map (\<lambda>h. f64_of_f32 (vectorFB16ToFloat h)) src)
            | FLOAT16 \<Rightarrow> put_u16 pTo (map (\<lambda>h. vectorF16FromFloat (vectorFB16ToFloat h)) src)
            | FLOAT1BIT \<Rightarrow> put_1bit pTo (map (\<lambda>h. f32_lt 0 (vectorFB16ToFloat h)) src)
            | _ \<Rightarrow> None) }"

text \<open>\<open>(int)(f + 0.5)\<close> is undefined when the sum is a NaN or does not fit.\<close>

definition clip :: "f32 \<Rightarrow> int \<Rightarrow> int \<Rightarrow> int option" where
  "clip f minF maxF =
     (if f32_lt f (f32_of_int minF) then Some minF
      else if f32_lt (f32_of_int maxF) f then Some maxF
      else int_of_fp (f64_dec (f64_add (f64_of_f32 f) 0x3fe0000000000000)))"

text \<open>The \<open>MINMAX\<close> loop for values of type \<open>float\<close>; the first element sets both bounds.\<close>

fun minmax :: "f32 list \<Rightarrow> f32 \<times> f32 \<Rightarrow> f32 \<times> f32" where
  "minmax [] acc = acc"
| "minmax (x # xs) (mn, mx) = minmax xs (if f32_lt mn x then mn else x, if f32_lt x mx then mx else x)"

definition minmax_f32 :: "f32 list \<Rightarrow> f32 \<times> f32" where
  "minmax_f32 xs = (case xs of [] \<Rightarrow> (0, 0) | x # xs \<Rightarrow> minmax xs (x, x))"

text \<open>For \<open>double\<close> elements the comparison is in \<open>double\<close> and the bounds are rounded to \<open>float\<close>.\<close>

fun minmax64 :: "f64 list \<Rightarrow> f32 \<times> f32 \<Rightarrow> f32 \<times> f32" where
  "minmax64 [] acc = acc"
| "minmax64 (x # xs) (mn, mx) =
     minmax64 xs (if f64_lt (f64_of_f32 mn) x then mn else f32_of_f64 x,
                  if f64_lt x (f64_of_f32 mx) then mx else f32_of_f64 x)"

definition minmax_f64 :: "f64 list \<Rightarrow> f32 \<times> f32" where
  "minmax_f64 xs = (case xs of [] \<Rightarrow> (0, 0) | x # xs \<Rightarrow> minmax64 xs (f32_of_f64 x, f32_of_f64 x))"

definition put_f8 :: "vector \<Rightarrow> f32 \<Rightarrow> f32 \<Rightarrow> int option list \<Rightarrow> vector option" where
  "put_f8 pTo alpha shift qs =
     Option.bind (those qs) (\<lambda>qs.
     Option.bind (memput (vdata pTo) 0 (map of_int qs)) (\<lambda>d.
       map_option (\<lambda>d. pTo\<lparr>vdata := d\<rparr>) (vectorF8SetParameters d 0 (vdims pTo) alpha shift)))"

definition quantize_f32 :: "vector \<Rightarrow> f32 list \<Rightarrow> vector option" where
  "quantize_f32 pTo src =
     (let (minF, maxF) = minmax_f32 src; shift = minF;
          alpha = f32_div (f32_sub maxF minF) (f32_of_int 255) in
      put_f8 pTo alpha shift (map (\<lambda>x. clip (f32_div (f32_sub x shift) alpha) 0 255) src))"

definition vectorConvertToF8 :: "vector \<Rightarrow> vector \<Rightarrow> vector option" where
  "vectorConvertToF8 pFrom pTo =
     do { c_assert (vdims pFrom = vdims pTo);
          c_assert (vtype pFrom \<noteq> vtype pTo);
          c_assert (vtype pTo = FLOAT8);
          (case vtype pFrom of
             FLOAT32 \<Rightarrow> Option.bind (load 4 (vdata pFrom) (vdims pFrom)) (quantize_f32 pTo)
           | FLOAT64 \<Rightarrow> Option.bind (load 8 (vdata pFrom) (vdims pFrom)) (\<lambda>src.
               let (minF, maxF) = minmax_f64 src; shift = minF;
                   alpha = f32_div (f32_sub maxF minF) (f32_of_int 255) in
               put_f8 pTo alpha shift
                 (map (\<lambda>x. clip (f32_of_f64 (f64_div (f64_sub x (f64_of_f32 shift)) (f64_of_f32 alpha))) 0 255) src))
           | FLOAT1BIT \<Rightarrow> Option.bind (get_1bit (vdata pFrom) (vdims pFrom)) (\<lambda>src.
               quantize_f32 pTo (map (\<lambda>b. if b then f32_of_int 1 else f32_of_int (-1)) src))
           | FLOAT16 \<Rightarrow> Option.bind (load 2 (vdata pFrom) (vdims pFrom)) (\<lambda>src.
               quantize_f32 pTo (map vectorF16ToFloat src))
           | FLOATB16 \<Rightarrow> Option.bind (load 2 (vdata pFrom) (vdims pFrom)) (\<lambda>src.
               quantize_f32 pTo (map vectorFB16ToFloat src))
           | FLOAT8 \<Rightarrow> None) }"

definition vectorConvert :: "vector \<Rightarrow> vector \<Rightarrow> vector option" where
  "vectorConvert pFrom pTo =
     do { c_assert (vdims pFrom = vdims pTo);
          (if vtype pFrom = vtype pTo then
             Option.bind (memget (vdata pFrom) 0 (vectorDataSize (vtype pFrom) (vdims pFrom))) (\<lambda>bs.
               map_option (\<lambda>d. pTo\<lparr>vdata := d\<rparr>) (memput (vdata pTo) 0 bs))
           else if vtype pTo = FLOAT8 then vectorConvertToF8 pFrom pTo
           else
             case vtype pFrom of
               FLOAT32 \<Rightarrow> vectorConvertFromF32 pFrom pTo
             | FLOAT64 \<Rightarrow> vectorConvertFromF64 pFrom pTo
             | FLOAT1BIT \<Rightarrow> vectorConvertFrom1Bit pFrom pTo
             | FLOAT8 \<Rightarrow> vectorConvertFromF8 pFrom pTo
             | FLOAT16 \<Rightarrow> vectorConvertFromF16 pFrom pTo
             | FLOATB16 \<Rightarrow> vectorConvertFromFB16 pFrom pTo) }"

subsection \<open>SQL functions\<close>

text \<open>
  Each allocation gets memory of its own, so there is one \<open>junk\<close> per call of \<open>malloc\<close>. The
  return codes matter: the constructors test \<open>!= 0\<close>, while \<open>vector_extract\<close> and the
  distances test \<open>< 0\<close>, which the blob parser's error code 1 is not; they then go on with
  the vector as it was allocated.
\<close>

definition vectorFuncHintedType ::
  "(bytes \<Rightarrow> f64 \<times> nat) \<Rightarrow> (nat \<Rightarrow> nat \<Rightarrow> u8) \<Rightarrow> sqlvalue list \<Rightarrow> vector_type \<Rightarrow> sqlresult option" where
  "vectorFuncHintedType strtod junk argv targetType =
     (case argv of
        [] \<Rightarrow> Some RNone
      | arg # _ \<Rightarrow>
          let typeHint = (if targetType = FLOAT64 then FLOAT64 else FLOAT32) in
          case detectVectorParameters arg (Some typeHint) of
            Inl (rc, e) \<Rightarrow> Some (RError e)
          | Inr (ty, dims) \<Rightarrow>
              Option.bind (vectorParseWithType strtod arg (vectorContextAlloc (junk 0) ty dims)) (\<lambda>r.
                case r of
                  Inl (rc, e) \<Rightarrow> Some (RError e)
                | Inr pVector \<Rightarrow>
                    if ty = targetType then vectorSerializeWithMeta (junk 1) pVector
                    else
                      Option.bind (vectorConvert pVector (vectorContextAlloc (junk 1) targetType dims)) (\<lambda>pTarget.
                        vectorSerializeWithMeta (junk 2) pTarget)))"

text \<open>A parse result as \<open>rc < 0\<close> sees it: the error, or the vector to go on with.\<close>

definition tolerate :: "vector \<Rightarrow> int \<times> vec_error + vector \<Rightarrow> vec_error + vector" where
  "tolerate pVector r =
     (case r of
        Inl (rc, e) \<Rightarrow> if rc < 0 then Inl e else Inr pVector
      | Inr v \<Rightarrow> Inr v)"

definition vectorExtractFunc ::
  "(bytes \<Rightarrow> f64 \<times> nat) \<Rightarrow> (f64 \<Rightarrow> string) \<Rightarrow> (nat \<Rightarrow> nat \<Rightarrow> u8) \<Rightarrow> sqlvalue list \<Rightarrow> sqlresult option" where
  "vectorExtractFunc strtod fmt junk argv =
     (case argv of
        [] \<Rightarrow> Some RNone
      | arg # _ \<Rightarrow>
          case detectVectorParameters arg None of
            Inl (rc, e) \<Rightarrow> Some (RError e)
          | Inr (ty, dims) \<Rightarrow>
              let pVector = vectorContextAlloc (junk 0) ty dims in
              Option.bind (vectorParseWithType strtod arg pVector) (\<lambda>r.
                case tolerate pVector r of
                  Inl e \<Rightarrow> Some (RError e)
                | Inr pVector \<Rightarrow>
                    if vtype pVector = FLOAT32 \<or> vtype pVector = FLOAT64 then vectorMarshalToText fmt pVector
                    else
                      Option.bind (vectorConvert pVector (vectorContextAlloc (junk 1) FLOAT32 dims))
                        (vectorMarshalToText fmt)))"

definition vectorDistanceFunc ::
  "(bytes \<Rightarrow> f64 \<times> nat) \<Rightarrow> (nat \<Rightarrow> nat \<Rightarrow> u8) \<Rightarrow> sqlvalue list \<Rightarrow> bool \<Rightarrow> sqlresult option" where
  "vectorDistanceFunc strtod junk argv isL2 =
     (case argv of
        arg1 # arg2 # _ \<Rightarrow>
          (case detectVectorParameters arg1 None of
             Inl (rc, e) \<Rightarrow> Some (RError e)
           | Inr (type1, dims1) \<Rightarrow>
           (case detectVectorParameters arg2 None of
             Inl (rc, e) \<Rightarrow> Some (RError e)
           | Inr (type2, dims2) \<Rightarrow>
             if type1 \<noteq> type2 then Some (RError ErrTypesDiffer)
             else if dims1 \<noteq> dims2 then Some (RError ErrDimsDiffer)
             else if isL2 \<and> type1 = FLOAT1BIT then Some (RError ErrL2OnBits)
             else
               let pVector1 = vectorContextAlloc (junk 0) type1 dims1;
                   pVector2 = vectorContextAlloc (junk 1) type2 dims2 in
               Option.bind (vectorParseWithType strtod arg1 pVector1) (\<lambda>r1.
                 case tolerate pVector1 r1 of
                   Inl e \<Rightarrow> Some (RError e)
                 | Inr pVector1 \<Rightarrow>
               Option.bind (vectorParseWithType strtod arg2 pVector2) (\<lambda>r2.
                 case tolerate pVector2 r2 of
                   Inl e \<Rightarrow> Some (RError e)
                 | Inr pVector2 \<Rightarrow>
                     map_option (\<lambda>f. RDouble (f64_of_f32 f))
                       (if isL2 then vectorDistanceL2 pVector1 pVector2
                        else vectorDistanceCos pVector1 pVector2)))))
      | _ \<Rightarrow> Some RNone)"

subsection \<open>The parts of a blob\<close>

lemma memput_0_whole: "length bs = length b \<Longrightarrow> memput b 0 bs = Some bs"
  by (simp add: memput_def)

lemma memput_all: "n = length bs \<Longrightarrow> memput (bs0 @ rest) 0 bs = (if n \<le> length bs0 + length rest then Some (bs @ drop n (bs0 @ rest)) else None)"
  by (simp add: memput_def)

lemma length_malloc [simp]: "length (malloc junk n) = n"
  by (simp add: malloc_def)

lemma align4: "align n 4 mod 4 = 0" "n \<le> align n 4" "align n 4 < n + 4"
  by (auto simp: align_def)

text \<open>
  Serialising writes the data part and nothing else; for \<open>FLOAT8\<close> the alignment padding
  keeps what the blob held before.
\<close>

definition data_part :: "vector \<Rightarrow> bytes \<Rightarrow> bytes" where
  "data_part v old =
     (if vtype v = FLOAT8
      then take (vdims v) (vdata v) @ take (align (vdims v) 4 - vdims v) (drop (vdims v) old)
           @ take 8 (drop (align (vdims v) 4) (vdata v))
      else take (vectorDataSize (vtype v) (vdims v)) (vdata v))"

definition well_sized :: "vector \<Rightarrow> bool" where
  "well_sized v = (vectorDataSize (vtype v) (vdims v) \<le> length (vdata v))"

lemma length_data_part:
  "well_sized v \<Longrightarrow> vectorDataSize (vtype v) (vdims v) \<le> length old \<Longrightarrow>
     length (data_part v old) = vectorDataSize (vtype v) (vdims v)"
  using align4(2) [of "vdims v"] by (auto simp: well_sized_def data_part_def)

lemma F8_params:
  assumes "align dims 4 + 8 \<le> length d"
  shows "vectorF8GetParameters d dims =
     Some (le_word (take 4 (drop (align dims 4) d)), le_word (take 4 (drop (align dims 4 + 4) d)))"
  using assms by (simp add: vectorF8GetParameters_def memget_def deserializeF32_le)

lemma F8_set:
  assumes "off + align dims 4 + 8 \<le> length d"
  shows "vectorF8SetParameters d off dims a s =
     memput d (off + align dims 4) (le_bytes 4 a @ le_bytes 4 s)"
  by (simp add: vectorF8SetParameters_def serializeF32_le memput_append)

lemma F8_set_get:
  assumes "off + align dims 4 + 8 \<le> length d" and "align dims 4 + 8 \<le> length e"
  shows "Option.bind (vectorF8GetParameters e dims) (\<lambda>(a, s). vectorF8SetParameters d off dims a s) =
     memput d (off + align dims 4) (take 8 (drop (align dims 4) e))"
proof -
  let ?x = "drop (align dims 4) e"
  have "le_bytes 4 (le_word (take 4 ?x) :: f32) @ le_bytes 4 (le_word (take 4 (drop 4 ?x)) :: f32) = take 8 ?x"
    using assms(2) by (simp add: le_bytes_le_word take_add [of 4 4 ?x, simplified])
  then show ?thesis
    using assms by (simp add: F8_params F8_set add.commute)
qed

lemma serialize_data_part:
  assumes "well_sized v" and "off + vectorDataSize (vtype v) (vdims v) \<le> length b"
    and "vdims v \<le> MAX_VECTOR_SZ" and "vectorDataSize (vtype v) (vdims v) \<le> n"
  shows "vectorSerializeToBlob v b off n = memput b off (data_part v (drop off b))"
proof (cases "vtype v")
  case FLOAT32
  then obtain es :: "f32 list" where "load 4 (vdata v) (vdims v) = Some es"
    "concat (map (le_bytes 4) es) = take (4 * vdims v) (vdata v)"
    using assms load_bytes [of 4 "vdims v" "vdata v", where 'a=32] by (auto simp: well_sized_def mult.commute)
  then show ?thesis
    using FLOAT32 assms(2,3,4)
    by (simp add: vectorSerializeToBlob_def vectorF32SerializeToBlob_def putF32s_memput data_part_def mult.commute)
next
  case FLOAT64
  then obtain es :: "f64 list" where "load 8 (vdata v) (vdims v) = Some es"
    "concat (map (le_bytes 8) es) = take (8 * vdims v) (vdata v)"
    using assms load_bytes [of 8 "vdims v" "vdata v", where 'a=64] by (auto simp: well_sized_def mult.commute)
  then show ?thesis
    using FLOAT64 assms(2,3,4)
    by (simp add: vectorSerializeToBlob_def vectorF64SerializeToBlob_def putF64s_memput data_part_def mult.commute)
next
  case FLOAT1BIT
  then obtain es :: "u8 list" where es: "load 1 (vdata v) (bits_bytes (vdims v)) = Some es"
    "concat (map (le_bytes 1) es) = take (bits_bytes (vdims v)) (vdata v)"
    using assms load_bytes [of 1 "bits_bytes (vdims v)" "vdata v", where 'a=8] by (auto simp: well_sized_def)
  have "le_bytes 1 (e :: u8) = [e]" for e by (simp add: le_bytes_def be_bytes_num byte_def)
  then have "concat (map (le_bytes 1) es) = es" by (induction es) auto
  with es show ?thesis
    using FLOAT1BIT assms(2,3,4)
    by (simp add: vectorSerializeToBlob_def vector1BitSerializeToBlob_def put1Bits_memput data_part_def)
next
  case FLOAT8
  let ?d = "vdims v" and ?al = "align (vdims v) 4"
  have al: "?d \<le> ?al" "?al + 8 \<le> length (vdata v)" "off + ?al + 8 \<le> length b"
    using align4(2) [of ?d] assms FLOAT8 by (auto simp: well_sized_def)
  let ?b = "take off b @ take ?d (vdata v) @ drop (off + ?d) b"
  have "memget (vdata v) 0 ?d = Some (take ?d (vdata v))" using al by (simp add: memget_def)
  moreover have "memput b off (take ?d (vdata v)) = Some ?b" using al by (simp add: memput_def min_def)
  moreover have "length ?b = length b" using al by simp
  ultimately have "vectorSerializeToBlob v b off n = memput ?b (off + ?al) (take 8 (drop ?al (vdata v)))"
    using F8_set_get [of off ?d ?b "vdata v"] al FLOAT8 assms(3,4)
    by (simp add: vectorSerializeToBlob_def vectorF8SerializeToBlob_def)
  also have "\<dots> = memput b off (data_part v (drop off b))"
  proof -
    obtain k where k: "?al = ?d + k" using al(1) le_Suc_ex by blast
    let ?P = "take 8 (drop ?al (vdata v))"
    have P: "length ?P = 8" using al by simp
    have D: "data_part v (drop off b) = take ?d (vdata v) @ take k (drop (off + ?d) b) @ ?P"
      using FLOAT8 by (simp add: data_part_def k add.commute)
    have "take (off + ?al) ?b = take off b @ take ?d (vdata v) @ take k (drop (off + ?d) b)"
      "drop (off + ?al + 8) ?b = drop (off + ?al + 8) b"
      using al by (simp add: k add.assoc) (use al in \<open>simp add: k ac_simps\<close>)
    then show ?thesis
      using al unfolding D memput_def P by (simp add: k ac_simps)
  qed
  finally show ?thesis .
next
  case FLOAT16
  then show ?thesis using assms
    by (simp add: vectorSerializeToBlob_def vectorF16SerializeToBlob_def data_part_def well_sized_def memget_def)
next
  case FLOATB16
  then show ?thesis using assms
    by (simp add: vectorSerializeToBlob_def vectorFB16SerializeToBlob_def data_part_def well_sized_def memget_def)
qed
text \<open>Deserialising copies the data part into the vector.\<close>

lemma deserialize_data_part:
  assumes "length (vdata v) = vectorDataSize (vtype v) (vdims v)"
    and "vectorDataSize (vtype v) (vdims v) \<le> length b"
    and "vdims v \<le> MAX_VECTOR_SZ" and "vectorDataSize (vtype v) (vdims v) \<le> n"
  shows "vectorDeserializeFromBlob v b n = Some (v\<lparr>vdata := take (vectorDataSize (vtype v) (vdims v)) b\<rparr>)"
proof (cases "vtype v")
  case FLOAT32
  then obtain es where es: "getF32s b 0 (vdims v) = Some es" "concat (map (le_bytes 4) es) = take (4 * vdims v) b"
    using getF32s_memget [of b 0 "vdims v"] assms(2)
    by (cases "getF32s b 0 (vdims v)") (auto simp: memget_def mult.commute)
  moreover have "4 * length es = 4 * vdims v"
    using arg_cong [OF es(2), of length] assms(2) FLOAT32 by (simp add: mult.commute)
  ultimately show ?thesis
    using FLOAT32 assms
    by (simp add: vectorDeserializeFromBlob_def vectorF32DeserializeFromBlob_def store_memput memput_0_whole mult.commute)
next
  case FLOAT64
  then obtain es where es: "getF64s b 0 (vdims v) = Some es" "concat (map (le_bytes 8) es) = take (8 * vdims v) b"
    using getF64s_memget [of b 0 "vdims v"] assms(2)
    by (cases "getF64s b 0 (vdims v)") (auto simp: memget_def mult.commute)
  moreover have "8 * length es = 8 * vdims v"
    using arg_cong [OF es(2), of length] assms(2) FLOAT64 by (simp add: mult.commute)
  ultimately show ?thesis
    using FLOAT64 assms
    by (simp add: vectorDeserializeFromBlob_def vectorF64DeserializeFromBlob_def store_memput memput_0_whole mult.commute)
next
  case FLOAT8
  let ?al = "align (vdims v) 4"
  let ?d = "take ?al b @ drop ?al (vdata v)"
  have l: "length (vdata v) = ?al + 8" "?al + 8 \<le> length b" using assms FLOAT8 by simp_all
  then have "memput (vdata v) 0 (take ?al b) = Some ?d" by (simp add: memput_def min_def)
  moreover have "memget b 0 ?al = Some (take ?al b)" using l by (simp add: memget_def)
  moreover have "memput ?d ?al (take 8 (drop ?al b)) = Some (take (?al + 8) b)"
    using l by (auto simp: memput_def take_add min_def)
  moreover obtain a s where "vectorF8GetParameters b (vdims v) = Some (a, s)"
    using F8_params [of "vdims v" b] l by blast
  ultimately show ?thesis
    using FLOAT8 F8_set_get [of 0 "vdims v" ?d b] l assms(3,4)
    by (simp add: vectorDeserializeFromBlob_def vectorF8DeserializeFromBlob_def add.commute)
next
  case FLOAT1BIT
  then show ?thesis using assms
    by (simp add: vectorDeserializeFromBlob_def vector1BitDeserializeFromBlob_def memget_def memput_0_whole)
next
  case FLOAT16
  then show ?thesis using assms
    by (simp add: vectorDeserializeFromBlob_def vectorF16DeserializeFromBlob_def memget_def memput_0_whole)
next
  case FLOATB16
  then show ?thesis using assms
    by (simp add: vectorDeserializeFromBlob_def vectorFB16DeserializeFromBlob_def memget_def memput_0_whole)
qed

lemma deserialize_asserts: "\<not> vdims v \<le> MAX_VECTOR_SZ \<Longrightarrow> vectorDeserializeFromBlob v b n = None"
  by (auto simp: vectorDeserializeFromBlob_def vectorF32DeserializeFromBlob_def vectorF64DeserializeFromBlob_def
      vector1BitDeserializeFromBlob_def vectorF8DeserializeFromBlob_def vectorF16DeserializeFromBlob_def
      vectorFB16DeserializeFromBlob_def split: vector_type.split)

subsection \<open>The blob form and back\<close>

definition meta_bytes :: "vector \<Rightarrow> bytes" where
  "meta_bytes v =
     (let D = vectorDataSize (vtype v) (vdims v) in
      case vtype v of
        FLOAT32 \<Rightarrow> []
      | FLOAT1BIT \<Rightarrow>
          (if even D then [0, of_nat (8 * (D + 2) - vdims v), 3] else [of_nat (8 * (D + 1) - vdims v), 3])
      | FLOAT8 \<Rightarrow> [0, of_nat (align (vdims v) 4 - vdims v), 4]
      | ty \<Rightarrow> [of_nat (type_code ty)])"

lemma bits_bytes_bounds:
  assumes "dims \<le> MAX_VECTOR_SZ"
  shows "dims \<le> 8 * bits_bytes dims" "8 * bits_bytes dims < dims + 8" "bits_bytes dims \<le> 8192"
  using assms by (auto simp: bits_bytes_small MAX_VECTOR_SZ_def)

lemma length_meta_bytes: "length (meta_bytes v) = vectorMetaSize (vtype v) (vdims v)"
  by (auto simp: meta_bytes_def vectorMetaSize_def Let_def split: vector_type.splits)

lemma serialize_meta:
  assumes "vdims v \<le> MAX_VECTOR_SZ" and "length X = vectorDataSize (vtype v) (vdims v)"
    and "length Y = vectorMetaSize (vtype v) (vdims v)"
  shows "vectorSerializeMeta v (length X) (X @ Y) = Some (X @ meta_bytes v)"
proof -
  show ?thesis
  proof (cases "vtype v")
    case FLOAT1BIT
    let ?D = "bits_bytes (vdims v)"
    have d: "length X = ?D" "vdims v \<le> 8 * ?D" "?D \<le> 8192"
      using assms FLOAT1BIT bits_bytes_bounds [of "vdims v"] by auto
    show ?thesis
    proof (cases "even ?D")
      case True
      then obtain a b c where Y: "Y = [a, b, c]"
        using assms(3) FLOAT1BIT by (auto simp: vectorMetaSize_def numeral_eq_Suc length_Suc_conv)
      have "of_int (8 * (int ?D + 2) - int (vdims v)) = (of_nat (8 * (?D + 2) - vdims v) :: u8)"
        using d by (simp add: of_nat_diff)
      then show ?thesis
        using FLOAT1BIT True d(1)
        by (simp add: vectorSerializeMeta_def meta_bytes_def Let_def Y vectorMetaSize_def memput_def add.commute
            c_assert_bind mod_Suc even_iff_mod_2_eq_zero)
    next
      case False
      then have "length Y = 2" using assms(3) FLOAT1BIT by (simp add: vectorMetaSize_def odd_iff_mod_2_eq_one)
      then obtain a b where Y: "Y = [a, b]" by (auto simp: numeral_2_eq_2 length_Suc_conv)
      have "of_int (8 * (int ?D + 1) - int (vdims v)) = (of_nat (8 * (?D + 1) - vdims v) :: u8)"
        using d by (simp add: of_nat_diff)
      then show ?thesis
        using FLOAT1BIT False d(1)
        by (simp add: vectorSerializeMeta_def meta_bytes_def Let_def Y vectorMetaSize_def memput_def add.commute
            c_assert_bind odd_iff_mod_2_eq_one Suc_le_eq odd_pos)
    qed
  next
    case FLOAT8
    then obtain a b c where Y: "Y = [a, b, c]"
      using assms(3) by (auto simp: vectorMetaSize_def numeral_eq_Suc length_Suc_conv)
    moreover have "length X mod 2 = 0" using assms(2) FLOAT8 align4(1) [of "vdims v"] by simp presburger
    ultimately show ?thesis
      using FLOAT8 by (simp add: vectorSerializeMeta_def meta_bytes_def Let_def memput_def c_assert_bind mod_Suc)
  qed (use assms(2,3) in \<open>auto simp: vectorSerializeMeta_def meta_bytes_def vectorMetaSize_def memput_def
        length_Suc_conv Let_def c_assert_bind\<close>)
qed

lemma no_blob_bytes:
  "vectorDataSize ty dims + vectorMetaSize ty dims = 0 \<longleftrightarrow> ty = FLOAT32 \<and> dims = 0"
  by (cases ty) (auto simp: vectorMetaSize_def)

lemma serialize_with_meta:
  assumes "well_sized v" and "vdims v \<le> MAX_VECTOR_SZ" and "vtype v \<noteq> FLOAT32 \<or> vdims v \<noteq> 0"
  shows "\<exists>old. vectorSerializeWithMeta junk v = Some (RBlob (data_part v old @ meta_bytes v))
      \<and> length (data_part v old) = vectorDataSize (vtype v) (vdims v)"
proof -
  let ?D = "vectorDataSize (vtype v) (vdims v)" and ?M = "vectorMetaSize (vtype v) (vdims v)"
  let ?old = "malloc junk (?D + ?M)"
  have l: "length (data_part v ?old) = ?D" using assms by (simp add: length_data_part)
  have "vectorSerializeToBlob v ?old 0 ?D = Some (data_part v ?old @ drop ?D ?old)"
    using serialize_data_part [OF assms(1), of 0 ?old ?D] assms(2) l by (simp add: memput_def)
  moreover have "vectorSerializeMeta v ?D (data_part v ?old @ drop ?D ?old) = Some (data_part v ?old @ meta_bytes v)"
    using serialize_meta [OF assms(2) l] by (simp add: l)
  moreover have "?D + ?M \<noteq> 0" using assms(3) unfolding no_blob_bytes by simp
  ultimately show ?thesis
    using l assms(2) by (intro exI [of _ ?old]) (simp add: vectorSerializeWithMeta_def Let_def)
qed

lemma serialize_empty: "vtype v = FLOAT32 \<Longrightarrow> vdims v = 0 \<Longrightarrow> vectorSerializeWithMeta junk v = Some RNull"
  by (simp add: vectorSerializeWithMeta_def Let_def vectorMetaSize_def)

lemma parse_meta_of_meta:
  assumes "vdims v \<le> MAX_VECTOR_SZ" and "length X = vectorDataSize (vtype v) (vdims v)"
  shows "vectorParseMeta (X @ meta_bytes v) = Inr (vtype v, int (vdims v), length X)"
proof -
  have small: "to_int32 (int k) = int k" if "k \<le> 131072" for k using that by (simp add: to_int32_def)
  note md = vectorParseMeta_def meta_bytes_def Let_def type_of_code_def nth_append
  have d: "vdims v \<le> 65536" using assms(1) by (simp add: MAX_VECTOR_SZ_def)
  show ?thesis
  proof (cases "vtype v")
    case FLOAT1BIT
    let ?D = "bits_bytes (vdims v)"
    have D: "length X = ?D" "vdims v \<le> 8 * ?D" "8 * ?D < vdims v + 8"
      using assms FLOAT1BIT bits_bytes_bounds [of "vdims v"] by auto
    have bk: "nat (c_div (int (vdims v) + 7) 8 mod 2 ^ 64) = ?D"
    proof -
      have "c_div (int (vdims v) + 7) 8 = int ?D"
        using D(2,3) by (simp add: c_div_def)
      then show ?thesis using D(2,3) d by simp
    qed
    show ?thesis
    proof (cases "even ?D")
      case True
      have "unat (of_nat (8 * (?D + 2) - vdims v) :: u8) = 8 * (?D + 2) - vdims v"
        using D by (simp only: unat_of_nat) simp
      then have "int (?D + 2) * 8 - int (unat (of_nat (8 * (?D + 2) - vdims v) :: u8)) = int (vdims v)"
        using D by simp
      then show ?thesis using True D FLOAT1BIT small [of "vdims v"] d bk
        by (simp add: md mod_Suc even_iff_mod_2_eq_zero)
    next
      case False
      have "unat (of_nat (8 * (?D + 1) - vdims v) :: u8) = 8 * (?D + 1) - vdims v"
        using D by (simp only: unat_of_nat) simp
      then have "int (?D + 1) * 8 - int (unat (of_nat (8 * (?D + 1) - vdims v) :: u8)) = int (vdims v)"
        using D by simp
      then show ?thesis using False D FLOAT1BIT small [of "vdims v"] d bk
        by (simp add: md odd_iff_mod_2_eq_one even_iff_mod_2_eq_zero mod_Suc)
    qed
  next
    case FLOAT8
    have al: "align (vdims v) 4 mod 4 = 0" "vdims v \<le> align (vdims v) 4" "align (vdims v) 4 < vdims v + 4"
      by (rule align4)+
    have "unat (of_nat (align (vdims v) 4 - vdims v) :: u8) = align (vdims v) 4 - vdims v"
      using al by (simp only: unat_of_nat) simp
    then show ?thesis
      using assms(2) FLOAT8 al small [of "vdims v"] d by (simp add: md) presburger
  qed (use assms(2) in \<open>auto simp: md mod_Suc\<close>)
qed
lemma parse_own_blob:
  assumes "well_sized v" and "vdims v \<le> MAX_VECTOR_SZ"
    and "vectorSerializeWithMeta junk v = Some (RBlob blob)"
  shows "\<exists>w. vectorParseSqliteBlobWithType blob (vectorContextAlloc junk' (vtype v) (int (vdims v))) = Some (Inr w)
      \<and> vtype w = vtype v \<and> vdims w = vdims v \<and> well_sized w \<and> (\<forall>old. data_part w old = data_part v old)"
proof -
  let ?D = "vectorDataSize (vtype v) (vdims v)" and ?v' = "vectorContextAlloc junk' (vtype v) (int (vdims v))"
  obtain old where blob: "blob = data_part v old @ meta_bytes v" and l: "length (data_part v old) = ?D"
    using serialize_with_meta [OF assms(1,2), of junk] serialize_empty [of v junk] assms(3) by fastforce
  have dims: "nat (int (vdims v) mod 2 ^ 32) = vdims v" using assms(2) by (simp add: MAX_VECTOR_SZ_def)
  have v': "vtype ?v' = vtype v" "vdims ?v' = vdims v" "length (vdata ?v') = ?D"
    unfolding vectorContextAlloc_def Let_def dims by (simp_all add: vectorInit_def)
  let ?w = "?v'\<lparr>vdata := data_part v old\<rparr>"
  have "vectorDeserializeFromBlob ?v' blob (length (data_part v old)) = Some ?w"
    using deserialize_data_part [of ?v' blob ?D] v' l assms(2) by (simp add: blob)
  then have "vectorParseSqliteBlobWithType blob ?v' = Some (Inr ?w)"
    unfolding vectorParseSqliteBlobWithType_def blob parse_meta_of_meta [OF assms(2) l]
    using v' l by simp
  moreover have "data_part ?w x = data_part v x" for x
  proof (cases "vtype v = FLOAT8")
    case True
    have al: "vdims v \<le> align (vdims v) 4" by (rule align4)
    have "length (vdata v) \<ge> align (vdims v) 4 + 8" using assms(1) True by (simp add: well_sized_def)
    moreover define A B C where "A = take (vdims v) (vdata v)"
      and "B = take (align (vdims v) 4 - vdims v) (drop (vdims v) old)" and "C = take 8 (drop (align (vdims v) 4) (vdata v))"
    ultimately have len: "length A = vdims v" "length C = 8" using al by auto
    have d: "data_part v old = A @ B @ C" using True by (simp add: data_part_def A_def B_def C_def)
    have "length B = align (vdims v) 4 - vdims v" using l True len by (simp add: d)
    then show ?thesis
      using True v' al len unfolding data_part_def [of ?w] data_part_def [of v x] by (simp add: d A_def [symmetric] C_def [symmetric])
  next
    case False
    then show ?thesis using v' l by (simp add: data_part_def)
  qed
  ultimately show ?thesis
    using v' l by (intro exI [of _ ?w]) (simp add: well_sized_def)
qed

lemma serialize_asserts:
  "\<not> (vdims v \<le> MAX_VECTOR_SZ \<and> vectorDataSize (vtype v) (vdims v) \<le> n) \<Longrightarrow> vectorSerializeToBlob v b off n = None"
  by (auto simp: vectorSerializeToBlob_def vectorF32SerializeToBlob_def vectorF64SerializeToBlob_def
      vector1BitSerializeToBlob_def vectorF8SerializeToBlob_def vectorF16SerializeToBlob_def
      vectorFB16SerializeToBlob_def split: vector_type.split)

lemma serialize_agree:
  assumes "well_sized v" "well_sized w" "vtype w = vtype v" "vdims w = vdims v"
    and "\<And>old. data_part w old = data_part v old" and "off + vectorDataSize (vtype v) (vdims v) \<le> length b"
  shows "vectorSerializeToBlob w b off n = vectorSerializeToBlob v b off n"
proof (cases "vdims v \<le> MAX_VECTOR_SZ \<and> vectorDataSize (vtype v) (vdims v) \<le> n")
  case True
  then show ?thesis using serialize_data_part [of w off b n] serialize_data_part [of v off b n] assms by simp
next
  case False
  then show ?thesis using serialize_asserts [of v n b off] serialize_asserts [of w n b off] assms(3,4) by simp
qed

text \<open>C23. The blob form of a vector carries everything: for every format and every vector within the size
  limit, whatever the fresh memory held, serialising yields a blob; detection reads back exactly its
  type and dimensions; and parsing it into a freshly allocated vector succeeds and gives a vector that
  serialises to the same bytes as the original. The one exception is the empty \<open>float32\<close> vector: its
  blob would have no byte at all, SQL NULL is returned instead, and NULL is not accepted as a
  vector.\<close>

theorem blob_roundtrip:
  assumes "well_sized v" and "vdims v \<le> MAX_VECTOR_SZ"
  shows "if vtype v = FLOAT32 \<and> vdims v = 0
    then vectorSerializeWithMeta junk v = Some RNull
      \<and> detectVectorParameters VNull hint = Inl (-1, ErrValueType)
    else \<exists>blob w. vectorSerializeWithMeta junk v = Some (RBlob blob)
    \<and> detectVectorParameters (VBlob blob) hint = Inr (vtype v, int (vdims v))
    \<and> vectorParseWithType strtod (VBlob blob) (vectorContextAlloc junk' (vtype v) (int (vdims v))) = Some (Inr w)
    \<and> vtype w = vtype v \<and> vdims w = vdims v
    \<and> (\<forall>b off n. length b < off + vectorDataSize (vtype v) (vdims v)
          \<or> vectorSerializeToBlob w b off n = vectorSerializeToBlob v b off n)"
proof (cases "vtype v = FLOAT32 \<and> vdims v = 0")
  case True
  then show ?thesis using serialize_empty [of v junk] by (simp add: detectVectorParameters_def)
next
  case False
  then have ne: "vtype v \<noteq> FLOAT32 \<or> vdims v \<noteq> 0" by simp
  obtain old where blob: "vectorSerializeWithMeta junk v = Some (RBlob (data_part v old @ meta_bytes v))"
    and l: "length (data_part v old) = vectorDataSize (vtype v) (vdims v)"
    using serialize_with_meta [OF assms ne] by blast
  have "detectVectorParameters (VBlob (data_part v old @ meta_bytes v)) hint = Inr (vtype v, int (vdims v))"
    using assms(2) by (simp add: detectVectorParameters_def detectBlobVectorParameters_def parse_meta_of_meta [OF assms(2) l])
  moreover obtain w where w: "vectorParseSqliteBlobWithType (data_part v old @ meta_bytes v)
      (vectorContextAlloc junk' (vtype v) (int (vdims v))) = Some (Inr w)"
    "vtype w = vtype v" "vdims w = vdims v" "well_sized w" "\<And>old. data_part w old = data_part v old"
    using parse_own_blob [OF assms blob] by blast
  moreover have "length b < off + vectorDataSize (vtype v) (vdims v)
      \<or> vectorSerializeToBlob w b off n = vectorSerializeToBlob v b off n" for b off n
    using serialize_agree [OF assms(1) w(4,2,3,5), of off b n] by linarith
  ultimately show ?thesis
    using blob False by (simp only: if_False) (intro exI [of _ "data_part v old @ meta_bytes v"] exI [of _ w],
      simp add: vectorParseWithType_def)
qed

theorem blob_roundtrip_witness:
  "\<exists>blob w. vectorSerializeWithMeta (\<lambda>_. 7) \<lparr>vflags = 0, vtype = FLOAT1BIT, vdims = 10, vdata = [0xF0, 1]\<rparr> = Some (RBlob blob)
    \<and> detectVectorParameters (VBlob blob) None = Inr (FLOAT1BIT, 10)
    \<and> vectorParseWithType (\<lambda>_. (0, 0)) (VBlob blob) (vectorContextAlloc (\<lambda>_. 9) FLOAT1BIT 10) = Some (Inr w)"
  using blob_roundtrip [of "\<lparr>vflags = 0, vtype = FLOAT1BIT, vdims = 10, vdata = [0xF0, 1]\<rparr>"
      "\<lambda>_. 7" None "\<lambda>_. (0, 0)" "\<lambda>_. 9"]
  by (auto simp: well_sized_def bits_bytes_def MAX_VECTOR_SZ_def)

subsection \<open>Distances\<close>

lemma load_some: "k * n \<le> length m \<Longrightarrow> \<exists>xs :: 'a::len word list. load k m n = Some xs"
  using load_in by blast

lemma distances_defined:
  assumes "well_sized v1" "well_sized v2" "vtype v1 = vtype v2" "vdims v1 = vdims v2" "vdims v1 \<le> MAX_VECTOR_SZ"
  shows "vectorDistanceCos v1 v2 \<noteq> None" "vtype v1 \<noteq> FLOAT1BIT \<Longrightarrow> vectorDistanceL2 v1 v2 \<noteq> None"
proof -
  note ws = assms(1,2)[unfolded well_sized_def]
  have F8: "\<exists>p. vectorF8GetParameters d n = Some p" if "align n 4 + 8 \<le> length d" for d n
    using F8_params [OF that] by blast
  have H: "vector1BitDistanceHamming v1 v2 \<noteq> None" if "vtype v1 = FLOAT1BIT"
    using hamming_eq [of v1 v2] ws assms(3,4,5) that by (simp add: bits_bytes_small)
  show "vectorDistanceCos v1 v2 \<noteq> None"
  proof (cases "vtype v1")
    case FLOAT8
    then show ?thesis using ws assms(3,4) align4(2) [of "vdims v2"] F8 [of "vdims v2" "vdata v1"] F8 [of "vdims v2" "vdata v2"]
      by (auto simp: vectorDistanceCos_def vectorF8DistanceCos_def memget_def)
  qed (use ws assms(3,4) H in \<open>auto simp: vectorDistanceCos_def vectorF32DistanceCos_def vectorF64DistanceCos_def
    vectorF16DistanceCos_def vectorFB16DistanceCos_def load_in mult.commute split: prod.splits\<close>)
  assume "vtype v1 \<noteq> FLOAT1BIT"
  then show "vectorDistanceL2 v1 v2 \<noteq> None"
  proof (cases "vtype v1")
    case FLOAT8
    then show ?thesis using ws assms(3,4) align4(2) [of "vdims v2"] F8 [of "vdims v2" "vdata v1"] F8 [of "vdims v2" "vdata v2"]
      by (auto simp: vectorDistanceL2_def vectorF8DistanceL2_def memget_def)
  qed (use ws assms(3,4) in \<open>auto simp: vectorDistanceL2_def vectorF32DistanceL2_def vectorF64DistanceL2_def
    vectorF16DistanceL2_def vectorFB16DistanceL2_def load_in mult.commute\<close>)
qed

text \<open>C24. The distance functions are safe and symmetric: on two vectors of one type and dimension whose
  buffers hold their data, a distance is computed without reading outside the buffers or failing an
  assertion, and exchanging the arguments changes no bit of the result. Two cases are excepted. The
  L2 distance of 1-bit vectors does not exist: the code runs \<open>assert(0)\<close>. And the cosine of \<open>FLOAT8\<close>
  vectors need not be symmetric, as it adds its two cross terms in argument order. (A NaN is one
  value here: which payload it gets is left open by C.)\<close>

theorem distance_symmetric:
  assumes "well_sized v1" "well_sized v2" "vtype v1 = vtype v2" "vdims v1 = vdims v2" "vdims v1 \<le> MAX_VECTOR_SZ"
  shows "(if vtype v1 = FLOAT1BIT then vectorDistanceL2 v1 v2 = None
      else vectorDistanceL2 v1 v2 \<noteq> None \<and> vectorDistanceL2 v1 v2 = vectorDistanceL2 v2 v1)
    \<and> vectorDistanceCos v1 v2 \<noteq> None
    \<and> (vtype v1 = FLOAT8 \<or> vectorDistanceCos v1 v2 = vectorDistanceCos v2 v1)"
  using distances_defined [OF assms] assms(3)
    F32_cos_sym [OF assms(4)] F32_l2_sym [OF assms(4)] F64_cos_sym [OF assms(4)] F64_l2_sym [OF assms(4)]
    F16_cos_sym [OF assms(4)] F16_l2_sym [OF assms(4)] FB16_cos_sym [OF assms(4)] FB16_l2_sym [OF assms(4)]
    F8_l2_sym [OF assms(4)] hamming_sym [OF assms(4)]
  by (cases "vtype v1") (auto simp: vectorDistanceL2_def vectorDistanceCos_def)

theorem distance_symmetric_witness:
  "vectorDistanceL2 (vectorInit FLOAT32 1 [0, 0, 128, 63]) (vectorInit FLOAT32 1 [0, 0, 0, 64])
   = vectorDistanceL2 (vectorInit FLOAT32 1 [0, 0, 0, 64]) (vectorInit FLOAT32 1 [0, 0, 128, 63])"
  using distance_symmetric [of "vectorInit FLOAT32 1 [0, 0, 128, 63]" "vectorInit FLOAT32 1 [0, 0, 0, 64]"]
  by (simp add: vectorInit_def well_sized_def MAX_VECTOR_SZ_def)

subsection \<open>Safety of the blob parser\<close>

lemma well_sized_alloc: "well_sized (vectorContextAlloc junk ty dims)"
  "length (vdata (vectorContextAlloc junk ty dims)) =
     vectorDataSize (vtype (vectorContextAlloc junk ty dims)) (vdims (vectorContextAlloc junk ty dims))"
  by (simp_all add: vectorContextAlloc_def vectorInit_def well_sized_def Let_def)

lemma vectorDataSize_bound: "d < 2 ^ 32 \<Longrightarrow> vectorDataSize ty d < 2 ^ 36"
  using align4(3) [of d] by (cases ty) (auto simp: bits_bytes_def)

lemma c_div_le: "c_div (d + 7) 8 mod 2 ^ 64 < 2 ^ 36 \<Longrightarrow> -(2 ^ 31) \<le> d \<Longrightarrow> d \<le> 8 * int n \<Longrightarrow> n < 2 ^ 31 \<Longrightarrow>
    c_div (d + 7) 8 mod 2 ^ 64 \<le> int n"
proof -
  assume a: "c_div (d + 7) 8 mod 2 ^ 64 < 2 ^ 36" "-(2 ^ 31) \<le> d" "d \<le> 8 * int n" "n < 2 ^ 31"
  show ?thesis
  proof (cases "0 \<le> c_div (d + 7) 8")
    case True
    have "c_div (d + 7) 8 \<le> int n" using a by (auto simp: c_div_def)
    then show ?thesis using True zmod_le_nonneg_dividend by (meson order_trans)
  next
    case False
    moreover have "- (2 ^ 31) \<le> c_div (d + 7) 8" using a(2) by (auto simp: c_div_def)
    ultimately have "(c_div (d + 7) 8 + 2 ^ 64) mod 2 ^ 64 = c_div (d + 7) 8 + 2 ^ 64"
      by (intro mod_pos_pos_trivial) auto
    moreover have "(c_div (d + 7) 8 + 2 ^ 64) mod 2 ^ 64 = c_div (d + 7) 8 mod 2 ^ 64" by simp
    ultimately show ?thesis using a(1) \<open>- (2 ^ 31) \<le> c_div (d + 7) 8\<close> by simp
  qed
qed

lemma to_int32_bounds: "- (2 ^ 31) \<le> to_int32 x" "0 \<le> x + 2 ^ 31 \<Longrightarrow> to_int32 x \<le> x"
  using zmod_le_nonneg_dividend [of "x + 2 ^ 31" "2 ^ 32"] by (auto simp: to_int32_def)

text \<open>The dimension may be negative in two formats only.\<close>

lemma parse_meta_form:
  assumes "vectorParseMeta b = Inr (ty, dims, n)"
  shows "ty = FLOAT1BIT \<and> n = nat (c_div (dims + 7) 8 mod 2 ^ 64) \<and> (\<exists>x. dims = to_int32 x)
    \<or> ty = FLOAT8 \<and> n \<le> length b \<and> (\<exists>x. dims = to_int32 x) \<or> 0 \<le> dims"
proof (cases "length b mod 2 = 0")
  case True
  then show ?thesis using assms by (auto simp: vectorParseMeta_def Let_def)
next
  case False
  let ?m = "length b - 1" and ?c = "type_of_code (unat (b ! (length b - 1)))"
  have r: "vectorParseMeta b = Inr (ty, dims, n)" by (rule assms)
  show ?thesis
  proof (cases ?c)
    case None
    then show ?thesis using r False by (simp add: vectorParseMeta_def Let_def)
  next
    case (Some t)
    then show ?thesis using r False
      by (cases t) (simp_all add: vectorParseMeta_def Let_def split: if_split_asm, blast, force)
  qed
qed

lemma parse_meta_dims: "vectorParseMeta b = Inr (ty, dims, n) \<Longrightarrow> - (2 ^ 31) \<le> dims"
  using parse_meta_form [of b ty dims n] to_int32_bounds(1) by force

text \<open>A blob whose meta is accepted has the data part inside it.\<close>

lemma parse_meta_inside:
  assumes "vectorParseMeta b = Inr (ty, dims, n)" and "length b < 2 ^ 31" and "n < 2 ^ 36"
  shows "n \<le> length b"
proof -
  consider "even (length b)" | "odd (length b)" by blast
  then show ?thesis
  proof cases
    case 2
    then have l: "0 < length b" by (cases b) auto
    let ?t = "type_of_code (unat (b ! (length b - 1)))"
    show ?thesis
    proof (cases "?t = Some FLOAT1BIT")
      case True
      let ?d = "to_int32 (int (length b - 1) * 8 - int (unat (b ! (length b - 1 - 1))))"
      have u: "unat (b ! (length b - 1 - 1)) < 256"
        using unsigned_less [of "b ! (length b - 1 - 1)"] by simp
      have n: "n = nat (c_div (?d + 7) 8 mod 2 ^ 64)"
        using assms(1) True 2 by (auto simp: vectorParseMeta_def Let_def odd_iff_mod_2_eq_one split: if_splits)
      have "c_div (?d + 7) 8 mod 2 ^ 64 < 2 ^ 36" using assms(3) unfolding n by (subst (asm) nat_less_iff) simp_all
      moreover have "?d \<le> 8 * int (length b - 1)"
      proof -
        have "0 \<le> int (length b - 1) * 8 - int (unat (b ! (length b - 1 - 1))) + 2 ^ 31"
          using uint_lt2p [of "b ! (length b - 1 - 1)"] by simp
        then have "?d \<le> int (length b - 1) * 8 - int (unat (b ! (length b - 1 - 1)))" by (rule to_int32_bounds(2))
        then show ?thesis by linarith
      qed
      ultimately have "c_div (?d + 7) 8 mod 2 ^ 64 \<le> int (length b - 1)"
        using assms(2) by (intro c_div_le to_int32_bounds) auto
      then show ?thesis using n by linarith
    next
      case False
      then show ?thesis using assms(1) 2
        by (auto simp: vectorParseMeta_def Let_def odd_iff_mod_2_eq_one split: if_splits option.splits vector_type.splits)
    qed
  qed (use assms(1) in \<open>auto simp: vectorParseMeta_def even_iff_mod_2_eq_zero\<close>)
qed

text \<open>A blob whose size agrees with the vector allocated for its type and dimension.\<close>

lemma parse_alloc:
  assumes "length b < 2 ^ 31" and m: "vectorParseMeta b = Inr (ty, dims, n)"
    and "v = vectorContextAlloc junk ty dims" and n: "n = vectorDataSize ty (vdims v)"
  shows "vectorParseWithType strtod (VBlob b) v =
    (if vdims v \<le> MAX_VECTOR_SZ then Some (Inr (v\<lparr>vdata := take n b\<rparr>)) else None)"
proof -
  have v: "vtype v = ty" "length (vdata v) = n" "vdims v < 2 ^ 32"
    using assms(3,4) by (simp_all add: vectorContextAlloc_def vectorInit_def Let_def nat_less_iff)
  have d: "vectorDataSize ty (vdims v) < 2 ^ 36" using v(3) by (rule vectorDataSize_bound)
  have l: "n \<le> length b" using parse_meta_inside [OF m assms(1)] d n by simp
  have "vectorDeserializeFromBlob v b n = (if vdims v \<le> MAX_VECTOR_SZ then Some (v\<lparr>vdata := take n b\<rparr>) else None)"
    using deserialize_data_part [of v b n] deserialize_asserts [of v b n] v l n by (cases "vdims v \<le> MAX_VECTOR_SZ") auto
  then show ?thesis
    using v n by (simp add: vectorParseWithType_def vectorParseSqliteBlobWithType_def m)
qed

text \<open>Which negative dimensions give the size of the blob's data part again: those of less than a byte.\<close>

lemma negative_dims:
  assumes "vectorParseMeta b = Inr (ty, dims, n)" "length b < 2 ^ 31" "dims < 0"
  shows "n = vectorDataSize ty (nat (dims mod 2 ^ 32)) \<longleftrightarrow> ty = FLOAT1BIT \<and> -7 \<le> dims"
proof -
  have lo: "- (2 ^ 31) \<le> dims" by (rule parse_meta_dims [OF assms(1)])
  define D where "D = nat (dims mod 2 ^ 32)"
  have "(dims + 2 ^ 32) mod 2 ^ 32 = dims + 2 ^ 32" using lo assms(3) by (intro mod_pos_pos_trivial) auto
  then have "dims mod 2 ^ 32 = dims + 2 ^ 32" by simp
  then have D: "int D = dims + 2 ^ 32" using lo by (simp add: D_def)
  have "ty = FLOAT1BIT \<and> n = nat (c_div (dims + 7) 8 mod 2 ^ 64) \<or> ty = FLOAT8 \<and> n \<le> length b"
    using parse_meta_form [OF assms(1)] assms(3) by auto
  then consider (bits) "ty = FLOAT1BIT" "n = nat (c_div (dims + 7) 8 mod 2 ^ 64)" | (f8) "ty = FLOAT8" "n \<le> length b"
    by blast
  then have "n = vectorDataSize ty D \<longleftrightarrow> ty = FLOAT1BIT \<and> -7 \<le> dims"
  proof cases
    case f8
    have "D \<le> align D 4" by (rule align4)
    then show ?thesis using f8 assms(2) D lo by simp
  next
    case bits
    show ?thesis
    proof (cases "-7 \<le> dims")
      case True
      then obtain j where j: "dims + 7 = int j" "j < 7" using assms(3) by (intro that [of "nat (dims + 7)"]) auto
      then have "D + 7 = j + 1 * 2 ^ 32" using D by simp
      then have "bits_bytes D = 0" using j(2) unfolding bits_bytes_def by (simp only: mod_mult_self1) simp
      then show ?thesis using bits True j by (simp add: c_div_def)
    next
      case False
      define k where "k = (- (dims + 7)) div 8"
      have k: "0 \<le> k" "k \<le> 2 ^ 28" using False lo by (auto simp: k_def)
      have "D + 7 < 2 ^ 32" "2 ^ 31 \<le> D" using D False lo by simp_all
      then have B: "bits_bytes D < 2 ^ 29" "2 ^ 28 \<le> bits_bytes D" by (auto simp: bits_bytes_def)
      have c: "c_div (dims + 7) 8 = - k" using False by (simp add: c_div_def k_def)
      have "n \<noteq> bits_bytes D"
      proof (cases "k = 0")
        case True
        then show ?thesis using bits B c by simp
      next
        case False
        have "(- k + 2 ^ 64) mod 2 ^ 64 = - k + 2 ^ 64" using k False by (intro mod_pos_pos_trivial) auto
        then have "(- k) mod 2 ^ 64 = 2 ^ 64 - k" by simp
        then have "int n = 2 ^ 64 - k" unfolding bits(2) c using k by simp
        then show ?thesis using B k by auto
      qed
      then show ?thesis using bits False by simp
    qed
  qed
  then show ?thesis by (simp only: D_def)
qed

text \<open>C25. Parsing a blob is memory safe: for every blob a value can hold, whatever its bytes, once the
  detector has reported a type and a dimension for it, parsing it into the vector allocated for them
  either reports an error or fills the vector, and never reads outside the blob or writes outside
  the vector. An assertion fails in one case only, and exactly there: the detector lets the
  dimensions -7 to -1 of a 1-bit blob pass, and the deserialiser asserts that there are at most 65536
  (unsigned) components.\<close>

theorem parse_blob_safe:
  assumes "length b < 2 ^ 31" and "detectVectorParameters (VBlob b) hint = Inr (ty, dims)"
  shows "vectorParseWithType strtod (VBlob b) (vectorContextAlloc junk ty dims) = None
    \<longleftrightarrow> ty = FLOAT1BIT \<and> -7 \<le> dims \<and> dims < 0"
proof -
  obtain n where m: "vectorParseMeta b = Inr (ty, dims, n)" and dm: "dims \<le> int MAX_VECTOR_SZ"
    using assms(2) by (auto simp: detectVectorParameters_def detectBlobVectorParameters_def split: sum.splits if_splits)
  let ?v = "vectorContextAlloc junk ty dims"
  have v: "vtype ?v = ty" "vdims ?v = nat (dims mod 2 ^ 32)"
    by (simp_all add: vectorContextAlloc_def vectorInit_def Let_def)
  show ?thesis
  proof (cases "n = vectorDataSize ty (vdims ?v)")
    case True
    have "vdims ?v \<le> MAX_VECTOR_SZ \<longleftrightarrow> 0 \<le> dims"
    proof (cases "0 \<le> dims")
      case True
      then show ?thesis using dm unfolding v by (simp add: MAX_VECTOR_SZ_def)
    next
      case False
      have "- (2 ^ 31) \<le> dims" by (rule parse_meta_dims [OF m])
      then have "(dims + 2 ^ 32) mod 2 ^ 32 = dims + 2 ^ 32" using False by (intro mod_pos_pos_trivial) auto
      then have "dims mod 2 ^ 32 = dims + 2 ^ 32" by simp
      then show ?thesis using False \<open>- (2 ^ 31) \<le> dims\<close> unfolding v by (simp add: MAX_VECTOR_SZ_def)
    qed
    then show ?thesis
      using parse_alloc [OF assms(1) m refl True] negative_dims [OF m assms(1)] True v by auto
  next
    case False
    then show ?thesis
      using negative_dims [OF m assms(1)] v
      by (auto simp: vectorParseWithType_def vectorParseSqliteBlobWithType_def m)
  qed
qed

theorem parse_blob_safe_witness:
  "vectorParseWithType (\<lambda>_. (0, 0)) (VBlob [5, 13, 3]) (vectorContextAlloc (\<lambda>_. 0) FLOAT1BIT 3) \<noteq> None
   \<and> vectorParseWithType (\<lambda>_. (0, 0)) (VBlob [0, 17, 3]) (vectorContextAlloc (\<lambda>_. 0) FLOAT1BIT (-1)) = None"
proof -
  have "detectVectorParameters (VBlob [5, 13, 3]) None = Inr (FLOAT1BIT, 3)"
    "detectVectorParameters (VBlob [0, 17, 3]) None = Inr (FLOAT1BIT, -1)"
    by (simp_all add: detectVectorParameters_def detectBlobVectorParameters_def vectorParseMeta_def type_of_code_def
        to_int32_def MAX_VECTOR_SZ_def)
  then show ?thesis using parse_blob_safe [of "[5, 13, 3]" None _ _ "\<lambda>_. (0, 0)"] parse_blob_safe [of "[0, 17, 3]" None _ _ "\<lambda>_. (0, 0)"]
    by simp
qed

subsection \<open>Where the SQL functions go wrong\<close>

lemma load_out: "length m < k * n \<Longrightarrow> load k m n = None"
proof (cases n)
  case (Suc j)
  assume "length m < k * n"
  then have "mem_rd k m j = None" by (simp add: mem_rd_def memget_def Suc add.commute)
  moreover have "None \<in> set xs \<Longrightarrow> those xs = None" for xs :: "'b option list"
    by (induction xs) (auto split: option.splits)
  ultimately show ?thesis unfolding load_def Suc by (metis (no_types, lifting) imageI in_set_conv_nth length_upt list.set_map lessI set_upt atLeastLessThan_iff zero_le)
qed simp

text \<open>C36. A negative dimension slips through: the three-byte blob \<open>x'001103'\<close> claims 16 - 17 = -1
  components, which passes the size check (it only bounds from above) and allocates nothing (the size
  computation wraps around). The distance function then runs into the deserialiser's assertion on the
  dimension, and in a build without assertions into the Hamming distance of the two vectors, which
  reads far outside them.\<close>

theorem negative_dimension_crash:
  "detectVectorParameters (VBlob [0, 17, 3]) None = Inr (FLOAT1BIT, -1)
   \<and> vectorDistanceFunc strtod junk [VBlob [0, 17, 3], VBlob [0, 17, 3]] False = None
   \<and> vectorDistanceCos (vectorContextAlloc (junk i) FLOAT1BIT (-1)) (vectorContextAlloc (junk j) FLOAT1BIT (-1)) = None"
proof (intro conjI)
  show d: "detectVectorParameters (VBlob [0, 17, 3]) None = Inr (FLOAT1BIT, -1)"
    by (simp add: detectVectorParameters_def detectBlobVectorParameters_def vectorParseMeta_def type_of_code_def
        to_int32_def c_div_def MAX_VECTOR_SZ_def)
  let ?v = "\<lambda>j. vectorContextAlloc j FLOAT1BIT (-1)"
  have v: "?v j = \<lparr>vflags = 0, vtype = FLOAT1BIT, vdims = 4294967295, vdata = []\<rparr>" for j
    by (simp add: vectorContextAlloc_def vectorInit_def bits_bytes_def malloc_def)
  have "vectorParseWithType strtod (VBlob [0, 17, 3]) (?v j) = None" for j
    unfolding v by (simp add: vectorParseWithType_def vectorParseSqliteBlobWithType_def vectorParseMeta_def
        type_of_code_def to_int32_def c_div_def bits_bytes_def vectorDeserializeFromBlob_def
        vector1BitDeserializeFromBlob_def MAX_VECTOR_SZ_def)
  then show "vectorDistanceFunc strtod junk [VBlob [0, 17, 3], VBlob [0, 17, 3]] False = None"
    by (simp add: vectorDistanceFunc_def d)
  show "vectorDistanceCos (?v (junk i)) (?v (junk j)) = None"
    unfolding v by (simp add: vectorDistanceCos_def vector1BitDistanceHamming_def load_out)
qed

text \<open>C37. \<open>vector_extract\<close> ignores a blob that fails to parse: it tests the return code for being
  negative, while the parser reports 1. The six-byte blob is taken for one float, its size check
  fails, and the text of whatever the fresh memory held is returned.\<close>

theorem extract_uninitialised:
  "vectorParseWithType strtod (VBlob [1, 2, 3, 4, 5, 6]) (vectorContextAlloc (junk 0) FLOAT32 1) = Some (Inl (1, ErrDataSize))
   \<and> vectorExtractFunc strtod fmt junk [VBlob [1, 2, 3, 4, 5, 6]] =
       Some (RText (marshal_text [formatF32 fmt (le_word [junk 0 0, junk 0 1, junk 0 2, junk 0 3]) 32]))"
proof
  let ?v = "vectorContextAlloc (junk 0) FLOAT32 1"
  have v: "?v = \<lparr>vflags = 0, vtype = FLOAT32, vdims = 1, vdata = [junk 0 0, junk 0 1, junk 0 2, junk 0 3]\<rparr>"
    by (simp add: vectorContextAlloc_def vectorInit_def malloc_def upt_rec numeral_2_eq_2 numeral_3_eq_3)
  show p: "vectorParseWithType strtod (VBlob [1, 2, 3, 4, 5, 6]) ?v = Some (Inl (1, ErrDataSize))"
    unfolding v by (simp add: vectorParseWithType_def vectorParseSqliteBlobWithType_def vectorParseMeta_def)
  have d: "detectVectorParameters (VBlob [1, 2, 3, 4, 5, 6]) None = Inr (FLOAT32, 1)"
    by (simp add: detectVectorParameters_def detectBlobVectorParameters_def vectorParseMeta_def MAX_VECTOR_SZ_def)
  show "vectorExtractFunc strtod fmt junk [VBlob [1, 2, 3, 4, 5, 6]] =
       Some (RText (marshal_text [formatF32 fmt (le_word [junk 0 0, junk 0 1, junk 0 2, junk 0 3]) 32]))"
    using p unfolding v
    by (simp add: vectorExtractFunc_def d p v tolerate_def vectorMarshalToText_def vectorF32MarshalToText_def
        load_def mem_rd_def memget_def SINGLE_FLOAT_CHAR_LIMIT_def numeral_2_eq_2 numeral_3_eq_3 c_assert_bind
        MAX_VECTOR_SZ_def)
qed

subsection \<open>The text parser's buffer\<close>

text \<open>\<open>valueBuf\<close> holding the characters \<open>cs\<close> and zeroes up to its end.\<close>

definition vbuf :: "bytes \<Rightarrow> bytes" where
  "vbuf cs = cs @ replicate (MAX_FLOAT_CHAR_SZ + 1 - length cs) 0"

lemma vbuf_put:
  "length cs \<le> MAX_FLOAT_CHAR_SZ \<Longrightarrow> memput (vbuf cs) (length cs) [c] = Some (vbuf (cs @ [c]))"
  by (simp add: memput_def vbuf_def Suc_diff_le)

lemma vbuf_cstr:
  "length cs \<le> MAX_FLOAT_CHAR_SZ \<Longrightarrow> 0 \<notin> set cs \<Longrightarrow> cstr (vbuf cs) = Some cs"
proof -
  assume a: "length cs \<le> MAX_FLOAT_CHAR_SZ" "0 \<notin> set cs"
  then have "takeWhile (\<lambda>c. c \<noteq> 0) (vbuf cs) = cs @ takeWhile (\<lambda>c. c \<noteq> 0) (replicate (MAX_FLOAT_CHAR_SZ + 1 - length cs) 0)"
    unfolding vbuf_def by (intro takeWhile_append2) auto
  also have "\<dots> = cs" by (simp add: takeWhile_eq_Nil_iff Suc_diff_le a(1))
  finally show ?thesis using a(1) by (simp add: cstr_def vbuf_def)
qed

lemma vbuf_clear:
  "length cs \<le> MAX_FLOAT_CHAR_SZ + 1 \<Longrightarrow> memput (vbuf cs) 0 (replicate (length cs) 0) = Some (vbuf [])"
  by (simp add: memput_def vbuf_def flip: replicate_add)

lemma vbuf_full_cstr: "length cs = MAX_FLOAT_CHAR_SZ + 1 \<Longrightarrow> 0 \<notin> set cs \<Longrightarrow> cstr (vbuf cs) = None"
  by (simp add: vbuf_def cstr_def)

text \<open>A text element without a digit is not counted by the dimension detector: \<open>'[inf]'\<close> is allocated
  with no component, and storing the one that \<open>strtod\<close> yields overruns the buffer.\<close>

theorem text_without_digit_overflow:
  "snd (strtod [105, 110, 102]) = 0
   \<or> vectorFuncHintedType strtod junk [VText [91, 105, 110, 102, 93]] FLOAT32 = None"
proof -
  have d: "detectVectorParameters (VText [91, 105, 110, 102, 93]) (Some FLOAT32) = Inr (FLOAT32, 0)"
    by (simp add: detectVectorParameters_def detectTextVectorParameters_def sqlite4Isdigit_def)
  have v: "vectorContextAlloc (junk 0) FLOAT32 0 = \<lparr>vflags = 0, vtype = FLOAT32, vdims = 0, vdata = []\<rparr>"
    by (simp add: vectorContextAlloc_def vectorInit_def malloc_def)
  have "vectorParseWithType strtod (VText [91, 105, 110, 102, 93]) (vectorContextAlloc (junk 0) FLOAT32 0) = None"
    if "snd (strtod [105, 110, 102]) \<noteq> 0"
  proof -
    have "parseElems strtod FLOAT32 [105, 110, 102, 93] (vbuf []) 0 0 [] = None"
    proof -
      have q: "memput (vbuf []) 0 [105] = Some (vbuf [105])" "memput (vbuf [105]) (Suc 0) [110] = Some (vbuf [105, 110])"
        "memput (vbuf [105, 110]) (Suc (Suc 0)) [102] = Some (vbuf [105, 110, 102])"
        "cstr (vbuf [105, 110, 102]) = Some [105, 110, 102]"
        "memput (vbuf [105, 110, 102]) 0 [0, 0, 0] = Some (vbuf [])"
        using vbuf_put [of "[]" 105] vbuf_put [of "[105]" 110] vbuf_put [of "[105, 110]" 102]
          vbuf_cstr [of "[105, 110, 102]"] vbuf_clear [of "[105, 110, 102]"]
        by (simp_all add: MAX_FLOAT_CHAR_SZ_def)
      have w: "mem_wr 4 [] 0 (x :: f32) = None" for x by (simp add: mem_wr_def memput_def)
      have m: "Suc (Suc 0) \<le> MAX_FLOAT_CHAR_SZ" "\<not> MAX_VECTOR_SZ \<le> 0" by (simp_all add: MAX_FLOAT_CHAR_SZ_def MAX_VECTOR_SZ_def)
      show ?thesis
        using that q m w by (cases "strtod [105, 110, 102]") (simp add: sqlite4Isspace_def)
    qed
    then show ?thesis
      unfolding v by (simp add: vectorParseWithType_def vectorParseSqliteText_def sqlite4Isspace_def vbuf_def)
  qed
  then show ?thesis by (cases "snd (strtod [105, 110, 102]) = 0") (simp_all add: vectorFuncHintedType_def d)
qed

text \<open>Quantising a constant vector divides zero by zero: the scale is zero, every scaled component is a
  NaN, and its conversion to \<open>int\<close> is undefined. \<open>vector8('[1,1]')\<close> is such a call.\<close>

theorem quantise_constant_undefined:
  "vectorConvert \<lparr>vflags = 0, vtype = FLOAT32, vdims = 2, vdata = [0, 0, 128, 63, 0, 0, 128, 63]\<rparr>
     (vectorContextAlloc junk FLOAT8 2) = None"
proof -
  have "f32_sub 0x3f800000 0x3f800000 = 0" "f32_div 0 (f32_of_int 255) = 0" "f32_div 0 0 = 0x7fc00000"
    "clip 0x7fc00000 0 255 = None" "f32_lt 0x3f800000 0x3f800000 = False"
    by code_simp+
  moreover have "load 4 [0, 0, 128, 63, 0, 0, 128, 63] 2 = Some [0x3f800000, 0x3f800000 :: f32]"
    by (simp add: load_def mem_rd_def memget_def le_word_def be_word_simps upt_rec)
  ultimately show ?thesis
    by (simp add: vectorConvert_def vectorConvertToF8_def quantize_f32_def minmax_f32_def put_f8_def
        vectorContextAlloc_def vectorInit_def)
qed
subsection \<open>What the text parser accepts\<close>

text \<open>An element as written: visible, no separator, short enough for the buffer.\<close>

definition token :: "bytes \<Rightarrow> bool" where
  "token cs = (cs \<noteq> [] \<and> length cs \<le> MAX_FLOAT_CHAR_SZ \<and>
     (\<forall>c \<in> set cs. \<not> sqlite4Isspace c \<and> c \<noteq> 44 \<and> c \<noteq> 93 \<and> c \<noteq> 0))"

fun csv :: "bytes list \<Rightarrow> bytes" where
  "csv [] = []"
| "csv [t] = t"
| "csv (t # ts) = t @ 44 # csv ts"

lemma parse_chars:
  "\<forall>c \<in> set cs. \<not> sqlite4Isspace c \<and> c \<noteq> 44 \<and> c \<noteq> 93 \<Longrightarrow> length pre + length cs \<le> MAX_FLOAT_CHAR_SZ + 1 \<Longrightarrow>
     parseElems strtod ty (cs @ rest) (vbuf pre) (length pre) i d
     = parseElems strtod ty rest (vbuf (pre @ cs)) (length pre + length cs) i d"
proof (induction cs arbitrary: pre)
  case (Cons c cs)
  then show ?case using Cons.IH [of "pre @ [c]"] vbuf_put [of pre c] by simp
qed simp

lemma parse_token:
  assumes "token t" "snd (strtod t) \<noteq> 0" "i < MAX_VECTOR_SZ" "sep = 44 \<or> sep = 93"
  shows "parseElems strtod FLOAT32 (t @ sep # rest) (vbuf []) 0 i d =
    Option.bind (mem_wr 4 d i (f32_of_f64 (fst (strtod t)))) (\<lambda>d.
      if sep = 93 then Some (Inr (93 # rest, i + 1, d)) else parseElems strtod FLOAT32 rest (vbuf []) 0 (i + 1) d)"
proof -
  have t: "t \<noteq> []" "length t \<le> MAX_FLOAT_CHAR_SZ" "0 \<notin> set t"
    and c: "\<forall>c \<in> set t. \<not> sqlite4Isspace c \<and> c \<noteq> 44 \<and> c \<noteq> 93"
    using assms(1) by (auto simp: token_def)
  have "parseElems strtod FLOAT32 (t @ sep # rest) (vbuf []) 0 i d = parseElems strtod FLOAT32 (sep # rest) (vbuf t) (length t) i d"
    using parse_chars [OF c, of "[]" strtod FLOAT32 "sep # rest" i d] t(2) by simp
  moreover have "\<not> sqlite4Isspace sep" using assms(4) by (auto simp: sqlite4Isspace_def)
  moreover have "memput (vbuf t) 0 (replicate (length t) 0) = Some (vbuf [])"
    using t(2) by (intro vbuf_clear) simp
  ultimately show ?thesis
    using assms t vbuf_cstr [OF t(2,3)] by (cases "strtod t") auto
qed

lemma parse_csv:
  "ts \<noteq> [] \<Longrightarrow> \<forall>t \<in> set ts. token t \<and> snd (strtod t) \<noteq> 0 \<Longrightarrow> i + length ts \<le> MAX_VECTOR_SZ \<Longrightarrow>
     parseElems strtod FLOAT32 (csv ts @ 93 # rest) (vbuf []) 0 i d =
     map_option (\<lambda>d. Inr (93 # rest, i + length ts, d)) (store 4 d i (map (\<lambda>t. f32_of_f64 (fst (strtod t))) ts))"
proof (induction ts arbitrary: i d rule: csv.induct)
  case (2 t)
  then show ?case using parse_token [of t strtod i 93 rest d]
    by (cases "mem_wr 4 d i (f32_of_f64 (fst (strtod t)))") auto
next
  case (3 t u ts)
  then show ?case
    using parse_token [of t strtod i 44 "csv (u # ts) @ 93 # rest" d] "3.IH" [of "i + 1"]
    by (cases "mem_wr 4 d i (f32_of_f64 (fst (strtod t)))") auto
qed simp

text \<open>C28. The text parser computes what its format promises: a bracketed, comma-separated list of elements,
  each at most 1024 characters and accepted by \<open>strtod\<close>, becomes the vector of their values
  narrowed to \<open>float\<close>, in order, with its dimension set to their number, and every write stays inside
  a buffer that holds them.\<close>

theorem text_parse_values:
  assumes "ts \<noteq> []" "\<forall>t \<in> set ts. token t \<and> snd (strtod t) \<noteq> 0" "length ts \<le> MAX_VECTOR_SZ"
    and "vtype v = FLOAT32" "4 * length ts \<le> length (vdata v)"
  shows "\<exists>w. vectorParseSqliteText strtod (91 # csv ts @ [93]) v = Some (Inr w)
    \<and> vtype w = FLOAT32 \<and> vdims w = length ts
    \<and> load 4 (vdata w) (length ts) = Some (map (\<lambda>t. f32_of_f64 (fst (strtod t))) ts)"
proof -
  let ?es = "map (\<lambda>t. f32_of_f64 (fst (strtod t))) ts"
  let ?d = "concat (map (le_bytes 4) ?es) @ drop (4 * length ts) (vdata v)"
  have st: "store 4 (vdata v) 0 ?es = Some ?d"
    using assms(5) by (simp add: store_memput memput_def del: map_map)
  have nz: "0 \<notin> set (csv ts)"
    using assms(1,2) by (induction ts rule: csv.induct) (auto simp: token_def)
  have tw: "takeWhile (\<lambda>c. c \<noteq> 0) (91 # csv ts @ [93]) = 91 # csv ts @ [93]"
    using nz by (intro takeWhile_eq_all_conv [THEN iffD2]) auto
  have "parseElems strtod FLOAT32 (csv ts @ 93 # []) (vbuf []) 0 0 (vdata v) = Some (Inr ([93], length ts, ?d))"
    using parse_csv [OF assms(1,2), of 0 "[]" "vdata v"] assms(3) st by simp
  then have "vectorParseSqliteText strtod (91 # csv ts @ [93]) v = Some (Inr (v\<lparr>vdims := length ts, vdata := ?d\<rparr>))"
    unfolding vectorParseSqliteText_def tw using assms(4)
    by (simp add: sqlite4Isspace_def vbuf_def)
  moreover have "load 4 ?d (length ?es) = Some ?es" by (rule load_concat) simp
  ultimately show ?thesis using assms(4) by simp
qed

theorem text_parse_values_witness:
  "\<exists>w. vectorParseSqliteText (\<lambda>s. (if s = [49] then 0x3ff0000000000000 else 0x4000000000000000, 1)) [91, 49, 44, 50, 93]
      (vectorInit FLOAT32 2 [0, 0, 0, 0, 0, 0, 0, 0]) = Some (Inr w)
    \<and> vdims w = 2 \<and> load 4 (vdata w) 2 = Some [f32_of_f64 0x3ff0000000000000, f32_of_f64 0x4000000000000000]"
proof -
  let ?f = "\<lambda>s :: bytes. (if s = [49] then 0x3ff0000000000000 else 0x4000000000000000 :: f64, 1 :: nat)"
  let ?v = "vectorInit FLOAT32 2 [0, 0, 0, 0, 0, 0, 0, 0]"
  have "\<forall>t \<in> set [[49], [50]]. token t \<and> snd (?f t) \<noteq> 0"
    by (simp add: token_def MAX_FLOAT_CHAR_SZ_def sqlite4Isspace_def)
  then obtain w where "vectorParseSqliteText ?f (91 # csv [[49], [50]] @ [93]) ?v = Some (Inr w)"
    "vdims w = length [[49 :: u8], [50]]" "load 4 (vdata w) (length [[49 :: u8], [50]]) = Some (map (\<lambda>t. f32_of_f64 (fst (?f t))) [[49], [50]])"
    using text_parse_values [of "[[49], [50]]" ?f ?v] by (auto simp: MAX_VECTOR_SZ_def vectorInit_def)
  then show ?thesis by (intro exI [of _ w]) (simp add: numeral_2_eq_2)
qed

text \<open>An element of 1025 or more characters is undefined behaviour, not an error: the length test lets
  the 1025th character take the place of the terminating NUL, and then both \<open>strtod\<close> and the message
  for an over-long element read the buffer as a string.\<close>

theorem text_long_element_undefined:
  assumes "length cs = MAX_FLOAT_CHAR_SZ + 1" "\<forall>c \<in> set cs. \<not> sqlite4Isspace c \<and> c \<noteq> 44 \<and> c \<noteq> 93 \<and> c \<noteq> 0"
  shows "vectorParseSqliteText strtod (91 # cs @ c # rest) v = None \<or> c = 0 \<or> sqlite4Isspace c"
proof (cases "c = 0 \<or> sqlite4Isspace c")
  case False
  let ?r = "takeWhile (\<lambda>c. c \<noteq> 0) rest"
  have tw: "takeWhile (\<lambda>c. c \<noteq> 0) (91 # cs @ c # rest) = 91 # cs @ c # ?r"
    using assms(2) False by (simp add: takeWhile_append2)
  have "\<forall>c \<in> set cs. \<not> sqlite4Isspace c \<and> c \<noteq> 44 \<and> c \<noteq> 93" using assms(2) by blast
  from parse_chars [OF this, of "[]" strtod "vtype v" "c # ?r" 0 "vdata v"]
  moreover have "cstr (vbuf cs) = None" using assms by (intro vbuf_full_cstr) auto
  ultimately have "parseElems strtod (vtype v) (cs @ c # ?r) (vbuf []) 0 0 (vdata v) = None"
    using assms(1) False by (simp del: One_nat_def)
  then show ?thesis
    unfolding vectorParseSqliteText_def tw by (simp add: sqlite4Isspace_def vbuf_def)
qed auto

theorem text_long_element_undefined_witness:
  "vectorParseSqliteText (\<lambda>s. (0, length s)) (91 # replicate (MAX_FLOAT_CHAR_SZ + 1) 49 @ 93 # [])
       \<lparr>vflags = 0, vtype = FLOAT32, vdims = 1, vdata = [0, 0, 0, 0]\<rparr> = None
   \<or> (93 :: u8) = 0 \<or> sqlite4Isspace 93"
  by (rule text_long_element_undefined) (simp_all add: sqlite4Isspace_def)

subsection \<open>Bits of a converted vector\<close>

lemma mem_rd_1: "i < length d \<Longrightarrow> mem_rd (Suc 0) d i = Some (d ! i :: u8)"
  by (simp add: mem_rd_def memget_def le_word_def be_word_simps flip: Cons_nth_drop_Suc)

lemma mem_wr_1: "i < length d \<Longrightarrow> mem_wr (Suc 0) d i (x :: u8) = Some (d[i := x])"
  by (simp add: mem_wr_def memput_def le_bytes_def be_bytes_num byte_def upd_conv_take_nth_drop)

lemma set_bits_correct:
  "(i + length bs + 7) div 8 \<le> length d \<Longrightarrow> \<forall>j \<ge> i. j < 8 * length d \<longrightarrow> \<not> bit_component d j \<Longrightarrow>
     \<exists>d'. set_bits d i bs = Some d' \<and> length d' = length d
       \<and> (\<forall>j. j < 8 * length d \<longrightarrow>
            bit_component d' j = (if j < i then bit_component d j else j - i < length bs \<and> bs ! (j - i)))"
proof (induction bs arbitrary: i d)
  case (Cons b bs)
  have i8: "i div 8 < length d" using Cons.prems(1) by auto
  define e where "e = (if b then d[i div 8 := d ! (i div 8) OR push_bit (i mod 8) 1] else d)"
  have e_len: "length e = length d" by (simp add: e_def)
  have e_bit: "bit_component e j = (if j = i then b else bit_component d j)" if "j < 8 * length d" "i \<le> j \<or> True" for j
  proof -
    have ni: "\<not> bit_component d i" using Cons.prems(2) i8 by auto
    show ?thesis
    proof (cases "b \<and> j div 8 = i div 8")
      case True
      then have "bit_component e j \<longleftrightarrow> bit_component d j \<or> j mod 8 = i mod 8"
        using i8 by (auto simp: e_def bit_component_def bit_simps)
      moreover have "j mod 8 = i mod 8 \<longleftrightarrow> j = i" using True by (metis div_mult_mod_eq)
      ultimately show ?thesis using True by auto
    next
      case False
      then show ?thesis using ni by (auto simp: e_def bit_component_def nth_list_update)
    qed
  qed
  have "set_bits d i (b # bs) = set_bits e (Suc i) bs"
    using i8 by (simp add: e_def mem_rd_1 mem_wr_1)
  moreover obtain d' where "set_bits e (Suc i) bs = Some d'" "length d' = length e"
    "\<forall>j. j < 8 * length e \<longrightarrow>
       bit_component d' j = (if j < Suc i then bit_component e j else j - Suc i < length bs \<and> bs ! (j - Suc i))"
    using Cons.IH [of "Suc i" e] Cons.prems e_len e_bit by auto
  moreover have "(if j < Suc i then bit_component e j else j - Suc i < length bs \<and> bs ! (j - Suc i))
      = (if j < i then bit_component d j else j - i < length (b # bs) \<and> (b # bs) ! (j - i))"
    if "j < 8 * length d" for j
    using e_bit [OF that] by (auto simp: nth_Cons' less_Suc_eq)
  ultimately show ?case using e_len by auto
qed auto

text \<open>C29. Binarisation: converting a \<open>float32\<close> vector to one bit per component sets component \<open>i\<close> exactly
  when element \<open>i\<close> is positive, clears every padding bit and the result has the size of its type,
  whatever the destination held before.\<close>

theorem convert_to_1bit:
  assumes "well_sized v" "vtype v = FLOAT32" "vdims v \<le> MAX_VECTOR_SZ"
  shows "\<exists>es w. load 4 (vdata v) (vdims v) = Some es
    \<and> vectorConvert v (vectorContextAlloc junk FLOAT1BIT (int (vdims v))) = Some w
    \<and> vtype w = FLOAT1BIT \<and> vdims w = vdims v \<and> length (vdata w) = (vdims v + 7) div 8
    \<and> (\<forall>i < 8 * length (vdata w). bit_component (vdata w) i = (i < vdims v \<and> f32_lt 0 (es ! i)))"
proof -
  let ?n = "vdims v" and ?l = "(vdims v + 7) div 8"
  obtain es :: "f32 list" where es: "load 4 (vdata v) ?n = Some es" "length es = ?n"
    using load_some [of 4 ?n "vdata v", where 'a=32] load_length [of 4 "vdata v" ?n, where 'a=32] assms by (auto simp: well_sized_def mult.commute)
  have n32: "nat (int ?n mod 2 ^ 32) = ?n" using assms(3) by (simp add: MAX_VECTOR_SZ_def)
  let ?t = "vectorContextAlloc junk FLOAT1BIT (int ?n)"
  have t: "vtype ?t = FLOAT1BIT" "vdims ?t = ?n" "length (vdata ?t) = ?l"
    unfolding vectorContextAlloc_def Let_def n32 by (simp_all add: vectorInit_def bits_bytes_small assms(3))
  have z: "memput (vdata ?t) 0 (replicate ?l 0) = Some (replicate ?l 0)"
    using t by (simp add: memput_0_whole)
  have zb: "\<not> bit_component (replicate ?l 0) j" if "j < 8 * ?l" for j
    using that by (simp add: bit_component_def)
  obtain d where d: "set_bits (replicate ?l 0) 0 (map (\<lambda>x. f32_lt 0 x) es) = Some d" "length d = ?l"
    "\<forall>j. j < 8 * ?l \<longrightarrow> bit_component d j = (j < ?n \<and> f32_lt 0 (es ! j))"
    using set_bits_correct [of 0 "map (\<lambda>x. f32_lt 0 x) es" "replicate ?l 0"] es(2) zb
    by (auto cong: conj_cong)
  have "vectorConvert v ?t = Some (?t\<lparr>vdata := d\<rparr>)"
    using assms(2) t es z d(1) by (simp add: vectorConvert_def vectorConvertFromF32_def put_1bit_def)
  then show ?thesis using es t d by (intro exI [of _ es] exI [of _ "?t\<lparr>vdata := d\<rparr>"]) simp
qed

theorem convert_to_1bit_witness:
  "\<exists>w. vectorConvert (vectorInit FLOAT32 2 [0, 0, 128, 63, 0, 0, 128, 191]) (vectorContextAlloc (\<lambda>_. 255) FLOAT1BIT 2) = Some w
     \<and> length (vdata w) = 1"
  using convert_to_1bit [of "vectorInit FLOAT32 2 [0, 0, 128, 63, 0, 0, 128, 191]" "\<lambda>_. 255"]
  by (auto simp: vectorInit_def well_sized_def MAX_VECTOR_SZ_def)

text \<open>The blob of a quantised vector is not a function of the vector: the alignment bytes between the
  components and the scale are never written, so they leak what the fresh memory held, and equal
  vectors can have different blobs.\<close>

theorem f8_blob_leaks_memory:
  "vectorSerializeWithMeta junk \<lparr>vflags = 0, vtype = FLOAT8, vdims = 1, vdata = [9, 0, 0, 0, 0, 0, 128, 63, 0, 0, 0, 0]\<rparr>
   = Some (RBlob [9, junk 1, junk 2, junk 3, 0, 0, 128, 63, 0, 0, 0, 0, 0, 3, 4])"
proof -
  let ?v = "\<lparr>vflags = 0, vtype = FLOAT8, vdims = 1, vdata = [9, 0, 0, 0, 0, 0, 128, 63, 0, 0, 0, 0]\<rparr> :: vector"
  have al: "align (Suc 0) 4 = 4" by (simp add: align_def)
  have m: "malloc junk 15 = [junk 0, junk 1, junk 2, junk 3, junk 4, junk 5, junk 6, junk 7, junk 8, junk 9, junk 10,
      junk 11, junk 12, junk 13, junk 14]"
    by (simp add: malloc_def numeral_eq_Suc)
  have "vectorSerializeToBlob ?v (malloc junk 15) 0 12 = memput (malloc junk 15) 0 (data_part ?v (malloc junk 15))"
    by (subst serialize_data_part) (simp_all add: well_sized_def al MAX_VECTOR_SZ_def)
  then show ?thesis
    by (simp add: vectorSerializeWithMeta_def al vectorMetaSize_def m data_part_def memput_def vectorSerializeMeta_def
        MAX_VECTOR_SZ_def)
qed

subsection \<open>Conversion keeps the type of its destination\<close>

definition same_shape :: "vector \<Rightarrow> vector \<Rightarrow> bool" where
  "same_shape w w' \<longleftrightarrow> w' = w\<lparr>vdata := vdata w'\<rparr> \<and> length (vdata w') = length (vdata w)"

lemma same_shape_refl [simp]: "same_shape w w" "same_shape w (w\<lparr>vdata := d\<rparr>) = (length d = length (vdata w))"
  by (simp_all add: same_shape_def)

lemma store_length: "store k m i vs = Some m' \<Longrightarrow> length m' = length m"
  by (induction vs arbitrary: m i) (auto simp: mem_wr_def bind_eq_Some_conv dest: memput_length)

lemma set_bits_length: "set_bits d i bs = Some d' \<Longrightarrow> length d' = length d"
  by (induction bs arbitrary: d i) (auto simp: mem_wr_def bind_eq_Some_conv dest!: memput_length split: if_splits)

lemma put_shape:
  "put_f32 w xs = Some w' \<Longrightarrow> same_shape w w'" "put_f64 w ys = Some w' \<Longrightarrow> same_shape w w'"
  "put_u16 w zs = Some w' \<Longrightarrow> same_shape w w'" "put_1bit w bs = Some w' \<Longrightarrow> same_shape w w'"
  "put_f8 w a s qs = Some w' \<Longrightarrow> same_shape w w'"
  by (auto simp: put_f32_def put_f64_def put_u16_def put_1bit_def put_f8_def vectorF8SetParameters_def bind_eq_Some_conv
      serializeF32_def dest!: store_length set_bits_length memput_length)

lemma convert_shape:
  assumes "vectorConvert v w = Some w'" shows "same_shape w w'"
  using assms
  by (cases "vtype w") (auto simp: vectorConvert_def vectorConvertToF8_def vectorConvertFromF32_def vectorConvertFromF64_def
      vectorConvertFrom1Bit_def vectorConvertFromF8_def vectorConvertFromF16_def vectorConvertFromFB16_def Let_def
      quantize_f32_def bind_eq_Some_conv split_def split: vector_type.splits if_splits dest: put_shape memput_length)

lemma store_in: "k * length vs \<le> length m \<Longrightarrow> \<exists>m'. store k m 0 vs = Some m'"
  using memput_in [of 0 "concat (map (le_bytes k) vs)" m]
  by (simp add: store_memput length_concat comp_def sum_list_triv mult.commute)

lemma set_bits_in: "(i + length bs + 7) div 8 \<le> length d \<Longrightarrow> \<exists>d'. set_bits d i bs = Some d'"
proof (induction bs arbitrary: d i)
  case (Cons b bs)
  have i: "i div 8 < length d" using Cons.prems by simp
  show ?case using Cons.IH [of "Suc i"] Cons.prems by (simp add: mem_rd_1 mem_wr_1 i)
qed simp

lemma put_in:
  "length xs = vdims w \<Longrightarrow> vdims w * 4 \<le> length (vdata w) \<Longrightarrow> \<exists>w'. put_f32 w xs = Some w'"
  "length ys = vdims w \<Longrightarrow> vdims w * 8 \<le> length (vdata w) \<Longrightarrow> \<exists>w'. put_f64 w ys = Some w'"
  "length zs = vdims w \<Longrightarrow> vdims w * 2 \<le> length (vdata w) \<Longrightarrow> \<exists>w'. put_u16 w zs = Some w'"
  "length bs = vdims w \<Longrightarrow> (vdims w + 7) div 8 \<le> length (vdata w) \<Longrightarrow> \<exists>w'. put_1bit w bs = Some w'"
proof -
  show "length xs = vdims w \<Longrightarrow> vdims w * 4 \<le> length (vdata w) \<Longrightarrow> \<exists>w'. put_f32 w xs = Some w'"
    "length ys = vdims w \<Longrightarrow> vdims w * 8 \<le> length (vdata w) \<Longrightarrow> \<exists>w'. put_f64 w ys = Some w'"
    "length zs = vdims w \<Longrightarrow> vdims w * 2 \<le> length (vdata w) \<Longrightarrow> \<exists>w'. put_u16 w zs = Some w'"
    using store_in [of 4 xs "vdata w"] store_in [of 8 ys "vdata w"] store_in [of 2 zs "vdata w"]
    by (auto simp: put_f32_def put_f64_def put_u16_def mult.commute)
  assume b: "length bs = vdims w" "(vdims w + 7) div 8 \<le> length (vdata w)"
  then obtain d where d: "memput (vdata w) 0 (replicate ((length bs + 7) div 8) 0) = Some d"
    using memput_in [of 0 "replicate ((length bs + 7) div 8) 0" "vdata w"] by auto
  then show "\<exists>w'. put_1bit w bs = Some w'"
    using set_bits_in [of 0 bs d] b memput_length [OF d] by (auto simp: put_1bit_def)
qed

lemma get_1bit_in: "(n + 7) div 8 \<le> length d \<Longrightarrow> \<exists>bs. get_1bit d n = Some bs \<and> length bs = n"
proof -
  assume n: "(n + 7) div 8 \<le> length d"
  have "get_1bit d n = Some (map (\<lambda>i. drop_bit (i mod 8) (d ! (i div 8)) AND 1 = 1) [0..<n])"
    unfolding get_1bit_def
  proof (rule those_map_Some)
    fix i assume "i \<in> set [0..<n]"
    then have "i div 8 < length d" using n by simp
    then show "map_option (\<lambda>x. drop_bit (i mod 8) (x :: u8) AND 1 = 1) (mem_rd 1 d (i div 8)) =
        Some (drop_bit (i mod 8) (d ! (i div 8)) AND 1 = 1)"
      by (simp add: mem_rd_1)
  qed
  then show ?thesis by simp
qed

lemma load_all: "n * k \<le> length m \<Longrightarrow> \<exists>src :: 'a::len word list. load k m n = Some src \<and> length src = n"
  using load_in [of k n m, where 'a='a] by (simp add: mult.commute)

lemma convert_defined:
  assumes "well_sized v" "well_sized w" "vdims v = vdims w" "vdims w \<le> MAX_VECTOR_SZ"
    and t: "vtype w \<noteq> FLOAT8 \<or> vtype v = FLOAT8"
  shows "\<exists>w'. vectorConvert v w = Some w'"
proof -
  note ws = assms(1,2) [unfolded well_sized_def]
  let ?n = "vdims w"
  have sizes: "vectorDataSize FLOAT32 ?n = ?n * 4" "vectorDataSize FLOAT64 ?n = ?n * 8"
    "vectorDataSize FLOAT16 ?n = ?n * 2" "vectorDataSize FLOATB16 ?n = ?n * 2" "vectorDataSize FLOAT1BIT ?n = (?n + 7) div 8"
    using assms(4) by (simp_all add: bits_bytes_small mult.commute)
  show "\<exists>w'. vectorConvert v w = Some w'"
  proof (cases "vtype v = vtype w")
    case True
    then obtain bs where "memget (vdata v) 0 (vectorDataSize (vtype v) (vdims v)) = Some bs" "length bs \<le> length (vdata w)"
      using ws assms(3) by (simp add: memget_def)
    then show ?thesis using memput_in [of 0 bs "vdata w"] True assms(3) by (auto simp: vectorConvert_def)
  next
    case False
    note c = vectorConvert_def False assms(3)
    have w8: "vtype w \<noteq> FLOAT8" using t False by auto
    show ?thesis
    proof (cases "vtype v")
      case FLOAT32
      then show ?thesis using load_all [of ?n 4 "vdata v", where 'a=32] ws sizes False w8 assms(3)
        by (cases "vtype w") (auto simp: vectorConvert_def vectorConvertFromF32_def intro!: put_in)
    next
      case FLOAT64
      then show ?thesis using load_all [of ?n 8 "vdata v", where 'a=64] ws sizes False w8 assms(3)
        by (cases "vtype w") (auto simp: vectorConvert_def vectorConvertFromF64_def intro!: put_in)
    next
      case FLOAT1BIT
      then show ?thesis using get_1bit_in [of ?n "vdata v"] ws sizes False w8 assms(3)
        by (cases "vtype w") (auto simp: vectorConvert_def vectorConvertFrom1Bit_def Let_def intro!: put_in)
    next
      case FLOAT8
      have "align ?n 4 + 8 \<le> length (vdata v)" using ws(1) FLOAT8 assms(3) by simp
      then have "\<exists>p. vectorF8GetParameters (vdata v) ?n = Some p" "memget (vdata v) 0 ?n = Some (take ?n (vdata v))"
        "?n \<le> length (vdata v)"
        using F8_params align4(2) [of ?n] by (auto simp: memget_def)
      then show ?thesis using FLOAT8 ws sizes False w8 assms(3)
        by (cases "vtype w") (auto simp: vectorConvert_def vectorConvertFromF8_def Let_def intro!: put_in)
    next
      case FLOAT16
      then show ?thesis using load_all [of ?n 2 "vdata v", where 'a=16] ws sizes False w8 assms(3)
        by (cases "vtype w") (auto simp: vectorConvert_def vectorConvertFromF16_def intro!: put_in)
    next
      case FLOATB16
      then show ?thesis using load_all [of ?n 2 "vdata v", where 'a=16] ws sizes False w8 assms(3)
        by (cases "vtype w") (auto simp: vectorConvert_def vectorConvertFromFB16_def intro!: put_in)
    qed
  qed
qed

text \<open>
  C35. Conversion is type safe: between vectors of one dimension with enough room, it reads and
  writes inside their buffers and always succeeds unless it quantises (which is undefined for
  some values), and whatever the types, the result has the type, the dimension and the size of
  the destination.
\<close>

theorem convert_type_safe:
  assumes "well_sized v" "well_sized w" "vdims v = vdims w" "vdims w \<le> MAX_VECTOR_SZ"
  shows "(vtype w \<noteq> FLOAT8 \<or> vtype v = FLOAT8 \<longrightarrow> (\<exists>w'. vectorConvert v w = Some w')) \<and>
    (\<forall>w'. vectorConvert v w = Some w' \<longrightarrow>
       vtype w' = vtype w \<and> vdims w' = vdims w \<and> vflags w' = vflags w \<and> length (vdata w') = length (vdata w))"
proof (intro conjI impI allI)
  fix w' assume "vectorConvert v w = Some w'"
  then have s: "same_shape w w'" by (rule convert_shape)
  then have "w' = w\<lparr>vdata := vdata w'\<rparr>" by (simp add: same_shape_def)
  then show "vtype w' = vtype w" "vdims w' = vdims w" "vflags w' = vflags w"
    by (metis vector.select_convs(1-3) vector.surjective vector.update_convs(4))+
  show "length (vdata w') = length (vdata w)" using s by (simp add: same_shape_def)
qed (use convert_defined [OF assms] in blast)

theorem convert_type_safe_witness:
  "\<exists>w'. vectorConvert (vectorInit FLOAT32 1 [0, 0, 128, 63]) (vectorInit FLOATB16 1 [7, 7]) = Some w' \<and> vtype w' = FLOATB16
     \<and> length (vdata w') = 2"
proof -
  let ?v = "vectorInit FLOAT32 1 [0, 0, 128, 63]" and ?w = "vectorInit FLOATB16 1 [7, 7]"
  have "well_sized ?v" "well_sized ?w" "vdims ?v = vdims ?w" "vdims ?w \<le> MAX_VECTOR_SZ" "vtype ?w \<noteq> FLOAT8"
    "vtype ?w = FLOATB16" "length (vdata ?w) = 2"
    by (simp_all add: well_sized_def vectorInit_def MAX_VECTOR_SZ_def)
  then have a: "well_sized ?v" "well_sized ?w" "vdims ?v = vdims ?w" "vdims ?w \<le> MAX_VECTOR_SZ"
    and b: "vtype ?w \<noteq> FLOAT8 \<or> vtype ?v = FLOAT8" and c: "vtype ?w = FLOATB16" "length (vdata ?w) = 2" by simp_all
  note t = convert_type_safe [OF a]
  obtain w' where w': "vectorConvert ?v ?w = Some w'" using conjunct1 [OF t] b by blast
  have "vtype w' = vtype ?w \<and> length (vdata w') = length (vdata ?w)"
    using conjunct2 [OF t, rule_format, OF w'] by simp
  then show ?thesis using w' c by metis
qed

text \<open>A distance reads only the data of its vectors, not what follows them in a block.\<close>

lemma memget_prefix: "off + n \<le> N \<Longrightarrow> N \<le> length m \<Longrightarrow> memget (take N m) off n = memget m off n"
  by (simp add: memget_def drop_take min_def)

lemma load_prefix:
  assumes "k * n \<le> N" "N \<le> length m" shows "load k (take N m) n = (load k m n :: 'a::len word list option)"
proof -
  have "mem_rd k (take N m) i = (mem_rd k m i :: 'a word option)" if "i < n" for i
  proof -
    have "k * i + k \<le> k * n" using that by (metis Suc_leI mult_Suc_right mult_le_mono2 add.commute)
    then show ?thesis using assms by (simp add: mem_rd_def memget_prefix)
  qed
  then have "map (mem_rd k (take N m)) [0..<n] = (map (mem_rd k m) [0..<n] :: 'a word option list)" by simp
  then show ?thesis by (simp only: load_def)
qed

definition trim :: "vector \<Rightarrow> vector" where
  "trim v = v\<lparr>vdata := take (vectorDataSize (vtype v) (vdims v)) (vdata v)\<rparr>"

lemma trim_sel [simp]: "vtype (trim v) = vtype v" "vdims (trim v) = vdims v"
  "vdata (trim v) = take (vectorDataSize (vtype v) (vdims v)) (vdata v)"
  by (simp_all add: trim_def)

lemma load_trim:
  assumes "well_sized v"
  shows "vtype v = FLOAT32 \<Longrightarrow> load 4 (vdata (trim v)) (vdims v) = (load 4 (vdata v) (vdims v) :: f32 list option)"
    "vtype v = FLOAT64 \<Longrightarrow> load 8 (vdata (trim v)) (vdims v) = (load 8 (vdata v) (vdims v) :: f64 list option)"
    "vtype v = FLOAT16 \<Longrightarrow> load 2 (vdata (trim v)) (vdims v) = (load 2 (vdata v) (vdims v) :: u16 list option)"
    "vtype v = FLOATB16 \<Longrightarrow> load 2 (vdata (trim v)) (vdims v) = (load 2 (vdata v) (vdims v) :: u16 list option)"
  using assms by (auto simp: well_sized_def intro!: load_prefix)

lemma bits_trim:
  assumes "well_sized v" "vtype v = FLOAT1BIT" "vdims v \<le> MAX_VECTOR_SZ"
  shows "load 4 (vdata (trim v)) (vdims v div 32) = (load 4 (vdata v) (vdims v div 32) :: u32 list option)"
    "memget (vdata (trim v)) (vdims v div 32 * 4) (bits_bytes (vdims v) - vdims v div 32 * 4) =
     memget (vdata v) (vdims v div 32 * 4) (bits_bytes (vdims v) - vdims v div 32 * 4)"
proof -
  have "4 * (vdims v div 32) \<le> bits_bytes (vdims v)" using assms(3) by (simp add: bits_bytes_small)
  then show "load 4 (vdata (trim v)) (vdims v div 32) = (load 4 (vdata v) (vdims v div 32) :: u32 list option)"
    "memget (vdata (trim v)) (vdims v div 32 * 4) (bits_bytes (vdims v) - vdims v div 32 * 4) =
     memget (vdata v) (vdims v div 32 * 4) (bits_bytes (vdims v) - vdims v div 32 * 4)"
    using assms(1,2) by (auto simp: well_sized_def intro!: load_prefix memget_prefix)
qed

lemma f8_trim:
  assumes "well_sized v" "vtype v = FLOAT8"
  shows "vectorF8GetParameters (vdata (trim v)) (vdims v) = vectorF8GetParameters (vdata v) (vdims v)"
    "memget (vdata (trim v)) 0 (vdims v) = memget (vdata v) 0 (vdims v)"
  using assms align4(2) [of "vdims v"]
  by (simp_all add: well_sized_def vectorF8GetParameters_def memget_prefix del: One_nat_def)

lemma distance_trim:
  assumes "well_sized u" "well_sized v" "vtype u = vtype v" "vdims u = vdims v" "vdims u \<le> MAX_VECTOR_SZ"
  shows "vectorDistanceCos (trim u) (trim v) = vectorDistanceCos u v"
    "vectorDistanceL2 (trim u) (trim v) = vectorDistanceL2 u v"
proof -
  note l = load_trim [OF assms(1)] load_trim [OF assms(2)] bits_trim [OF assms(1)] bits_trim [OF assms(2)]
    f8_trim [OF assms(1)] f8_trim [OF assms(2)]
  have d: "vdims v \<le> MAX_VECTOR_SZ" using assms(4,5) by simp
  note defs = vectorF32DistanceCos_def vectorF64DistanceCos_def vectorF8DistanceCos_def vectorF16DistanceCos_def
    vectorFB16DistanceCos_def vector1BitDistanceHamming_def vectorF32DistanceL2_def vectorF64DistanceL2_def
    vectorF8DistanceL2_def vectorF16DistanceL2_def vectorFB16DistanceL2_def
  show "vectorDistanceCos (trim u) (trim v) = vectorDistanceCos u v"
    using l d assms(3,4) by (cases "vtype v") (simp_all add: vectorDistanceCos_def defs Let_def del: trim_sel(3))
  show "vectorDistanceL2 (trim u) (trim v) = vectorDistanceL2 u v"
    using l d assms(3,4) by (cases "vtype v") (simp_all add: vectorDistanceL2_def defs Let_def del: trim_sel(3))
qed

end
