(* ===== verification/KeyCodec.thy ===== *)
theory KeyCodec
  imports Varint Complex_Main
begin

unbundle bit_operations_syntax

text \<open>
  Decimal numbers (\<open>sqlite4_num\<close>, from \<open>math.c\<close>), the key encoding and the record
  encoding of \<open>vdbecodec.c\<close>: the bytes under which rows are stored and compared.
  The order theorem says that \<open>memcmp\<close> on encoded numeric keys is the order of the
  numbers, the round-trip theorems that decoding inverts encoding; the places where the
  code does not achieve this are stated too.
\<close>

subsection \<open>Decimal numbers\<close>

record sqlite4_num =
  n_sign :: u8
  n_approx :: u8
  n_e :: "16 word"
  n_m :: u64

definition SQLITE4_MX_EXP :: int where "SQLITE4_MX_EXP = 999"

definition sqlite4_num_isinf :: "sqlite4_num \<Rightarrow> bool" where
  "sqlite4_num_isinf A \<longleftrightarrow> sint (n_e A) > SQLITE4_MX_EXP \<and> n_m A \<noteq> 0"

definition sqlite4_num_isnan :: "sqlite4_num \<Rightarrow> bool" where
  "sqlite4_num_isnan A \<longleftrightarrow> sint (n_e A) > SQLITE4_MX_EXP \<and> n_m A = 0"

definition SMALLEST_INT64 :: i64 where "SMALLEST_INT64 = 0x8000000000000000"

definition LARGEST_INT64 :: i64 where "LARGEST_INT64 = 0x7FFFFFFFFFFFFFFF"

definition sqlite4_num_from_int64 :: "i64 \<Rightarrow> sqlite4_num" where
  "sqlite4_num_from_int64 n =
     \<lparr>n_sign = (if n <s 0 then 1 else 0), n_approx = 0, n_e = 0,
      n_m = (if 0 \<le>s n then n else if n \<noteq> SMALLEST_INT64 then - n else 1 + LARGEST_INT64)\<rparr>"

text \<open>The two loops of \<open>sqlite4_num_to_int64\<close>; \<open>None\<close> is the jump to \<open>overflow\<close>.\<close>

fun scale_up :: "nat \<Rightarrow> u64 \<Rightarrow> u64 option" where
  "scale_up 0 r = Some r"
| "scale_up (Suc i) r = (if r > LARGEST_INT64 div 10 then None else scale_up i (r * 10))"

fun scale_down :: "nat \<Rightarrow> u64 \<Rightarrow> u8 \<Rightarrow> u64 \<times> u8" where
  "scale_down 0 r lossy = (r, lossy)"
| "scale_down (Suc i) r lossy = scale_down i (r div 10) (if r mod 10 \<noteq> 0 then 1 else lossy)"

text \<open>
  The value and what \<open>*pbLossy\<close> is left with. C leaves \<open>-(i64)iRet\<close> undefined when \<open>iRet\<close> is
  \<open>2^63\<close>; here, as on all machines with two's complement, it is the smallest integer.
\<close>

definition sqlite4_num_to_int64 :: "sqlite4_num \<Rightarrow> i64 \<times> u8" where
  "sqlite4_num_to_int64 num =
     (let overflow = (if n_sign num \<noteq> 0 then SMALLEST_INT64 else LARGEST_INT64, 1) in
      case scale_up (nat (sint (n_e num))) (n_m num) of
        None \<Rightarrow> overflow
      | Some iRet \<Rightarrow>
          let (iRet, lossy) = scale_down (nat (- sint (n_e num))) iRet (n_approx num) in
          if n_sign num \<noteq> 0 then
            (if iRet > LARGEST_INT64 + 1 then overflow else (- iRet, lossy))
          else if iRet > LARGEST_INT64 then overflow else (iRet, lossy))"

subsection \<open>Numeric keys\<close>

function stripZeros :: "u64 \<Rightarrow> 16 word \<Rightarrow> u64 \<times> 16 word" where
  "stripZeros m e = (if m \<noteq> 0 \<and> m mod 10 = 0 then stripZeros (m div 10) (e + 1) else (m, e))"
  by pat_completeness auto
termination
proof (relation "measure (\<lambda>(m, e). unat m)", goal_cases)
  case (2 m e)
  then have "unat m \<noteq> 0" by (simp add: unat_eq_0)
  then show ?case by (simp add: unat_div)
qed simp

function centDigits :: "u64 \<Rightarrow> u8 list" where
  "centDigits m = (if m = 0 then [] else ucast (m mod 100) # centDigits (m div 100))"
  by pat_completeness auto
termination
proof (relation "measure unat", goal_cases)
  case (2 m)
  then have "unat m \<noteq> 0" by (simp add: unat_eq_0)
  then show ?case by (simp add: unat_div)
qed simp

declare stripZeros.simps [simp del] centDigits.simps [simp del]

text \<open>The first \<open>iDigit\<close> entries of \<open>aDigit[]\<close> and the exponent \<open>e\<close> the C code leaves.\<close>

definition numDigits :: "u64 \<Rightarrow> 16 word \<Rightarrow> u8 list \<times> int" where
  "numDigits m0 e0 =
     (let (m, e) = stripZeros m0 e0;
          (aDigit, e') = (if sint e mod 2 \<noteq> 0
                          then (ucast (10 * (m mod 10)) # centDigits (m div 10), sint e - 1)
                          else (centDigits m, sint e))
      in (aDigit, int (length aDigit) + e' div 2))"

definition putVarint64 :: "u64 \<Rightarrow> bool \<Rightarrow> bytes" where
  "putVarint64 v bInvert = (let z = sqlite4PutVarint64 v in if bInvert then map (\<lambda>b. NOT b) z else z)"

text \<open>The digits are written from \<open>aDigit[iDigit-1]\<close> down, so \<open>ds\<close> is in that order.\<close>

fun putDigits :: "u8 \<Rightarrow> u8 list \<Rightarrow> bytes" where
  "putDigits s [] = []"
| "putDigits s (a # ds) =
     (let d = a * 2; d = (if ds \<noteq> [] then d OR 1 else d); d = (if s \<noteq> 0 then NOT d else d)
      in d # putDigits s ds)"

definition putExponent :: "u8 \<Rightarrow> int \<Rightarrow> bytes" where
  "putExponent s e =
     (if e \<ge> 11 then
        (if s = 0 then 0x22 # putVarint64 (word_of_int e) False
         else 0x08 # putVarint64 (word_of_int e) True)
      else if e \<ge> 0 then (if s = 0 then [0x17 + word_of_int e] else [0x13 - word_of_int e])
      else if s = 0 then 0x16 # putVarint64 (word_of_int (- 1 * e)) True
      else 0x14 # putVarint64 (word_of_int (- 1 * e)) False)"

definition encodeNumericKey :: "sqlite4_num \<Rightarrow> bytes" where
  "encodeNumericKey num =
     (if n_m num = 0 then (if sqlite4_num_isnan num then [0x06] else [0x15])
      else if sqlite4_num_isinf num then (if n_sign num \<noteq> 0 then [0x07] else [0x23])
      else let (aDigit, e) = numDigits (n_m num) (n_e num) in
           putExponent (n_sign num) e @ putDigits (n_sign num) (rev aDigit))"

definition sqlite4VdbeEncodeIntKey :: "i64 \<Rightarrow> bytes" where
  "sqlite4VdbeEncodeIntKey v = encodeNumericKey (sqlite4_num_from_int64 v)"

text \<open>
  The decoder. \<open>None\<close> is a read outside the key (or of \<open>eBig\<close> when the varint does not
  decode, which leaves it unset), \<open>Some None\<close> is the return value 0.
\<close>

definition key_byte :: "bytes \<Rightarrow> nat \<Rightarrow> u8 option" where
  "key_byte a i = (if i < length a then Some (a ! i) else None)"

fun getDigits :: "bytes \<Rightarrow> u8 \<Rightarrow> nat \<Rightarrow> u64 \<Rightarrow> 16 word \<Rightarrow> (nat \<times> u64 \<times> 16 word) option" where
  "getDigits [] xorMask i m e = None"
| "getDigits (b # bs) xorMask i m e =
     (let y = b XOR xorMask; m = m * 100 + ucast (y div 2); e = e - 1; i = i + 1 in
      if y AND 1 \<noteq> 0 then getDigits bs xorMask i m e else Some (i, m, e))"

definition finishKey :: "bytes \<Rightarrow> u8 \<Rightarrow> u8 \<Rightarrow> nat \<Rightarrow> 16 word \<Rightarrow> (nat \<times> sqlite4_num) option option" where
  "finishKey aKey s xorMask i e =
     do { (i, m, e) \<leftarrow> getDigits (drop i aKey) xorMask i 0 e;
          Some (if m = 0 then None
                else Some (i, \<lparr>n_sign = s, n_approx = 0, n_e = 2 * e, n_m = m\<rparr>)) }"

definition sqlite4VdbeDecodeNumericKey :: "bytes \<Rightarrow> (nat \<times> sqlite4_num) option option" where
  "sqlite4VdbeDecodeNumericKey aKey =
     (if length aKey < 1 then Some None
      else
        let k = aKey ! 0;
            const = (\<lambda>s m e. Some (Some (1, \<lparr>n_sign = s, n_approx = 0, n_e = e, n_m = m\<rparr>)));
            big = (\<lambda>inv neg xorMask.
              do { z \<leftarrow> (if inv
                         then do { b1 \<leftarrow> key_byte aKey 1; b2 \<leftarrow> key_byte aKey 2;
                                   Some [b1 XOR 0xff, b2 XOR 0xff] }
                         else Some (take 2 (drop 1 aKey)));
                   (n, eBig) \<leftarrow> sqlite4GetVarint64 z;
                   finishKey aKey 0 xorMask (1 + n) (if neg then ucast (- eBig) else ucast eBig) }) in
        if k = 0x06 \<or> k = 0xf9 then const 0 0 1000
        else if k = 0x07 \<or> k = 0xf8 then const 1 1 1000
        else if k = 0x15 \<or> k = 0xea then const 0 0 0
        else if k = 0x23 \<or> k = 0xdc then const 0 1 1000
        else if 0x09 \<le> k \<and> k \<le> 0x13 then finishKey aKey 1 0xff 1 (0x13 - ucast k)
        else if 0xec \<le> k \<and> k \<le> 0xf6 then finishKey aKey 1 0 1 (ucast k - 0xec)
        else if 0x17 \<le> k \<and> k \<le> 0x21 then finishKey aKey 0 0 1 (ucast k - 0x17)
        else if 0xde \<le> k \<and> k \<le> 0xe8 then finishKey aKey 0 0xff 1 (0xe8 - ucast k)
        else if k = 0x14 \<or> k = 0xe9 then big False True 0xff
        else if k = 0x16 \<or> k = 0xeb then big True True 0
        else if k = 0x08 \<or> k = 0xdd then big True False 0xff
        else if k = 0x22 \<or> k = 0xf7 then big False False 0
        else Some None)"

subsection \<open>The value of a number and of its digits\<close>

definition num_val :: "sqlite4_num \<Rightarrow> real" where
  "num_val A = (if n_sign A \<noteq> 0 then -1 else 1) * real (unat (n_m A)) * 10 powi sint (n_e A)"

fun cent_val :: "u8 list \<Rightarrow> nat" where
  "cent_val [] = 0"
| "cent_val (d # ds) = unat d + 100 * cent_val ds"

fun frac_val :: "u8 list \<Rightarrow> real" where
  "frac_val [] = 0"
| "frac_val (d # ds) = (real (unat d) + frac_val ds) / 100"

text \<open>Digits most significant first: below 100, neither end zero.\<close>

definition normal_digits :: "u8 list \<Rightarrow> bool" where
  "normal_digits ds \<longleftrightarrow> ds \<noteq> [] \<and> (\<forall>d \<in> set ds. d < 100) \<and> hd ds \<noteq> 0 \<and> last ds \<noteq> 0"

lemma u64_digit [simp]:
  fixes m :: u64
  shows "unat (m div 10) = unat m div 10" "unat (m mod 10) = unat m mod 10"
    "unat (m div 100) = unat m div 100" "unat (m mod 100) = unat m mod 100"
    "m mod 10 = 0 \<longleftrightarrow> unat m mod 10 = 0"
  by (simp_all add: unat_div unat_mod word_unat_eq_iff)

lemma stripZeros_spec:
  "m \<noteq> 0 \<Longrightarrow> stripZeros m e = (m', e') \<Longrightarrow>
     \<exists>k. unat m = unat m' * 10 ^ k \<and> e' = e + of_nat k \<and> unat m' mod 10 \<noteq> 0"
proof (induction m e rule: stripZeros.induct)
  case (1 m e)
  show ?case
  proof (cases "m mod 10 = 0")
    case True
    then have d: "unat m = unat (m div 10) * 10" by auto
    then have "m div 10 \<noteq> 0" using "1.prems" by (metis mult_zero_left unat_0 unat_eq_zero)
    then obtain k where "unat (m div 10) = unat m' * 10 ^ k \<and> e' = e + 1 + of_nat k \<and> unat m' mod 10 \<noteq> 0"
      using 1 True by (auto simp: stripZeros.simps [of m e] simp del: u64_digit)
    with d show ?thesis by (intro exI [of _ "Suc k"]) simp
  next
    case False
    with "1.prems" show ?thesis by (intro exI [of _ 0]) (auto simp: stripZeros.simps [of m e])
  qed
qed

lemma centDigits_0 [simp]: "centDigits 0 = []"
  by (simp add: centDigits.simps)

lemma centDigits_spec:
  "cent_val (centDigits m) = unat m"
  "\<forall>d \<in> set (centDigits m). d < 100"
  "m \<noteq> 0 \<Longrightarrow> centDigits m \<noteq> [] \<and> last (centDigits m) \<noteq> 0"
proof (induction m rule: centDigits.induct)
  case (1 m)
  have u: "unat (ucast (m mod 100) :: u8) = unat m mod 100"
    by (simp add: unsigned_ucast_eq take_bit_eq_mod)
  then have l: "(ucast (m mod 100) :: u8) < 100" by (simp add: word_less_nat_alt)
  { case 1 show ?case using "1.IH"(1) u by (cases "m = 0") (simp_all add: centDigits.simps [of m]) }
  { case 2 show ?case using "1.IH"(2) l by (cases "m = 0") (simp_all add: centDigits.simps [of m]) }
  { case 3 show ?case
    proof (cases "m div 100 = 0")
      case True
      then have "unat m < 100" by (metis div_eq_0_iff u64_digit(3) unat_0 zero_neq_numeral)
      with u 3 have "(ucast (m mod 100) :: u8) \<noteq> 0" by (metis mod_less unat_0 unat_eq_zero)
      with True 3 show ?thesis by (simp add: centDigits.simps [of m])
    next
      case False
      with "1.IH"(3) 3 show ?thesis by (simp add: centDigits.simps [of m])
    qed }
qed

lemma cent_val_ge: "ds \<noteq> [] \<Longrightarrow> last ds \<noteq> 0 \<Longrightarrow> 100 ^ (length ds - 1) \<le> cent_val ds"
proof (induction ds)
  case (Cons d ds)
  then show ?case
  proof (cases ds)
    case Nil
    with Cons show ?thesis by (simp add: Suc_le_eq unat_gt_0)
  next
    case (Cons d' ds')
    with Cons.IH Cons.prems show ?thesis by simp
  qed
qed simp

lemma centDigits_length: "length (centDigits m) \<le> 10"
proof (rule ccontr)
  assume a: "\<not> length (centDigits m) \<le> 10"
  then have "m \<noteq> 0" by (auto simp: centDigits.simps)
  then have "100 ^ (length (centDigits m) - 1) \<le> unat m"
    using cent_val_ge [of "centDigits m"] centDigits_spec [of m] by simp
  moreover have "(100 :: nat) ^ 10 \<le> 100 ^ (length (centDigits m) - 1)"
    using a by (intro power_increasing) auto
  moreover have "unat m < 2 ^ 64" using unsigned_less [of m] by simp
  ultimately show False by simp
qed

lemma frac_val_append: "frac_val (xs @ [d]) = frac_val xs + real (unat d) / 100 ^ Suc (length xs)"
  by (induction xs) (simp_all add: field_simps)

lemma frac_val_rev: "frac_val (rev ds) * 100 ^ length ds = real (cent_val ds)"
  by (induction ds) (simp_all add: frac_val_append field_simps)

lemma sint_add_small:
  "sint (x :: 16 word) + int k < 32768 \<Longrightarrow> sint (x + of_nat k) = sint x + int k"
proof -
  assume a: "sint x + int k < 32768"
  have "x + of_nat k = word_of_int (sint x + int k)" by simp
  also have "sint \<dots> = signed_take_bit 15 (sint x + int k)"
    by (simp only: sint_sbintrunc') simp
  also have "\<dots> = sint x + int k" using a sint_greater_eq [of x] by (intro signed_take_bit_int_eq_self) auto
  finally show ?thesis .
qed

lemma numDigits_spec:
  assumes m: "m \<noteq> 0" and e: "sint e \<le> 999" and d: "numDigits m e = (ds, E)"
  shows "normal_digits (rev ds) \<and> length ds \<le> 11 \<and> \<bar>E\<bar> \<le> 17000
    \<and> real (unat m) * 10 powi sint e = frac_val (rev ds) * 100 powi E"
proof -
  obtain m1 e1 where s: "stripZeros m e = (m1, e1)" by force
  obtain k where k: "unat m = unat m1 * 10 ^ k" "e1 = e + of_nat k" "unat m1 mod 10 \<noteq> 0"
    using stripZeros_spec [OF m s] by blast
  have m1: "unat m1 \<noteq> 0" "m1 \<noteq> 0" using k(3) by auto
  have "k < 20"
  proof (rule ccontr)
    assume "\<not> k < 20"
    then have "(10 :: nat) ^ 20 \<le> 10 ^ k" by (intro power_increasing) auto
    also have "\<dots> \<le> unat m" using k(1) m1 by simp
    finally have "10 ^ 20 \<le> unat m" .
    moreover have "unat m < 2 ^ 64" using unsigned_less [of m] by simp
    ultimately show False by simp
  qed
  then have e1: "sint e1 = sint e + int k" using e k(2) by (simp add: sint_add_small)
  let ?o = "if sint e1 mod 2 \<noteq> 0 then 1 else 0 :: nat"
  define e' where "e' = sint e1 - int ?o"
  have ev: "even e'" by (auto simp: e'_def elim: oddE)
  have ds: "ds = (if ?o = 1 then ucast (10 * (m1 mod 10)) # centDigits (m1 div 10) else centDigits m1)"
    and E: "E = int (length ds) + e' div 2"
    using d s by (auto simp: numDigits_def e'_def split: if_splits)
  have u: "unat (ucast (10 * (m1 mod 10)) :: u8) = 10 * (unat m1 mod 10)"
    by (simp add: unsigned_ucast_eq unat_word_ariths take_bit_eq_mod)
  have dm: "10 * (unat m1 mod 10) + 100 * (unat m1 div 10) = unat m1 * 10" by presburger
  have cv: "cent_val ds = unat m1 * 10 ^ ?o"
    using centDigits_spec(1) [of m1] centDigits_spec(1) [of "m1 div 10"] u dm by (simp add: ds)
  have all: "\<forall>d \<in> set ds. d < 100"
    using centDigits_spec(2) [of m1] centDigits_spec(2) [of "m1 div 10"] u
    by (auto simp: ds word_less_nat_alt [of "ucast _"])
  have ne: "ds \<noteq> []" using centDigits_spec(3) [of m1] m1 by (simp add: ds)
  have hd: "hd ds \<noteq> 0"
  proof
    assume "hd ds = 0"
    then have "cent_val ds mod 100 = 0" using ne by (cases ds) auto
    then have "unat m1 mod 10 = 0" using cv by (simp split: if_splits) presburger+
    with k(3) show False by simp
  qed
  have la: "last ds \<noteq> 0"
  proof (cases "?o = 1 \<and> m1 div 10 = 0")
    case True
    then have "ds = [hd ds]" by (simp add: ds)
    with hd show ?thesis by (metis last_ConsL)
  next
    case False
    then show ?thesis using centDigits_spec(3) [of m1] centDigits_spec(3) [of "m1 div 10"] m1
      by (auto simp: ds)
  qed
  have len: "length ds \<le> 11"
    using centDigits_length [of m1] centDigits_length [of "m1 div 10"] by (simp add: ds)
  have "real (unat m) * 10 powi sint e = real (unat m1) * 10 powi sint e1"
    by (simp add: k(1) e1 power_int_add)
  also have "\<dots> = real (cent_val ds) * 10 powi e'"
  proof -
    have "(10 :: real) powi sint e1 = 10 ^ ?o * 10 powi e'"
      using power_int_add [of "10 :: real" "int ?o" e'] by (simp add: e'_def split: if_splits)
    then show ?thesis by (simp add: cv)
  qed
  also have "(10 :: real) powi e' = 100 powi (e' div 2)"
    using power_int_mult [of "10 :: real" 2 "e' div 2"] ev by simp
  also have "real (cent_val ds) * 100 powi (e' div 2) = frac_val (rev ds) * 100 powi E"
    by (simp add: E power_int_add flip: frac_val_rev)
  finally have "real (unat m) * 10 powi sint e = frac_val (rev ds) * 100 powi E" .
  moreover have "\<bar>E\<bar> \<le> 17000"
  proof -
    have "- 32769 \<le> e'" "e' \<le> 1020"
      using e e1 \<open>k < 20\<close> sint_greater_eq [of e] by (auto simp: e'_def)
    then show ?thesis using E len by linarith
  qed
  ultimately show ?thesis using all ne hd la len
    by (simp add: normal_digits_def hd_rev last_rev)
qed

subsection \<open>Byte order of keys\<close>

text \<open>
  \<open>differs_less xs ys\<close>: the strings differ at some position and the first difference
  decides. Unlike plain \<open>memcmp\<close> order it says that neither is a prefix of the other, so
  it survives whatever follows (the later columns of a key) and is reversed by
  complementing every byte (descending columns).
\<close>

definition differs_less :: "bytes \<Rightarrow> bytes \<Rightarrow> bool" where
  "differs_less xs ys \<longleftrightarrow> (\<exists>p a b s t. xs = p @ a # s \<and> ys = p @ b # t \<and> a < b)"

named_theorems dl_intros

lemma differs_less_head [dl_intros]: "a < b \<Longrightarrow> differs_less (a # s) (b # t)"
  unfolding differs_less_def by (rule exI [of _ "[]"]) auto

lemma differs_less_Cons [dl_intros]: "differs_less s t \<Longrightarrow> differs_less (a # s) (a # t)"
  unfolding differs_less_def by (metis append_Cons)

lemma differs_less_append [dl_intros]: "differs_less xs ys \<Longrightarrow> differs_less (xs @ u) (ys @ v)"
  unfolding differs_less_def by (metis append.assoc append_Cons)

lemma differs_less_same [dl_intros]: "differs_less s t \<Longrightarrow> differs_less (p @ s) (p @ t)"
  by (induction p) (auto intro: dl_intros)

lemma differs_less_less: "differs_less xs ys \<Longrightarrow> xs < ys"
proof -
  assume "differs_less xs ys"
  then obtain p a b s t where "xs = p @ a # s" "ys = p @ b # t" "a < b"
    by (auto simp: differs_less_def)
  then show ?thesis by (induction p arbitrary: xs ys) auto
qed

lemma differs_less_extend: "differs_less xs ys \<Longrightarrow> xs @ u < ys @ v"
  by (rule differs_less_less [OF differs_less_append])

lemma less_differs:
  "xs < ys \<Longrightarrow> (\<And>r. ys \<noteq> xs @ r) \<Longrightarrow> differs_less xs ys"
proof (induction xs ys rule: list_induct2')
  case (4 x xs y ys)
  show ?case
  proof (cases "x < y")
    case True
    then show ?thesis by (rule differs_less_head)
  next
    case False
    with "4.prems"(1) have "x = y" "xs < ys" by auto
    with 4 show ?thesis by (auto intro: differs_less_Cons)
  qed
qed auto

lemma not_byte_less: "NOT (a :: u8) < NOT b \<longleftrightarrow> b < a"
proof -
  have "unat (NOT c) = 255 - unat c" for c :: u8
  proof -
    have "NOT c = - 1 - c" by (simp add: not_eq_complement)
    moreover have "unat (- 1 - c) = unat (- 1 :: u8) - unat c" by (intro unat_sub) simp
    ultimately show ?thesis by (simp add: unsigned_minus_1_eq_mask mask_eq_exp_minus_1)
  qed
  moreover have "unat a < 256" "unat b < 256"
    using unsigned_less [of a] unsigned_less [of b] by simp_all
  ultimately show ?thesis by (simp add: word_less_nat_alt) linarith
qed

lemma differs_less_not [dl_intros]:
  "differs_less xs ys \<Longrightarrow> differs_less (map (\<lambda>b. NOT b) ys) (map (\<lambda>b. NOT b) xs)"
proof -
  assume "differs_less xs ys"
  then obtain p a b s t where "xs = p @ a # s" "ys = p @ b # t" "a < b"
    by (auto simp: differs_less_def)
  then show ?thesis by (simp add: differs_less_same differs_less_head not_byte_less)
qed

lemma putVarint64_order:
  assumes "v < w"
  shows "differs_less (putVarint64 v False) (putVarint64 w False)"
    and "differs_less (putVarint64 w True) (putVarint64 v True)"
proof -
  have "differs_less (sqlite4PutVarint64 v) (sqlite4PutVarint64 w)"
  proof (rule less_differs)
    show "sqlite4PutVarint64 v < sqlite4PutVarint64 w" using assms by (rule Put_mono)
    fix r
    show "sqlite4PutVarint64 w \<noteq> sqlite4PutVarint64 v @ r"
      using sqlite4_roundtrip [of v r] sqlite4_roundtrip [of w "[]"] assms by auto
  qed
  then show "differs_less (putVarint64 v False) (putVarint64 w False)"
    and "differs_less (putVarint64 w True) (putVarint64 v True)"
    by (auto simp: putVarint64_def intro: differs_less_not)
qed

lemma next_digit_bounds:
  "0 \<le> a \<Longrightarrow> a \<le> 99 \<Longrightarrow> 0 \<le> f \<Longrightarrow> f < 1 \<Longrightarrow> 0 \<le> (a + f) / 100 \<and> (a + f) / 100 < (1 :: real)"
  by simp

lemma frac_val_bounds: "\<forall>d \<in> set ds. d < 100 \<Longrightarrow> 0 \<le> frac_val ds \<and> frac_val ds < 1"
proof (induction ds)
  case (Cons d ds)
  then have "unat d < 100" by (simp add: word_less_nat_alt)
  then have "real (unat d) \<le> 99" by linarith
  moreover have "0 \<le> real (unat d)" by (rule of_nat_0_le_iff)
  moreover have "0 \<le> frac_val ds" "frac_val ds < 1" using Cons by auto
  ultimately show ?case unfolding frac_val.simps by (intro next_digit_bounds)
qed simp

lemma putDigits_less:
  assumes "\<forall>d \<in> set xs. d < 100" "\<forall>d \<in> set ys. d < 100" "xs \<noteq> []" "ys \<noteq> []"
    and "frac_val xs < frac_val ys"
  shows "differs_less (putDigits 0 xs) (putDigits 0 ys)"
  using assms
proof (induction xs ys rule: list_induct2')
  case (4 x xs y ys)
  have x: "unat x < 100" and y: "unat y < 100" using 4 by (auto simp: word_less_nat_alt)
  have fx: "0 \<le> frac_val xs" "frac_val xs < 1" and fy: "0 \<le> frac_val ys" "frac_val ys < 1"
    using frac_val_bounds [of xs] frac_val_bounds [of ys] 4 by auto
  have b: "unat (a * 2 OR c) = 2 * unat a + unat c" if "unat a < 100" "c = 0 \<or> c = 1" for a c :: u8
  proof -
    have "a * 2 OR 1 = a * 2 + 1" by (rule disjunctive_add [symmetric]) (auto simp: bit_simps mult.commute [of a])
    then show ?thesis using that by (auto simp: unat_word_ariths)
  qed
  have "real (unat x) + frac_val xs < real (unat y) + frac_val ys" using "4.prems" by simp
  then have "unat x \<le> unat y" using fx fy by linarith
  then consider "unat x < unat y" | "x = y" "frac_val xs < frac_val ys"
    using "4.prems"(5) by (cases "x = y") (auto simp: word_unat_eq_iff divide_less_cancel)
  then show ?case
  proof cases
    case 1
    then have "x * 2 OR c < y * 2 OR d" if "c = 0 \<or> c = 1" "d = 0 \<or> d = 1" for c d
      using b [of x c] b [of y d] x y that by (auto simp: word_less_nat_alt)
    from this [of "if xs \<noteq> [] then 1 else 0" "if ys \<noteq> [] then 1 else 0"]
    show ?thesis by (auto simp: Let_def intro: differs_less_head)
  next
    case 2
    then have "ys \<noteq> []" using fx by auto
    show ?thesis
    proof (cases "xs = []")
      case True
      have "x * 2 < y * 2 OR 1" using b [of x 0] b [of x 1] x 2 by (simp add: word_less_nat_alt)
      with True \<open>ys \<noteq> []\<close> show ?thesis by (simp add: differs_less_head)
    next
      case False
      with 4 2 \<open>ys \<noteq> []\<close> show ?thesis by (simp add: differs_less_Cons)
    qed
  qed
qed auto

lemma putExponent_less:
  assumes "E < F" and "\<bar>E\<bar> \<le> 17000" "\<bar>F\<bar> \<le> 17000"
  shows "differs_less (putExponent 0 E) (putExponent 0 F)"
    and "s \<noteq> 0 \<Longrightarrow> differs_less (putExponent s F) (putExponent s E)"
proof -
  have w: "word_of_int i < (word_of_int j :: u64)" if "0 \<le> i" "i < j" "j \<le> 17000" for i j
    using that by (simp add: word_less_alt unsigned_of_int take_bit_int_eq_self)
  have m8: "0x16 < (0x17 + word_of_int i :: u8)" "(0x17 + word_of_int i :: u8) < 0x22"
    "0x08 < (0x13 - word_of_int i :: u8)" "(0x13 - word_of_int i :: u8) < 0x14" if "0 \<le> i" "i \<le> 10" for i
    using that by (simp_all add: word_less_alt uint_word_ariths unsigned_of_int take_bit_int_eq_self)
  have w8: "a + word_of_int i < (a + word_of_int j :: u8)" if "0 \<le> i" "i < j" "j \<le> 10" "a = 0x17" for i j a
    using that by (simp add: word_less_alt uint_word_ariths unsigned_of_int take_bit_int_eq_self)
  have w8': "a - word_of_int j < (a - word_of_int i :: u8)" if "0 \<le> i" "i < j" "j \<le> 10" "a = 0x13" for i j a
    using that by (simp add: word_less_alt uint_word_ariths unsigned_of_int take_bit_int_eq_self)
  consider "11 \<le> E" | "0 \<le> E" "E < 11" "11 \<le> F" | "0 \<le> E" "F < 11" | "E < 0" "11 \<le> F"
    | "E < 0" "0 \<le> F" "F < 11" | "F < 0" using assms by linarith
  note cases = this
  show "differs_less (putExponent 0 E) (putExponent 0 F)"
    using cases
  proof cases
    case 1
    with assms w [of E F] show ?thesis by (auto simp: putExponent_def intro!: dl_intros putVarint64_order)
  next
    case 6
    with assms w [of "- F" "- E"] show ?thesis by (auto simp: putExponent_def intro!: dl_intros putVarint64_order)
  qed (use assms w8 [of E F] m8 [of E] m8 [of F] in \<open>auto simp: putExponent_def intro!: dl_intros\<close>)
  assume "s \<noteq> 0"
  show "differs_less (putExponent s F) (putExponent s E)"
    using cases
  proof cases
    case 1
    with assms w [of E F] \<open>s \<noteq> 0\<close> show ?thesis
      by (auto simp: putExponent_def intro!: dl_intros putVarint64_order)
  next
    case 6
    with assms w [of "- F" "- E"] \<open>s \<noteq> 0\<close> show ?thesis
      by (auto simp: putExponent_def intro!: dl_intros putVarint64_order)
  qed (use assms w8' [of E F] m8 [of E] m8 [of F] \<open>s \<noteq> 0\<close> in \<open>auto simp: putExponent_def intro!: dl_intros\<close>)
qed

lemma frac_val_ge:
  assumes "normal_digits ds" shows "1 / 100 \<le> frac_val ds" and "frac_val ds < 1"
proof -
  obtain d ds' where ds: "ds = d # ds'" "d \<noteq> 0" "\<forall>d \<in> set ds'. d < 100"
    using assms by (cases ds) (auto simp: normal_digits_def)
  have "0 \<le> frac_val ds'" using frac_val_bounds [OF ds(3)] by simp
  moreover have "1 \<le> real (unat d)" using ds(2) by (simp add: unat_gt_0 Suc_le_eq del: of_nat_unat)
  ultimately show "1 / 100 \<le> frac_val ds" by (simp add: ds)
  show "frac_val ds < 1" using assms frac_val_bounds [of ds] by (simp add: normal_digits_def)
qed

lemma scaled_less:
  assumes "normal_digits xs" "normal_digits ys" "E < F"
  shows "frac_val xs * 100 powi E < frac_val ys * 100 powi F"
proof -
  have "frac_val xs * 100 powi E < 1 * 100 powi E"
    using frac_val_ge [OF assms(1)] by (intro mult_strict_right_mono) auto
  also have "(1 :: real) * 100 powi E \<le> 100 powi (F - 1)"
    using assms(3) by (simp add: power_int_increasing)
  also have "(100 :: real) powi (F - 1) = 1 / 100 * 100 powi F"
    by (simp add: power_int_diff)
  also have "\<dots> \<le> frac_val ys * 100 powi F"
    using frac_val_ge [OF assms(2)] by (intro mult_right_mono) auto
  finally show ?thesis .
qed

lemma frac_val_inj:
  "\<forall>d \<in> set xs. d < 100 \<Longrightarrow> \<forall>d \<in> set ys. d < 100 \<Longrightarrow> (xs \<noteq> [] \<Longrightarrow> last xs \<noteq> 0) \<Longrightarrow>
   (ys \<noteq> [] \<Longrightarrow> last ys \<noteq> 0) \<Longrightarrow> frac_val xs = frac_val ys \<Longrightarrow> xs = ys"
proof (induction xs ys rule: list_induct2')
  have pos: "0 < frac_val ds" if "\<forall>d \<in> set ds. d < 100" "ds \<noteq> []" "last ds \<noteq> 0" for ds
    using that
  proof (induction ds)
    case (Cons d ds)
    have "0 < real (unat d)" if "d \<noteq> 0" using that by (simp add: unat_gt_0 del: of_nat_unat)
    moreover have "0 \<le> real (unat d)" by (rule of_nat_0_le_iff)
    ultimately show ?case using Cons by (cases "ds = []") (auto simp: add_nonneg_pos)
  qed simp
  { case (2 x xs) then show ?case using pos [of "x # xs"] by simp }
  { case (3 y ys) then show ?case using pos [of "y # ys"] by simp }
  { case (4 x xs y ys)
    have f: "0 \<le> frac_val xs" "frac_val xs < 1" "0 \<le> frac_val ys" "frac_val ys < 1"
      using frac_val_bounds [of xs] frac_val_bounds [of ys] 4 by auto
    have "real (unat x) + frac_val xs = real (unat y) + frac_val ys" using 4 by simp
    then have "unat x = unat y" using f by linarith
    then have "x = y" by (simp add: word_unat_eq_iff)
    moreover have "xs = ys" using 4 \<open>x = y\<close> by (intro "4.IH") auto
    ultimately show ?case by simp }
qed simp

lemma putDigits_not: "s \<noteq> 0 \<Longrightarrow> putDigits s ds = map (\<lambda>b. NOT b) (putDigits 0 ds)"
  by (induction ds) (simp_all add: Let_def)

text \<open>A finite non-zero number as sign, exponent and digits.\<close>

lemma finite_key:
  assumes "n_m A \<noteq> 0" and "\<not> sqlite4_num_isinf A"
  obtains ds E where "encodeNumericKey A = putExponent (n_sign A) E @ putDigits (n_sign A) ds"
    and "normal_digits ds" and "\<bar>E\<bar> \<le> 17000" and "length ds \<le> 11"
    and "num_val A = (if n_sign A \<noteq> 0 then -1 else 1) * (frac_val ds * 100 powi E)"
proof -
  obtain ds E where d: "numDigits (n_m A) (n_e A) = (ds, E)" by force
  have "sint (n_e A) \<le> 999" using assms by (simp add: sqlite4_num_isinf_def SQLITE4_MX_EXP_def)
  from numDigits_spec [OF assms(1) this d] show ?thesis
    using assms d by (intro that [of E "rev ds"]) (auto simp: encodeNumericKey_def num_val_def)
qed

lemma same_sign_less:
  assumes "normal_digits xs" "normal_digits ys" "\<bar>E\<bar> \<le> 17000" "\<bar>F\<bar> \<le> 17000"
    and "frac_val xs * 100 powi E < frac_val ys * 100 powi F"
  shows "differs_less (putExponent 0 E @ putDigits 0 xs) (putExponent 0 F @ putDigits 0 ys)"
    and "s \<noteq> 0 \<Longrightarrow> differs_less (putExponent s F @ putDigits s ys) (putExponent s E @ putDigits s xs)"
proof -
  consider "E < F" | "E = F" using scaled_less [OF assms(2,1), of F E] assms(5) by fastforce
  note cases = this
  have d: "differs_less (putDigits 0 xs) (putDigits 0 ys)" if "E = F"
    using assms that by (intro putDigits_less) (auto simp: normal_digits_def)
  show "differs_less (putExponent 0 E @ putDigits 0 xs) (putExponent 0 F @ putDigits 0 ys)"
    using cases
  proof cases
    case 1
    with assms show ?thesis by (intro differs_less_append putExponent_less) auto
  next
    case 2
    with d show ?thesis by (auto intro: differs_less_same)
  qed
  show "differs_less (putExponent s F @ putDigits s ys) (putExponent s E @ putDigits s xs)" if "s \<noteq> 0"
    using cases
  proof cases
    case 1
    with assms that show ?thesis by (intro differs_less_append putExponent_less) auto
  next
    case 2
    with d that show ?thesis by (auto simp: putDigits_not intro: differs_less_same differs_less_not)
  qed
qed

lemma same_sign_eq:
  assumes "normal_digits xs" "normal_digits ys" "frac_val xs * 100 powi E = frac_val ys * 100 powi F"
  shows "E = F \<and> xs = ys"
proof -
  have "E = F" using scaled_less [OF assms(1,2), of E F] scaled_less [OF assms(2,1), of F E] assms(3) by force
  then show ?thesis using assms by (auto simp: normal_digits_def intro!: frac_val_inj)
qed

text \<open>
  The order of \<open>sqlite4_num\<close> values with the infinities outside and NaN first; the
  \<open>sign\<close> of a zero and the \<open>approx\<close> flag do not matter.
\<close>

definition num_class :: "sqlite4_num \<Rightarrow> nat" where
  "num_class A = (if sqlite4_num_isnan A then 0
                  else if sqlite4_num_isinf A then (if n_sign A \<noteq> 0 then 1 else 3) else 2)"

definition num_less :: "sqlite4_num \<Rightarrow> sqlite4_num \<Rightarrow> bool" where
  "num_less A B \<longleftrightarrow> num_class A < num_class B
     \<or> num_class A = num_class B \<and> num_class A = 2 \<and> num_val A < num_val B"

definition num_same :: "sqlite4_num \<Rightarrow> sqlite4_num \<Rightarrow> bool" where
  "num_same A B \<longleftrightarrow> num_class A = num_class B \<and> (num_class A = 2 \<longrightarrow> num_val A = num_val B)"

lemma putExponent_head:
  assumes "\<bar>E\<bar> \<le> 17000"
  obtains b t where "putExponent s E = b # t"
    and "if s = 0 then 0x15 < b \<and> b < 0x23 else 0x07 < b \<and> b < 0x15"
proof -
  have m8: "0x15 < (0x17 + word_of_int i :: u8)" "(0x17 + word_of_int i :: u8) < 0x23"
    "0x07 < (0x13 - word_of_int i :: u8)" "(0x13 - word_of_int i :: u8) < 0x15" if "0 \<le> i" "i < 11" for i
    using that by (simp_all add: word_less_alt uint_word_ariths unsigned_of_int take_bit_int_eq_self)
  show thesis using m8 [of E] that by (cases "11 \<le> E"; cases "E < 0"; cases "s = 0") (auto simp: putExponent_def)
qed

text \<open>The first byte of a key by class and sign.\<close>

definition head_byte :: "sqlite4_num \<Rightarrow> u8 \<Rightarrow> bool" where
  "head_byte A b \<longleftrightarrow>
     (if num_class A = 0 then b = 0x06 else if num_class A = 1 then b = 0x07
      else if num_class A = 3 then b = 0x23
      else if n_m A = 0 then b = 0x15
      else if n_sign A = 0 then 0x15 < b \<and> b < 0x23 else 0x07 < b \<and> b < 0x15)"

lemma key_head: "\<exists>b t. encodeNumericKey A = b # t \<and> head_byte A b"
proof (cases "n_m A = 0 \<or> sqlite4_num_isinf A")
  case True
  then show ?thesis
    by (cases "n_m A = 0")
      (simp_all add: head_byte_def encodeNumericKey_def num_class_def sqlite4_num_isinf_def sqlite4_num_isnan_def)
next
  case False
  then obtain ds E where "encodeNumericKey A = putExponent (n_sign A) E @ putDigits (n_sign A) ds" "\<bar>E\<bar> \<le> 17000"
    by (metis finite_key)
  moreover obtain b t where "putExponent (n_sign A) E = b # t"
    "if n_sign A = 0 then 0x15 < b \<and> b < 0x23 else 0x07 < b \<and> b < 0x15"
    using putExponent_head [OF \<open>\<bar>E\<bar> \<le> 17000\<close>] by metis
  moreover have "\<not> SQLITE4_MX_EXP < sint (n_e A)" using False by (auto simp: sqlite4_num_isinf_def)
  ultimately show ?thesis using False
    by (simp add: head_byte_def num_class_def sqlite4_num_isinf_def sqlite4_num_isnan_def)
qed

lemma num_val_sign:
  "0 < num_val A \<longleftrightarrow> n_m A \<noteq> 0 \<and> n_sign A = 0"
  "num_val A < 0 \<longleftrightarrow> n_m A \<noteq> 0 \<and> n_sign A \<noteq> 0"
  "num_val A = 0 \<longleftrightarrow> n_m A = 0"
proof -
  obtain x where v: "num_val A = (if n_sign A \<noteq> 0 then -1 else 1) * x"
    and x: "if n_m A = 0 then x = 0 else 0 < x"
  proof (rule that)
    show "num_val A = (if n_sign A \<noteq> 0 then -1 else 1) * (real (unat (n_m A)) * 10 powi sint (n_e A))"
      by (simp add: num_val_def)
    show "if n_m A = 0 then real (unat (n_m A)) * 10 powi sint (n_e A) = 0
          else 0 < real (unat (n_m A)) * 10 powi sint (n_e A)"
      by (auto intro!: mult_pos_pos simp: unat_gt_0 simp del: of_nat_unat)
  qed
  show "0 < num_val A \<longleftrightarrow> n_m A \<noteq> 0 \<and> n_sign A = 0" using v x by (auto split: if_splits)
  show "num_val A < 0 \<longleftrightarrow> n_m A \<noteq> 0 \<and> n_sign A \<noteq> 0" using v x by (auto split: if_splits)
  show "num_val A = 0 \<longleftrightarrow> n_m A = 0" using v x by (auto split: if_splits)
qed

lemma num_class_range: "num_class A \<in> {0, 1, 2, 3}"
  by (simp add: num_class_def)

lemma key_differs:
  assumes "num_less A B"
  shows "differs_less (encodeNumericKey A) (encodeNumericKey B)"
proof (cases "num_class A = 2 \<and> num_class B = 2 \<and> n_m A \<noteq> 0 \<and> n_m B \<noteq> 0 \<and> (n_sign A = 0 \<longleftrightarrow> n_sign B = 0)")
  case True
  then have fin: "\<not> sqlite4_num_isinf A" "\<not> sqlite4_num_isinf B" "n_m A \<noteq> 0" "n_m B \<noteq> 0"
    by (auto simp: num_class_def split: if_splits)
  obtain xs E where A: "encodeNumericKey A = putExponent (n_sign A) E @ putDigits (n_sign A) xs"
    "normal_digits xs" "\<bar>E\<bar> \<le> 17000" "num_val A = (if n_sign A \<noteq> 0 then -1 else 1) * (frac_val xs * 100 powi E)"
    using finite_key [OF fin(3,1)] by metis
  obtain ys F where B: "encodeNumericKey B = putExponent (n_sign B) F @ putDigits (n_sign B) ys"
    "normal_digits ys" "\<bar>F\<bar> \<le> 17000" "num_val B = (if n_sign B \<noteq> 0 then -1 else 1) * (frac_val ys * 100 powi F)"
    using finite_key [OF fin(4,2)] by metis
  have lt: "num_val A < num_val B" using assms True by (auto simp: num_less_def)
  have neg: "putExponent s i @ putDigits s ds = putExponent 1 i @ putDigits 1 ds" if "s \<noteq> 0" for s i ds
    using that by (auto simp: putExponent_def putDigits_not [of s] putDigits_not [of 1])
  show ?thesis
  proof (cases "n_sign A = 0")
    case True
    then show ?thesis using same_sign_less(1) [OF A(2) B(2) A(3) B(3)] A B lt \<open>_ \<and> _\<close> by auto
  next
    case False
    then show ?thesis using same_sign_less(2) [OF B(2) A(2) B(3) A(3), of 1] A B lt \<open>_ \<and> _\<close>
      by (simp add: neg [of "n_sign A"] neg [of "n_sign B"])
  qed
next
  case False
  obtain a s b t where a: "encodeNumericKey A = a # s" "head_byte A a"
    and b: "encodeNumericKey B = b # t" "head_byte B b"
    using key_head [of A] key_head [of B] by metis
  have "a < b"
  proof -
    have "num_class A < num_class B \<or> num_class A = 2 \<and> num_class B = 2 \<and> num_val A < num_val B"
      using assms by (auto simp: num_less_def)
    then show ?thesis
      using a(2) b(2) False num_val_sign [of A] num_val_sign [of B] num_class_range [of A] num_class_range [of B]
      by (auto simp: head_byte_def word_less_nat_alt split: if_splits)
  qed
  then show ?thesis by (simp add: a b differs_less_head)
qed

lemma const_key:
  "num_class A = 0 \<Longrightarrow> encodeNumericKey A = [0x06]" "num_class A = 1 \<Longrightarrow> encodeNumericKey A = [0x07]"
  "num_class A = 3 \<Longrightarrow> encodeNumericKey A = [0x23]"
  "num_class A = 2 \<Longrightarrow> n_m A = 0 \<Longrightarrow> encodeNumericKey A = [0x15]"
  by (simp_all add: num_class_def encodeNumericKey_def sqlite4_num_isinf_def sqlite4_num_isnan_def split: if_splits)

lemma key_same:
  assumes "num_same A B" shows "encodeNumericKey A = encodeNumericKey B"
proof (cases "num_class A = 2 \<and> n_m A \<noteq> 0")
  case True
  then have c: "num_class B = 2" "num_val A = num_val B" using assms by (auto simp: num_same_def)
  then have m: "n_m A \<noteq> 0" "n_m B \<noteq> 0" "n_sign A = 0 \<longleftrightarrow> n_sign B = 0"
    using True num_val_sign [of A] num_val_sign [of B] by auto
  have fin: "\<not> sqlite4_num_isinf A" "\<not> sqlite4_num_isinf B"
    using True c by (auto simp: num_class_def split: if_splits)
  obtain xs E where A: "encodeNumericKey A = putExponent (n_sign A) E @ putDigits (n_sign A) xs"
    "normal_digits xs" "num_val A = (if n_sign A \<noteq> 0 then -1 else 1) * (frac_val xs * 100 powi E)"
    using finite_key [OF m(1) fin(1)] by metis
  obtain ys F where B: "encodeNumericKey B = putExponent (n_sign B) F @ putDigits (n_sign B) ys"
    "normal_digits ys" "num_val B = (if n_sign B \<noteq> 0 then -1 else 1) * (frac_val ys * 100 powi F)"
    using finite_key [OF m(2) fin(2)] by metis
  have "E = F \<and> xs = ys"
    using c(2) A(3) B(3) m(3) by (intro same_sign_eq [OF A(2) B(2)]) (auto split: if_splits)
  then show ?thesis using A B m(3)
    by (cases "n_sign A = 0") (auto simp: putExponent_def putDigits_not)
next
  case False
  have "num_class A = num_class B" and "num_class A = 2 \<Longrightarrow> n_m A = 0 \<and> n_m B = 0"
    using assms False num_val_sign(3) [of A] num_val_sign(3) [of B] by (auto simp: num_same_def)
  then show ?thesis
    using num_class_range [of A] const_key [of A] const_key [of B] by auto
qed

lemma num_trichotomy: "num_less A B \<or> num_same A B \<or> num_less B A"
  by (auto simp: num_less_def num_same_def)

lemma key_iff:
  "num_less A B \<longleftrightarrow> (\<forall>x y. encodeNumericKey A @ x < encodeNumericKey B @ y)"
  "num_same A B \<longleftrightarrow> encodeNumericKey A = encodeNumericKey B"
proof -
  have l: "encodeNumericKey A @ x < encodeNumericKey B @ y" if "num_less A B" for A B x y
    by (rule differs_less_extend [OF key_differs [OF that]])
  have s: "encodeNumericKey A = encodeNumericKey B" if "num_same A B" for A B
    using that by (rule key_same)
  show "num_less A B \<longleftrightarrow> (\<forall>x y. encodeNumericKey A @ x < encodeNumericKey B @ y)"
    using l [of A B] l [of B A] s [of A B] num_trichotomy [of A B]
    by (metis append_Nil2 less_asym less_irrefl)
  show "num_same A B \<longleftrightarrow> encodeNumericKey A = encodeNumericKey B"
    using l [of A B "[]" "[]"] l [of B A "[]" "[]"] s [of A B] num_trichotomy [of A B] by auto
qed

text \<open>C22. Keys sort as numbers: for all decimal numbers, including zeroes of either sign, the infinities
  and NaN (which comes first), the encoding of one is before that of another, whatever bytes follow
  either, exactly when it is the smaller number; and two numbers have the same encoding exactly when
  they are equal, however they are split into significand and exponent.\<close>

theorem numeric_key_order:
  "(num_less A B \<longleftrightarrow> (\<forall>x y. encodeNumericKey A @ x < encodeNumericKey B @ y))
   \<and> (num_same A B \<longleftrightarrow> encodeNumericKey A = encodeNumericKey B)"
  using key_iff [of A B] by simp

subsection \<open>Integer keys\<close>

lemma uint_minus: "sint v < 0 \<Longrightarrow> uint (- v) = - sint (v :: i64)"
proof -
  assume n: "sint v < 0"
  have "uint (- v) = uint (word_of_int (- sint v) :: i64)" by simp
  also have "\<dots> = take_bit 64 (- sint v)" by (simp only: unsigned_of_int) simp
  also have "\<dots> = - sint v"
    using n sint_greater_eq [of v] by (intro take_bit_int_eq_self) auto
  finally show ?thesis .
qed

lemma uint_nonneg: "0 \<le> sint v \<Longrightarrow> uint v = sint (v :: i64)"
proof -
  assume n: "0 \<le> sint v"
  have "uint v = uint (word_of_int (sint v) :: i64)" by simp
  also have "\<dots> = take_bit 64 (sint v)" by (simp only: unsigned_of_int) simp
  also have "\<dots> = sint v"
    using n sint_less [of v] by (intro take_bit_int_eq_self) auto
  finally show ?thesis .
qed

lemma from_int64_fields:
  "n_m (sqlite4_num_from_int64 v) = (if sint v < 0 then - v else v)"
  "n_sign (sqlite4_num_from_int64 v) = (if sint v < 0 then 1 else 0)"
  "n_e (sqlite4_num_from_int64 v) = 0" "n_approx (sqlite4_num_from_int64 v) = 0"
  by (auto simp: sqlite4_num_from_int64_def word_sless_alt word_sle_eq SMALLEST_INT64_def LARGEST_INT64_def)

lemma from_int64_abs: "uint (n_m (sqlite4_num_from_int64 v)) = \<bar>sint v\<bar>"
  using uint_minus [of v] uint_nonneg [of v] by (auto simp: from_int64_fields)

lemma from_int64_val: "num_val (sqlite4_num_from_int64 v) = real_of_int (sint v)"
proof -
  have "real (unat (n_m (sqlite4_num_from_int64 v))) = real_of_int (uint (n_m (sqlite4_num_from_int64 v)))"
    by simp
  then show ?thesis by (auto simp: from_int64_abs num_val_def from_int64_fields(2,3) simp del: of_nat_unat of_int_sint)
qed

lemma from_int64_class: "num_class (sqlite4_num_from_int64 v) = 2"
  by (simp add: num_class_def sqlite4_num_isnan_def sqlite4_num_isinf_def from_int64_fields SQLITE4_MX_EXP_def)

lemma digit_byte_val:
  fixes a :: u8
  assumes "a < 100" "c = 0 \<or> c = 1"
  shows "unat (a * 2 OR c) = 2 * unat a + unat c"
proof -
  have "unat a < 100" using assms by (simp add: word_less_nat_alt)
  moreover have "a * 2 OR 1 = a * 2 + 1"
    by (rule disjunctive_add [symmetric]) (auto simp: bit_simps mult.commute [of a])
  ultimately show ?thesis using assms by (auto simp: unat_word_ariths)
qed

lemma digit_byte:
  fixes a :: u8
  assumes "a < 100"
  shows "(a * 2) div 2 = a" "(a * 2 OR 1) div 2 = a" "(a * 2) AND 1 = 0" "(a * 2 OR 1) AND 1 = 1"
  using digit_byte_val [OF assms, of 0] digit_byte_val [OF assms, of 1]
  by (simp_all add: and_one_eq word_unat_eq_iff unat_div unat_mod)

lemma cent_val_append: "cent_val (xs @ [d]) = cent_val xs + 100 ^ length xs * unat d"
  by (induction xs) (simp_all add: algebra_simps)

lemma xor_ff: "x XOR 0xff = NOT (x :: u8)"
proof -
  have "(0xff :: u8) = - 1" by simp
  then show ?thesis by (simp only: bit.xor_one_right)
qed

lemma getDigits_putDigits:
  "\<forall>d \<in> set ds. d < 100 \<Longrightarrow> ds \<noteq> [] \<Longrightarrow>
   getDigits (putDigits s ds @ rest) (if s \<noteq> 0 then 0xff else 0) i m e =
    Some (i + length ds, m * 100 ^ length ds + of_nat (cent_val (rev ds)), e - of_nat (length ds))"
proof (induction ds arbitrary: i m e)
  case (Cons a ds)
  let ?mask = "if s \<noteq> 0 then 0xff else 0 :: u8" and ?d = "if ds \<noteq> [] then a * 2 OR 1 else a * 2"
  have "(if s \<noteq> 0 then NOT ?d else ?d) XOR ?mask = ?d"
  proof (cases "s = 0")
    case False
    then have "(if s \<noteq> 0 then NOT ?d else ?d) XOR ?mask = NOT ?d XOR 0xff" by simp
    also have "\<dots> = ?d" unfolding xor_ff by (rule bit.double_compl)
    finally show ?thesis .
  qed simp
  moreover have "a < 100" using Cons.prems by simp
  note digit_byte [OF this]
  ultimately have step: "getDigits (putDigits s (a # ds) @ rest) ?mask i m e =
      (if ds \<noteq> [] then getDigits (putDigits s ds @ rest) ?mask (i + 1) (m * 100 + ucast a) (e - 1)
       else Some (i + 1, m * 100 + ucast a, e - 1))"
    by (simp add: Let_def cong: if_cong)
  have a: "(of_nat (unat a) :: u64) = ucast a" by simp
  show ?case
  proof (cases "ds = []")
    case True
    with step a show ?thesis by simp
  next
    case False
    with Cons step show ?thesis by (simp add: cent_val_append algebra_simps)
  qed
qed simp

lemma putDigits_length [simp]: "length (putDigits s ds) = length ds"
  by (induction ds) (simp_all add: Let_def)

lemma decode_medium:
  assumes "normal_digits ds" "0 \<le> E" "E \<le> 10" "s = 0 \<or> s = 1"
  shows "sqlite4VdbeDecodeNumericKey (putExponent s E @ putDigits s ds @ rest) =
    Some (if of_nat (cent_val (rev ds)) = (0 :: u64) then None
          else Some (1 + length ds,
            \<lparr>n_sign = s, n_approx = 0, n_e = 2 * (word_of_int E - of_nat (length ds)),
             n_m = of_nat (cent_val (rev ds))\<rparr>))"
proof -
  have E: "E = 0 \<or> E = 1 \<or> E = 2 \<or> E = 3 \<or> E = 4 \<or> E = 5 \<or> E = 6 \<or> E = 7 \<or> E = 8 \<or> E = 9 \<or> E = 10"
    using assms(2,3) by presburger
  have h: "putExponent 0 E = [0x17 + word_of_int E]" "putExponent 1 E = [0x13 - word_of_int E]"
    using assms by (simp_all add: putExponent_def)
  have d: "finishKey ((if s = 0 then 0x17 + word_of_int E else 0x13 - word_of_int E) # putDigits s ds @ rest) s
      (if s \<noteq> 0 then 0xff else 0) 1 (word_of_int E) =
    Some (if of_nat (cent_val (rev ds)) = (0 :: u64) then None
          else Some (1 + length ds,
            \<lparr>n_sign = s, n_approx = 0, n_e = 2 * (word_of_int E - of_nat (length ds)),
             n_m = of_nat (cent_val (rev ds))\<rparr>))"
    using assms(1) getDigits_putDigits [of ds s rest 1 0 "word_of_int E"]
    by (simp add: finishKey_def normal_digits_def)
  show ?thesis
  proof (cases "s = 0")
    case True
    with E d show ?thesis unfolding h(1) [folded True]
      by (elim disjE) (simp_all add: sqlite4VdbeDecodeNumericKey_def)
  next
    case False
    then have "s = 1" using assms by simp
    with E d show ?thesis unfolding h(2) [folded \<open>s = 1\<close>]
      by (elim disjE) (simp_all add: sqlite4VdbeDecodeNumericKey_def)
  qed
qed

lemma scale_up_ok:
  "unat r * 10 ^ i \<le> 2 ^ 63 \<Longrightarrow> \<exists>r'. scale_up i r = Some r' \<and> unat r' = unat r * 10 ^ i"
proof (induction i arbitrary: r)
  case (Suc i)
  have "unat r * 10 \<le> unat r * 10 * 10 ^ i" by simp
  also have "\<dots> \<le> 2 ^ 63" using Suc.prems by (simp add: mult.assoc)
  finally have le: "unat r * 10 \<le> 2 ^ 63" .
  then have "unat (r * 10) = unat r * 10" by (simp add: unat_word_ariths)
  moreover have "\<not> r > LARGEST_INT64 div 10"
    using le by (simp add: LARGEST_INT64_def word_less_nat_alt)
  ultimately show ?case using Suc.IH [of "r * 10"] Suc.prems by (simp add: mult.assoc)
qed simp

text \<open>An integer key has exponent between 1 and 10 and no more digits than that.\<close>

lemma int_digits:
  assumes "v \<noteq> 0"
  obtains ds E where "sqlite4VdbeEncodeIntKey v = putExponent (if sint v < 0 then 1 else 0) (int E) @
      putDigits (if sint v < 0 then 1 else 0) ds"
    and "normal_digits ds" and "1 \<le> E" and "E \<le> 10" and "length ds \<le> E"
    and "int (cent_val (rev ds) * 100 ^ (E - length ds)) = \<bar>sint v\<bar>"
proof -
  let ?A = "sqlite4_num_from_int64 v"
  have nz: "sint v \<noteq> 0" using assms by (metis signed_eq_0_iff)
  then have "n_m ?A \<noteq> 0" using from_int64_abs [of v] by auto
  moreover have "\<not> sqlite4_num_isinf ?A"
    by (simp add: sqlite4_num_isinf_def from_int64_fields SQLITE4_MX_EXP_def)
  ultimately obtain ds E where k: "encodeNumericKey ?A = putExponent (n_sign ?A) E @ putDigits (n_sign ?A) ds"
    "normal_digits ds" and v: "num_val ?A = (if n_sign ?A \<noteq> 0 then -1 else 1) * (frac_val ds * 100 powi E)"
    by (metis finite_key)
  have av: "frac_val ds * 100 powi E = \<bar>real_of_int (sint v)\<bar>"
    using v by (auto simp: from_int64_val from_int64_fields abs_if simp del: of_int_sint split: if_splits)
  have f: "1 / 100 \<le> frac_val ds" "frac_val ds < 1" using frac_val_ge [OF k(2)] by auto
  have "1 \<le> \<bar>real_of_int (sint v)\<bar>" using nz by (simp del: of_int_sint)
  have "1 \<le> E"
  proof (rule ccontr)
    assume "\<not> 1 \<le> E"
    then have "(100 :: real) powi E \<le> 100 powi 0" by (intro power_int_increasing) auto
    then have "frac_val ds * 100 powi E < 1 * 1" using f by (intro mult_less_le_imp_less) auto
    with av \<open>1 \<le> \<bar>_\<bar>\<close> show False by simp
  qed
  have "E \<le> 10"
  proof (rule ccontr)
    assume "\<not> E \<le> 10"
    then have "(100 :: real) powi 11 \<le> 100 powi E" by (intro power_int_increasing) auto
    then have "1 / 100 * 100 powi 11 \<le> frac_val ds * (100 :: real) powi E" using f by (intro mult_mono) auto
    then have "(100 :: real) ^ 10 \<le> \<bar>real_of_int (sint v)\<bar>" using av by simp
    moreover have "\<bar>sint v\<bar> \<le> 2 ^ 63" using sint_greater_eq [of v] sint_less [of v] by auto
    then have "real_of_int \<bar>sint v\<bar> \<le> real_of_int (2 ^ 63)" by (simp only: of_int_le_iff)
    ultimately show False by simp
  qed
  let ?c = "cent_val (rev ds)" and ?n = "length ds" and ?E = "nat E"
  have "frac_val ds * 100 ^ ?n = real ?c" using frac_val_rev [of "rev ds"] by simp
  moreover have "frac_val ds * 100 ^ ?E = \<bar>real_of_int (sint v)\<bar>"
    using av \<open>1 \<le> E\<close> by (simp add: power_int_def)
  ultimately have "real ?c * 100 ^ ?E = \<bar>real_of_int (sint v)\<bar> * 100 ^ ?n"
    by (metis mult.assoc mult.commute)
  then have "real_of_int (int ?c * 100 ^ ?E) = real_of_int (\<bar>sint v\<bar> * 100 ^ ?n)" by (simp del: of_int_sint)
  then have ceq: "int ?c * 100 ^ ?E = \<bar>sint v\<bar> * 100 ^ ?n" by (simp only: of_int_eq_iff)
  have last: "?c mod 100 \<noteq> 0"
  proof -
    obtain d ds' where d: "rev ds = d # ds'" "d < 100" "d \<noteq> 0"
      using k(2) by (cases "rev ds") (auto simp: normal_digits_def hd_rev last_rev dest: arg_cong [where f = rev])
    then have "unat d < 100" "unat d \<noteq> 0" by (auto simp: word_less_nat_alt unat_eq_0)
    with d(1) show ?thesis by simp
  qed
  have le: "?n \<le> ?E"
  proof (rule ccontr)
    assume a: "\<not> ?n \<le> ?E"
    then have "(100 :: int) ^ ?n = 100 ^ ?E * (100 * 100 ^ (?n - ?E - 1))"
      by (simp flip: power_Suc power_add)
    with ceq have "int ?c = \<bar>sint v\<bar> * (100 * 100 ^ (?n - ?E - 1))"
      by (simp add: mult.commute mult.left_commute)
    then have "100 dvd int ?c" by simp
    then have "100 dvd ?c" by presburger
    with last show False by simp
  qed
  then have "(100 :: int) ^ ?E = 100 ^ ?n * 100 ^ (?E - ?n)" by (simp flip: power_add)
  with ceq have "int (?c * 100 ^ (?E - ?n)) = \<bar>sint v\<bar>" by (simp add: mult.commute mult.left_commute)
  then show thesis using k \<open>1 \<le> E\<close> \<open>E \<le> 10\<close> le
    by (intro that [of ?E ds]) (auto simp: sqlite4VdbeEncodeIntKey_def from_int64_fields)
qed

text \<open>The 8-byte two's-complement value of a sign and a magnitude.\<close>

lemma int64_of_parts:
  assumes "int (unat u) = \<bar>sint v\<bar>"
  shows "(if sint v < 0 then - u else u) = (v :: i64)"
proof -
  have "uint u = \<bar>sint v\<bar>" using assms by simp
  then have u: "u = word_of_int \<bar>sint v\<bar>" by (metis word_of_int_uint)
  show ?thesis by (auto simp: u abs_if)
qed

lemma int_key_roundtrip_nonzero:
  assumes "v \<noteq> 0"
  shows "\<exists>num. sqlite4VdbeDecodeNumericKey (sqlite4VdbeEncodeIntKey v @ rest) =
      Some (Some (length (sqlite4VdbeEncodeIntKey v), num))
    \<and> sqlite4_num_to_int64 num = (v, 0) \<and> length (sqlite4VdbeEncodeIntKey v) \<le> 11"
proof -
  let ?s = "if sint v < 0 then 1 else 0 :: u8"
  obtain ds E where k: "sqlite4VdbeEncodeIntKey v = putExponent ?s (int E) @ putDigits ?s ds"
    "normal_digits ds" "1 \<le> E" "E \<le> 10" "length ds \<le> E"
    and abs: "int (cent_val (rev ds) * 100 ^ (E - length ds)) = \<bar>sint v\<bar>"
    using int_digits [OF assms] by metis
  let ?c = "cent_val (rev ds)" and ?i = "2 * (E - length ds)"
  have b: "\<bar>sint v\<bar> \<le> 2 ^ 63" using sint_greater_eq [of v] sint_less [of v] by auto
  then have "int (?c * 100 ^ (E - length ds)) \<le> int (2 ^ 63)" unfolding abs by simp
  then have cb: "?c * 10 ^ ?i \<le> 2 ^ 63" unfolding of_nat_le_iff by (simp add: power_mult)
  have "?c \<le> ?c * 10 ^ ?i" by simp
  also note cb
  finally have uc: "unat (of_nat ?c :: u64) = ?c" by (simp add: unat_of_nat)
  have "sint v \<noteq> 0" using assms by (metis signed_eq_0_iff)
  then have "?c \<noteq> 0" using abs by (intro notI) simp
  then have nz: "of_nat ?c \<noteq> (0 :: u64)" using uc by (metis unat_0)
  define num where "num = \<lparr>n_sign = ?s, n_approx = 0,
      n_e = 2 * (word_of_int (int E) - of_nat (length ds)), n_m = of_nat ?c :: u64\<rparr>"
  have dec: "sqlite4VdbeDecodeNumericKey (sqlite4VdbeEncodeIntKey v @ rest) = Some (Some (1 + length ds, num))"
    using decode_medium [OF k(2), of "int E" ?s rest] k nz by (simp add: num_def)
  have "n_e num = of_nat ?i" using k(5) by (simp add: num_def of_nat_diff)
  then have e: "sint (n_e num) = int ?i"
    using sint_add_small [of 0 ?i] k(4) by simp
  have nf: "nat (sint (n_e num)) = ?i" "nat (- sint (n_e num)) = 0" "n_sign num = ?s" "n_approx num = 0"
    unfolding e by (simp_all add: num_def)
  obtain r where r: "scale_up ?i (n_m num) = Some r" "unat r = ?c * 10 ^ ?i"
    using scale_up_ok [of "n_m num" ?i] cb uc by (auto simp: num_def)
  have ra: "int (unat r) = \<bar>sint v\<bar>" using r(2) abs by (simp add: power_mult)
  have to: "sqlite4_num_to_int64 num = (v, 0)"
  proof (cases "sint v < 0")
    case True
    have "unat r \<le> 2 ^ 63" using r(2) cb by simp
    then have "\<not> r > LARGEST_INT64 + 1" by (simp add: LARGEST_INT64_def word_less_nat_alt)
    then show ?thesis using True int64_of_parts [OF ra] r(1)
      by (simp add: sqlite4_num_to_int64_def nf)
  next
    case False
    have "sint v < 2 ^ 63" using sint_less [of v] by simp
    then have "int (unat r) < int (2 ^ 63)" unfolding ra using False by simp
    then have "unat r < 2 ^ 63" by (simp only: of_nat_less_iff)
    then have "\<not> r > LARGEST_INT64" by (simp add: LARGEST_INT64_def word_less_nat_alt)
    then show ?thesis using False int64_of_parts [OF ra] r(1)
      by (simp add: sqlite4_num_to_int64_def nf)
  qed
  have "length (putExponent ?s (int E)) = 1" using k(4) by (auto simp: putExponent_def)
  with dec to k(1,4,5) show ?thesis by (intro exI [of _ num]) auto
qed

lemma int_key_roundtrip:
  "\<exists>num. sqlite4VdbeDecodeNumericKey (sqlite4VdbeEncodeIntKey v @ rest) =
      Some (Some (length (sqlite4VdbeEncodeIntKey v), num))
    \<and> sqlite4_num_to_int64 num = (v, 0) \<and> length (sqlite4VdbeEncodeIntKey v) \<le> 11"
proof (cases "v = 0")
  case True
  have "sqlite4VdbeEncodeIntKey 0 = [0x15]"
    by (simp add: sqlite4VdbeEncodeIntKey_def encodeNumericKey_def from_int64_fields sqlite4_num_isnan_def SQLITE4_MX_EXP_def)
  with True show ?thesis
    by (simp add: sqlite4VdbeDecodeNumericKey_def sqlite4_num_to_int64_def LARGEST_INT64_def)
qed (rule int_key_roundtrip_nonzero)

text \<open>C38. Row keys: a 64-bit integer sorts as a key exactly as it sorts as a number, whatever follows;
  its key decodes, whatever follows it, to a number that converts back to the integer without loss,
  and the decoder consumes exactly the bytes of the key, at most 11 of the caller's 12.\<close>

theorem int_key_codec:
  "(v <s w \<longleftrightarrow> (\<forall>x y. sqlite4VdbeEncodeIntKey v @ x < sqlite4VdbeEncodeIntKey w @ y))
   \<and> (\<exists>num. sqlite4VdbeDecodeNumericKey (sqlite4VdbeEncodeIntKey v @ rest) =
        Some (Some (length (sqlite4VdbeEncodeIntKey v), num))
      \<and> sqlite4_num_to_int64 num = (v, 0))
   \<and> length (sqlite4VdbeEncodeIntKey v) \<le> 11"
proof -
  have "v <s w \<longleftrightarrow> num_less (sqlite4_num_from_int64 v) (sqlite4_num_from_int64 w)"
    by (simp add: num_less_def from_int64_class from_int64_val word_sless_alt del: of_int_sint)
  then have "v <s w \<longleftrightarrow> (\<forall>x y. sqlite4VdbeEncodeIntKey v @ x < sqlite4VdbeEncodeIntKey w @ y)"
    unfolding sqlite4VdbeEncodeIntKey_def key_iff(1) .
  then show ?thesis using int_key_roundtrip [of v rest] by blast
qed

text \<open>The decoder loses signs and digits. A negative number outside the range of the medium exponents
  (below 10^-22 or from 10^22 in magnitude, roughly) decodes as its positive counterpart, since the branches
  for small and large values never set the sign; and a significand that fills 64 bits next to an odd
  exponent is multiplied by ten and wraps around. The keys of -10^30, -10^-30 and
  922337203685477580.7 show it.\<close>

theorem key_decode_loses:
  "map_option (map_option (\<lambda>(n, v). (n_sign v, n_m v, sint (n_e v))))
     (sqlite4VdbeDecodeNumericKey (encodeNumericKey \<lparr>n_sign = 1, n_approx = 0, n_e = 30, n_m = 1\<rparr>)) = Some (Some (0, 1, 30))
   \<and> map_option (map_option (\<lambda>(n, v). (n_sign v, n_m v, sint (n_e v))))
     (sqlite4VdbeDecodeNumericKey (encodeNumericKey \<lparr>n_sign = 1, n_approx = 0, n_e = -30, n_m = 1\<rparr>)) = Some (Some (0, 1, -30))
   \<and> map_option (map_option (\<lambda>(n, v). (n_sign v, n_m v, sint (n_e v))))
     (sqlite4VdbeDecodeNumericKey (encodeNumericKey \<lparr>n_sign = 0, n_approx = 0, n_e = -1, n_m = 9223372036854775807\<rparr>)) =
       Some (Some (0, 18446744073709551606, -2))"
  by (intro conjI; code_simp)

end
