(* ===== verification/RecordCodec.thy ===== *)
theory RecordCodec
  imports KeyCodec
begin

unbundle bit_operations_syntax

text \<open>
  The records of \<open>vdbecodec.c\<close>: the data side of a row (\<open>sqlite4VdbeEncodeData\<close> and the
  \<open>RowDecoder\<close>) and the extraction of a column from the key side. A column that is encoded
  is decoded to the value it was encoded from. \<open>None\<close> is undefined behaviour (a read outside
  the record or key, a failed \<open>assert\<close>); allocation is taken to succeed.
\<close>

subsection \<open>Values\<close>

text \<open>
  A \<open>Mem\<close> cell by its type flag; a string carries the encoding \<open>Mem.enc\<close> (UTF-8,
  UTF-16LE, UTF-16BE), and \<open>char\<close> is signed.
\<close>

datatype mem = MNull | MInt sqlite4_num | MReal sqlite4_num | MStr bytes nat | MBlob bytes

abbreviation (input) SQLITE4_UTF8 :: nat where "SQLITE4_UTF8 \<equiv> 1"
abbreviation (input) SQLITE4_UTF16LE :: nat where "SQLITE4_UTF16LE \<equiv> 2"
abbreviation (input) SQLITE4_UTF16BE :: nat where "SQLITE4_UTF16BE \<equiv> 3"
abbreviation (input) CORRUPT :: int where "CORRUPT \<equiv> 11"
abbreviation (input) TOOBIG :: int where "TOOBIG \<equiv> 18"

text \<open>Setting a cell to a string drops a byte order mark and takes its encoding.\<close>

definition sqlite4VdbeMemHandleBom :: "bytes \<Rightarrow> nat \<Rightarrow> mem" where
  "sqlite4VdbeMemHandleBom z enc =
     (if length z > 1 \<and> z ! 0 = 0xFE \<and> z ! 1 = 0xFF then MStr (drop 2 z) SQLITE4_UTF16BE
      else if length z > 1 \<and> z ! 0 = 0xFF \<and> z ! 1 = 0xFE then MStr (drop 2 z) SQLITE4_UTF16LE
      else MStr z enc)"

definition mem_of_str :: "bytes \<Rightarrow> nat \<Rightarrow> mem" where
  "mem_of_str z enc =
     (if enc = 0 then MBlob z
      else if enc \<noteq> SQLITE4_UTF8 then sqlite4VdbeMemHandleBom z enc
      else MStr z enc)"

text \<open>
  Setting a cell to a copy of the \<open>n\<close> bytes at \<open>z\<close>, a position in a buffer or (\<open>None\<close>) a null
  pointer. \<open>iLimit\<close> is the length limit of the connection, \<open>aLimit[SQLITE4_LIMIT_LENGTH]\<close>; above it
  the cell stays what it was.
\<close>

definition sqlite4VdbeMemSetStr ::
  "nat \<Rightarrow> mem \<Rightarrow> (bytes \<times> nat) option \<Rightarrow> nat \<Rightarrow> nat \<Rightarrow> (int \<times> mem) option" where
  "sqlite4VdbeMemSetStr iLimit pMem z n enc =
     (case z of
        None \<Rightarrow> Some (0, MNull)
      | Some (a, ofst) \<Rightarrow>
          if n > iLimit then Some (TOOBIG, pMem)
          else map_option (\<lambda>z. (0, mem_of_str z enc)) (memget a ofst n))"

subsection \<open>Encoding a record\<close>

function sigNeg :: "int \<Rightarrow> int \<Rightarrow> nat \<Rightarrow> nat" where
  "sigNeg v x n = (if v < x \<and> n < 8 then sigNeg v (x * 256) (n + 1) else n)"
  by pat_completeness auto
termination by (relation "measure (\<lambda>(v, x, n). 8 - n)") auto

function sigPos :: "int \<Rightarrow> int \<Rightarrow> nat \<Rightarrow> nat" where
  "sigPos v x n = (if v > x \<and> n < 8 then sigPos v (x * 256) (n + 1) else n)"
  by pat_completeness auto
termination by (relation "measure (\<lambda>(v, x, n). 8 - n)") auto

declare sigNeg.simps [simp del] sigPos.simps [simp del]

definition significantBytes :: "i64 \<Rightarrow> nat" where
  "significantBytes v = (if sint v < 0 then sigNeg (sint v) (-128) 1 else sigPos (sint v) 127 1)"

text \<open>The loop that writes an integer from its last byte to its first.\<close>

fun putIntBytes :: "nat \<Rightarrow> i64 \<Rightarrow> bytes" where
  "putIntBytes 0 v = []"
| "putIntBytes (Suc n) v = putIntBytes n (signed_drop_bit 8 v) @ [ucast (v AND 0xff)]"

definition realBytes :: "sqlite4_num \<Rightarrow> bytes option" where
  "realBytes p =
     (if n_sign p = 0 \<or> n_sign p = 1 then
        let e = (if sint (n_e p) < 0 then sint (n_e p) * -4 + 2 + int (unat (n_sign p))
                 else sint (n_e p) * 4 + int (unat (n_sign p)));
            z = sqlite4PutVarint64 (word_of_int e) @ sqlite4PutVarint64 (n_m p) in
        if length z \<le> 12 then Some z else None
      else None)"

text \<open>Whether the text needs a byte that tells its encoding.\<close>

definition encPrefix :: "nat \<Rightarrow> bytes \<Rightarrow> bytes" where
  "encPrefix encoding z =
     (if z = [] then []
      else if encoding = SQLITE4_UTF16LE then [1]
      else if encoding = SQLITE4_UTF16BE then [2]
      else if z ! 0 <s 3 then [0] else [])"

definition textSize :: "nat \<Rightarrow> bytes \<Rightarrow> nat" where
  "textSize encoding z =
     (if z \<noteq> [] \<and> (encoding \<noteq> SQLITE4_UTF8 \<or> z ! 0 <s 3) then length z + 1 else length z)"

definition headerOf :: "nat \<Rightarrow> mem \<Rightarrow> bytes option" where
  "headerOf encoding pIn =
     (case pIn of
        MNull \<Rightarrow> Some [0]
      | MInt num \<Rightarrow> Some [of_nat (significantBytes (fst (sqlite4_num_to_int64 num)) + 2)]
      | MReal p \<Rightarrow> map_option (\<lambda>z. [of_nat (length z + 9)]) (realBytes p)
      | MStr z _ \<Rightarrow> Some (sqlite4PutVarint64 (22 + 4 * of_nat (textSize encoding z)))
      | MBlob z \<Rightarrow> Some (sqlite4PutVarint64 (23 + 4 * of_nat (length z))))"

definition payloadOf :: "nat \<Rightarrow> mem \<Rightarrow> bytes option" where
  "payloadOf encoding pIn =
     (case pIn of
        MNull \<Rightarrow> Some []
      | MInt num \<Rightarrow> let v = fst (sqlite4_num_to_int64 num) in Some (putIntBytes (significantBytes v) v)
      | MReal p \<Rightarrow> realBytes p
      | MStr z _ \<Rightarrow> Some (encPrefix encoding z @ z)
      | MBlob z \<Rightarrow> Some z)"

text \<open>The cells are those of \<open>aIn[]\<close> in the order of \<open>aPermute[]\<close>.\<close>

definition sqlite4VdbeEncodeData :: "nat \<Rightarrow> mem list \<Rightarrow> bytes option" where
  "sqlite4VdbeEncodeData encoding aIn =
     do { hs \<leftarrow> those (map (headerOf encoding) aIn);
          ps \<leftarrow> those (map (payloadOf encoding) aIn);
          let hdr = concat hs;
          Some (sqlite4PutVarint64 (of_nat (length hdr)) @ hdr @ concat ps) }"

subsection \<open>Columns stored in the key\<close>

text \<open>
  The loop of \<open>decoderMemSetFromBlob\<close>: seven bits from each byte, the accumulator \<open>m\<close> an
  \<open>unsigned int\<close> of which the low \<open>j\<close> bits are still to be written. A last incomplete byte
  is written but not counted.
\<close>

fun unpack7 :: "u8 \<Rightarrow> u32 \<Rightarrow> nat \<Rightarrow> bytes \<Rightarrow> bytes" where
  "unpack7 xorMask m j [] = []"
| "unpack7 xorMask m j (b # bs) =
     (let m = push_bit 7 m OR ucast ((b XOR xorMask) AND 0x7f); j = j + 7 in
      if j \<ge> 8 then ucast (drop_bit (j - 8) m AND 0xff) # unpack7 xorMask m (j - 8) bs
      else unpack7 xorMask m j bs)"

definition decoderMemSetFromBlob :: "bytes \<Rightarrow> u8 \<Rightarrow> mem" where
  "decoderMemSetFromBlob a xorMask = MBlob (unpack7 xorMask 0 0 a)"

text \<open>The loop that inverts the bytes of a descending text, unless setting it failed.\<close>

definition invertStr :: "int \<times> mem \<Rightarrow> int \<times> mem" where
  "invertStr r =
     (case r of
        (rc, MStr z enc) \<Rightarrow> (rc, MStr (if rc = 0 then map (\<lambda>b. b XOR 0xFF) z else z) enc)
      | _ \<Rightarrow> r)"

definition decoderFromKey :: "nat \<Rightarrow> bytes \<Rightarrow> bool \<Rightarrow> nat \<Rightarrow> mem \<Rightarrow> (int \<times> mem) option" where
  "decoderFromKey iLimit aKey affReal iOfst pOut =
     (if iOfst \<ge> length aKey then Some (CORRUPT, pOut)
      else
        let c = aKey ! iOfst; iOfst = iOfst + 1; a = drop iOfst aKey;
            i0 = length (takeWhile (\<lambda>b. b \<noteq> 0) a); iFF = length (takeWhile (\<lambda>b. b \<noteq> 0xFF) a) in
        if c \<in> {0x05, 0xFA, 0x06, 0xF9} then Some (0, MNull)
        else if c = 0x24 then sqlite4VdbeMemSetStr iLimit pOut (Some (aKey, iOfst)) i0 SQLITE4_UTF8
        else if c = 0xDB then
          map_option invertStr (sqlite4VdbeMemSetStr iLimit pOut (Some (aKey, iOfst + 1)) iFF SQLITE4_UTF8)
        else if c = 0x25 then Some (0, decoderMemSetFromBlob (take i0 a) 0)
        else if c = 0xDA then Some (0, decoderMemSetFromBlob (take iFF a) 0xFF)
        else if c = 0x26 then sqlite4VdbeMemSetStr iLimit pOut (Some (aKey, iOfst)) (length a) 0
        else if c = 0xD9 then
          map_option invertStr (sqlite4VdbeMemSetStr iLimit pOut (Some (aKey, iOfst)) (length a) SQLITE4_UTF8)
        else do { r \<leftarrow> sqlite4VdbeDecodeNumericKey (drop (iOfst - 1) aKey);
                  Some (case r of None \<Rightarrow> (CORRUPT, pOut)
                        | Some (_, v) \<Rightarrow> (0, if affReal then MReal v else MInt v)) })"

subsection \<open>Decoding a column\<close>

text \<open>The content of a cell of the given type at offset \<open>ofst\<close> of the record \<open>a\<close>.\<close>

definition decodeInt :: "bytes \<Rightarrow> i64" where
  "decodeInt bs = foldl (\<lambda>v b. v * 256 + ucast b) (scast (hd bs)) (tl bs)"

definition to_i32 :: "u64 \<Rightarrow> int" where
  "to_i32 x = sint (ucast x :: 32 word)"

definition decodeReal :: "bytes \<Rightarrow> nat \<Rightarrow> nat \<Rightarrow> (int \<times> mem) option" where
  "decodeReal a ofst nSize =
     (case sqlite4GetVarint64 (drop ofst a) of
        None \<Rightarrow> Some (CORRUPT, MNull)
      | Some (n1, x1) \<Rightarrow>
          let (n2, x2) = (case sqlite4GetVarint64 (drop (ofst + n1) a) of Some r \<Rightarrow> r | None \<Rightarrow> (0, x1));
              e = to_i32 x1; ee = word_of_int (e div 4) in
          if n1 + n2 \<noteq> nSize then Some (CORRUPT, MNull)
          else Some (0, MReal \<lparr>n_sign = (if bit e 0 then 1 else 0), n_approx = 0,
                                n_e = (if bit e 1 then - ee else ee), n_m = x2\<rparr>))"

text \<open>
  Text and blobs. \<open>sqlite4VdbeDecoderGetColumn\<close> does not look at what \<open>sqlite4VdbeMemSetStr\<close> returns:
  above the limit its cell stays NULL and the result is still \<open>SQLITE4_OK\<close>. (A size of 2^31 or more,
  which the call turns into a negative number, is left undefined.)
\<close>

definition decodeText :: "nat \<Rightarrow> bytes \<Rightarrow> nat \<Rightarrow> nat \<Rightarrow> mem \<Rightarrow> mem option" where
  "decodeText iLimit a ofst nSize pOut =
     (if nSize = 0 then map_option snd (sqlite4VdbeMemSetStr iLimit pOut (Some ([], 0)) 0 SQLITE4_UTF8)
      else do { b \<leftarrow> memget a ofst 1;
                if hd b > 2 then map_option snd (sqlite4VdbeMemSetStr iLimit pOut (Some (a, ofst)) nSize SQLITE4_UTF8)
                else map_option snd
                  (sqlite4VdbeMemSetStr iLimit pOut (Some (a, ofst + 1)) (nSize - 1) (unat (hd b) + 1)) })"

definition decodeBlob :: "nat \<Rightarrow> bytes \<Rightarrow> nat \<Rightarrow> nat \<Rightarrow> mem \<Rightarrow> mem option" where
  "decodeBlob iLimit a ofst nSize pOut = map_option snd (sqlite4VdbeMemSetStr iLimit pOut (Some (a, ofst)) nSize 0)"

definition decodeContent :: "nat \<Rightarrow> bytes \<Rightarrow> bytes \<Rightarrow> u64 \<Rightarrow> nat \<Rightarrow> u64 \<Rightarrow> (int \<times> mem) option" where
  "decodeContent iLimit a aKey ofst nSize ty =
     (if ty = 0 then Some (0, MNull)
      else if ty \<le> 2 then Some (0, MInt (sqlite4_num_from_int64 (ty - 1)))
      else if ty \<le> 10 then
        map_option (\<lambda>bs. (0, MInt (sqlite4_num_from_int64 (decodeInt bs)))) (memget a (unat ofst) nSize)
      else if ty \<le> 21 then decodeReal a (unat ofst) nSize
      else if (ty - 22) mod 4 = 0 then
        (if int nSize < 2 ^ 31 then map_option (Pair 0) (decodeText iLimit a (unat ofst) nSize MNull) else None)
      else if (ty - 22) mod 4 = 2 then
        (let k = (ucast ((ty - 24) div 4) :: u32) in decoderFromKey iLimit aKey (bit k 0) (unat (k div 2)) MNull)
      else if int nSize < 2 ^ 31 then map_option (Pair 0) (decodeBlob iLimit a (unat ofst) nSize MNull) else None)"

text \<open>The size of a field: a 32-bit variable.\<close>

definition fieldSize :: "u64 \<Rightarrow> nat" where
  "fieldSize ty =
     (if ty \<ge> 22 then (if (ty - 22) mod 4 = 2 then 0 else unat (ucast ((ty - 22) div 4) :: u32))
      else if ty \<le> 2 then 0
      else if ty \<le> 10 then unat (ty - 2)
      else unat (ty - 9))"

text \<open>
  The loop over the header: \<open>n\<close> is the position in it, \<open>ofst\<close> the offset of the payload of
  the column there, and the last argument counts the columns still to be skipped.
\<close>

fun decodeColumns :: "nat \<Rightarrow> bytes \<Rightarrow> bytes \<Rightarrow> mem option \<Rightarrow> int \<Rightarrow> nat \<Rightarrow> u64 \<Rightarrow> nat \<Rightarrow> (int \<times> mem) option" where
  "decodeColumns iLimit a aKey pDefault endHdr n ofst k =
     (if \<not> int n < endHdr then Some (0, case pDefault of Some d \<Rightarrow> d | None \<Rightarrow> MNull)
      else case sqlite4GetVarint64 (drop n a) of
        None \<Rightarrow> Some (CORRUPT, MNull)
      | Some (sz, ty) \<Rightarrow>
          let n = n + sz; nSize = fieldSize ty in
          case (if ty \<ge> 22 \<and> (ty - 22) mod 4 = 3
                then map_option fst (sqlite4GetVarint64 (drop n a)) else Some 0) of
            None \<Rightarrow> Some (CORRUPT, MNull)
          | Some sz \<Rightarrow>
              (case k of
                 0 \<Rightarrow> decodeContent iLimit a aKey ofst nSize ty
               | Suc k \<Rightarrow> decodeColumns iLimit a aKey pDefault endHdr (n + sz) (ofst + of_nat nSize) k))"

text \<open>\<open>a\<close> is \<open>None\<close> on a null row; \<open>mxCol\<close> is the number of columns the decoder was made for.\<close>

definition sqlite4VdbeDecoderGetColumn ::
  "nat \<Rightarrow> nat \<Rightarrow> bytes option \<Rightarrow> bytes \<Rightarrow> mem option \<Rightarrow> nat \<Rightarrow> (int \<times> mem) option" where
  "sqlite4VdbeDecoderGetColumn iLimit mxCol data aKey pDefault iVal =
     do { c_assert (iVal \<le> mxCol);
          case data of
            None \<Rightarrow> Some (0, MNull)
          | Some a \<Rightarrow>
              (case sqlite4GetVarint64 a of
                 None \<Rightarrow> Some (CORRUPT, MNull)
               | Some (n, ofst) \<Rightarrow>
                   (let ofst = ofst + of_nat n; endHdr = to_i32 ofst in
                    if endHdr > int (length a) then Some (CORRUPT, MNull)
                    else decodeColumns iLimit a aKey pDefault endHdr n ofst iVal)) }"

subsection \<open>Integers in a record\<close>

lemma sigPos_bound:
  assumes "1 \<le> n" "n \<le> 8" "v < 2 ^ 63"
  shows "let k = sigPos v (127 * 256 ^ (n - 1)) n in n \<le> k \<and> k \<le> 8 \<and> v < 2 ^ (8 * k - 1)"
  using assms
proof (induction "8 - n" arbitrary: n)
  case 0
  then have "n = 8" by simp
  with 0 show ?case by (simp add: sigPos.simps Let_def)
next
  case (Suc m)
  then have n8: "n < 8" by simp
  have e: "(127 * 256 ^ (n - 1) * 256 :: int) = 127 * 256 ^ (Suc n - 1)"
    using Suc.prems(1) by (cases n) simp_all
  show ?case
  proof (cases "v > 127 * 256 ^ (n - 1)")
    case True
    then have "sigPos v (127 * 256 ^ (n - 1)) n = sigPos v (127 * 256 ^ (Suc n - 1)) (Suc n)"
      using n8 by (subst sigPos.simps) (simp only: e, simp)
    moreover have "let k = sigPos v (127 * 256 ^ (Suc n - 1)) (Suc n) in Suc n \<le> k \<and> k \<le> 8 \<and> v < 2 ^ (8 * k - 1)"
      using Suc.hyps(2) Suc.prems by (intro Suc.hyps(1)) auto
    ultimately show ?thesis by (simp add: Let_def)
  next
    case False
    have "(127 :: int) * 256 ^ (n - 1) < 2 ^ 7 * 2 ^ (8 * (n - 1))" by (simp add: power_mult)
    also have "\<dots> = 2 ^ (8 * n - 1)" using Suc.prems(1) by (cases n) (simp_all add: power_add)
    finally show ?thesis using False Suc.prems by (subst sigPos.simps) (simp add: Let_def)
  qed
qed

lemma sigNeg_bound:
  assumes "1 \<le> n" "n \<le> 8" "- (2 ^ 63) \<le> v"
  shows "let k = sigNeg v (- 128 * 256 ^ (n - 1)) n in n \<le> k \<and> k \<le> 8 \<and> - (2 ^ (8 * k - 1)) \<le> v"
  using assms
proof (induction "8 - n" arbitrary: n)
  case 0
  then have "n = 8" by simp
  with 0 show ?case by (simp add: sigNeg.simps Let_def)
next
  case (Suc m)
  then have n8: "n < 8" by simp
  have e: "(- 128 * 256 ^ (n - 1) * 256 :: int) = - 128 * 256 ^ (Suc n - 1)"
    using Suc.prems(1) by (cases n) simp_all
  show ?case
  proof (cases "v < - 128 * 256 ^ (n - 1)")
    case True
    then have "sigNeg v (- 128 * 256 ^ (n - 1)) n = sigNeg v (- 128 * 256 ^ (Suc n - 1)) (Suc n)"
      using n8 by (subst sigNeg.simps) (simp only: e, simp)
    moreover have "let k = sigNeg v (- 128 * 256 ^ (Suc n - 1)) (Suc n) in Suc n \<le> k \<and> k \<le> 8 \<and> - (2 ^ (8 * k - 1)) \<le> v"
      using Suc.hyps(2) Suc.prems by (intro Suc.hyps(1)) auto
    ultimately show ?thesis by (simp add: Let_def)
  next
    case False
    have "(128 :: int) * 256 ^ (n - 1) = 2 ^ 7 * 2 ^ (8 * (n - 1))" by (simp add: power_mult)
    also have "\<dots> = 2 ^ (8 * n - 1)" using Suc.prems(1) by (cases n) (simp_all add: power_add)
    finally show ?thesis using False Suc.prems by (subst sigNeg.simps) (simp add: Let_def)
  qed
qed

lemma significantBytes_fits:
  defines "k \<equiv> \<lambda>v. significantBytes v"
  shows "1 \<le> k v" "k v \<le> 8" "- (2 ^ (8 * k v - 1)) \<le> sint v" "sint v < 2 ^ (8 * k v - 1)"
proof -
  have b: "- (2 ^ 63) \<le> sint v" "sint v < 2 ^ 63"
    using sint_greater_eq [of v] sint_less [of v] by simp_all
  show "1 \<le> k v" "k v \<le> 8" "- (2 ^ (8 * k v - 1)) \<le> sint v" "sint v < 2 ^ (8 * k v - 1)"
    using sigPos_bound [of 1 "sint v"] sigNeg_bound [of 1 "sint v"] b
    by (auto simp: k_def significantBytes_def Let_def intro: less_le_trans [of "sint v" 0] order.trans [of _ 0 "sint v"])
qed

lemma byte_sdrop: "k < 7 \<Longrightarrow> byte k (signed_drop_bit 8 (v :: 64 word)) = byte (Suc k) v"
  by (rule bit_word_eqI) (auto simp: byte_def bit_simps add.assoc)

lemma be_bytes_shift: "n \<le> 7 \<Longrightarrow> be_bytes (Suc n) (v :: 64 word) = be_bytes n (signed_drop_bit 8 v) @ [byte 0 v]"
  by (induction n) (simp_all add: byte_sdrop)

lemma putIntBytes_be: "n \<le> 8 \<Longrightarrow> putIntBytes n v = be_bytes n v"
proof (induction n arbitrary: v)
  case (Suc n)
  then show ?case using be_bytes_shift [of n v]
    by (simp del: be_bytes.simps(2)) (simp add: byte_def ucast_and_0xff)
qed simp

lemma decodeInt_be_val:
  "decodeInt (b # bs) = word_of_int (sint b * 256 ^ length bs + int (be_val bs))"
proof -
  have "foldl (\<lambda>v b. v * 256 + ucast b) x bs = (x * 256 ^ length bs + of_nat (be_val bs) :: i64)" for x
    by (induction bs arbitrary: x) (simp_all add: algebra_simps)
  then show ?thesis by (simp only: decodeInt_def list.sel scast_eq of_int_add of_int_mult of_int_power of_int_of_nat_eq of_int_numeral)
qed

lemma decodeInt_be_bytes:
  fixes v :: i64
  assumes "1 \<le> n" "n \<le> 8" "- (2 ^ (8 * n - 1)) \<le> sint v" "sint v < 2 ^ (8 * n - 1)"
  shows "decodeInt (be_bytes n v) = v"
proof -
  obtain m where n: "n = Suc m" using assms(1) by (cases n) auto
  let ?M = "256 ^ m :: int"
  have MM: "?M = 2 ^ (8 * m)" by (simp add: power_mult)
  have split: "2 ^ (8 * n - 1) = 128 * ?M" by (simp add: n MM power_add)
  let ?q = "sint v div ?M" and ?r = "sint v mod ?M"
  have qr: "sint v = ?q * ?M + ?r" "0 \<le> ?r" "?r < ?M" by (simp_all only: div_mult_mod_eq) simp_all
  have q: "-128 \<le> ?q" "?q < 128"
  proof -
    have "(-129) * ?M + ?M \<le> sint v" using assms(3) unfolding split by simp
    then have "(-129) * ?M < ?q * ?M" using qr by linarith
    then have "-129 < ?q" by (rule mult_less_cancel_right_pos [THEN iffD1, rotated]) simp
    then show "-128 \<le> ?q" by simp
    have "?q * ?M < 128 * ?M" using qr(1,2) assms(4) unfolding split by linarith
    then show "?q < 128" by (simp add: mult_less_cancel_right)
  qed
  have b: "byte m v = word_of_int ?q"
  proof (rule bit_word_eqI)
    fix k assume "k < LENGTH(8)"
    then have "8 * m + k < 64" using assms(2) n by simp
    then have last: "8 * m + k = 63" if "63 \<le> 8 * m + k" using that by linarith
    then show "bit (byte m v) k = bit (word_of_int ?q :: u8) k"
      using \<open>k < LENGTH(8)\<close> unfolding MM
      by (auto simp add: byte_def bit_simps drop_bit_eq_div [symmetric] min_def not_le dest: last)
  qed
  then have sb: "sint (byte m v) = ?q" using q by (simp add: int_word_sint)
  have "int (be_val (be_bytes m v)) = ?r"
  proof -
    have "int (unat v) mod ?M = uint v mod ?M" by simp
    also have "uint v = sint v mod 2 ^ 64" using uint_sint [of v] by (simp add: take_bit_eq_mod)
    also have "(sint v mod 2 ^ 64) mod ?M = sint v mod ?M"
      unfolding MM using assms(2) n by (intro mod_mod_cancel le_imp_power_dvd) simp
    finally show ?thesis by (simp add: be_val_be_bytes zmod_int)
  qed
  then have "decodeInt (be_bytes n v) = word_of_int (?q * ?M + ?r)"
    by (simp only: n be_bytes.simps decodeInt_be_val length_be_bytes sb)
  also have "\<dots> = v" by (simp flip: qr(1))
  finally show ?thesis .
qed

subsection \<open>A cell and what it is stored as\<close>

text \<open>
  The type code of a cell and the value its column decodes to: an integer as the 64-bit
  integer it was rounded to, a real without its approximation flag, text as text in the
  encoding of the database (a byte order mark is taken off).
\<close>

definition cell_type :: "nat \<Rightarrow> mem \<Rightarrow> nat" where
  "cell_type encoding c =
     (case c of
        MNull \<Rightarrow> 0
      | MInt num \<Rightarrow> significantBytes (fst (sqlite4_num_to_int64 num)) + 2
      | MReal p \<Rightarrow> (case realBytes p of Some z \<Rightarrow> length z + 9 | None \<Rightarrow> 0)
      | MStr z _ \<Rightarrow> 22 + 4 * textSize encoding z
      | MBlob z \<Rightarrow> 23 + 4 * length z)"

definition stored :: "nat \<Rightarrow> mem \<Rightarrow> mem" where
  "stored encoding c =
     (case c of
        MInt num \<Rightarrow> MInt (sqlite4_num_from_int64 (fst (sqlite4_num_to_int64 num)))
      | MReal p \<Rightarrow> MReal (p\<lparr>n_approx := 0\<rparr>)
      | MStr z _ \<Rightarrow> if z = [] then MStr [] SQLITE4_UTF8 else mem_of_str z encoding
      | _ \<Rightarrow> c)"

text \<open>What is read back under a length limit: NULL for text or a blob above it.\<close>

definition cell_length :: "mem \<Rightarrow> nat" where
  "cell_length c = (case c of MStr z _ \<Rightarrow> length z | MBlob z \<Rightarrow> length z | _ \<Rightarrow> 0)"

definition readback :: "nat \<Rightarrow> nat \<Rightarrow> mem \<Rightarrow> mem" where
  "readback iLimit encoding c = (if cell_length c \<le> iLimit then stored encoding c else MNull)"

lemma put_small: "x \<le> 240 \<Longrightarrow> sqlite4PutVarint64 x = [ucast x]"
  by (simp add: sqlite4PutVarint64_def)

lemma put_small_nat: "k \<le> 240 \<Longrightarrow> sqlite4PutVarint64 (of_nat k) = [of_nat k]"
  by (subst put_small) (simp_all add: word_le_nat_alt unat_of_nat unsigned_of_nat take_bit_nat_eq_self)

lemma realBytes_length: "realBytes p = Some z \<Longrightarrow> 2 \<le> length z \<and> length z \<le> 12"
proof -
  assume "realBytes p = Some z"
  moreover have "2 \<le> length (sqlite4PutVarint64 x @ sqlite4PutVarint64 y)" for x y
    using sqlite4Put_nonempty [of x] sqlite4Put_nonempty [of y]
    by (cases "sqlite4PutVarint64 x"; cases "sqlite4PutVarint64 y") auto
  ultimately show ?thesis
    unfolding realBytes_def Let_def by (auto split: if_splits simp del: length_append)
qed

lemma headerOf_type:
  assumes "headerOf encoding c = Some h" shows "h = sqlite4PutVarint64 (of_nat (cell_type encoding c))"
proof (cases c)
  case (MInt num)
  then show ?thesis
    using assms significantBytes_fits(2) [of "fst (sqlite4_num_to_int64 num)"]
      put_small_nat [of "significantBytes (fst (sqlite4_num_to_int64 num)) + 2"]
    by (simp add: headerOf_def cell_type_def)
next
  case (MReal p)
  then obtain z where z: "realBytes p = Some z" "h = [of_nat (length z + 9)]"
    using assms by (auto simp: headerOf_def)
  then show ?thesis using MReal realBytes_length [OF z(1)] put_small_nat [of "length z + 9"]
    by (simp add: cell_type_def)
qed (use assms put_small_nat [of 0] in \<open>auto simp: headerOf_def cell_type_def\<close>)

lemma length_encPrefix: "encoding \<in> {1, 2, 3} \<Longrightarrow> length (encPrefix encoding z @ z) = textSize encoding z"
  by (auto simp: encPrefix_def textSize_def)

lemma word_of_type:
  assumes "k < 2 ^ 31"
  shows "fieldSize (22 + 4 * of_nat k) = k" "fieldSize (23 + 4 * of_nat k) = k"
    "(22 + 4 * of_nat k - 22) mod 4 = (0 :: u64)" "(23 + 4 * of_nat k - 22) mod 4 = (1 :: u64)"
    "\<not> 22 + 4 * of_nat k \<le> (21 :: u64)" "\<not> 23 + 4 * of_nat k \<le> (21 :: u64)"
proof -
  have k4: "4 * k + 23 < 2 ^ 64" using assms by simp
  have un: "n < 2 ^ 64 \<Longrightarrow> unat (of_nat n :: u64) = n" for n by (simp add: unat_of_nat)
  have u: "unat (22 + 4 * of_nat k :: u64) = 22 + 4 * k" "unat (23 + 4 * of_nat k :: u64) = 23 + 4 * k"
    "unat (4 * of_nat k :: u64) = 4 * k" "unat (1 + 4 * of_nat k :: u64) = 1 + 4 * k"
    using k4 un [of "22 + 4 * k"] un [of "23 + 4 * k"] un [of "4 * k"] un [of "1 + 4 * k"] by simp_all
  have d: "23 + 4 * of_nat k - 22 = (1 + 4 * of_nat k :: u64)" "22 + 4 * of_nat k - 22 = (4 * of_nat k :: u64)" by simp_all
  show m: "(22 + 4 * of_nat k - 22) mod 4 = (0 :: u64)" "(23 + 4 * of_nat k - 22) mod 4 = (1 :: u64)"
    unfolding d by (simp_all add: word_unat_eq_iff unat_mod u)
  have q: "(4 * of_nat k :: u64) div 4 = of_nat k" "(1 + 4 * of_nat k :: u64) div 4 = of_nat k"
    using k4 by (simp_all add: word_unat_eq_iff unat_div u unat_of_nat)
  have c: "unat (ucast (of_nat k :: u64) :: u32) = k" using assms by (simp add: unsigned_ucast_eq unat_of_nat take_bit_eq_mod)
  show "fieldSize (22 + 4 * of_nat k) = k" "fieldSize (23 + 4 * of_nat k) = k"
    unfolding fieldSize_def m unfolding d q c using u by (simp_all add: word_le_nat_alt)
  show "\<not> 22 + 4 * of_nat k \<le> (21 :: u64)" "\<not> 23 + 4 * of_nat k \<le> (21 :: u64)"
    using u by (simp_all add: word_le_nat_alt)
qed

lemma take_mem: "memget (A @ z @ B) (length A) (length z) = Some z"
  by (simp add: memget_def)

lemma decodeText_stored:
  assumes "encoding \<in> {1, 2, 3}"
  shows "decodeText iLimit (A @ (encPrefix encoding z @ z) @ B) (length A) (textSize encoding z) MNull =
     Some (readback iLimit encoding (MStr z e))"
proof (cases "z = []")
  case True
  then show ?thesis
    by (simp add: decodeText_def textSize_def sqlite4VdbeMemSetStr_def mem_of_str_def readback_def cell_length_def stored_def
        memget_def)
next
  case False
  show ?thesis
  proof (cases "encPrefix encoding z = []")
    case True
    then have "encoding = 1" "\<not> z ! 0 <s 3" using False assms by (auto simp: encPrefix_def split: if_splits)
    moreover obtain b bs where z: "z = b # bs" using False by (cases z) auto
    moreover have "b > 2" if "\<not> b <s 3"
      using that uint_sint [of b] sint_less [of b]
      by (simp add: word_sless_alt word_less_def take_bit_eq_mod)
    ultimately have "b > 2" "textSize encoding z = length z" by (auto simp: textSize_def)
    then show ?thesis
      using True False \<open>encoding = 1\<close> take_mem [of A z B] z
      by (simp add: decodeText_def memget_def sqlite4VdbeMemSetStr_def readback_def cell_length_def stored_def)
  next
    case p: False
    then obtain p where e: "encPrefix encoding z = [p]" "unat p + 1 = encoding" "p \<le> 2" "textSize encoding z = length z + 1"
      using False assms by (auto simp: encPrefix_def textSize_def split: if_splits)
    have "memget (A @ (p # z) @ B) (length A + 1) (length z) = Some z"
      using take_mem [of "A @ [p]" z B] by simp
    then show ?thesis using e False leD [OF e(3)]
      by (simp add: decodeText_def memget_def sqlite4VdbeMemSetStr_def readback_def cell_length_def stored_def)
  qed
qed

lemma drop_append_len: "drop (length A) (A @ z) = z"
  by simp

lemma decodeReal_stored:
  assumes "realBytes p = Some z"
  shows "decodeReal (A @ z @ B) (length A) (length z) = Some (0, MReal (p\<lparr>n_approx := 0\<rparr>))"
proof -
  let ?x = "sint (n_e p)" and ?s = "int (unat (n_sign p))"
  define b where "b = (if ?x < 0 then 1 else 0 :: int)"
  define E where "E = 4 * \<bar>?x\<bar> + 2 * b + ?s"
  have s: "n_sign p = 0 \<or> n_sign p = 1"
    and z: "z = sqlite4PutVarint64 (word_of_int E) @ sqlite4PutVarint64 (n_m p)"
    using assms by (auto simp: realBytes_def Let_def E_def b_def ac_simps split: if_splits)
  have s': "?s = 0 \<or> ?s = 1" using s by auto
  have r: "\<bar>?x\<bar> \<le> 2 ^ 15" using sint_greater_eq [of "n_e p"] sint_less [of "n_e p"] by auto
  have E: "0 \<le> E" "E < 2 ^ 31" using r s' by (auto simp: E_def b_def)
  let ?e = "length (sqlite4PutVarint64 (word_of_int E))" and ?m = "length (sqlite4PutVarint64 (n_m p))"
  have g1: "sqlite4GetVarint64 (drop (length A) (A @ z @ B)) = Some (?e, word_of_int E)"
    by (simp add: z sqlite4_roundtrip)
  have "drop (length A + ?e) (A @ z @ B) = sqlite4PutVarint64 (n_m p) @ B" by (simp add: z)
  then have g2: "sqlite4GetVarint64 (drop (length A + ?e) (A @ z @ B)) = Some (?m, n_m p)"
    by (simp only: sqlite4_roundtrip)
  have e: "to_i32 (word_of_int E) = E"
    using E by (simp add: to_i32_def unsigned_of_int take_bit_int_eq_self sint_word_ariths int_word_sint)
  have q: "E div 4 = \<bar>?x\<bar>" and h: "E div 2 = 2 * \<bar>?x\<bar> + b" and b0: "bit E 0 \<longleftrightarrow> n_sign p = 1"
    using s s' by (auto simp: E_def b_def bit_0)
  have b1: "bit E 1 \<longleftrightarrow> ?x < 0" by (simp add: bit_iff_odd h) (simp add: b_def)
  have "(if bit E 1 then - word_of_int (E div 4) else word_of_int (E div 4)) = n_e p"
    unfolding q b1 by (simp add: abs_if) 
  moreover have "(if bit E 0 then 1 else 0) = n_sign p" using s b0 by auto
  ultimately have "Some (0, MReal \<lparr>n_sign = (if bit E 0 then 1 else 0), n_approx = 0,
      n_e = (if bit E 1 then - word_of_int (E div 4) else word_of_int (E div 4)), n_m = n_m p\<rparr>) =
      Some (0, MReal (p\<lparr>n_approx := 0\<rparr>))"
    by (simp only:) (cases p, simp)
  moreover have "?e + ?m = length z" by (simp add: z)
  ultimately show ?thesis
    by (simp only: decodeReal_def g1 g2 e option.case prod.case Let_def refl not_True_eq_False if_False)
qed

lemma small_type:
  assumes "k \<le> 21"
  shows "fieldSize (of_nat k) = (if k \<le> 2 then 0 else if k \<le> 10 then k - 2 else k - 9)"
    "\<not> 22 \<le> (of_nat k :: u64)" "(of_nat k :: u64) \<le> 21"
    "(of_nat k :: u64) \<le> 10 \<longleftrightarrow> k \<le> 10" "(of_nat k :: u64) \<le> 2 \<longleftrightarrow> k \<le> 2" "(of_nat k :: u64) = 0 \<longleftrightarrow> k = 0"
proof -
  have un: "n < 2 ^ 64 \<Longrightarrow> unat (of_nat n :: u64) = n" for n by (simp add: unat_of_nat)
  have "k < 2 ^ 64" using assms by simp
  note u = un [OF this]
  show "\<not> 22 \<le> (of_nat k :: u64)" "(of_nat k :: u64) \<le> 21"
    "(of_nat k :: u64) \<le> 10 \<longleftrightarrow> k \<le> 10" "(of_nat k :: u64) \<le> 2 \<longleftrightarrow> k \<le> 2" "(of_nat k :: u64) = 0 \<longleftrightarrow> k = 0"
    using assms u by (auto simp: word_le_nat_alt word_unat_eq_iff)
  then show "fieldSize (of_nat k) = (if k \<le> 2 then 0 else if k \<le> 10 then k - 2 else k - 9)"
    using u by (auto simp: fieldSize_def unat_sub word_le_nat_alt)
qed

lemma not_small: "\<not> x \<le> (21 :: u64) \<Longrightarrow> \<not> x \<le> 21 \<and> \<not> x \<le> 10 \<and> \<not> x \<le> 2 \<and> x \<noteq> 0"
  by (auto simp: word_le_nat_alt)

lemma decodeContent_stored:
  assumes "payloadOf encoding c = Some z" "encoding \<in> {1, 2, 3}" "length z < 2 ^ 31" "unat ofst = length A"
  shows "fieldSize (of_nat (cell_type encoding c)) = length z"
    "decodeContent iLimit (A @ z @ B) aKey ofst (length z) (of_nat (cell_type encoding c)) = Some (0, readback iLimit encoding c)"
    "\<not> (22 \<le> (of_nat (cell_type encoding c) :: u64) \<and> (of_nat (cell_type encoding c) - 22) mod 4 = (3 :: u64))"
proof -
  have "fieldSize (of_nat (cell_type encoding c)) = length z \<and>
    decodeContent iLimit (A @ z @ B) aKey ofst (length z) (of_nat (cell_type encoding c)) = Some (0, readback iLimit encoding c) \<and>
    \<not> (22 \<le> (of_nat (cell_type encoding c) :: u64) \<and> (of_nat (cell_type encoding c) - 22) mod 4 = (3 :: u64))"
  proof (cases c)
    case MNull
    then show ?thesis using assms(1)
      by (auto simp: payloadOf_def cell_type_def readback_def cell_length_def stored_def decodeContent_def fieldSize_def)
  next
    case (MInt num)
    let ?v = "fst (sqlite4_num_to_int64 num)"
    let ?k = "significantBytes ?v"
    note f = significantBytes_fits [of ?v]
    have z: "z = be_bytes ?k ?v" "length z = ?k" using assms(1) f(2) MInt by (auto simp: payloadOf_def Let_def putIntBytes_be)
    have "memget (A @ z @ B) (length A) ?k = Some z" using take_mem [of A z B] z(2) by simp
    moreover have "decodeInt z = ?v" unfolding z(1) by (rule decodeInt_be_bytes [OF f])
    ultimately show ?thesis
      using small_type [of "?k + 2"] f(1,2) z(2) MInt assms(4)
      by (simp add: cell_type_def readback_def cell_length_def stored_def decodeContent_def)
  next
    case (MReal p)
    then have r: "realBytes p = Some z" using assms(1) by (simp add: payloadOf_def)
    then show ?thesis
      using small_type [of "length z + 9"] realBytes_length [OF r] MReal assms(4) decodeReal_stored [OF r]
      by (simp add: cell_type_def readback_def cell_length_def stored_def decodeContent_def)
  next
    case (MStr t e)
    then have z: "z = encPrefix encoding t @ t" "length z = textSize encoding t"
      using assms(1) length_encPrefix [OF assms(2)] by (auto simp: payloadOf_def)
    define T where "T = (22 + 4 * of_nat (length z) :: u64)"
    note w = word_of_type(1,3) [OF assms(3), folded T_def] and n = not_small [OF word_of_type(5) [OF assms(3), folded T_def]]
    have T: "of_nat (cell_type encoding c) = T" using MStr z by (simp add: T_def cell_type_def)
    show ?thesis
      unfolding T using w n MStr assms(3,4) z decodeText_stored [OF assms(2), of iLimit A t B e]
      by (simp add: cell_type_def decodeContent_def)
  next
    case (MBlob t)
    then have z: "z = t" using assms(1) by (simp add: payloadOf_def)
    define T where "T = (23 + 4 * of_nat (length z) :: u64)"
    note w = word_of_type(2,4) [OF assms(3), folded T_def] and n = not_small [OF word_of_type(6) [OF assms(3), folded T_def]]
    have T: "of_nat (cell_type encoding c) = T" using MBlob z by (simp add: T_def cell_type_def)
    show ?thesis
      unfolding T using w n MBlob assms(3,4) z take_mem [of A z B]
      by (simp add: cell_type_def readback_def cell_length_def stored_def decodeContent_def decodeBlob_def
          sqlite4VdbeMemSetStr_def mem_of_str_def)
  qed
  then show "fieldSize (of_nat (cell_type encoding c)) = length z"
    "decodeContent iLimit (A @ z @ B) aKey ofst (length z) (of_nat (cell_type encoding c)) = Some (0, readback iLimit encoding c)"
    "\<not> (22 \<le> (of_nat (cell_type encoding c) :: u64) \<and> (of_nat (cell_type encoding c) - 22) mod 4 = (3 :: u64))"
    by blast+
qed

declare decodeColumns.simps [simp del]

lemma decodeColumns_stored:
  assumes "those (map (headerOf encoding) cs) = Some hs" "those (map (payloadOf encoding) cs) = Some ps"
    and "encoding \<in> {1, 2, 3}" "length (A @ concat hs @ B @ concat ps) < 2 ^ 31"
    and "endHdr = int (length A + length (concat hs))" "unat ofst = length A + length (concat hs) + length B"
  shows "decodeColumns iLimit (A @ concat hs @ B @ concat ps) aKey d endHdr (length A) ofst k =
    Some (0, if k < length cs then readback iLimit encoding (cs ! k) else case d of Some m \<Rightarrow> m | None \<Rightarrow> MNull)"
  using assms
proof (induction cs arbitrary: A B k ofst hs ps)
  case Nil
  then show ?case by (simp add: decodeColumns.simps)
next
  case (Cons c cs)
  from Cons.prems(1) obtain h hs' where h: "headerOf encoding c = Some h" "those (map (headerOf encoding) cs) = Some hs'"
    "hs = h # hs'" by (auto split: option.splits)
  from Cons.prems(2) obtain z ps' where z: "payloadOf encoding c = Some z" "those (map (payloadOf encoding) cs) = Some ps'"
    "ps = z # ps'" by (auto split: option.splits)
  let ?a = "A @ concat hs @ B @ concat ps" and ?T = "of_nat (cell_type encoding c) :: u64"
  have hT: "h = sqlite4PutVarint64 ?T" by (rule headerOf_type [OF h(1)])
  then have hne: "h \<noteq> []" using sqlite4Put_nonempty by simp
  have g: "sqlite4GetVarint64 (drop (length A) ?a) = Some (length h, ?T)"
    by (simp add: h(3) hT sqlite4_roundtrip)
  have lz: "length z < 2 ^ 31" using Cons.prems(4) z(3) by simp
  have un: "unat ofst = length (A @ concat hs @ B)" using Cons.prems(6) by simp
  note d = decodeContent_stored(1,3) [OF z(1) Cons.prems(3) lz un]
  have dc: "decodeContent iLimit ?a aKey ofst (length z) ?T = Some (0, readback iLimit encoding c)"
    using decodeContent_stored(2) [OF z(1) Cons.prems(3) lz un, where B = "concat ps'" and aKey = aKey and iLimit = iLimit] z(3) by simp
  have lt: "int (length A) < endHdr" using Cons.prems(5) h(3) hne by (cases h) simp_all
  show ?case
  proof (cases k)
    case 0
    then show ?thesis
      using d dc lt g by (subst decodeColumns.simps) (auto simp: Let_def)
  next
    case (Suc j)
    have ofs: "unat (ofst + of_nat (length z)) = length (A @ h) + length (concat hs') + length (B @ z)"
    proof -
      have "unat ofst + length z < 2 ^ 64" using Cons.prems(4) un z(3) by simp
      then show ?thesis using un h(3) by (subst unat_word_ariths) (simp add: unat_of_nat)
    qed
    have "decodeColumns iLimit ((A @ h) @ concat hs' @ (B @ z) @ concat ps') aKey d endHdr (length (A @ h))
        (ofst + of_nat (length z)) j =
      Some (0, if j < length cs then readback iLimit encoding (cs ! j) else case d of Some m \<Rightarrow> m | None \<Rightarrow> MNull)"
      using Cons.prems h z ofs by (intro Cons.IH) auto
    then show ?thesis
      using d lt g Suc by (subst decodeColumns.simps) (auto simp: Let_def z(3) h(3))
  qed
qed

lemma getColumn_stored:
  assumes "sqlite4VdbeEncodeData encoding cs = Some r" "encoding \<in> {1, 2, 3}" "length r < 2 ^ 31" "k \<le> mxCol"
  shows "sqlite4VdbeDecoderGetColumn iLimit mxCol (Some r) aKey d k =
    Some (0, if k < length cs then readback iLimit encoding (cs ! k) else case d of Some m \<Rightarrow> m | None \<Rightarrow> MNull)"
proof -
  obtain hs ps where hp: "those (map (headerOf encoding) cs) = Some hs" "those (map (payloadOf encoding) cs) = Some ps"
    and r: "r = sqlite4PutVarint64 (of_nat (length (concat hs))) @ concat hs @ concat ps"
    using assms(1) by (auto simp: sqlite4VdbeEncodeData_def Let_def bind_eq_Some_conv)
  let ?H = "length (concat hs)" let ?V = "sqlite4PutVarint64 (of_nat ?H :: u64)"
  have small: "length ?V + ?H < 2 ^ 31" using assms(3) r by simp
  have g: "sqlite4GetVarint64 r = Some (length ?V, of_nat ?H)" unfolding r by (rule sqlite4_roundtrip)
  have o1: "of_nat ?H + of_nat (length ?V) = (of_nat (length ?V + ?H) :: u64)" by simp
  have u: "unat (of_nat (length ?V + ?H) :: u64) = length ?V + ?H"
    using small by (subst unat_of_nat) simp
  have i: "to_i32 (of_nat (length ?V + ?H)) = int (length ?V + ?H)"
    using small unfolding to_i32_def
    by (simp add: unsigned_of_nat take_bit_nat_eq_self signed_of_nat signed_take_bit_eq_if_positive
        del: of_nat_add) (simp add: take_bit_int_eq_self signed_take_bit_int_eq_self)
  have "sqlite4VdbeDecoderGetColumn iLimit mxCol (Some r) aKey d k =
      decodeColumns iLimit r aKey d (int (length ?V + ?H)) (length ?V) (of_nat (length ?V + ?H)) k"
    unfolding sqlite4VdbeDecoderGetColumn_def option.case g prod.case Let_def o1 i using r assms(4) by simp
  also have "\<dots> = Some (0, if k < length cs then readback iLimit encoding (cs ! k) else case d of Some m \<Rightarrow> m | None \<Rightarrow> MNull)"
    using decodeColumns_stored [OF hp assms(2), of ?V "[]" _ "of_nat (length ?V + ?H)" iLimit aKey d k] u assms(3) r
    by simp
  finally show ?thesis .
qed

subsection \<open>Properties\<close>

text \<open>
  C20. A record gives back its columns: column \<open>k\<close> of an encoded row decodes to the value it was
  stored as (integers as 64-bit integers, reals exactly, text and blobs byte for byte), a
  column the record does not have is the default, and the key is not looked at. The exception is
  text or a blob longer than the length limit of the connection that reads it: without an error it
  reads as NULL.
\<close>

theorem record_roundtrip:
  assumes "sqlite4VdbeEncodeData encoding cs = Some r" "encoding \<in> {1, 2, 3}" "length r < 2 ^ 31" "k \<le> mxCol"
  shows "sqlite4VdbeDecoderGetColumn iLimit mxCol (Some r) aKey pDefault k =
    Some (0, if k < length cs then (if cell_length (cs ! k) \<le> iLimit then stored encoding (cs ! k) else MNull)
             else case pDefault of Some m \<Rightarrow> m | None \<Rightarrow> MNull)"
  using getColumn_stored [OF assms] by (simp add: readback_def)

definition ex_row :: "mem list" where
  "ex_row = [MInt \<lparr>n_sign = 1, n_approx = 0, n_e = 2, n_m = 3\<rparr>, MNull,
     MReal \<lparr>n_sign = 1, n_approx = 1, n_e = -3, n_m = 77\<rparr>, MStr [200, 1] 1, MBlob [1, 2, 3]]"

lemma record_roundtrip_witness:
  "\<exists>r. sqlite4VdbeEncodeData 1 ex_row = Some r \<and>
     sqlite4VdbeDecoderGetColumn 1000000000 6 (Some r) [] None 0 =
       Some (0, MInt \<lparr>n_sign = 1, n_approx = 0, n_e = 0, n_m = 300\<rparr>) \<and>
     sqlite4VdbeDecoderGetColumn 2 6 (Some r) [] None 4 = Some (0, MNull) \<and>
     sqlite4VdbeDecoderGetColumn 1000000000 6 (Some r) [] (Some (MBlob [9])) 5 = Some (0, MBlob [9])"
proof -
  have e: "sqlite4VdbeEncodeData 1 ex_row =
      Some [5, 4, 0, 11, 34, 35, 254, 212, 15, 77, 0, 200, 1, 1, 2, 3]"
    by code_simp
  have "stored 1 (ex_row ! 0) = MInt \<lparr>n_sign = 1, n_approx = 0, n_e = 0, n_m = 300\<rparr>" "length ex_row = 5"
    "cell_length (ex_row ! 0) = 0" "\<not> cell_length (ex_row ! 4) \<le> 2"
    by code_simp+
  then show ?thesis
    using record_roundtrip [OF e, of 0 6 1000000000 "[]" None] record_roundtrip [OF e, of 4 6 2 "[]" None]
      record_roundtrip [OF e, of 5 6 1000000000 "[]" "Some (MBlob [9])"] e by simp
qed

end
