(* ===== verification/KvStore.thy ===== *)
theory KvStore
  imports Prelude
begin

unbundle bit_operations_syntax

text \<open>
  The key-value store interface of \<open>kv.c\<close>: the table of methods a storage engine provides
  (\<open>KVStoreMethods\<close>), the wrappers through which the rest of the program calls them, and the
  contract those callers rely on, as a locale over the ordered contents of a store. The
  tracing of the wrappers is left out, and allocation is taken to succeed. A failed
  \<open>assert\<close> is \<open>None\<close>.
\<close>

subsection \<open>Return codes\<close>

abbreviation (input) SQLITE4_OK :: int where "SQLITE4_OK \<equiv> 0"
abbreviation (input) SQLITE4_ERROR :: int where "SQLITE4_ERROR \<equiv> 1"
abbreviation (input) SQLITE4_NOMEM :: int where "SQLITE4_NOMEM \<equiv> 7"
abbreviation (input) SQLITE4_CORRUPT :: int where "SQLITE4_CORRUPT \<equiv> 11"
abbreviation (input) SQLITE4_NOTFOUND :: int where "SQLITE4_NOTFOUND \<equiv> 12"
abbreviation (input) SQLITE4_DONE :: int where "SQLITE4_DONE \<equiv> 101"
abbreviation (input) SQLITE4_INEXACT :: int where "SQLITE4_INEXACT \<equiv> 102"

subsection \<open>Methods and wrappers\<close>

text \<open>
  A store is a value of type \<open>'s\<close>, a cursor a value of type \<open>'c\<close>; a cursor method takes
  the store it was opened on. \<open>None\<close> as a result is undefined behaviour (a cursor left on
  freed memory, say). The two methods that may be null pointers are options, and
  \<open>kv_iTransLevel\<close> reads the field of the base class.
\<close>

record ('s, 'c) KVStoreMethods =
  xReplace :: "'s \<Rightarrow> bytes \<Rightarrow> bytes \<Rightarrow> (int \<times> 's) option"
  xOpenCursor :: "'s \<Rightarrow> int \<times> 's \<times> 'c"
  xSeek :: "'s \<Rightarrow> 'c \<Rightarrow> bytes \<Rightarrow> int \<Rightarrow> (int \<times> 'c) option"
  xNext :: "'s \<Rightarrow> 'c \<Rightarrow> (int \<times> 'c) option"
  xPrev :: "'s \<Rightarrow> 'c \<Rightarrow> (int \<times> 'c) option"
  xDelete :: "'s \<Rightarrow> 'c \<Rightarrow> (int \<times> 's \<times> 'c) option"
  xKey :: "'s \<Rightarrow> 'c \<Rightarrow> int \<times> bytes"
  xData :: "'s \<Rightarrow> 'c \<Rightarrow> int \<times> bytes"
  xReset :: "'s \<Rightarrow> 'c \<Rightarrow> int \<times> 'c"
  xCloseCursor :: "'s \<Rightarrow> 'c \<Rightarrow> int \<times> 's"
  xBegin :: "'s \<Rightarrow> nat \<Rightarrow> (int \<times> 's) option"
  xCommitPhaseOne :: "('s \<Rightarrow> nat \<Rightarrow> (int \<times> 's) option) option"
  xCommitPhaseTwo :: "'s \<Rightarrow> nat \<Rightarrow> (int \<times> 's) option"
  xRollback :: "'s \<Rightarrow> nat \<Rightarrow> (int \<times> 's) option"
  xRevert :: "('s \<Rightarrow> nat \<Rightarrow> (int \<times> 's) option) option"
  xGetMeta :: "'s \<Rightarrow> int \<times> u32"
  xPutMeta :: "'s \<Rightarrow> u32 \<Rightarrow> int \<times> 's"
  kv_iTransLevel :: "'s \<Rightarrow> nat"

definition sqlite4KVStoreReplace ::
  "('s, 'c) KVStoreMethods \<Rightarrow> 's \<Rightarrow> bytes \<Rightarrow> bytes \<Rightarrow> (int \<times> 's) option" where
  "sqlite4KVStoreReplace m p pKey pData = xReplace m p pKey pData"

definition sqlite4KVStoreOpenCursor :: "('s, 'c) KVStoreMethods \<Rightarrow> 's \<Rightarrow> int \<times> 's \<times> 'c" where
  "sqlite4KVStoreOpenCursor m p = xOpenCursor m p"

definition sqlite4KVCursorSeek ::
  "('s, 'c) KVStoreMethods \<Rightarrow> 's \<Rightarrow> 'c \<Rightarrow> bytes \<Rightarrow> int \<Rightarrow> (int \<times> 'c) option" where
  "sqlite4KVCursorSeek m p c pKey dir =
     (if dir = 0 \<or> dir = 1 \<or> dir = -1 \<or> dir = -2 then xSeek m p c pKey dir else None)"

definition sqlite4KVCursorNext :: "('s, 'c) KVStoreMethods \<Rightarrow> 's \<Rightarrow> 'c \<Rightarrow> (int \<times> 'c) option" where
  "sqlite4KVCursorNext m p c = xNext m p c"

definition sqlite4KVCursorPrev :: "('s, 'c) KVStoreMethods \<Rightarrow> 's \<Rightarrow> 'c \<Rightarrow> (int \<times> 'c) option" where
  "sqlite4KVCursorPrev m p c = xPrev m p c"

definition sqlite4KVCursorDelete :: "('s, 'c) KVStoreMethods \<Rightarrow> 's \<Rightarrow> 'c \<Rightarrow> (int \<times> 's \<times> 'c) option" where
  "sqlite4KVCursorDelete m p c = xDelete m p c"

definition sqlite4KVCursorReset :: "('s, 'c) KVStoreMethods \<Rightarrow> 's \<Rightarrow> 'c \<Rightarrow> int \<times> 'c" where
  "sqlite4KVCursorReset m p c = xReset m p c"

definition sqlite4KVCursorKey :: "('s, 'c) KVStoreMethods \<Rightarrow> 's \<Rightarrow> 'c \<Rightarrow> int \<times> bytes" where
  "sqlite4KVCursorKey m p c = xKey m p c"

definition sqlite4KVCursorData :: "('s, 'c) KVStoreMethods \<Rightarrow> 's \<Rightarrow> 'c \<Rightarrow> int \<times> bytes" where
  "sqlite4KVCursorData m p c = xData m p c"

definition sqlite4KVCursorClose :: "('s, 'c) KVStoreMethods \<Rightarrow> 's \<Rightarrow> 'c option \<Rightarrow> int \<times> 's" where
  "sqlite4KVCursorClose m p c = (case c of None \<Rightarrow> (SQLITE4_OK, p) | Some c \<Rightarrow> xCloseCursor m p c)"

text \<open>The assertion at the end of a routine that moves to a transaction level.\<close>

definition at_level :: "('s, 'c) KVStoreMethods \<Rightarrow> nat \<Rightarrow> int \<times> 's \<Rightarrow> (int \<times> 's) option" where
  "at_level m iLevel r = (if kv_iTransLevel m (snd r) = iLevel \<or> fst r \<noteq> SQLITE4_OK then Some r else None)"

definition sqlite4KVStoreBegin :: "('s, 'c) KVStoreMethods \<Rightarrow> 's \<Rightarrow> nat \<Rightarrow> (int \<times> 's) option" where
  "sqlite4KVStoreBegin m p iLevel = do { r \<leftarrow> xBegin m p iLevel; at_level m iLevel r }"

definition sqlite4KVStoreCommitPhaseOne ::
  "('s, 'c) KVStoreMethods \<Rightarrow> 's \<Rightarrow> nat \<Rightarrow> (int \<times> 's) option" where
  "sqlite4KVStoreCommitPhaseOne m p iLevel =
     (if \<not> iLevel \<le> kv_iTransLevel m p then None
      else if kv_iTransLevel m p = iLevel then Some (SQLITE4_OK, p)
      else do { (rc, p) \<leftarrow> (case xCommitPhaseOne m of Some f \<Rightarrow> f p iLevel | None \<Rightarrow> Some (SQLITE4_OK, p));
                if kv_iTransLevel m p > iLevel then Some (rc, p) else None })"

definition sqlite4KVStoreCommitPhaseTwo ::
  "('s, 'c) KVStoreMethods \<Rightarrow> 's \<Rightarrow> nat \<Rightarrow> (int \<times> 's) option" where
  "sqlite4KVStoreCommitPhaseTwo m p iLevel =
     (if \<not> iLevel \<le> kv_iTransLevel m p then None
      else if kv_iTransLevel m p = iLevel then Some (SQLITE4_OK, p)
      else do { r \<leftarrow> xCommitPhaseTwo m p iLevel; at_level m iLevel r })"

definition sqlite4KVStoreCommit :: "('s, 'c) KVStoreMethods \<Rightarrow> 's \<Rightarrow> nat \<Rightarrow> (int \<times> 's) option" where
  "sqlite4KVStoreCommit m p iLevel =
     do { (rc, p) \<leftarrow> sqlite4KVStoreCommitPhaseOne m p iLevel;
          if rc = SQLITE4_OK then sqlite4KVStoreCommitPhaseTwo m p iLevel else Some (rc, p) }"

definition sqlite4KVStoreRollback :: "('s, 'c) KVStoreMethods \<Rightarrow> 's \<Rightarrow> nat \<Rightarrow> (int \<times> 's) option" where
  "sqlite4KVStoreRollback m p iLevel =
     (if \<not> iLevel \<le> kv_iTransLevel m p then None
      else do { r \<leftarrow> xRollback m p iLevel; at_level m iLevel r })"

definition sqlite4KVStoreRevert :: "('s, 'c) KVStoreMethods \<Rightarrow> 's \<Rightarrow> nat \<Rightarrow> (int \<times> 's) option" where
  "sqlite4KVStoreRevert m p iLevel =
     (if \<not> (0 < iLevel \<and> iLevel \<le> kv_iTransLevel m p) then None
      else do {
        r \<leftarrow> (case xRevert m of
                 Some f \<Rightarrow> f p iLevel
               | None \<Rightarrow>
                   do { (rc, p) \<leftarrow> sqlite4KVStoreRollback m p (iLevel - 1);
                        if rc = SQLITE4_OK then sqlite4KVStoreBegin m p iLevel else Some (rc, p) });
        at_level m iLevel r })"

definition sqlite4KVStorePutSchema :: "('s, 'c) KVStoreMethods \<Rightarrow> 's \<Rightarrow> u32 \<Rightarrow> int \<times> 's" where
  "sqlite4KVStorePutSchema m p iVal = xPutMeta m p iVal"

definition sqlite4KVStoreGetSchema :: "('s, 'c) KVStoreMethods \<Rightarrow> 's \<Rightarrow> int \<times> u32" where
  "sqlite4KVStoreGetSchema m p = xGetMeta m p"

subsection \<open>The meta-data array\<close>

definition metadataKey :: bytes where "metadataKey = [0x00, 0x00]"

definition writeMetaArray :: "bytes \<Rightarrow> nat \<Rightarrow> u32 \<Rightarrow> bytes option" where
  "writeMetaArray aMeta iElem iVal =
     memput aMeta (4 * iElem)
       [ucast (drop_bit 24 iVal AND 0xff), ucast (drop_bit 16 iVal AND 0xff),
        ucast (drop_bit 8 iVal AND 0xff), ucast (drop_bit 0 iVal AND 0xff)]"

text \<open>The two loops that fill \<open>a[0..nMeta-1]\<close>: big-endian words while there are bytes, then zeroes.\<close>

fun readMetaArray :: "bytes \<Rightarrow> nat \<Rightarrow> nat \<Rightarrow> u32 list" where
  "readMetaArray aData j 0 = []"
| "readMetaArray aData j (Suc n) =
     (if j + 3 < length aData
      then (push_bit 24 (ucast (aData ! j)) OR push_bit 16 (ucast (aData ! (j + 1)))
            OR push_bit 8 (ucast (aData ! (j + 2))) OR ucast (aData ! (j + 3)))
           # readMetaArray aData (j + 4) n
      else replicate (Suc n) 0)"

definition sqlite4KVStoreGetMeta ::
  "('s, 'c) KVStoreMethods \<Rightarrow> 's \<Rightarrow> nat \<Rightarrow> nat \<Rightarrow> (int \<times> u32 list option \<times> 's) option" where
  "sqlite4KVStoreGetMeta m p iStart nMeta =
     (let (rc, p, pCur) = sqlite4KVStoreOpenCursor m p in
      if rc \<noteq> SQLITE4_OK then Some (rc, None, p)
      else do {
        (rc, pCur) \<leftarrow> sqlite4KVCursorSeek m p pCur metadataKey 0;
        let (rc, aData) = (if rc = SQLITE4_NOTFOUND then (SQLITE4_OK, [])
                           else if rc = SQLITE4_OK then sqlite4KVCursorData m p pCur
                           else (rc, []));
            a = (if rc = SQLITE4_OK then Some (readMetaArray aData (iStart * 4) nMeta) else None);
            (_, p) = sqlite4KVCursorClose m p (Some pCur) in
        Some (rc, a, p) })"

text \<open>The loop of \<open>PutMeta\<close> over \<open>i\<close>; the caller's array is read at \<open>i\<close>, not at \<open>i - iStart\<close>.\<close>

fun writeMetas :: "bytes \<Rightarrow> u32 list \<Rightarrow> nat list \<Rightarrow> bytes option" where
  "writeMetas aNew a [] = Some aNew"
| "writeMetas aNew a (i # is) =
     (if i < length a
      then do { aNew \<leftarrow> writeMetaArray aNew i (a ! i); writeMetas aNew a is }
      else None)"

definition sqlite4KVStorePutMeta ::
  "('s, 'c) KVStoreMethods \<Rightarrow> (nat \<Rightarrow> u8) \<Rightarrow> 's \<Rightarrow> nat \<Rightarrow> nat \<Rightarrow> u32 list \<Rightarrow> (int \<times> 's) option" where
  "sqlite4KVStorePutMeta m junk p iStart nMeta a =
     (let (rc, p, pCur) = sqlite4KVStoreOpenCursor m p in
      if rc \<noteq> SQLITE4_OK then Some (rc, p)
      else do {
        (rc, pCur) \<leftarrow> sqlite4KVCursorSeek m p pCur metadataKey 0;
        let (rc, aData) = (if rc = SQLITE4_OK then sqlite4KVCursorData m p pCur
                           else if rc = SQLITE4_NOTFOUND then (SQLITE4_OK, []) else (rc, []));
        (rc, p) \<leftarrow>
          (if rc = SQLITE4_OK then
             do { let nNew = max (4 * (iStart + nMeta)) (length aData);
                  aNew \<leftarrow> memput (map junk [0..<nNew]) 0 aData;
                  aNew \<leftarrow> writeMetas aNew a [iStart..<iStart + nMeta];
                  sqlite4KVStoreReplace m p metadataKey aNew }
           else Some (rc, p));
        let (_, p) = sqlite4KVCursorClose m p (Some pCur);
        Some (rc, p) })"

subsection \<open>The contract of a store\<close>

text \<open>
  What callers see of a store is its contents, an association list in strictly increasing
  \<open>memcmp\<close> order of the keys.
\<close>

definition sorted_keys :: "(bytes \<times> 'v) list \<Rightarrow> bool" where
  "sorted_keys kvs \<longleftrightarrow> sorted_wrt (<) (map fst kvs)"

fun kv_put :: "bytes \<Rightarrow> 'v \<Rightarrow> (bytes \<times> 'v) list \<Rightarrow> (bytes \<times> 'v) list" where
  "kv_put k v [] = [(k, v)]"
| "kv_put k v ((k', v') # kvs) =
     (if k < k' then (k, v) # (k', v') # kvs
      else if k = k' then (k, v) # kvs
      else (k', v') # kv_put k v kvs)"

definition kv_del :: "bytes \<Rightarrow> (bytes \<times> 'v) list \<Rightarrow> (bytes \<times> 'v) list" where
  "kv_del k kvs = filter (\<lambda>(k', _). k' \<noteq> k) kvs"

text \<open>The first entry at or after a key, the last one at or before it.\<close>

definition kv_ceil :: "bytes \<Rightarrow> (bytes \<times> 'v) list \<Rightarrow> (bytes \<times> 'v) option" where
  "kv_ceil k kvs = List.find (\<lambda>(k', _). k \<le> k') kvs"

definition kv_floor :: "bytes \<Rightarrow> (bytes \<times> 'v) list \<Rightarrow> (bytes \<times> 'v) option" where
  "kv_floor k kvs = List.find (\<lambda>(k', _). k' \<le> k) (rev kvs)"

lemma sorted_keys_Nil [simp]: "sorted_keys []"
  by (simp add: sorted_keys_def)

lemma sorted_keys_Cons: "sorted_keys (x # kvs) \<longleftrightarrow> (\<forall>y \<in> set kvs. fst x < fst y) \<and> sorted_keys kvs"
  by (simp add: sorted_keys_def)

lemma sorted_keys_append:
  "sorted_keys (xs @ ys) \<longleftrightarrow> sorted_keys xs \<and> sorted_keys ys \<and> (\<forall>x \<in> set xs. \<forall>y \<in> set ys. fst x < fst y)"
  by (simp add: sorted_keys_def sorted_wrt_append)

lemma kv_put_keys: "fst ` set (kv_put k v kvs) = insert k (fst ` set kvs)"
  by (induction k v kvs rule: kv_put.induct) (simp_all add: insert_commute)

lemma map_of_kv_put [simp]: "sorted_keys kvs \<Longrightarrow> map_of (kv_put k v kvs) k' = ((map_of kvs)(k \<mapsto> v)) k'"
  by (induction kvs) (auto simp: sorted_keys_Cons)

lemma sorted_kv_put [simp]: "sorted_keys kvs \<Longrightarrow> sorted_keys (kv_put k v kvs)"
proof (induction kvs)
  case (Cons x kvs)
  have "\<forall>y \<in> set (kv_put k v kvs). fst x < fst y" if "fst x < k"
    using kv_put_keys [of k v kvs] Cons.prems that by (force simp: sorted_keys_Cons)
  with Cons show ?case by (cases x) (auto simp: sorted_keys_Cons intro: less_trans)
qed (simp add: sorted_keys_Cons)

lemma map_of_kv_del [simp]: "map_of (kv_del k kvs) k' = (if k' = k then None else map_of kvs k')"
  by (induction kvs) (auto simp: kv_del_def)

lemma sorted_kv_del [simp]: "sorted_keys kvs \<Longrightarrow> sorted_keys (kv_del k kvs)"
  by (induction kvs) (auto simp: kv_del_def sorted_keys_Cons)

lemma kv_ceil_Some:
  assumes "sorted_keys kvs" "kv_ceil k kvs = Some (k', v)"
  shows "k \<le> k' \<and> map_of kvs k' = Some v \<and> (\<forall>k'' \<in> fst ` set kvs. k \<le> k'' \<longrightarrow> k' \<le> k'')"
  using assms
proof (induction kvs)
  case (Cons x kvs)
  then show ?case by (cases x) (force simp: kv_ceil_def sorted_keys_Cons split: if_splits)
qed (simp add: kv_ceil_def)

lemma kv_ceil_None: "kv_ceil k kvs = None \<longleftrightarrow> (\<forall>k' \<in> fst ` set kvs. k' < k)"
  by (force simp: kv_ceil_def find_None_iff not_le)

lemma kv_ceil_hit: "sorted_keys kvs \<Longrightarrow> map_of kvs k = Some v \<Longrightarrow> kv_ceil k kvs = Some (k, v)"
  by (induction kvs) (auto simp: kv_ceil_def sorted_keys_Cons not_le[symmetric] dest!: map_of_SomeD split: if_splits)

text \<open>
  The laws the vector index and the meta-data routines use: a cursor can be opened on any
  good store and closed again without changing what is stored; seeking finds exactly the key
  (direction 0) or the nearest entry in the direction asked for, and then the cursor shows
  that entry; replacing puts the entry in its place. A seek may answer \<open>INEXACT\<close> as well as
  \<open>NOTFOUND\<close> for a key that is not there.
\<close>

locale kv_store =
  fixes m :: "('s, 'c) KVStoreMethods"
    and good :: "'s \<Rightarrow> bool"
    and contents :: "'s \<Rightarrow> (bytes \<times> bytes) list"
  assumes sorted: "good s \<Longrightarrow> sorted_keys (contents s)"
    and open_cursor: "good s \<Longrightarrow> \<exists>s' c. xOpenCursor m s = (SQLITE4_OK, s', c) \<and> good s' \<and> contents s' = contents s"
    and close_cursor: "good s \<Longrightarrow> \<exists>s'. xCloseCursor m s c = (SQLITE4_OK, s') \<and> good s' \<and> contents s' = contents s"
    and seek_exact: "good s \<Longrightarrow> \<exists>rc c'. xSeek m s c k 0 = Some (rc, c') \<and>
      (case map_of (contents s) k of
         Some v \<Rightarrow> rc = SQLITE4_OK \<and> xKey m s c' = (SQLITE4_OK, k) \<and> xData m s c' = (SQLITE4_OK, v)
       | None \<Rightarrow> rc = SQLITE4_NOTFOUND \<or> rc = SQLITE4_INEXACT)"
    and seek_up: "good s \<Longrightarrow> \<exists>rc c'. xSeek m s c k 1 = Some (rc, c') \<and>
      (case kv_ceil k (contents s) of
         Some (k', v) \<Rightarrow> rc = (if k' = k then SQLITE4_OK else SQLITE4_INEXACT)
           \<and> xKey m s c' = (SQLITE4_OK, k') \<and> xData m s c' = (SQLITE4_OK, v)
       | None \<Rightarrow> rc = SQLITE4_NOTFOUND)"
    and seek_down: "good s \<Longrightarrow> \<exists>rc c'. xSeek m s c k (-1) = Some (rc, c') \<and>
      (case kv_floor k (contents s) of
         Some (k', v) \<Rightarrow> rc = (if k' = k then SQLITE4_OK else SQLITE4_INEXACT)
           \<and> xKey m s c' = (SQLITE4_OK, k') \<and> xData m s c' = (SQLITE4_OK, v)
       | None \<Rightarrow> rc = SQLITE4_NOTFOUND)"
    and replace: "good s \<Longrightarrow> \<exists>s'. xReplace m s k v = Some (SQLITE4_OK, s') \<and> good s'
      \<and> contents s' = kv_put k v (contents s)"
begin

lemma lookup_after_replace:
  assumes "good s" "xReplace m s k v = Some (rc, s')"
  shows "map_of (contents s') k' = (if k' = k then Some v else map_of (contents s) k')"
  using replace [OF assms(1), of k v] assms sorted [OF assms(1)] by auto

end

subsection \<open>Round trip of the meta-data array\<close>

lemma writeMetaArray_be: "writeMetaArray b i v = memput b (4 * i) (be_bytes 4 v)"
  by (simp add: writeMetaArray_def be_bytes_num byte_def ucast_and_0xff)

lemma read_be_word:
  "push_bit 24 (ucast (byte 3 w)) OR push_bit 16 (ucast (byte 2 w)) OR push_bit 8 (ucast (byte (Suc 0) w))
     OR ucast (byte 0 w) = (w :: u32)"
  using or_bytes_4 [of w] by (simp only: or.assoc or.commute or.left_commute)

lemma readMetaArray_step:
  "readMetaArray (pre @ b0 # b1 # b2 # b3 # r) (length pre) (Suc n) =
     (push_bit 24 (ucast b0) OR push_bit 16 (ucast b1) OR push_bit 8 (ucast b2) OR ucast b3)
     # readMetaArray ((pre @ [b0, b1, b2, b3]) @ r) (length (pre @ [b0, b1, b2, b3])) n"
proof -
  have "length pre + 4 = Suc (Suc (Suc (Suc (length pre))))" by simp
  then show ?thesis
    by (simp only: readMetaArray.simps) (simp add: nth_append)
qed

lemma readMetaArray_be:
  "readMetaArray (pre @ concat (map (be_bytes 4) a) @ rest) (length pre) (length a) = a"
proof (induction a arbitrary: pre)
  case (Cons w a)
  have "be_bytes 4 w = [byte 3 w, byte 2 w, byte (Suc 0) w, byte 0 w]" by (simp add: be_bytes_num)
  then show ?case
    by (simp only: list.map concat.simps append_assoc append_Cons append_Nil list.size(4) add_Suc_right add_0_right
        readMetaArray_step [of pre] read_be_word Cons.IH [of "pre @ [byte 3 w, byte 2 w, byte (Suc 0) w, byte 0 w]",
          unfolded append_assoc append_Cons append_Nil])
qed simp

lemma writeMetas_be:
  "i \<le> length a \<Longrightarrow> 4 * length a \<le> length b \<Longrightarrow> writeMetas b a [i..<length a] =
     Some (take (4 * i) b @ concat (map (be_bytes 4) (drop i a)) @ drop (4 * length a) b)"
proof (induction "length a - i" arbitrary: i b)
  case (Suc n)
  then have i: "i < length a" by simp
  let ?b = "take (4 * i) b @ be_bytes 4 (a ! i) @ drop (4 * i + 4) b"
  have "writeMetas ?b a [Suc i..<length a] =
     Some (take (4 * Suc i) ?b @ concat (map (be_bytes 4) (drop (Suc i) a)) @ drop (4 * length a) ?b)"
    using Suc.hyps(2) Suc.prems i by (intro Suc.hyps(1)) auto
  moreover have "take (4 * Suc i) ?b = take (4 * i) b @ be_bytes 4 (a ! i)"
    and "drop (4 * length a) ?b = drop (4 * length a) b"
    using Suc.prems i by (auto simp: take_append drop_append min_def)
  ultimately show ?case
    using i Suc.prems by (simp add: upt_rec [of i] writeMetaArray_be memput_def Cons_nth_drop_Suc [symmetric])
qed simp

text \<open>
  The meta-data routines take only \<open>NOTFOUND\<close> for a missing key, so they need the stricter
  stores that never answer \<open>INEXACT\<close> to an exact seek.
\<close>

locale kv_store_strict = kv_store +
  assumes seek_missing: "good s \<Longrightarrow> map_of (contents s) k = None \<Longrightarrow> xSeek m s c k 0 = Some (rc, c') \<Longrightarrow>
    rc = SQLITE4_NOTFOUND"
begin

lemma seek_read:
  assumes "good s"
  shows "\<exists>c'. xSeek m s c k 0 =
      Some (if map_of (contents s) k = None then SQLITE4_NOTFOUND else SQLITE4_OK, c')
    \<and> (\<forall>v. map_of (contents s) k = Some v \<longrightarrow> xData m s c' = (SQLITE4_OK, v))"
  using seek_exact [OF assms, of c k] seek_missing [OF assms, of k c] by (auto split: option.splits)

lemma get_meta:
  assumes "good s" "map_of (contents s) metadataKey = Some (concat (map (be_bytes 4) a) @ rest)"
  shows "\<exists>s'. sqlite4KVStoreGetMeta m s 0 (length a) = Some (SQLITE4_OK, Some a, s')"
proof -
  obtain s1 c where 1: "xOpenCursor m s = (SQLITE4_OK, s1, c)" "good s1" "contents s1 = contents s"
    using open_cursor [OF assms(1)] by blast
  obtain c2 where 2: "xSeek m s1 c metadataKey 0 = Some (SQLITE4_OK, c2)"
    "xData m s1 c2 = (SQLITE4_OK, concat (map (be_bytes 4) a) @ rest)"
    using seek_read [OF 1(2), of c metadataKey] assms(2) 1(3) by auto
  obtain s2 where 3: "xCloseCursor m s1 c2 = (SQLITE4_OK, s2)" using close_cursor [OF 1(2)] by blast
  show ?thesis
    using 1 2 3 readMetaArray_be [of "[]" a rest]
    by (simp add: sqlite4KVStoreGetMeta_def sqlite4KVStoreOpenCursor_def sqlite4KVCursorSeek_def
        sqlite4KVCursorData_def sqlite4KVCursorClose_def)
qed

lemma put_meta:
  assumes "good s"
  shows "\<exists>s' rest. sqlite4KVStorePutMeta m junk s 0 (length a) a = Some (SQLITE4_OK, s') \<and> good s'
    \<and> map_of (contents s') metadataKey = Some (concat (map (be_bytes 4) a) @ rest)"
proof -
  obtain s1 c where 1: "xOpenCursor m s = (SQLITE4_OK, s1, c)" "good s1" "contents s1 = contents s"
    using open_cursor [OF assms(1)] by blast
  obtain rc c2 where 2: "xSeek m s1 c metadataKey 0 = Some (rc, c2)" "rc = SQLITE4_NOTFOUND \<or> rc = SQLITE4_OK"
    "rc = SQLITE4_OK \<Longrightarrow> fst (xData m s1 c2) = SQLITE4_OK"
    using seek_read [OF 1(2), of c metadataKey] by (force split: if_splits)
  define old where "old = (if rc = SQLITE4_OK then snd (xData m s1 c2) else [])"
  let ?n = "max (4 * length a) (length old)"
  obtain b where b: "memput (map junk [0..<?n]) 0 old = Some b" using memput_in [of 0 old "map junk [0..<?n]"] by auto
  then have "length b = ?n" using memput_length by fastforce
  then have w: "writeMetas b a [0..<length a] = Some (concat (map (be_bytes 4) a) @ drop (4 * length a) b)"
    using writeMetas_be [of 0 a b] by simp
  let ?v = "concat (map (be_bytes 4) a) @ drop (4 * length a) b"
  obtain s2 where 3: "xReplace m s1 metadataKey ?v = Some (SQLITE4_OK, s2)" "good s2"
    "contents s2 = kv_put metadataKey ?v (contents s1)" using replace [OF 1(2)] by blast
  obtain s3 where 4: "xCloseCursor m s2 c2 = (SQLITE4_OK, s3)" "good s3" "contents s3 = contents s2"
    using close_cursor [OF 3(2)] by blast
  have "sqlite4KVStorePutMeta m junk s 0 (length a) a = Some (SQLITE4_OK, s3)"
    using 1 2 b w 3 4 unfolding old_def
    by (auto simp: sqlite4KVStorePutMeta_def sqlite4KVStoreOpenCursor_def sqlite4KVCursorSeek_def
        sqlite4KVCursorData_def sqlite4KVCursorClose_def sqlite4KVStoreReplace_def prod_eq_iff split: prod.splits)
  moreover have "map_of (contents s3) metadataKey = Some ?v"
    using 3 4 sorted [OF 1(2)] by simp
  ultimately show ?thesis using 4 by blast
qed

lemma put_get_meta:
  assumes "good s"
  shows "\<exists>s' s''. sqlite4KVStorePutMeta m junk s 0 (length a) a = Some (SQLITE4_OK, s')
    \<and> sqlite4KVStoreGetMeta m s' 0 (length a) = Some (SQLITE4_OK, Some a, s'')"
  using put_meta [OF assms, of junk a] get_meta [of _ a] by blast

end

end
