(* ===== verification/KvTree.thy ===== *)
theory KvTree
  imports KvStore
begin

unbundle bit_operations_syntax

text \<open>
  The height-balanced tree of \<open>kvmem.c\<close>. The C tree is linked both ways; here a node with
  the way back to the root is a pair of the subtree at it and the list of its ancestors
  (\<open>kvframe\<close>, innermost first), so that every loop that climbs along \<open>pUp\<close> is a recursion
  over the ancestors. The data field is \<open>None\<close> where the C pointer is null (a deleted row);
  the reference counts only decide when memory is freed and are left out. A null pointer
  that is followed is \<open>None\<close>.
\<close>

subsection \<open>Nodes\<close>

record KVMemNode =
  nd_pData :: "bytes option"
  nd_height :: int
  nd_imbalance :: int
  nd_mxTrans :: nat
  nd_aKey :: bytes

datatype kvtree = KLeaf | KNode (pBefore: kvtree) (kvnode: KVMemNode) (pAfter: kvtree)
  where "pBefore KLeaf = KLeaf" | "pAfter KLeaf = KLeaf"

text \<open>An ancestor: the node is in the subtree before it, or in the subtree after it.\<close>

datatype kvframe = InBefore KVMemNode kvtree | InAfter kvtree KVMemNode

fun plug :: "kvframe \<Rightarrow> kvtree \<Rightarrow> kvtree" where
  "plug (InBefore n a) t = KNode t n a"
| "plug (InAfter b n) t = KNode b n t"

fun plug_all :: "kvframe list \<Rightarrow> kvtree \<Rightarrow> kvtree" where
  "plug_all [] t = t"
| "plug_all (f # fs) t = plug_all fs (plug f t)"

subsection \<open>Balancing\<close>

fun tree_height :: "kvtree \<Rightarrow> int" where
  "tree_height KLeaf = 0"
| "tree_height (KNode b n a) = nd_height n"

fun kvmemRecomputeHeight :: "kvtree \<Rightarrow> kvtree" where
  "kvmemRecomputeHeight KLeaf = KLeaf"
| "kvmemRecomputeHeight (KNode b n a) =
     (let hBefore = tree_height b; hAfter = tree_height a in
      KNode b (n\<lparr>nd_imbalance := hBefore - hAfter,
                 nd_height := (if hBefore > hAfter then hBefore else hAfter) + 1\<rparr>) a)"

fun kvmemRotateBefore :: "kvtree \<Rightarrow> kvtree option" where
  "kvmemRotateBefore (KNode (KNode x b y) p z) =
     Some (kvmemRecomputeHeight (KNode x b (kvmemRecomputeHeight (KNode y p z))))"
| "kvmemRotateBefore _ = None"

fun kvmemRotateAfter :: "kvtree \<Rightarrow> kvtree option" where
  "kvmemRotateAfter (KNode x p (KNode y a z)) =
     Some (kvmemRecomputeHeight (KNode (kvmemRecomputeHeight (KNode x p y)) a z))"
| "kvmemRotateAfter _ = None"

fun imbalance :: "kvtree \<Rightarrow> int" where
  "imbalance KLeaf = 0"
| "imbalance (KNode b n a) = nd_imbalance n"

text \<open>The body of the loop of \<open>kvmemBalance\<close>, and the loop.\<close>

definition balance_step :: "kvtree \<Rightarrow> kvtree option" where
  "balance_step t =
     (case kvmemRecomputeHeight t of
        KLeaf \<Rightarrow> Some KLeaf
      | KNode b p a \<Rightarrow>
          if nd_imbalance p \<ge> 2 then
            do { b' \<leftarrow> (if imbalance b < 0 then kvmemRotateAfter b else Some b);
                 kvmemRotateBefore (KNode b' p a) }
          else if nd_imbalance p \<le> - 2 then
            do { a' \<leftarrow> (if imbalance a > 0 then kvmemRotateBefore a else Some a);
                 kvmemRotateAfter (KNode b p a') }
          else Some (KNode b p a))"

fun kvmemBalance :: "kvtree \<Rightarrow> kvframe list \<Rightarrow> kvtree option" where
  "kvmemBalance t [] = balance_step t"
| "kvmemBalance t (f # fs) = do { t' \<leftarrow> balance_step t; kvmemBalance (plug f t') fs }"

subsection \<open>Walking the tree\<close>

definition kvmemKeyCompare :: "bytes \<Rightarrow> bytes \<Rightarrow> int" where
  "kvmemKeyCompare aK1 aK2 =
     (let n = min (length aK1) (length aK2); c = memcmp (take n aK1) (take n aK2) in
      if c = 0 then int (length aK1) - int (length aK2) else c)"

text \<open>
  Positions are a subtree that is not empty and its ancestors; \<open>None\<close> is the null pointer.
\<close>

type_synonym kvpos = "kvtree \<times> kvframe list"

fun kvmemFirst :: "kvtree \<Rightarrow> kvframe list \<Rightarrow> kvpos option" where
  "kvmemFirst KLeaf fs = None"
| "kvmemFirst (KNode b n a) fs =
     (if b = KLeaf then Some (KNode b n a, fs) else kvmemFirst b (InBefore n a # fs))"

fun kvmemLast :: "kvtree \<Rightarrow> kvframe list \<Rightarrow> kvpos option" where
  "kvmemLast KLeaf fs = None"
| "kvmemLast (KNode b n a) fs =
     (if a = KLeaf then Some (KNode b n a, fs) else kvmemLast a (InAfter b n # fs))"

text \<open>Climbing while the node is the one after its parent (before it).\<close>

fun climbAfter :: "kvtree \<Rightarrow> kvframe list \<Rightarrow> kvpos option" where
  "climbAfter t [] = None"
| "climbAfter t (InAfter b n # fs) = climbAfter (KNode b n t) fs"
| "climbAfter t (InBefore n a # fs) = Some (KNode t n a, fs)"

fun climbBefore :: "kvtree \<Rightarrow> kvframe list \<Rightarrow> kvpos option" where
  "climbBefore t [] = None"
| "climbBefore t (InBefore n a # fs) = climbBefore (KNode t n a) fs"
| "climbBefore t (InAfter b n # fs) = Some (KNode b n t, fs)"

fun kvmemNext :: "kvpos \<Rightarrow> kvpos option" where
  "kvmemNext (KLeaf, fs) = None"
| "kvmemNext (KNode b n a, fs) =
     (if a = KLeaf then climbAfter (KNode b n a) fs else kvmemFirst a (InAfter b n # fs))"

fun kvmemPrev :: "kvpos \<Rightarrow> kvpos option" where
  "kvmemPrev (KLeaf, fs) = None"
| "kvmemPrev (KNode b n a, fs) =
     (if b = KLeaf then climbBefore (KNode b n a) fs else kvmemLast b (InBefore n a # fs))"

text \<open>
  The position of a key: the subtree at its node, or the empty place where it belongs.
\<close>

fun kvmemFind :: "bytes \<Rightarrow> kvtree \<Rightarrow> kvframe list \<Rightarrow> kvpos" where
  "kvmemFind k KLeaf fs = (KLeaf, fs)"
| "kvmemFind k (KNode b n a) fs =
     (let c = kvmemKeyCompare k (nd_aKey n) in
      if c < 0 then kvmemFind k b (InBefore n a # fs)
      else if c > 0 then kvmemFind k a (InAfter b n # fs)
      else (KNode b n a, fs))"

subsection \<open>Removing a node\<close>

text \<open>
  \<open>kvmemRemoveNode\<close> of the node at the root of the subtree: with two children, the first
  node after it takes its place, and balancing starts where that node was taken away.
\<close>

fun removeAt :: "kvpos \<Rightarrow> kvtree option" where
  "removeAt (KLeaf, fs) = None"
| "removeAt (KNode KLeaf n KLeaf, fs) =
     (case fs of [] \<Rightarrow> Some KLeaf | f # fs \<Rightarrow> kvmemBalance (plug f KLeaf) fs)"
| "removeAt (KNode KLeaf n a, fs) = kvmemBalance a fs"
| "removeAt (KNode b n KLeaf, fs) = kvmemBalance b fs"
| "removeAt (KNode b n a, fs) =
     (case kvmemFirst a [] of
        None \<Rightarrow> None
      | Some (x, up) \<Rightarrow>
          (case up of
             [] \<Rightarrow> kvmemBalance (KNode b (kvnode x) (pAfter x)) fs
           | f # up' \<Rightarrow> kvmemBalance (plug f (pAfter x)) (up' @ InAfter b (kvnode x) # fs)))"

definition kvmemRemoveNode :: "kvtree \<Rightarrow> bytes \<Rightarrow> kvtree option" where
  "kvmemRemoveNode t k = removeAt (kvmemFind k t [])"

subsection \<open>The order of keys\<close>

lemma kvmemKeyCompare_less: "kvmemKeyCompare k k' < 0 \<longleftrightarrow> k < k'"
  and kvmemKeyCompare_greater: "kvmemKeyCompare k k' > 0 \<longleftrightarrow> k' < k"
proof -
  have "kvmemKeyCompare k k' = (if memcmp k k' = 0 then int (length k) - int (length k') else memcmp k k')"
    using memcmp_take [of k k'] by (simp add: kvmemKeyCompare_def Let_def)
  moreover have "((if memcmp k k' = 0 then int (length k) - int (length k') else memcmp k k') < 0 \<longleftrightarrow> k < k')
      \<and> ((if memcmp k k' = 0 then int (length k) - int (length k') else memcmp k k') > 0 \<longleftrightarrow> k' < k)"
    by (induction k k' rule: memcmp.induct) (auto dest: neq_Nil_conv [THEN iffD1])
  ultimately show "kvmemKeyCompare k k' < 0 \<longleftrightarrow> k < k'" "kvmemKeyCompare k k' > 0 \<longleftrightarrow> k' < k" by simp_all
qed

lemmas kvmemKeyCompare_iff = kvmemKeyCompare_less kvmemKeyCompare_greater

subsection \<open>The rows of a tree\<close>

type_synonym kvrow = "bytes \<times> bytes option \<times> nat"

fun row :: "KVMemNode \<Rightarrow> kvrow" where
  "row n = (nd_aKey n, nd_pData n, nd_mxTrans n)"

fun rows :: "kvtree \<Rightarrow> kvrow list" where
  "rows KLeaf = []"
| "rows (KNode b n a) = rows b @ row n # rows a"

fun rows_before :: "kvframe list \<Rightarrow> kvrow list" where
  "rows_before [] = []"
| "rows_before (InBefore n a # fs) = rows_before fs"
| "rows_before (InAfter b n # fs) = rows_before fs @ rows b @ [row n]"

fun rows_after :: "kvframe list \<Rightarrow> kvrow list" where
  "rows_after [] = []"
| "rows_after (InBefore n a # fs) = row n # rows a @ rows_after fs"
| "rows_after (InAfter b n # fs) = rows_after fs"

lemma rows_plug_all: "rows (plug_all fs t) = rows_before fs @ rows t @ rows_after fs"
proof (induction fs t rule: plug_all.induct)
  case (2 f fs t)
  then show ?case by (cases f) auto
qed simp

lemma rows_ctx_append:
  "rows_before (fs @ gs) = rows_before gs @ rows_before fs"
  "rows_after (fs @ gs) = rows_after fs @ rows_after gs"
  by (induction fs rule: rows_before.induct) auto

lemma rows_eq_Nil [simp]: "rows t = [] \<longleftrightarrow> t = KLeaf"
  by (cases t) auto

lemma plug_all_append: "plug_all (fs @ gs) t = plug_all gs (plug_all fs t)"
  by (induction fs arbitrary: t) auto

lemma rows_recompute [simp]: "rows (kvmemRecomputeHeight t) = rows t"
  by (cases t) (auto simp: Let_def)

lemma rows_rotate:
  "kvmemRotateBefore t = Some t' \<Longrightarrow> rows t' = rows t"
  "kvmemRotateAfter t = Some t' \<Longrightarrow> rows t' = rows t"
  by (auto elim!: kvmemRotateBefore.elims kvmemRotateAfter.elims simp: Let_def)

lemma rows_balance_step: "balance_step t = Some t' \<Longrightarrow> rows t' = rows t"
  by (cases "kvmemRecomputeHeight t"; insert rows_recompute [of t])
     (auto simp: balance_step_def simp del: rows_recompute split: if_splits bind_splits dest!: rows_rotate, simp)

lemma rows_kvmemBalance:
  "kvmemBalance t fs = Some t' \<Longrightarrow> rows t' = rows_before fs @ rows t @ rows_after fs"
proof (induction t fs rule: kvmemBalance.induct)
  case (2 t f fs)
  then show ?case by (cases f) (auto split: bind_splits dest!: rows_balance_step)
qed (simp add: rows_balance_step)

subsection \<open>Balance\<close>

text \<open>The height of a tree, and the state every operation leaves it in.\<close>

fun ht :: "kvtree \<Rightarrow> nat" where
  "ht KLeaf = 0"
| "ht (KNode b n a) = max (ht b) (ht a) + 1"

fun avl :: "kvtree \<Rightarrow> bool" where
  "avl KLeaf = True"
| "avl (KNode b n a) \<longleftrightarrow>
     nd_height n = int (ht (KNode b n a)) \<and> nd_imbalance n = int (ht b) - int (ht a)
     \<and> \<bar>int (ht b) - int (ht a)\<bar> \<le> 1 \<and> avl b \<and> avl a"

text \<open>A context whose place can take a balanced tree of height \<open>h\<close>.\<close>

fun ctx_avl :: "kvframe list \<Rightarrow> nat \<Rightarrow> bool" where
  "ctx_avl [] h \<longleftrightarrow> True"
| "ctx_avl (InBefore n a # fs) h \<longleftrightarrow> avl a \<and> \<bar>int h - int (ht a)\<bar> \<le> 1 \<and> ctx_avl fs (max h (ht a) + 1)"
| "ctx_avl (InAfter b n # fs) h \<longleftrightarrow> avl b \<and> \<bar>int h - int (ht b)\<bar> \<le> 1 \<and> ctx_avl fs (max (ht b) h + 1)"

lemma tree_height_avl [simp]: "avl t \<Longrightarrow> tree_height t = int (ht t)"
  by (cases t) auto

lemma avl_plug_all: "avl (plug_all fs t) \<Longrightarrow> avl t \<and> ctx_avl fs (ht t)"
proof (induction fs t rule: plug_all.induct)
  case (2 f fs t)
  then show ?case by (cases f) auto
qed simp

fun ctx_ht :: "kvframe list \<Rightarrow> nat \<Rightarrow> nat" where
  "ctx_ht [] h = h"
| "ctx_ht (InBefore n a # fs) h = ctx_ht fs (max h (ht a) + 1)"
| "ctx_ht (InAfter b n # fs) h = ctx_ht fs (max (ht b) h + 1)"

lemma ht_plug_all: "ht (plug_all fs t) = ctx_ht fs (ht t)"
proof (induction fs t rule: plug_all.induct)
  case (2 f fs t)
  then show ?case by (cases f) auto
qed simp

lemma ctx_avl_append: "ctx_avl (fs @ gs) h \<longleftrightarrow> ctx_avl fs h \<and> ctx_avl gs (ctx_ht fs h)"
  by (induction fs h rule: ctx_avl.induct) auto

text \<open>A tree with balanced children whose heights differ by at most two.\<close>

fun almost_avl :: "kvtree \<Rightarrow> bool" where
  "almost_avl KLeaf \<longleftrightarrow> True"
| "almost_avl (KNode b n a) \<longleftrightarrow> avl b \<and> avl a \<and> \<bar>int (ht b) - int (ht a)\<bar> \<le> 2"

lemma avl_almost: "avl t \<Longrightarrow> almost_avl t"
  by (cases t) auto

lemma balance_step_avl:
  assumes "almost_avl t"
  shows "\<exists>t'. balance_step t = Some t' \<and> avl t' \<and>
    (case t of KLeaf \<Rightarrow> t' = KLeaf
     | KNode b n a \<Rightarrow>
        (\<bar>int (ht b) - int (ht a)\<bar> \<le> 1 \<longrightarrow> ht t' = ht t) \<and>
        (ht t' = max (ht b) (ht a) \<or> ht t' = max (ht b) (ht a) + 1))"
proof (cases t)
  case (KNode b n a)
  consider "ht b = ht a + 2" | "ht a = ht b + 2" | "\<bar>int (ht b) - int (ht a)\<bar> \<le> 1"
    using assms KNode by fastforce
  then show ?thesis
  proof cases
    case 1
    then obtain x m y where b: "b = KNode x m y" by (cases b) auto
    have "ht x = ht a + 1 \<and> (ht y = ht a \<or> ht y = ht a + 1) \<or> ht x = ht a \<and> ht y = ht a + 1"
      using assms 1 KNode b by (auto simp: max_def split: if_splits)
    then consider "ht x = ht a + 1" "ht y = ht a \<or> ht y = ht a + 1" | "ht x = ht a" "ht y = ht a + 1"
      by blast
    then show ?thesis
    proof cases
      case 2
      then obtain u v w where "y = KNode u v w" by (cases y) auto
      with 2 show ?thesis using assms 1 KNode b
        by (auto simp: balance_step_def Let_def max_def split: if_splits)
    qed (use assms 1 KNode b in \<open>auto simp: balance_step_def Let_def max_def split: if_splits\<close>)
  next
    case 2
    then obtain x m y where a: "a = KNode x m y" by (cases a) auto
    have "ht y = ht b + 1 \<and> (ht x = ht b \<or> ht x = ht b + 1) \<or> ht y = ht b \<and> ht x = ht b + 1"
      using assms 2 KNode a by (auto simp: max_def split: if_splits)
    then consider "ht y = ht b + 1" "ht x = ht b \<or> ht x = ht b + 1" | "ht y = ht b" "ht x = ht b + 1"
      by blast
    then show ?thesis
    proof cases
      case 2
      then obtain u v w where "x = KNode u v w" by (cases x) auto
      with 2 show ?thesis using assms \<open>ht a = ht b + 2\<close> KNode a
        by (auto simp: balance_step_def Let_def max_def split: if_splits)
    qed (use assms 2 KNode a in \<open>auto simp: balance_step_def Let_def max_def split: if_splits\<close>)
  qed (use assms KNode in \<open>auto simp: balance_step_def Let_def max_def\<close>)
qed (simp add: balance_step_def)

lemma kvmemBalance_avl:
  assumes "almost_avl t" "ctx_avl fs h" "\<And>t'. balance_step t = Some t' \<Longrightarrow> \<bar>int (ht t') - int h\<bar> \<le> 1"
  shows "\<exists>t'. kvmemBalance t fs = Some t' \<and> avl t'"
  using assms
proof (induction fs arbitrary: t h)
  case Nil
  then show ?case using balance_step_avl [of t] by auto
next
  case (Cons f fs)
  obtain t' where t': "balance_step t = Some t'" "avl t'" using balance_step_avl [OF Cons.prems(1)] by blast
  then have h: "\<bar>int (ht t') - int h\<bar> \<le> 1" using Cons.prems(3) by blast
  have "\<exists>h'. almost_avl (plug f t') \<and> ctx_avl fs h' \<and>
    (\<forall>u. balance_step (plug f t') = Some u \<longrightarrow> \<bar>int (ht u) - int h'\<bar> \<le> 1)"
  proof (cases f)
    case (InBefore n a)
    have d: "almost_avl (KNode t' n a)" using h t' Cons.prems(2) InBefore by auto
    show ?thesis
      using d balance_step_avl [OF d] h Cons.prems(2) InBefore
      by (intro exI [of _ "max h (ht a) + 1"]) (auto simp: max_def split: if_splits)
  next
    case (InAfter b n)
    have d: "almost_avl (KNode b n t')" using h t' Cons.prems(2) InAfter by auto
    show ?thesis
      using d balance_step_avl [OF d] h Cons.prems(2) InAfter
      by (intro exI [of _ "max (ht b) h + 1"]) (auto simp: max_def split: if_splits)
  qed
  then obtain h' where "almost_avl (plug f t')" "ctx_avl fs h'"
    "\<forall>u. balance_step (plug f t') = Some u \<longrightarrow> \<bar>int (ht u) - int h'\<bar> \<le> 1" by blast
  then show ?case using Cons.IH [of "plug f t'" h'] t' by simp
qed

lemma kvmemBalance_avl_subtree:
  assumes "avl t" "ctx_avl fs h" "\<bar>int (ht t) - int h\<bar> \<le> 1"
  shows "\<exists>t'. kvmemBalance t fs = Some t' \<and> avl t'"
proof (rule kvmemBalance_avl [OF avl_almost [OF assms(1)] assms(2)])
  fix t' assume "balance_step t = Some t'"
  then have "ht t' = ht t" using balance_step_avl [OF avl_almost [OF assms(1)]] assms(1)
    by (auto split: kvtree.splits)
  then show "\<bar>int (ht t') - int h\<bar> \<le> 1" using assms(3) by simp
qed

subsection \<open>Finding, inserting and changing nodes\<close>

definition find_at :: "bytes \<Rightarrow> kvpos \<Rightarrow> bool" where
  "find_at k pos \<longleftrightarrow>
     (\<forall>x \<in> set (rows_before (snd pos)). fst x < k) \<and> (\<forall>x \<in> set (rows_after (snd pos)). k < fst x) \<and>
     (case fst pos of KLeaf \<Rightarrow> True | KNode b n a \<Rightarrow>
        nd_aKey n = k \<and> (\<forall>x \<in> set (rows b). fst x < k) \<and> (\<forall>x \<in> set (rows a). k < fst x))"

lemma kvmemFind_plug: "kvmemFind k t fs = (u, gs) \<Longrightarrow> plug_all gs u = plug_all fs t"
  by (induction k t fs rule: kvmemFind.induct) (auto simp: Let_def split: if_splits)

lemma kvmemFind_at_gen:
  assumes "sorted_keys (rows t)"
    "\<forall>x \<in> set (rows_before fs). fst x < k" "\<forall>x \<in> set (rows_after fs). k < fst x"
  shows "find_at k (kvmemFind k t fs)"
  using assms
proof (induction k t fs rule: kvmemFind.induct)
  case (2 k b n a fs)
  have s: "sorted_keys (rows b)" "sorted_keys (rows a)"
    and b: "\<forall>x \<in> set (rows b). fst x < nd_aKey n" and a: "\<forall>x \<in> set (rows a). nd_aKey n < fst x"
    using "2.prems"(1) by (auto simp: sorted_keys_append sorted_keys_Cons)
  consider "k < nd_aKey n" | "nd_aKey n < k" | "k = nd_aKey n" by fastforce
  then show ?case
  proof cases
    case 1
    then have "find_at k (kvmemFind k b (InBefore n a # fs))"
      using s a "2.prems" by (intro "2.IH"(1)) (auto simp: kvmemKeyCompare_iff intro: less_trans)
    then show ?thesis using 1 by (simp add: Let_def kvmemKeyCompare_iff)
  next
    case 2
    have "find_at k (kvmemFind k a (InAfter b n # fs))"
      using s b "2" "2.prems" by (intro "2.IH"(2)) (auto simp: kvmemKeyCompare_iff intro: less_trans)
    then show ?thesis using 2 by (auto simp add: Let_def kvmemKeyCompare_iff)
  next
    case 3
    then show ?thesis using a b "2.prems"
      by (simp add: Let_def kvmemKeyCompare_iff find_at_def)
  qed
qed (simp add: find_at_def)

lemma kvmemFind_at: "sorted_keys (rows t) \<Longrightarrow> find_at k (kvmemFind k t [])"
  by (rule kvmemFind_at_gen) auto

lemma kv_put_middle:
  "\<forall>x \<in> set xs. fst x < k \<Longrightarrow> kv_put k v (xs @ ys) = xs @ kv_put k v ys"
  "\<forall>x \<in> set ys. k < fst x \<Longrightarrow> kv_put k v ys = (k, v) # ys"
  "kv_put k v ((k, v') # ys) = (k, v) # ys"
  by (induction xs; force) (cases ys; auto)+

lemma fst_less_neq:
  "\<forall>x \<in> set xs. fst x < k \<Longrightarrow> k \<notin> fst ` set xs" "\<forall>x \<in> set xs. k < fst x \<Longrightarrow> k \<notin> fst ` set xs"
  for k :: bytes
  by (metis imageE order.irrefl)+

lemma kv_del_notin: "k \<notin> fst ` set xs \<Longrightarrow> kv_del k xs = xs"
  by (force simp: kv_del_def filter_id_conv)

lemma kv_del_middle:
  assumes "\<forall>x \<in> set xs. fst x < k" "\<forall>x \<in> set ys. k < fst x"
  shows "kv_del k (xs @ (k, v) # ys) = xs @ ys"
proof -
  have "kv_del k (xs @ (k, v) # ys) = kv_del k xs @ kv_del k ys" by (simp add: kv_del_def)
  then show ?thesis using fst_less_neq(1) [OF assms(1)] fst_less_neq(2) [OF assms(2)] by (simp add: kv_del_notin)
qed

lemma map_of_none_middle:
  assumes "\<forall>x \<in> set xs. fst x < k" "\<forall>x \<in> set ys. k < fst x"
  shows "map_of (xs @ ys) (k :: bytes) = None"
  using fst_less_neq(1) [OF assms(1)] fst_less_neq(2) [OF assms(2)]
  unfolding map_of_eq_None_iff set_append image_Un by blast

lemma map_of_middle:
  assumes "\<forall>x \<in> set xs. fst x < k"
  shows "map_of (xs @ (k, v) # ys) (k :: bytes) = Some v"
proof -
  have "map_of xs k = None" using fst_less_neq(1) [OF assms] by (simp add: map_of_eq_None_iff)
  then show ?thesis by (simp add: map_add_def)
qed

text \<open>What a search says of the rows of a sorted tree.\<close>

lemma kvmemFind_cases:
  assumes "sorted_keys (rows t)"
  obtains (missing) fs where "kvmemFind k t [] = (KLeaf, fs)" "plug_all fs KLeaf = t" "map_of (rows t) k = None"
      "\<And>v. kv_put k v (rows t) = rows_before fs @ (k, v) # rows_after fs"
  | (found) b n a fs where "kvmemFind k t [] = (KNode b n a, fs)" "plug_all fs (KNode b n a) = t" "nd_aKey n = k"
      "map_of (rows t) k = Some (nd_pData n, nd_mxTrans n)"
      "\<And>v. kv_put k v (rows t) = rows_before fs @ rows b @ (k, v) # rows a @ rows_after fs"
      "kv_del k (rows t) = rows_before fs @ rows b @ rows a @ rows_after fs"
proof -
  obtain u fs where f: "kvmemFind k t [] = (u, fs)" by fastforce
  have p: "plug_all fs u = t" using kvmemFind_plug [OF f] by simp
  then have r: "rows t = rows_before fs @ rows u @ rows_after fs" using rows_plug_all [of fs u] by simp
  have at: "find_at k (u, fs)" using kvmemFind_at [OF assms, of k] f by simp
  show thesis
  proof (cases u)
    case KLeaf
    with f p r at show thesis
      by (intro missing [of fs]) (simp_all add: find_at_def kv_put_middle map_of_none_middle del: map_of_append)
  next
    case (KNode b n a)
    then have r': "rows t = (rows_before fs @ rows b) @ (k, nd_pData n, nd_mxTrans n) # (rows a @ rows_after fs)"
      and lo: "\<forall>x \<in> set (rows_before fs @ rows b). fst x < k" and hi: "\<forall>x \<in> set (rows a @ rows_after fs). k < fst x"
      using r at by (auto simp: find_at_def)
    show thesis
    proof (rule found)
      show "kvmemFind k t [] = (KNode b n a, fs)" "plug_all fs (KNode b n a) = t" "nd_aKey n = k"
        using f p KNode at by (simp_all add: find_at_def)
      show "map_of (rows t) k = Some (nd_pData n, nd_mxTrans n)" unfolding r' by (rule map_of_middle [OF lo])
      show "kv_put k v (rows t) = rows_before fs @ rows b @ (k, v) # rows a @ rows_after fs" for v
        unfolding r' kv_put_middle(1) [OF lo] by (simp add: kv_put_middle)
      show "kv_del k (rows t) = rows_before fs @ rows b @ rows a @ rows_after fs"
        unfolding r' kv_del_middle [OF lo hi] by simp
    qed
  qed
qed

text \<open>A new node, hung in at the empty place of its key.\<close>

definition insertAt :: "KVMemNode \<Rightarrow> kvframe list \<Rightarrow> kvtree option" where
  "insertAt n fs = kvmemBalance (KNode KLeaf (n\<lparr>nd_height := 1\<rparr>) KLeaf) fs"

lemma insertAt_ok:
  assumes "avl (plug_all fs KLeaf)"
  shows "\<exists>t'. insertAt n fs = Some t' \<and> avl t' \<and> rows t' = rows_before fs @ row n # rows_after fs"
proof -
  let ?t = "KNode KLeaf (n\<lparr>nd_height := 1\<rparr>) KLeaf"
  have "ctx_avl fs 0" using avl_plug_all [OF assms] by simp
  moreover have "almost_avl ?t" by simp
  ultimately obtain t' where "insertAt n fs = Some t'" "avl t'"
    unfolding insertAt_def using kvmemBalance_avl [of ?t fs 0] balance_step_avl [of ?t] by auto
  then show ?thesis using rows_kvmemBalance [of ?t fs t'] by (simp add: insertAt_def)
qed

text \<open>A change to the data or the transaction level of a node leaves the tree as it is.\<close>

definition kvmemModify :: "bytes \<Rightarrow> (KVMemNode \<Rightarrow> KVMemNode) \<Rightarrow> kvtree \<Rightarrow> kvtree option" where
  "kvmemModify k f t =
     (case kvmemFind k t [] of (KNode b n a, fs) \<Rightarrow> Some (plug_all fs (KNode b (f n) a)) | _ \<Rightarrow> None)"

lemma avl_plug_all_change: "avl (plug_all fs t) \<Longrightarrow> avl t' \<Longrightarrow> ht t' = ht t \<Longrightarrow> avl (plug_all fs t')"
proof (induction fs arbitrary: t t')
  case (Cons f fs)
  have "avl (plug f t)" using avl_plug_all [of fs "plug f t"] Cons.prems(1) by simp
  then have "avl (plug f t') \<and> ht (plug f t') = ht (plug f t)"
    using Cons.prems by (cases f) auto
  then show ?case using Cons.IH [of "plug f t" "plug f t'"] Cons.prems(1) by simp
qed simp

lemma kvmemModify_ok:
  assumes "avl t" "sorted_keys (rows t)" "map_of (rows t) k = Some (d, mx)"
    "\<And>n. nd_height (f n) = nd_height n" "\<And>n. nd_imbalance (f n) = nd_imbalance n" "\<And>n. nd_aKey (f n) = nd_aKey n"
    "\<And>n. nd_pData n = d \<Longrightarrow> nd_mxTrans n = mx \<Longrightarrow> nd_pData (f n) = d' \<and> nd_mxTrans (f n) = mx'"
  shows "\<exists>t'. kvmemModify k f t = Some t' \<and> avl t' \<and> rows t' = kv_put k (d', mx') (rows t)"
  using assms(2)
proof (cases rule: kvmemFind_cases [where k = k])
  case (missing fs)
  then show ?thesis using assms(3) by simp
next
  case (found b n a fs)
  have "avl (KNode b n a)" using avl_plug_all assms(1) found(2) by metis
  then have "avl (plug_all fs (KNode b (f n) a))"
    using assms(1) found(2) assms(4,5) by (auto intro: avl_plug_all_change [of fs "KNode b n a"])
  moreover have "nd_pData n = d" "nd_mxTrans n = mx" using assms(3) found(4) by simp_all
  then have "nd_pData (f n) = d' \<and> nd_mxTrans (f n) = mx'" by (rule assms(7))
  then have "row (f n) = (k, d', mx')" using assms(6) [of n] found(3) by (metis row.simps)
  then have "rows (plug_all fs (KNode b (f n) a)) = kv_put k (d', mx') (rows t)"
    by (simp add: rows_plug_all found(5) del: row.simps)
  ultimately show ?thesis by (simp add: kvmemModify_def found(1))
qed

lemma kvmemModify_None:
  "sorted_keys (rows t) \<Longrightarrow> map_of (rows t) k = None \<Longrightarrow> kvmemModify k f t = None"
  by (cases rule: kvmemFind_cases [where k = k and t = t]) (auto simp: kvmemModify_def)

subsection \<open>Removing\<close>

lemma kvmemFirst_gen:
  "t \<noteq> KLeaf \<Longrightarrow> \<exists>n a up. kvmemFirst t fs = Some (KNode KLeaf n a, up @ fs) \<and>
     plug_all up (KNode KLeaf n a) = t \<and> rows_before up = []"
proof (induction t fs rule: kvmemFirst.induct)
  case (2 b n a fs)
  show ?case
  proof (cases "b = KLeaf")
    case False
    then obtain n' a' up where "kvmemFirst b (InBefore n a # fs) = Some (KNode KLeaf n' a', up @ InBefore n a # fs)"
      "plug_all up (KNode KLeaf n' a') = b" "rows_before up = []" using "2.IH" by blast
    then show ?thesis using False
      by (intro exI [of _ n'] exI [of _ a'] exI [of _ "up @ [InBefore n a]"])
         (simp add: plug_all_append rows_ctx_append)
  qed auto
qed simp

lemma kvmemLast_gen:
  "t \<noteq> KLeaf \<Longrightarrow> \<exists>b n up. kvmemLast t fs = Some (KNode b n KLeaf, up @ fs) \<and>
     plug_all up (KNode b n KLeaf) = t \<and> rows_after up = []"
proof (induction t fs rule: kvmemLast.induct)
  case (2 b n a fs)
  show ?case
  proof (cases "a = KLeaf")
    case False
    then obtain b' n' up where "kvmemLast a (InAfter b n # fs) = Some (KNode b' n' KLeaf, up @ InAfter b n # fs)"
      "plug_all up (KNode b' n' KLeaf) = a" "rows_after up = []" using "2.IH" by blast
    then show ?thesis using False
      by (intro exI [of _ b'] exI [of _ n'] exI [of _ "up @ [InAfter b n]"])
         (simp add: plug_all_append rows_ctx_append)
  qed auto
qed simp

lemma avl_KNode_heights: "avl (KNode b n a) \<Longrightarrow> avl b \<and> avl a \<and> \<bar>int (ht b) - int (ht a)\<bar> \<le> 1
    \<and> ht (KNode b n a) = max (ht b) (ht a) + 1"
  by simp

lemma removeAt_leaf:
  assumes "avl (plug_all fs (KNode KLeaf n KLeaf))"
  shows "\<exists>t'. removeAt (KNode KLeaf n KLeaf, fs) = Some t' \<and> avl t' \<and> rows t' = rows_before fs @ rows_after fs"
proof (cases fs)
  case (Cons f gs)
  have "ctx_avl fs 1" using avl_plug_all [OF assms] by simp
  then obtain t' where "kvmemBalance KLeaf fs = Some t'" "avl t'"
    using kvmemBalance_avl_subtree [of KLeaf fs 1] by auto
  moreover have "kvmemBalance KLeaf fs = removeAt (KNode KLeaf n KLeaf, fs)"
    by (simp add: Cons balance_step_def)
  ultimately show ?thesis using rows_kvmemBalance [of KLeaf fs t'] by auto
qed simp

lemma removeAt_one:
  assumes "avl (plug_all fs (KNode b n a))" "b = KLeaf \<and> t = a \<or> a = KLeaf \<and> t = b" "t \<noteq> KLeaf"
  shows "\<exists>t'. removeAt (KNode b n a, fs) = Some t' \<and> avl t' \<and> rows t' = rows_before fs @ rows t @ rows_after fs"
proof -
  have h: "ht (KNode b n a) = ht t + 1" "avl t" "ctx_avl fs (ht (KNode b n a))"
    using avl_plug_all [OF assms(1)] assms(2) by auto
  then obtain t' where "kvmemBalance t fs = Some t'" "avl t'"
    using kvmemBalance_avl_subtree [of t fs "ht t + 1"] by auto
  moreover have "removeAt (KNode b n a, fs) = kvmemBalance t fs"
    using assms(2,3) by (cases b; cases a) auto
  ultimately show ?thesis using rows_kvmemBalance [of t fs t'] by auto
qed

lemma removeAt_two:
  assumes avl: "avl (plug_all fs (KNode b n a))" and "b \<noteq> KLeaf" "a \<noteq> KLeaf"
  shows "\<exists>t'. removeAt (KNode b n a, fs) = Some t' \<and> avl t' \<and> rows t' = rows_before fs @ rows b @ rows a @ rows_after fs"
proof -
  have ba: "avl b" "avl a" "\<bar>int (ht b) - int (ht a)\<bar> \<le> 1" and ctx: "ctx_avl fs (ht (KNode b n a))"
    using avl_plug_all [OF avl] by auto
  obtain x xa up where f: "kvmemFirst a [] = Some (KNode KLeaf x xa, up)"
      and p: "plug_all up (KNode KLeaf x xa) = a" and nb: "rows_before up = []"
    using kvmemFirst_gen [OF assms(3), of "[]"] by auto
  have rm: "removeAt (KNode b n a, fs) =
      (case up of [] \<Rightarrow> kvmemBalance (KNode b x xa) fs
       | g # up' \<Rightarrow> kvmemBalance (plug g xa) (up' @ InAfter b x # fs))"
    using assms(2,3) f by (cases b; cases a) (auto split: list.splits)
  have ra: "rows a = row x # rows xa @ rows_after up"
    using rows_plug_all [of up "KNode KLeaf x xa"] p nb by simp
  have x: "avl (KNode KLeaf x xa)" "ctx_avl up (ht (KNode KLeaf x xa))" "ht a = ctx_ht up (ht (KNode KLeaf x xa))"
    using avl_plug_all [of up "KNode KLeaf x xa"] ba(2) p ht_plug_all [of up "KNode KLeaf x xa"] by auto
  show ?thesis
  proof (cases up)
    case Nil
    then have a: "a = KNode KLeaf x xa" using p by simp
    have al: "almost_avl (KNode b x xa)" using ba x(1) a by auto
    have "\<bar>int (ht u) - int (ht (KNode b n a))\<bar> \<le> 1" if "balance_step (KNode b x xa) = Some u" for u
    proof -
      have "\<bar>int (ht b) - int (ht xa)\<bar> \<le> 1 \<Longrightarrow> ht u = max (ht b) (ht xa) + 1"
        "ht u = max (ht b) (ht xa) \<or> ht u = max (ht b) (ht xa) + 1" "ht a = ht xa + 1"
        using balance_step_avl [OF al] that a by auto
      then show ?thesis using ba(3) by (simp add: max_def split: if_splits; linarith)
    qed
    then obtain t' where "kvmemBalance (KNode b x xa) fs = Some t'" "avl t'"
      using kvmemBalance_avl [OF al ctx] by blast
    then show ?thesis using rm Nil rows_kvmemBalance [of "KNode b x xa" fs t'] ra by auto
  next
    case (Cons g up')
    have c: "ctx_avl (up @ InAfter b x # fs) (ht (KNode KLeaf x xa))"
      using x ctx ba by (simp add: ctx_avl_append abs_minus_commute)
    then obtain t' where t': "kvmemBalance xa (up @ InAfter b x # fs) = Some t'" "avl t'"
      using kvmemBalance_avl_subtree [OF _ c, of xa] x(1) by auto
    have "avl xa" using x(1) by simp
    then have "balance_step xa = Some xa"
      using x(1) by (cases xa) (auto simp: balance_step_def Let_def)
    then have "kvmemBalance (plug g xa) (up' @ InAfter b x # fs) = Some t'"
      using t' Cons by simp
    then show ?thesis
      using t'(2) rm rows_kvmemBalance [OF t'(1)] ra nb by (simp add: rows_ctx_append Cons [symmetric]) (simp add: Cons)
  qed
qed

lemma kvmemRemoveNode_ok:
  assumes "avl t" "sorted_keys (rows t)" "map_of (rows t) k \<noteq> None"
  shows "\<exists>t'. kvmemRemoveNode t k = Some t' \<and> avl t' \<and> rows t' = kv_del k (rows t)"
  using assms(2)
proof (cases rule: kvmemFind_cases [where k = k])
  case (missing fs)
  then show ?thesis using assms(3) by simp
next
  case (found b n a fs)
  have "avl (plug_all fs (KNode b n a))" using found(2) assms(1) by simp
  then have "\<exists>t'. removeAt (KNode b n a, fs) = Some t' \<and> avl t' \<and> rows t' = rows_before fs @ rows b @ rows a @ rows_after fs"
    using removeAt_leaf [of fs n] removeAt_one [of fs b n a] removeAt_two [of fs b n a]
    by (cases "b = KLeaf"; cases "a = KLeaf") auto
  then show ?thesis using found by (simp add: kvmemRemoveNode_def)
qed

lemma kvmemRemoveNode_None:
  "sorted_keys (rows t) \<Longrightarrow> map_of (rows t) k = None \<Longrightarrow> kvmemRemoveNode t k = None"
  by (cases rule: kvmemFind_cases [where k = k and t = t]) (auto simp: kvmemRemoveNode_def)

subsection \<open>Moving along the rows\<close>

text \<open>A position of a tree, with the rows before it, its own and those after it.\<close>

definition is_at :: "kvtree \<Rightarrow> kvpos \<Rightarrow> kvrow list \<Rightarrow> kvrow \<Rightarrow> kvrow list \<Rightarrow> bool" where
  "is_at t pos xs r ys \<longleftrightarrow>
     (case pos of
        (KNode b n a, fs) \<Rightarrow> plug_all fs (KNode b n a) = t \<and> row n = r
          \<and> rows_before fs @ rows b = xs \<and> rows a @ rows_after fs = ys
      | _ \<Rightarrow> False)"

lemma is_at_rows: "is_at t pos xs r ys \<Longrightarrow> rows t = xs @ r # ys"
  by (auto simp: is_at_def rows_plug_all split: prod.splits kvtree.splits)

lemma climbAfter_is_at:
  "case rows_after fs of
     [] \<Rightarrow> climbAfter t fs = None
   | r # ys \<Rightarrow> \<exists>pos. climbAfter t fs = Some pos \<and> is_at (plug_all fs t) pos (rows_before fs @ rows t) r ys"
proof (induction t fs rule: climbAfter.induct)
  case (2 t b n fs)
  then show ?case by (cases "rows_after fs") auto
qed (auto simp: is_at_def)

lemma climbBefore_is_at:
  "case rev (rows_before fs) of
     [] \<Rightarrow> climbBefore t fs = None
   | r # xs \<Rightarrow> \<exists>pos. climbBefore t fs = Some pos \<and> is_at (plug_all fs t) pos (rev xs) r (rows t @ rows_after fs)"
proof (induction t fs rule: climbBefore.induct)
  case (2 t n a fs)
  then show ?case by (cases "rows_before fs" rule: rev_cases) auto
qed (auto simp: is_at_def)

lemma kvmemFirst_is_at:
  assumes "t \<noteq> KLeaf"
  shows "\<exists>pos r ys. kvmemFirst t fs = Some pos \<and> rows t = r # ys \<and> is_at (plug_all fs t) pos (rows_before fs) r (ys @ rows_after fs)"
proof -
  obtain n a up where f: "kvmemFirst t fs = Some (KNode KLeaf n a, up @ fs)"
    and p: "plug_all up (KNode KLeaf n a) = t" and nb: "rows_before up = []"
    using kvmemFirst_gen [OF assms, of fs] by blast
  have "rows t = row n # rows a @ rows_after up" using rows_plug_all [of up "KNode KLeaf n a"] p nb by simp
  then show ?thesis using f p nb by (auto simp: is_at_def plug_all_append rows_ctx_append)
qed

lemma kvmemLast_is_at:
  assumes "t \<noteq> KLeaf"
  shows "\<exists>pos r xs. kvmemLast t fs = Some pos \<and> rows t = xs @ [r] \<and> is_at (plug_all fs t) pos (rows_before fs @ xs) r (rows_after fs)"
proof -
  obtain b n up where f: "kvmemLast t fs = Some (KNode b n KLeaf, up @ fs)"
    and p: "plug_all up (KNode b n KLeaf) = t" and na: "rows_after up = []"
    using kvmemLast_gen [OF assms, of fs] by blast
  have "rows t = (rows_before up @ rows b) @ [row n]" using rows_plug_all [of up "KNode b n KLeaf"] p na by simp
  then show ?thesis using f p na by (auto simp: is_at_def plug_all_append rows_ctx_append)
qed

lemma kvmemNext_is_at:
  assumes "is_at t pos xs r ys"
  shows "case ys of [] \<Rightarrow> kvmemNext pos = None
    | r' # ys' \<Rightarrow> \<exists>pos'. kvmemNext pos = Some pos' \<and> is_at t pos' (xs @ [r]) r' ys'"
proof -
  obtain b n a fs where p: "pos = (KNode b n a, fs)" "plug_all fs (KNode b n a) = t" "row n = r"
      "rows_before fs @ rows b = xs" "rows a @ rows_after fs = ys"
    using assms by (auto simp: is_at_def split: prod.splits kvtree.splits)
  show ?thesis
  proof (cases "a = KLeaf")
    case True
    then show ?thesis using climbAfter_is_at [of "KNode b n a" fs] p by (auto split: list.splits)
  next
    case False
    then show ?thesis using kvmemFirst_is_at [OF False, of "InAfter b n # fs"] p by auto
  qed
qed

lemma kvmemPrev_is_at:
  assumes "is_at t pos xs r ys"
  shows "case rev xs of [] \<Rightarrow> kvmemPrev pos = None
    | r' # xs' \<Rightarrow> \<exists>pos'. kvmemPrev pos = Some pos' \<and> is_at t pos' (rev xs') r' (r # ys)"
proof -
  obtain b n a fs where p: "pos = (KNode b n a, fs)" "plug_all fs (KNode b n a) = t" "row n = r"
      "rows_before fs @ rows b = xs" "rows a @ rows_after fs = ys"
    using assms by (auto simp: is_at_def split: prod.splits kvtree.splits)
  show ?thesis
  proof (cases "b = KLeaf")
    case True
    then show ?thesis using climbBefore_is_at [of "KNode b n a" fs] p by (auto split: list.splits)
  next
    case False
    then obtain q r' us where "kvmemLast b (InBefore n a # fs) = Some q" "rows b = us @ [r']"
      "is_at (plug_all (InBefore n a # fs) b) q (rows_before (InBefore n a # fs) @ us) r' (rows_after (InBefore n a # fs))"
      using kvmemLast_is_at [OF False, of "InBefore n a # fs"] by blast
    then show ?thesis using p False by auto
  qed
qed

text \<open>The loops of \<open>kvmemNextEntry\<close> and \<open>kvmemPrevEntry\<close> past the deleted rows.\<close>

definition kvmemDeleted :: "kvpos \<Rightarrow> bool" where
  "kvmemDeleted pos = (nd_pData (kvnode (fst pos)) = None)"

fun following :: "kvpos \<Rightarrow> nat" where
  "following (t, fs) = length (rows (pAfter t)) + length (rows_after fs)"

fun preceding :: "kvpos \<Rightarrow> nat" where
  "preceding (t, fs) = length (rows (pBefore t)) + length (rows_before fs)"

lemma is_at_self:
  "is_at (plug_all fs (KNode b n a)) (KNode b n a, fs) (rows_before fs @ rows b) (row n) (rows a @ rows_after fs)"
  by (simp add: is_at_def)

lemma is_at_measure: "is_at t pos xs r ys \<Longrightarrow> following pos = length ys \<and> preceding pos = length xs"
  by (auto simp: is_at_def split: prod.splits kvtree.splits)

lemma kvmemNext_decreases: "kvmemNext pos = Some pos' \<Longrightarrow> following pos' < following pos"
proof -
  assume n: "kvmemNext pos = Some pos'"
  then obtain b k a fs where p: "pos = (KNode b k a, fs)" by (elim kvmemNext.elims) auto
  let ?ys = "rows a @ rows_after fs"
  have "case ?ys of [] \<Rightarrow> False | r' # ys' \<Rightarrow> following pos' = length ys'"
    using kvmemNext_is_at [OF is_at_self [of fs b k a]] n p
    by (auto split: list.splits dest!: is_at_measure)
  moreover have "following pos = length ?ys" using p by simp
  ultimately show ?thesis by (cases ?ys) (simp_all del: following.simps length_append)
qed

lemma kvmemPrev_decreases: "kvmemPrev pos = Some pos' \<Longrightarrow> preceding pos' < preceding pos"
proof -
  assume n: "kvmemPrev pos = Some pos'"
  then obtain b k a fs where p: "pos = (KNode b k a, fs)" by (elim kvmemPrev.elims) auto
  let ?xs = "rows_before fs @ rows b"
  have "case rev ?xs of [] \<Rightarrow> False | r' # xs' \<Rightarrow> preceding pos' = length xs'"
    using kvmemPrev_is_at [OF is_at_self [of fs b k a]] n p
    by (auto split: list.splits dest!: is_at_measure)
  moreover have "preceding pos = length (rev ?xs)" using p by simp
  ultimately show ?thesis by (cases "rev ?xs") (simp_all del: preceding.simps length_append length_rev rev_append)
qed

function kvmemNextLive :: "kvpos \<Rightarrow> kvpos option" where
  "kvmemNextLive pos =
     (case kvmemNext pos of
        None \<Rightarrow> None
      | Some pos' \<Rightarrow> if kvmemDeleted pos' then kvmemNextLive pos' else Some pos')"
  by auto

termination by (relation "measure following") (auto dest: kvmemNext_decreases)

function kvmemPrevLive :: "kvpos \<Rightarrow> kvpos option" where
  "kvmemPrevLive pos =
     (case kvmemPrev pos of
        None \<Rightarrow> None
      | Some pos' \<Rightarrow> if kvmemDeleted pos' then kvmemPrevLive pos' else Some pos')"
  by auto

termination by (relation "measure preceding") (auto dest: kvmemPrev_decreases)

declare kvmemNextLive.simps [simp del] kvmemPrevLive.simps [simp del]

fun live :: "kvrow \<Rightarrow> bool" where
  "live (k, d, mx) \<longleftrightarrow> d \<noteq> None"

lemma is_at_deleted: "is_at t pos xs r ys \<Longrightarrow> kvmemDeleted pos \<longleftrightarrow> \<not> live r"
  by (auto simp: is_at_def kvmemDeleted_def split: prod.splits kvtree.splits)

lemma kvmemNextLive_is_at:
  assumes "is_at t pos xs r ys"
  shows "(\<forall>y \<in> set ys. \<not> live y) \<and> kvmemNextLive pos = None
    \<or> (\<exists>pos' us r' vs. ys = us @ r' # vs \<and> live r' \<and> (\<forall>y \<in> set us. \<not> live y)
         \<and> kvmemNextLive pos = Some pos' \<and> is_at t pos' (xs @ r # us) r' vs)"
  using assms
proof (induction ys arbitrary: pos xs r)
  case Nil
  then show ?case using kvmemNext_is_at [OF Nil] by (simp add: kvmemNextLive.simps [of pos])
next
  case (Cons y ys)
  obtain q where q: "kvmemNext pos = Some q" "is_at t q (xs @ [r]) y ys"
    using kvmemNext_is_at [OF Cons.prems] by auto
  show ?case
  proof (cases "live y")
    case True
    then show ?thesis using q is_at_deleted [OF q(2)]
      by (intro disjI2 exI [of _ q] exI [of _ "[]"]) (simp add: kvmemNextLive.simps [of pos])
  next
    case False
    have n: "kvmemNextLive pos = kvmemNextLive q" using q is_at_deleted [OF q(2)] False
      by (simp add: kvmemNextLive.simps [of pos])
    from Cons.IH [OF q(2)] show ?thesis
    proof
      assume "\<exists>pos' us r' vs. ys = us @ r' # vs \<and> live r' \<and> (\<forall>y \<in> set us. \<not> live y)
         \<and> kvmemNextLive q = Some pos' \<and> is_at t pos' ((xs @ [r]) @ y # us) r' vs"
      then obtain pos' us r' vs where "ys = us @ r' # vs" "live r'" "\<forall>y \<in> set us. \<not> live y"
         "kvmemNextLive q = Some pos'" "is_at t pos' ((xs @ [r]) @ y # us) r' vs" by blast
      then show ?thesis using n False
        by (intro disjI2 exI [of _ pos'] exI [of _ "y # us"] exI [of _ r'] exI [of _ vs]) simp
    qed (use n False in simp)
  qed
qed

lemma kvmemPrevLive_is_at:
  assumes "is_at t pos xs r ys"
  shows "(\<forall>y \<in> set xs. \<not> live y) \<and> kvmemPrevLive pos = None
    \<or> (\<exists>pos' us r' vs. xs = vs @ r' # us \<and> live r' \<and> (\<forall>y \<in> set us. \<not> live y)
         \<and> kvmemPrevLive pos = Some pos' \<and> is_at t pos' vs r' (us @ r # ys))"
  using assms
proof (induction xs arbitrary: pos ys r rule: rev_induct)
  case Nil
  then show ?case using kvmemPrev_is_at [OF Nil] by (simp add: kvmemPrevLive.simps [of pos])
next
  case (snoc x xs)
  obtain q where q: "kvmemPrev pos = Some q" "is_at t q xs x (r # ys)"
    using kvmemPrev_is_at [OF snoc.prems] by auto
  show ?case
  proof (cases "live x")
    case True
    then show ?thesis using q is_at_deleted [OF q(2)]
      by (intro disjI2 exI [of _ q] exI [of _ "[]"]) (simp add: kvmemPrevLive.simps [of pos])
  next
    case False
    have n: "kvmemPrevLive pos = kvmemPrevLive q" using q is_at_deleted [OF q(2)] False
      by (simp add: kvmemPrevLive.simps [of pos])
    from snoc.IH [OF q(2)] show ?thesis
    proof
      assume "\<exists>pos' us r' vs. xs = vs @ r' # us \<and> live r' \<and> (\<forall>y \<in> set us. \<not> live y)
         \<and> kvmemPrevLive q = Some pos' \<and> is_at t pos' vs r' (us @ x # r # ys)"
      then obtain pos' us r' vs where "xs = vs @ r' # us" "live r'" "\<forall>y \<in> set us. \<not> live y"
         "kvmemPrevLive q = Some pos'" "is_at t pos' vs r' (us @ x # r # ys)" by blast
      then show ?thesis using n False
        by (intro disjI2 exI [of _ pos'] exI [of _ "us @ [x]"] exI [of _ r'] exI [of _ vs]) auto
    qed (use n False in simp)
  qed
qed

subsection \<open>Seeking\<close>

text \<open>The loop of \<open>kvmemSeek\<close>, with \<open>pBest\<close> and \<open>rc\<close> as its accumulators.\<close>

fun seekLoop :: "bytes \<Rightarrow> int \<Rightarrow> kvtree \<Rightarrow> kvframe list \<Rightarrow> kvpos option \<times> int \<Rightarrow> kvpos option \<times> int" where
  "seekLoop k direction KLeaf fs best = best"
| "seekLoop k direction (KNode b n a) fs best =
     (let c = kvmemKeyCompare k (nd_aKey n); here = Some (KNode b n a, fs) in
      if c = 0 then (here, SQLITE4_OK)
      else if c > 0 then
        seekLoop k direction a (InAfter b n # fs) (if direction < 0 then (here, SQLITE4_INEXACT) else best)
      else
        seekLoop k direction b (InBefore n a # fs) (if direction > 0 then (here, SQLITE4_INEXACT) else best))"

definition seek_up_result :: "kvtree \<Rightarrow> bytes \<Rightarrow> kvpos option \<times> int \<Rightarrow> bool" where
  "seek_up_result t k res \<longleftrightarrow>
     res = (None, SQLITE4_NOTFOUND) \<and> (\<forall>x \<in> set (rows t). fst x < k)
     \<or> (\<exists>pos xs r ys. res = (Some pos, if fst r = k then SQLITE4_OK else SQLITE4_INEXACT) \<and> is_at t pos xs r ys
          \<and> (\<forall>x \<in> set xs. fst x < k) \<and> k \<le> fst r)"

definition seek_down_result :: "kvtree \<Rightarrow> bytes \<Rightarrow> kvpos option \<times> int \<Rightarrow> bool" where
  "seek_down_result t k res \<longleftrightarrow>
     res = (None, SQLITE4_NOTFOUND) \<and> (\<forall>x \<in> set (rows t). k < fst x)
     \<or> (\<exists>pos xs r ys. res = (Some pos, if fst r = k then SQLITE4_OK else SQLITE4_INEXACT) \<and> is_at t pos xs r ys
          \<and> (\<forall>x \<in> set ys. k < fst x) \<and> fst r \<le> k)"

definition seek_exact_result :: "kvtree \<Rightarrow> bytes \<Rightarrow> kvpos option \<times> int \<Rightarrow> bool" where
  "seek_exact_result t k res \<longleftrightarrow>
     res = (None, SQLITE4_NOTFOUND) \<and> map_of (rows t) k = None
     \<or> (\<exists>pos xs d ys. res = (Some pos, SQLITE4_OK) \<and> is_at t pos xs (k, d) ys \<and> map_of (rows t) k = Some d)"

lemma sorted_rows_node:
  assumes "sorted_keys (rows (KNode b n a))"
  shows "sorted_keys (rows b)" "sorted_keys (rows a)"
    "\<forall>x \<in> set (rows b). fst x < nd_aKey n" "\<forall>x \<in> set (rows a). nd_aKey n < fst x"
  using assms by (auto simp: sorted_keys_append sorted_keys_Cons)

lemma seekLoop_step:
  "k < nd_aKey n \<Longrightarrow> seekLoop k direction (KNode b n a) fs best =
     seekLoop k direction b (InBefore n a # fs) (if direction > 0 then (Some (KNode b n a, fs), SQLITE4_INEXACT) else best)"
  "nd_aKey n < k \<Longrightarrow> seekLoop k direction (KNode b n a) fs best =
     seekLoop k direction a (InAfter b n # fs) (if direction < 0 then (Some (KNode b n a, fs), SQLITE4_INEXACT) else best)"
  "k = nd_aKey n \<Longrightarrow> seekLoop k direction (KNode b n a) fs best = (Some (KNode b n a, fs), SQLITE4_OK)"
  using kvmemKeyCompare_less [of k "nd_aKey n"] kvmemKeyCompare_greater [of k "nd_aKey n"]
  by (auto simp: Let_def)

lemma seek_up_found:
  "is_at t pos xs r ys \<Longrightarrow> \<forall>x \<in> set xs. fst x < k \<Longrightarrow> k \<le> fst r \<Longrightarrow>
     rc = (if fst r = k then SQLITE4_OK else SQLITE4_INEXACT) \<Longrightarrow> seek_up_result t k (Some pos, rc)"
  unfolding seek_up_result_def by blast

lemma seek_down_found:
  "is_at t pos xs r ys \<Longrightarrow> \<forall>x \<in> set ys. k < fst x \<Longrightarrow> fst r \<le> k \<Longrightarrow>
     rc = (if fst r = k then SQLITE4_OK else SQLITE4_INEXACT) \<Longrightarrow> seek_down_result t k (Some pos, rc)"
  unfolding seek_down_result_def by blast

lemma seekLoop_up:
  assumes "sorted_keys (rows t)" "plug_all fs t = t0" "direction > 0"
    "\<forall>x \<in> set (rows_before fs). fst x < k" "\<forall>x \<in> set (rows_after fs). k < fst x"
    "best = (None, SQLITE4_NOTFOUND) \<and> rows_after fs = []
     \<or> (\<exists>pos r ys. best = (Some pos, SQLITE4_INEXACT) \<and> rows_after fs = r # ys \<and> is_at t0 pos (rows_before fs @ rows t) r ys)"
  shows "seek_up_result t0 k (seekLoop k direction t fs best)"
  using assms
proof (induction t arbitrary: fs best)
  case KLeaf
  then have t0: "rows t0 = rows_before fs @ rows_after fs" using rows_plug_all [of fs KLeaf] by simp
  from KLeaf.prems(6) show ?case
  proof
    assume "best = (None, SQLITE4_NOTFOUND) \<and> rows_after fs = []"
    then show ?thesis using t0 KLeaf.prems(4) by (simp add: seek_up_result_def)
  next
    assume "\<exists>pos r ys. best = (Some pos, SQLITE4_INEXACT) \<and> rows_after fs = r # ys
      \<and> is_at t0 pos (rows_before fs @ rows KLeaf) r ys"
    then obtain pos r ys where b: "best = (Some pos, SQLITE4_INEXACT)" "rows_after fs = r # ys"
      "is_at t0 pos (rows_before fs) r ys" by auto
    then have "k < fst r" using KLeaf.prems(5) by simp
    then show ?thesis using b KLeaf.prems(4) by (auto intro!: seek_up_found [of t0 pos "rows_before fs" r ys])
  qed
next
  case (KNode b n a)
  note s = sorted_rows_node [OF KNode.prems(1)]
  have here: "is_at t0 (KNode b n a, fs) (rows_before fs @ rows b) (row n) (rows a @ rows_after fs)"
    using is_at_self [of fs b n a] KNode.prems(2) by simp
  consider "k < nd_aKey n" | "nd_aKey n < k" | "k = nd_aKey n" by fastforce
  then show ?case
  proof cases
    case 1
    have "seek_up_result t0 k
        (seekLoop k direction b (InBefore n a # fs) (Some (KNode b n a, fs), SQLITE4_INEXACT))"
      using 1 s KNode.prems(2-5) here by (intro KNode.IH(1)) (auto intro: less_trans)
    then show ?thesis using 1 KNode.prems(3) by (simp add: seekLoop_step del: seekLoop.simps(2))
  next
    case 2
    have "seek_up_result t0 k (seekLoop k direction a (InAfter b n # fs) best)"
      using 2 s KNode.prems(2-6) by (intro KNode.IH(2)) (auto intro: less_trans)
    then show ?thesis using 2 KNode.prems(3) by (simp add: seekLoop_step del: seekLoop.simps(2))
  next
    case 3
    then show ?thesis using s KNode.prems(4)
      by (simp only: seekLoop_step) (rule seek_up_found [OF here]; simp add: ball_Un)
  qed
qed

lemma seekLoop_down:
  assumes "sorted_keys (rows t)" "plug_all fs t = t0" "direction < 0"
    "\<forall>x \<in> set (rows_before fs). fst x < k" "\<forall>x \<in> set (rows_after fs). k < fst x"
    "best = (None, SQLITE4_NOTFOUND) \<and> rows_before fs = []
     \<or> (\<exists>pos r xs. best = (Some pos, SQLITE4_INEXACT) \<and> rows_before fs = xs @ [r] \<and> is_at t0 pos xs r (rows t @ rows_after fs))"
  shows "seek_down_result t0 k (seekLoop k direction t fs best)"
  using assms
proof (induction t arbitrary: fs best)
  case KLeaf
  then have t0: "rows t0 = rows_before fs @ rows_after fs" using rows_plug_all [of fs KLeaf] by simp
  from KLeaf.prems(6) show ?case
  proof
    assume "best = (None, SQLITE4_NOTFOUND) \<and> rows_before fs = []"
    then show ?thesis using t0 KLeaf.prems(5) by (simp add: seek_down_result_def)
  next
    assume "\<exists>pos r xs. best = (Some pos, SQLITE4_INEXACT) \<and> rows_before fs = xs @ [r]
      \<and> is_at t0 pos xs r (rows KLeaf @ rows_after fs)"
    then obtain pos r xs where b: "best = (Some pos, SQLITE4_INEXACT)" "rows_before fs = xs @ [r]"
      "is_at t0 pos xs r (rows_after fs)" by auto
    then have "fst r < k" using KLeaf.prems(4) by simp
    then show ?thesis using b KLeaf.prems(5) by (auto intro!: seek_down_found [of t0 pos xs r "rows_after fs"])
  qed
next
  case (KNode b n a)
  note s = sorted_rows_node [OF KNode.prems(1)]
  have here: "is_at t0 (KNode b n a, fs) (rows_before fs @ rows b) (row n) (rows a @ rows_after fs)"
    using is_at_self [of fs b n a] KNode.prems(2) by simp
  consider "k < nd_aKey n" | "nd_aKey n < k" | "k = nd_aKey n" by fastforce
  then show ?case
  proof cases
    case 1
    have "seek_down_result t0 k (seekLoop k direction b (InBefore n a # fs) best)"
      using 1 s KNode.prems(2-6) by (intro KNode.IH(1)) (auto intro: less_trans)
    then show ?thesis using 1 KNode.prems(3) by (simp add: seekLoop_step del: seekLoop.simps(2))
  next
    case 2
    have "seek_down_result t0 k
        (seekLoop k direction a (InAfter b n # fs) (Some (KNode b n a, fs), SQLITE4_INEXACT))"
      using 2 s KNode.prems(2-5) here by (intro KNode.IH(2)) (auto intro: less_trans)
    then show ?thesis using 2 KNode.prems(3) by (simp add: seekLoop_step del: seekLoop.simps(2))
  next
    case 3
    then show ?thesis using s KNode.prems(5)
      by (simp only: seekLoop_step) (rule seek_down_found [OF here]; simp add: ball_Un)
  qed
qed

lemma seekLoop_exact:
  assumes "sorted_keys (rows t)"
  shows "seek_exact_result t k (seekLoop k 0 t [] (None, SQLITE4_NOTFOUND))"
proof -
  have "seekLoop k 0 u fs (None, SQLITE4_NOTFOUND) =
      (case kvmemFind k u fs of (KLeaf, gs) \<Rightarrow> (None, SQLITE4_NOTFOUND) | pos \<Rightarrow> (Some pos, SQLITE4_OK))" for u fs
    by (induction k u fs rule: kvmemFind.induct) (auto simp: Let_def)
  then have e: "seekLoop k 0 t [] (None, SQLITE4_NOTFOUND) =
      (case kvmemFind k t [] of (KLeaf, gs) \<Rightarrow> (None, SQLITE4_NOTFOUND) | pos \<Rightarrow> (Some pos, SQLITE4_OK))" .
  from assms show ?thesis
  proof (cases rule: kvmemFind_cases [where k = k])
    case (found b n a fs)
    then show ?thesis using e is_at_self [of fs b n a] unfolding seek_exact_result_def
      by (auto intro!: exI [of _ "(KNode b n a, fs)"])
  qed (simp add: e seek_exact_result_def)
qed

subsection \<open>The contents of a tree\<close>

fun live_rows :: "kvrow list \<Rightarrow> (bytes \<times> bytes) list" where
  "live_rows [] = []"
| "live_rows ((k, d, mx) # rs) = (case d of None \<Rightarrow> live_rows rs | Some v \<Rightarrow> (k, v) # live_rows rs)"

lemma live_rows_append [simp]: "live_rows (xs @ ys) = live_rows xs @ live_rows ys"
  by (induction xs rule: live_rows.induct) (auto split: option.splits)

lemma live_rows_dead: "\<forall>x \<in> set xs. \<not> live x \<Longrightarrow> live_rows xs = []"
  by (induction xs rule: live_rows.induct) auto

lemma live_rows_keys: "(k, v) \<in> set (live_rows xs) \<Longrightarrow> \<exists>mx. (k, Some v, mx) \<in> set xs"
  by (induction xs rule: live_rows.induct) (auto split: option.splits)

lemma sorted_live_rows [simp]: "sorted_keys rs \<Longrightarrow> sorted_keys (live_rows rs)"
  by (induction rs rule: live_rows.induct)
     (auto simp: sorted_keys_Cons split: option.splits dest!: live_rows_keys)

lemma live_rows_none: "k \<notin> fst ` set rs \<Longrightarrow> k \<notin> fst ` set (live_rows rs)"
  by (force dest: live_rows_keys)

lemma map_of_live_rows:
  "sorted_keys rs \<Longrightarrow> map_of (live_rows rs) k = (case map_of rs k of Some (Some v, mx) \<Rightarrow> Some v | _ \<Rightarrow> None)"
proof (induction rs rule: live_rows.induct)
  case (2 k' d mx rs)
  have "k \<notin> fst ` set rs" if "k = k'"
    using "2.prems" that fst_less_neq(2) [of rs k] by (simp add: sorted_keys_Cons)
  then have "map_of (live_rows rs) k = None" if "k = k'"
    using that live_rows_none [of k rs] by (simp add: map_of_eq_None_iff)
  then show ?case using 2 by (auto simp: sorted_keys_Cons split: option.splits)
qed simp

lemma live_rows_del: "live_rows (kv_del k rs) = kv_del k (live_rows rs)"
  by (induction rs rule: live_rows.induct) (auto simp: kv_del_def split: option.splits)

lemma sorted_keys_ext:
  assumes "sorted_keys xs" "sorted_keys ys" "map_of xs = map_of ys"
  shows "xs = ys"
proof -
  have d: "distinct (map fst zs)" if "sorted_keys zs" for zs :: "(bytes \<times> 'b) list"
    using that unfolding sorted_keys_def by (metis strict_sorted_iff)
  have s: "sorted (map fst zs)" if "sorted_keys zs" for zs :: "(bytes \<times> 'b) list"
    using that unfolding sorted_keys_def by (metis strict_sorted_iff)
  have "set xs = set ys" using assms(3) d [OF assms(1)] d [OF assms(2)]
    by (metis map_of_inject_set)
  then show ?thesis using map_sorted_distinct_set_unique [OF _ s [OF assms(1)] d [OF assms(1)] s [OF assms(2)] d [OF assms(2)]]
    d [OF assms(1)] d [OF assms(2)] by (metis (no_types, lifting) eq_key_imp_eq_value inj_on_def prod.collapse Un_absorb)
qed

lemma live_rows_put_some: "sorted_keys rs \<Longrightarrow> live_rows (kv_put k (Some v, mx) rs) = kv_put k v (live_rows rs)"
  by (rule sorted_keys_ext) (auto simp: map_of_live_rows fun_eq_iff)

lemma live_rows_put_none: "sorted_keys rs \<Longrightarrow> live_rows (kv_put k (None, mx) rs) = kv_del k (live_rows rs)"
  by (rule sorted_keys_ext) (auto simp: map_of_live_rows fun_eq_iff)

subsection \<open>The height of a balanced tree\<close>

lemma avl_height: "avl t \<Longrightarrow> 2 ^ (ht t div 2) \<le> length (rows t) + 1"
proof (induction t)
  case (KNode b n a)
  let ?h = "ht (KNode b n a)"
  have h: "?h \<le> ht b + 2" "?h \<le> ht a + 2" using KNode.prems by auto
  have p: "(2 :: nat) ^ (?h div 2) \<le> 2 * 2 ^ (h' div 2)" if "?h \<le> h' + 2" for h'
  proof -
    have "?h div 2 \<le> Suc (h' div 2)" using that by linarith
    then show ?thesis using power_increasing [of "?h div 2" "Suc (h' div 2)" "2 :: nat"] by simp
  qed
  have ih: "2 ^ (ht b div 2) \<le> length (rows b) + 1" "2 ^ (ht a div 2) \<le> length (rows a) + 1"
    using KNode by auto
  have "x \<le> 2 * y \<Longrightarrow> x \<le> 2 * z \<Longrightarrow> y \<le> u + 1 \<Longrightarrow> z \<le> v + 1 \<Longrightarrow> x \<le> u + Suc v + 1" for x y z u v :: nat
    by linarith
  from this [OF p [OF h(1)] p [OF h(2)] ih] show ?case by simp
qed simp

end
