(* ===== verification/KvMem.thy ===== *)
theory KvMem
  imports KvTree
begin

unbundle bit_operations_syntax

text \<open>
  The in-memory storage engine of \<open>kvmem.c\<close>: the tree of \<open>KvTree\<close> with its transaction
  logs and cursors. A pointer to a node (in a cursor or a log record) is the key of the node,
  which identifies it while it is in the tree; following it after the node was taken out of
  the tree is \<open>None\<close>, and so is a failed \<open>assert\<close>. (A cursor whose node was taken out and whose
  key was then inserted again stands on the new node here, and on the old one in C.) A cursor
  keeps the data it had when it was placed, and no operation on it looks at the transaction level. Allocation is taken to succeed, and the \<open>short int\<close> that holds a
  transaction level to be wide enough.
\<close>

subsection \<open>State\<close>

record KVMemChng =
  ch_pNode :: bytes
  ch_pData :: "bytes option"
  ch_oldTrans :: nat

record KVMem =
  pRoot :: kvtree
  openFlags :: u32
  apLog :: "KVMemChng list list"
  nCursor :: int
  iTransLevel :: nat
  iMeta :: u32

record KVMemCursor =
  cur_pNode :: "bytes option"
  cur_pData :: "bytes option"

definition SQLITE4_KVOPEN_NO_TRANSACTIONS :: u32 where
  "SQLITE4_KVOPEN_NO_TRANSACTIONS = 0x00020000"

definition kvmemTransactional :: "KVMem \<Rightarrow> bool" where
  "kvmemTransactional p \<longleftrightarrow> openFlags p AND SQLITE4_KVOPEN_NO_TRANSACTIONS = 0"

definition sqlite4KVStoreOpenMem :: "u32 \<Rightarrow> KVMem" where
  "sqlite4KVStoreOpenMem flags =
     \<lparr>pRoot = KLeaf, openFlags = flags, apLog = [], nCursor = 0, iTransLevel = 0, iMeta = 0\<rparr>"

subsection \<open>Changes\<close>

definition kvmemNewChng :: "KVMem \<Rightarrow> KVMemNode \<Rightarrow> (KVMem \<times> KVMemNode) option" where
  "kvmemNewChng p n =
     (if iTransLevel p < 2 \<or> length (apLog p) \<le> iTransLevel p - 2 then None
      else let i = iTransLevel p - 2;
               pChng = \<lparr>ch_pNode = nd_aKey n, ch_pData = nd_pData n, ch_oldTrans = nd_mxTrans n\<rparr> in
        Some (p\<lparr>apLog := (apLog p)[i := pChng # apLog p ! i]\<rparr>,
              n\<lparr>nd_mxTrans := iTransLevel p, nd_pData := None\<rparr>))"

definition kvmemNewNode :: "KVMem \<Rightarrow> bytes \<Rightarrow> (KVMem \<times> KVMemNode) option" where
  "kvmemNewNode p aKey =
     (let n = \<lparr>nd_pData = None, nd_height = 0, nd_imbalance = 0, nd_mxTrans = 0, nd_aKey = aKey\<rparr> in
      if iTransLevel p < 2 then None
      else if kvmemTransactional p then kvmemNewChng p n
      else Some (p, n))"

definition kvmemReplace :: "KVMem \<Rightarrow> bytes \<Rightarrow> bytes \<Rightarrow> (int \<times> KVMem) option" where
  "kvmemReplace p aKey aData =
     (if iTransLevel p < 2 then None
      else case kvmemFind aKey (pRoot p) [] of
        (KLeaf, fs) \<Rightarrow>
          do { (p, pNew) \<leftarrow> kvmemNewNode p aKey;
               t \<leftarrow> insertAt (pNew\<lparr>nd_pData := Some aData\<rparr>) fs;
               Some (SQLITE4_OK, p\<lparr>pRoot := t\<rparr>) }
      | (KNode b n a, fs) \<Rightarrow>
          do { (p, n) \<leftarrow> (if kvmemTransactional p \<and> nd_mxTrans n \<noteq> iTransLevel p then kvmemNewChng p n
                           else Some (p, n));
               Some (SQLITE4_OK, p\<lparr>pRoot := plug_all fs (KNode b (n\<lparr>nd_pData := Some aData\<rparr>) a)\<rparr>) })"

subsection \<open>Transactions\<close>

definition kvmemBegin :: "KVMem \<Rightarrow> nat \<Rightarrow> (int \<times> KVMem) option" where
  "kvmemBegin p iLevel =
     (if \<not> (0 < iLevel \<and> (iLevel = 2 \<or> iLevel = iTransLevel p + 1)) then None
      else if iLevel \<ge> 2 then
        (if length (apLog p) < iLevel - 2 then None
         else Some (SQLITE4_OK, p\<lparr>apLog := take (iLevel - 2) (apLog p) @ [[]], iTransLevel := iLevel\<rparr>))
      else Some (SQLITE4_OK, p\<lparr>iTransLevel := iLevel\<rparr>))"

definition kvmemCommitPhaseOne :: "KVMem \<Rightarrow> nat \<Rightarrow> (int \<times> KVMem) option" where
  "kvmemCommitPhaseOne p iLevel = Some (SQLITE4_OK, p)"

text \<open>
  One pass of the loop of \<open>kvmemCommitPhaseTwo\<close> over the log of the current level: when the
  changes become permanent, and when they join those of the enclosing transaction.
\<close>

fun commitFinal :: "kvtree \<Rightarrow> KVMemChng list \<Rightarrow> kvtree option" where
  "commitFinal t [] = Some t"
| "commitFinal t (c # cs) =
     (case kvmemFind (ch_pNode c) t [] of
        (KLeaf, fs) \<Rightarrow> None
      | (KNode b n a, fs) \<Rightarrow>
          do { t \<leftarrow> (if nd_pData n \<noteq> None
                      then Some (plug_all fs (KNode b (n\<lparr>nd_mxTrans := ch_oldTrans c\<rparr>) a))
                      else kvmemRemoveNode t (ch_pNode c));
               commitFinal t cs })"

fun commitInto :: "nat \<Rightarrow> kvtree \<Rightarrow> KVMemChng list \<Rightarrow> kvtree option" where
  "commitInto l t [] = Some t"
| "commitInto l t (c # cs) =
     (case kvmemFind (ch_pNode c) t [] of
        (KLeaf, fs) \<Rightarrow> None
      | (KNode b n a, fs) \<Rightarrow>
          if nd_mxTrans n = l \<or> nd_mxTrans n = l - 1
          then commitInto l (plug_all fs (KNode b (n\<lparr>nd_mxTrans := l - 1\<rparr>) a)) cs
          else None)"

fun commitLoop :: "nat \<Rightarrow> nat \<Rightarrow> KVMem \<Rightarrow> KVMem option" where
  "commitLoop iLevel 0 p = Some p"
| "commitLoop iLevel (Suc l) p =
     (if Suc l > iLevel \<and> Suc l > 1 then
        if length (apLog p) \<le> Suc l - 2 then None
        else do {
          p \<leftarrow> (if iLevel < 2 then
                   do { t \<leftarrow> commitFinal (pRoot p) (apLog p ! (Suc l - 2)); Some (p\<lparr>pRoot := t\<rparr>) }
                 else
                   do { t \<leftarrow> commitInto (Suc l) (pRoot p) (apLog p ! (Suc l - 2));
                        Some (p\<lparr>pRoot := t,
                                apLog := (apLog p)[Suc l - 3 := apLog p ! (Suc l - 2) @ apLog p ! (Suc l - 3)]\<rparr>) });
          commitLoop iLevel l (p\<lparr>apLog := (apLog p)[Suc l - 2 := []], iTransLevel := l\<rparr>) }
      else Some p)"

definition kvmemCommitPhaseTwo :: "KVMem \<Rightarrow> nat \<Rightarrow> (int \<times> KVMem) option" where
  "kvmemCommitPhaseTwo p iLevel =
     (if \<not> iLevel < iTransLevel p then None
      else if \<not> kvmemTransactional p then Some (SQLITE4_OK, p)
      else do { p \<leftarrow> commitLoop iLevel (iTransLevel p) p;
                Some (SQLITE4_OK, p\<lparr>iTransLevel := iLevel\<rparr>) })"

fun rollbackLog :: "kvtree \<Rightarrow> KVMemChng list \<Rightarrow> kvtree option" where
  "rollbackLog t [] = Some t"
| "rollbackLog t (c # cs) =
     do { t \<leftarrow> (if ch_pData c \<noteq> None \<or> ch_oldTrans c > 0
                 then kvmemModify (ch_pNode c) (\<lambda>n. n\<lparr>nd_pData := ch_pData c, nd_mxTrans := ch_oldTrans c\<rparr>) t
                 else kvmemRemoveNode t (ch_pNode c));
          rollbackLog t cs }"

fun rollbackLoop :: "nat \<Rightarrow> nat \<Rightarrow> KVMem \<Rightarrow> KVMem option" where
  "rollbackLoop iLevel 0 p = Some p"
| "rollbackLoop iLevel (Suc l) p =
     (if Suc l > iLevel \<and> Suc l > 1 then
        if length (apLog p) \<le> Suc l - 2 then None
        else do { t \<leftarrow> rollbackLog (pRoot p) (apLog p ! (Suc l - 2));
                  rollbackLoop iLevel l
                    (p\<lparr>pRoot := t, apLog := (apLog p)[Suc l - 2 := []], iTransLevel := l\<rparr>) }
      else Some p)"

definition kvmemRollback :: "KVMem \<Rightarrow> nat \<Rightarrow> (int \<times> KVMem) option" where
  "kvmemRollback p iLevel =
     (if \<not> kvmemTransactional p then Some (SQLITE4_OK, p)
      else do { p \<leftarrow> rollbackLoop iLevel (iTransLevel p) p;
                Some (SQLITE4_OK, p\<lparr>iTransLevel := iLevel\<rparr>) })"

definition kvmemRevert :: "KVMem \<Rightarrow> nat \<Rightarrow> (int \<times> KVMem) option" where
  "kvmemRevert p iLevel =
     do { (rc, p) \<leftarrow> kvmemRollback p (iLevel - 1);
          if rc = SQLITE4_OK then kvmemBegin p iLevel else Some (rc, p) }"

subsection \<open>Cursors\<close>

definition kvmemOpenCursor :: "KVMem \<Rightarrow> int \<times> KVMem \<times> KVMemCursor" where
  "kvmemOpenCursor p = (SQLITE4_OK, p\<lparr>nCursor := nCursor p + 1\<rparr>, \<lparr>cur_pNode = None, cur_pData = None\<rparr>)"

definition kvmemReset :: "KVMem \<Rightarrow> KVMemCursor \<Rightarrow> int \<times> KVMemCursor" where
  "kvmemReset p pCur = (SQLITE4_OK, \<lparr>cur_pNode = None, cur_pData = None\<rparr>)"

definition kvmemCloseCursor :: "KVMem \<Rightarrow> KVMemCursor \<Rightarrow> int \<times> KVMem" where
  "kvmemCloseCursor p pCur = (SQLITE4_OK, p\<lparr>nCursor := nCursor p - 1\<rparr>)"

definition kvmemPointAt :: "kvpos option \<Rightarrow> KVMemCursor" where
  "kvmemPointAt pos =
     (case pos of
        None \<Rightarrow> \<lparr>cur_pNode = None, cur_pData = None\<rparr>
      | Some (t, fs) \<Rightarrow> \<lparr>cur_pNode = Some (nd_aKey (kvnode t)), cur_pData = nd_pData (kvnode t)\<rparr>)"

definition kvmemStep ::
  "(kvpos \<Rightarrow> kvpos option) \<Rightarrow> KVMem \<Rightarrow> KVMemCursor \<Rightarrow> (int \<times> KVMemCursor) option" where
  "kvmemStep move p pCur =
     (case cur_pNode pCur of
        None \<Rightarrow> Some (SQLITE4_NOTFOUND, kvmemPointAt None)
      | Some k \<Rightarrow>
          (case kvmemFind k (pRoot p) [] of
             (KLeaf, fs) \<Rightarrow> None
           | pos \<Rightarrow> let pos = move pos in
               Some (if pos \<noteq> None then SQLITE4_OK else SQLITE4_NOTFOUND, kvmemPointAt pos)))"

definition kvmemNextEntry :: "KVMem \<Rightarrow> KVMemCursor \<Rightarrow> (int \<times> KVMemCursor) option" where
  "kvmemNextEntry = kvmemStep kvmemNextLive"

definition kvmemPrevEntry :: "KVMem \<Rightarrow> KVMemCursor \<Rightarrow> (int \<times> KVMemCursor) option" where
  "kvmemPrevEntry = kvmemStep kvmemPrevLive"

definition kvmemSeek :: "KVMem \<Rightarrow> KVMemCursor \<Rightarrow> bytes \<Rightarrow> int \<Rightarrow> (int \<times> KVMemCursor) option" where
  "kvmemSeek p pCur aKey direction =
     (let (pBest, rc) = seekLoop aKey direction (pRoot p) [] (None, SQLITE4_NOTFOUND);
          pCur = kvmemPointAt pBest in
      if pBest \<noteq> None \<and> cur_pData pCur = None then
        if direction = 0 then Some (SQLITE4_NOTFOUND, pCur)
        else do { (rc, pCur) \<leftarrow> (if direction > 0 then kvmemNextEntry else kvmemPrevEntry) p pCur;
                  Some (if rc \<noteq> SQLITE4_OK then SQLITE4_NOTFOUND else SQLITE4_INEXACT, pCur) }
      else Some (rc, pCur))"

definition kvmemDelete :: "KVMem \<Rightarrow> KVMemCursor \<Rightarrow> (int \<times> KVMem \<times> KVMemCursor) option" where
  "kvmemDelete p pCur =
     (if iTransLevel p < 2 then None
      else case cur_pNode pCur of
        None \<Rightarrow> Some (SQLITE4_OK, p, pCur)
      | Some k \<Rightarrow>
          if \<not> kvmemTransactional p then
            do { t \<leftarrow> kvmemRemoveNode (pRoot p) k;
                 Some (SQLITE4_OK, p\<lparr>pRoot := t\<rparr>, pCur\<lparr>cur_pNode := None\<rparr>) }
          else case kvmemFind k (pRoot p) [] of
            (KLeaf, fs) \<Rightarrow> Some (SQLITE4_OK, p, pCur)
          | (KNode b n a, fs) \<Rightarrow>
              if nd_pData n = None then Some (SQLITE4_OK, p, pCur)
              else if nd_mxTrans n < iTransLevel p then
                do { (p, n) \<leftarrow> kvmemNewChng p n;
                     Some (SQLITE4_OK, p\<lparr>pRoot := plug_all fs (KNode b n a)\<rparr>, pCur) }
              else Some (SQLITE4_OK, p\<lparr>pRoot := plug_all fs (KNode b (n\<lparr>nd_pData := None\<rparr>) a)\<rparr>, pCur))"

definition kvmemKey :: "KVMem \<Rightarrow> KVMemCursor \<Rightarrow> int \<times> bytes" where
  "kvmemKey p pCur = (case cur_pNode pCur of None \<Rightarrow> (SQLITE4_DONE, []) | Some k \<Rightarrow> (SQLITE4_OK, k))"

definition kvmemData :: "KVMem \<Rightarrow> KVMemCursor \<Rightarrow> nat \<Rightarrow> int \<times> bytes" where
  "kvmemData p pCur ofst =
     (case cur_pData pCur of None \<Rightarrow> (SQLITE4_DONE, []) | Some d \<Rightarrow> (SQLITE4_OK, drop ofst d))"

subsection \<open>The rest of the interface\<close>

definition kvmemClose :: "KVMem option \<Rightarrow> int option" where
  "kvmemClose pKVStore =
     (case pKVStore of
        None \<Rightarrow> Some SQLITE4_OK
      | Some p \<Rightarrow>
          if nCursor p \<noteq> 0 then None
          else if iTransLevel p \<noteq> 0
          then do { (_, p) \<leftarrow> kvmemCommitPhaseOne p 0; _ \<leftarrow> kvmemCommitPhaseTwo p 0; Some SQLITE4_OK }
          else Some SQLITE4_OK)"

definition kvmemGetMeta :: "KVMem \<Rightarrow> int \<times> u32" where
  "kvmemGetMeta p = (SQLITE4_OK, iMeta p)"

definition kvmemPutMeta :: "KVMem \<Rightarrow> u32 \<Rightarrow> int \<times> KVMem" where
  "kvmemPutMeta p iVal = (SQLITE4_OK, p\<lparr>iMeta := iVal\<rparr>)"

definition kvmemMethods :: "(KVMem, KVMemCursor) KVStoreMethods" where
  "kvmemMethods =
     \<lparr>xReplace = kvmemReplace, xOpenCursor = kvmemOpenCursor, xSeek = kvmemSeek,
      xNext = kvmemNextEntry, xPrev = kvmemPrevEntry, xDelete = kvmemDelete,
      xKey = kvmemKey, xData = (\<lambda>p pCur. kvmemData p pCur 0), xReset = kvmemReset,
      xCloseCursor = kvmemCloseCursor, xBegin = kvmemBegin,
      xCommitPhaseOne = Some kvmemCommitPhaseOne, xCommitPhaseTwo = kvmemCommitPhaseTwo,
      xRollback = kvmemRollback, xRevert = Some kvmemRevert,
      xGetMeta = kvmemGetMeta, xPutMeta = kvmemPutMeta, kv_iTransLevel = iTransLevel\<rparr>"

subsection \<open>The store as a map\<close>

text \<open>What the operations do to the map from keys to data and transaction level.\<close>

type_synonym kvmap = "bytes \<Rightarrow> (bytes option \<times> nat) option"

definition tree_ok :: "kvtree \<Rightarrow> bool" where
  "tree_ok t \<longleftrightarrow> avl t \<and> sorted_keys (rows t)"

definition tmap :: "kvtree \<Rightarrow> kvmap" where
  "tmap t = map_of (rows t)"

definition kvmem_contents :: "KVMem \<Rightarrow> (bytes \<times> bytes) list" where
  "kvmem_contents p = live_rows (rows (pRoot p))"

text \<open>The data a map shows to a reader.\<close>

definition view :: "kvmap \<Rightarrow> bytes \<Rightarrow> bytes option" where
  "view M k = (case M k of Some (d, t) \<Rightarrow> d | None \<Rightarrow> None)"

lemma map_of_contents: "tree_ok (pRoot p) \<Longrightarrow> map_of (kvmem_contents p) = view (tmap (pRoot p))"
  by (auto simp: fun_eq_iff kvmem_contents_def tree_ok_def tmap_def view_def map_of_live_rows split: option.splits prod.splits)

lemma tmap_put: "sorted_keys (rows t) \<Longrightarrow> rows t' = kv_put k v (rows t) \<Longrightarrow> tmap t' = (tmap t)(k \<mapsto> v)"
  by (auto simp: tmap_def)

lemma tmap_del: "rows t' = kv_del k (rows t) \<Longrightarrow> tmap t' = (tmap t)(k := None)"
  by (auto simp: tmap_def)

text \<open>Finding a key in a good tree, and changing the node found.\<close>

lemma find_cases:
  assumes "tree_ok t"
  obtains (missing) fs where "kvmemFind k t [] = (KLeaf, fs)" "tmap t k = None"
      "\<And>n. nd_aKey n = k \<Longrightarrow> \<exists>t'. insertAt n fs = Some t' \<and> tree_ok t' \<and> rows t' = kv_put k (nd_pData n, nd_mxTrans n) (rows t)"
  | (found) b n a fs where "kvmemFind k t [] = (KNode b n a, fs)" "nd_aKey n = k" "tmap t k = Some (nd_pData n, nd_mxTrans n)"
      "\<And>d m. tree_ok (plug_all fs (KNode b (n\<lparr>nd_pData := d, nd_mxTrans := m\<rparr>) a))"
      "\<And>d m. rows (plug_all fs (KNode b (n\<lparr>nd_pData := d, nd_mxTrans := m\<rparr>) a)) = kv_put k (d, m) (rows t)"
proof -
  have t: "avl t" "sorted_keys (rows t)" using assms by (auto simp: tree_ok_def)
  from t(2) show thesis
  proof (cases rule: kvmemFind_cases [where k = k])
    case (missing fs)
    have "\<exists>t'. insertAt n fs = Some t' \<and> tree_ok t' \<and> rows t' = kv_put k (nd_pData n, nd_mxTrans n) (rows t)"
      if "nd_aKey n = k" for n
      using insertAt_ok [of fs n] missing(2) t missing(4) [of "(nd_pData n, nd_mxTrans n)"] that
      by (auto simp: tree_ok_def) (metis missing(4) sorted_kv_put t(2))
    with missing show thesis by (intro that(1)) (auto simp: tmap_def)
  next
    case (found b n a fs)
    have "avl (KNode b n a)" using avl_plug_all t(1) found(2) by metis
    then have a: "avl (plug_all fs (KNode b (n\<lparr>nd_pData := d, nd_mxTrans := m\<rparr>) a))" for d m
      using t(1) found(2) by (intro avl_plug_all_change [of fs "KNode b n a" "KNode b (n\<lparr>nd_pData := d, nd_mxTrans := m\<rparr>) a"]) auto
    have r: "rows (plug_all fs (KNode b (n\<lparr>nd_pData := d, nd_mxTrans := m\<rparr>) a)) = kv_put k (d, m) (rows t)" for d m
      using found(3) by (simp add: rows_plug_all found(5))
    have "tree_ok (plug_all fs (KNode b (n\<lparr>nd_pData := d, nd_mxTrans := m\<rparr>) a))" for d m
      using a [where d = d and m = m] r [where d = d and m = m] sorted_kv_put [OF t(2)] by (simp add: tree_ok_def del: kv_put.simps)
    with found r show thesis by (intro that(2)) (auto simp: tmap_def)
  qed
qed

lemma change_one:
  "n\<lparr>nd_pData := d\<rparr> = n\<lparr>nd_pData := d, nd_mxTrans := nd_mxTrans n\<rparr>"
  "n\<lparr>nd_mxTrans := m\<rparr> = n\<lparr>nd_pData := nd_pData n, nd_mxTrans := m\<rparr>"
  "n\<lparr>nd_mxTrans := m, nd_pData := d\<rparr> = n\<lparr>nd_pData := d, nd_mxTrans := m\<rparr>"
  by simp_all

lemma remove_ok:
  assumes "tree_ok t" "tmap t k \<noteq> None"
  shows "\<exists>t'. kvmemRemoveNode t k = Some t' \<and> tree_ok t' \<and> rows t' = kv_del k (rows t)"
  using kvmemRemoveNode_ok [of t k] assms sorted_kv_del [of "rows t" k]
  by (auto simp: tree_ok_def tmap_def)

lemma remove_None: "tree_ok t \<Longrightarrow> tmap t k = None \<Longrightarrow> kvmemRemoveNode t k = None"
  using kvmemRemoveNode_None by (auto simp: tree_ok_def tmap_def)

lemma modify_ok:
  assumes "tree_ok t" "tmap t k \<noteq> None"
  shows "\<exists>t'. kvmemModify k (\<lambda>n. n\<lparr>nd_pData := d, nd_mxTrans := m\<rparr>) t = Some t' \<and> tree_ok t' \<and> tmap t' = (tmap t)(k \<mapsto> (d, m))"
  using assms(1)
proof (cases rule: find_cases [where k = k])
  case (found b n a fs)
  then show ?thesis using tmap_put [OF _ found(5) [where d = d and m = m]] assms(1) by (simp add: kvmemModify_def tree_ok_def)
qed (use assms in simp)

lemma modify_None: "tree_ok t \<Longrightarrow> tmap t k = None \<Longrightarrow> kvmemModify k f t = None"
  using kvmemModify_None by (auto simp: tree_ok_def tmap_def)

subsection \<open>Undoing a log\<close>

definition undo_chng :: "kvmap \<Rightarrow> KVMemChng \<Rightarrow> kvmap option" where
  "undo_chng M c =
     (if M (ch_pNode c) = None then None
      else Some (M(ch_pNode c := (if ch_pData c \<noteq> None \<or> ch_oldTrans c > 0
                                  then Some (ch_pData c, ch_oldTrans c) else None))))"

fun undo_log :: "kvmap \<Rightarrow> KVMemChng list \<Rightarrow> kvmap option" where
  "undo_log M [] = Some M"
| "undo_log M (c # cs) = Option.bind (undo_chng M c) (\<lambda>M. undo_log M cs)"

abbreviation log_keys :: "KVMemChng list \<Rightarrow> bytes set" where
  "log_keys cs \<equiv> ch_pNode ` set cs"

lemma rollbackLog_undo:
  assumes "tree_ok t" "undo_log (tmap t) cs = Some M"
  shows "\<exists>t'. rollbackLog t cs = Some t' \<and> tree_ok t' \<and> tmap t' = M"
  using assms
proof (induction cs arbitrary: t)
  case (Cons c cs)
  obtain M1 where M1: "undo_chng (tmap t) c = Some M1" "undo_log M1 cs = Some M"
    using Cons.prems(2) by (auto split: bind_splits)
  have k: "tmap t (ch_pNode c) \<noteq> None" using M1(1) by (auto simp: undo_chng_def split: if_splits)
  show ?case
  proof (cases "ch_pData c \<noteq> None \<or> ch_oldTrans c > 0")
    case True
    then obtain t1 where "kvmemModify (ch_pNode c) (\<lambda>n. n\<lparr>nd_pData := ch_pData c, nd_mxTrans := ch_oldTrans c\<rparr>) t = Some t1"
      "tree_ok t1" "tmap t1 = M1"
      using modify_ok [OF Cons.prems(1) k, where d = "ch_pData c" and m = "ch_oldTrans c"] M1(1) k by (auto simp: undo_chng_def)
    then show ?thesis using Cons.IH [of t1] M1(2) True by simp
  next
    case False
    then obtain t1 where "kvmemRemoveNode t (ch_pNode c) = Some t1" "tree_ok t1" "tmap t1 = M1"
      using remove_ok [OF Cons.prems(1) k] tmap_del M1(1) k by (fastforce simp: undo_chng_def)
    then show ?thesis using Cons.IH [of t1] M1(2) False by auto
  qed
qed simp

lemma undo_log_other: "undo_log M cs = Some M0 \<Longrightarrow> k \<notin> log_keys cs \<Longrightarrow> M0 k = M k"
  by (induction cs arbitrary: M) (fastforce simp: undo_chng_def split: bind_splits if_splits)+

lemma undo_log_append: "undo_log M (xs @ ys) = Option.bind (undo_log M xs) (\<lambda>M. undo_log M ys)"
  by (induction xs arbitrary: M) (auto split: bind_splits)

text \<open>A log does not depend on the values of the nodes it restores.\<close>

lemma undo_log_cong:
  "(\<And>k. M k = M' k \<or> k \<in> log_keys cs \<and> M k \<noteq> None \<and> M' k \<noteq> None) \<Longrightarrow> undo_log M cs = undo_log M' cs"
proof (induction cs arbitrary: M M')
  case Nil
  then show ?case by auto
next
  case (Cons c cs)
  have n: "M (ch_pNode c) = None \<longleftrightarrow> M' (ch_pNode c) = None" using Cons.prems [of "ch_pNode c"] by auto
  let ?u = "\<lambda>M. M(ch_pNode c := (if ch_pData c \<noteq> None \<or> ch_oldTrans c > 0
                                  then Some (ch_pData c, ch_oldTrans c) else None))"
  have "undo_log (?u M) cs = undo_log (?u M') cs"
    using Cons.prems by (intro Cons.IH) (auto simp: fun_upd_def)
  then show ?case using n by (simp add: undo_chng_def)
qed

subsection \<open>The invariant of the transaction logs\<close>

text \<open>
  \<open>hist L M logs saved\<close>: the map at level \<open>L\<close> is \<open>M\<close>, and undoing the log of a level gives
  the map when that level was begun (the head of \<open>saved\<close>). The rows in the log of the current
  level are those marked with that level; below the first write transaction all rows are
  unmarked and none is deleted.
\<close>

fun hist :: "nat \<Rightarrow> kvmap \<Rightarrow> KVMemChng list list \<Rightarrow> kvmap list \<Rightarrow> bool" where
  "hist L M [] Ms \<longleftrightarrow> Ms = [] \<and> L \<le> 1 \<and> (\<forall>k d t. M k = Some (d, t) \<longrightarrow> d \<noteq> None \<and> t = 0)"
| "hist L M (lg # lgs) Ms \<longleftrightarrow>
     L \<ge> 2 \<and> Ms \<noteq> [] \<and> undo_log M lg = Some (hd Ms) \<and> (\<forall>k \<in> log_keys lg. \<exists>d. M k = Some (d, L))
     \<and> hist (L - 1) (hd Ms) lgs (tl Ms)"

definition open_logs :: "KVMem \<Rightarrow> KVMemChng list list" where
  "open_logs p = rev (take (iTransLevel p - 1) (apLog p))"

definition kv_inv :: "KVMem \<Rightarrow> kvmap list \<Rightarrow> bool" where
  "kv_inv p Ms \<longleftrightarrow> tree_ok (pRoot p) \<and> kvmemTransactional p \<and> iTransLevel p - 1 \<le> length (apLog p)
     \<and> hist (iTransLevel p) (tmap (pRoot p)) (open_logs p) Ms"

lemma hist_marks:
  "hist L M lgs Ms \<Longrightarrow> M k = Some (d, t) \<Longrightarrow>
     t \<le> L \<and> t \<noteq> 1 \<and> (t = 0 \<longrightarrow> d \<noteq> None) \<and> (lgs \<noteq> [] \<and> t = L \<longrightarrow> k \<in> log_keys (hd lgs))"
proof (induction L M lgs Ms arbitrary: d t rule: hist.induct)
  case (2 L M lg lgs Ms)
  show ?case
  proof (cases "k \<in> log_keys lg")
    case True
    then show ?thesis using "2.prems" by auto
  next
    case False
    then have "hd Ms k = Some (d, t)" using "2.prems" undo_log_other [of M lg "hd Ms" k] by auto
    then have "t \<le> L - 1 \<and> t \<noteq> 1 \<and> (t = 0 \<longrightarrow> d \<noteq> None)" using "2.IH" "2.prems"(1) by auto
    then show ?thesis using "2.prems"(1) by auto
  qed
qed auto

lemma hist_new:
  assumes "hist L M (lg # lgs) Ms" "M k = None"
  shows "hist L (M(k \<mapsto> (d, L))) ((\<lparr>ch_pNode = k, ch_pData = None, ch_oldTrans = 0\<rparr> # lg) # lgs) Ms"
proof -
  have "M(k := None) = M" using assms(2) by auto
  then show ?thesis using assms by (auto simp: undo_chng_def)
qed

lemma hist_mark:
  assumes "hist L M (lg # lgs) Ms" "M k = Some (d0, t)" "t \<noteq> L"
  shows "hist L (M(k \<mapsto> (d, L))) ((\<lparr>ch_pNode = k, ch_pData = d0, ch_oldTrans = t\<rparr> # lg) # lgs) Ms"
proof -
  have "d0 \<noteq> None \<or> t > 0" using hist_marks [OF assms(1,2)] by auto
  moreover have "M(k \<mapsto> (d0, t)) = M" using assms(2) by auto
  ultimately show ?thesis using assms by (auto simp: undo_chng_def)
qed

lemma hist_again:
  assumes "hist L M (lg # lgs) Ms" "M k = Some (d0, L)"
  shows "hist L (M(k \<mapsto> (d, L))) (lg # lgs) Ms"
proof -
  have "k \<in> log_keys lg" using hist_marks [OF assms] assms(1) by auto
  then have "undo_log (M(k \<mapsto> (d, L))) lg = undo_log M lg"
    using assms by (intro undo_log_cong) auto
  then show ?thesis using assms by auto
qed

lemma open_logs_Cons:
  assumes "iTransLevel p \<ge> 2" "iTransLevel p - 1 \<le> length (apLog p)"
  shows "open_logs p = apLog p ! (iTransLevel p - 2) # rev (take (iTransLevel p - 2) (apLog p))"
proof -
  have "iTransLevel p - 1 = Suc (iTransLevel p - 2)" using assms(1) by simp
  moreover have "iTransLevel p - 2 < length (apLog p)" using assms by simp
  ultimately show ?thesis by (simp add: open_logs_def take_Suc_conv_app_nth)
qed

lemma open_logs_update:
  assumes "iTransLevel p \<ge> 2" "iTransLevel p - 1 \<le> length (apLog p)" "iTransLevel q = iTransLevel p"
    "apLog q = (apLog p)[iTransLevel p - 2 := lg]"
  shows "open_logs q = lg # rev (take (iTransLevel p - 2) (apLog p))"
  using assms open_logs_Cons [of q] by simp

lemma kv_inv_level:
  assumes "kv_inv p Ms" "iTransLevel p \<ge> 2"
  shows "open_logs p = apLog p ! (iTransLevel p - 2) # rev (take (iTransLevel p - 2) (apLog p))"
    "iTransLevel p - 2 < length (apLog p)" "iTransLevel p - 1 \<le> length (apLog p)"
  using assms open_logs_Cons [of p] by (auto simp: kv_inv_def)

subsection \<open>Writing and deleting a row\<close>

lemma kvmemTransactional_update [simp]:
  "kvmemTransactional (p\<lparr>pRoot := t\<rparr>) = kvmemTransactional p"
  "kvmemTransactional (p\<lparr>apLog := l\<rparr>) = kvmemTransactional p"
  "kvmemTransactional (p\<lparr>iTransLevel := i\<rparr>) = kvmemTransactional p"
  "kvmemTransactional (p\<lparr>nCursor := c\<rparr>) = kvmemTransactional p"
  by (simp_all add: kvmemTransactional_def)

definition distinct_logs :: "KVMem \<Rightarrow> bool" where
  "distinct_logs p \<longleftrightarrow> (\<forall>lg \<in> set (open_logs p). distinct (map ch_pNode lg))"

lemma distinct_logs_push:
  assumes "kv_inv p Ms" "iTransLevel p \<ge> 2" "distinct_logs p" "\<And>d. tmap (pRoot p) (ch_pNode c) \<noteq> Some (d, iTransLevel p)"
  shows "distinct_logs (p\<lparr>apLog := (apLog p)[iTransLevel p - 2 := c # apLog p ! (iTransLevel p - 2)], pRoot := t\<rparr>)"
proof -
  note lv = kv_inv_level [OF assms(1,2)]
  have "ch_pNode c \<notin> log_keys (apLog p ! (iTransLevel p - 2))"
  proof
    assume "ch_pNode c \<in> log_keys (apLog p ! (iTransLevel p - 2))"
    moreover have "\<forall>k \<in> log_keys (apLog p ! (iTransLevel p - 2)). \<exists>d. tmap (pRoot p) k = Some (d, iTransLevel p)"
      using assms(1) lv by (simp add: kv_inv_def)
    ultimately show False using assms(4) by blast
  qed
  moreover have "open_logs (p\<lparr>apLog := (apLog p)[iTransLevel p - 2 := c # apLog p ! (iTransLevel p - 2)], pRoot := t\<rparr>)
      = (c # apLog p ! (iTransLevel p - 2)) # rev (take (iTransLevel p - 2) (apLog p))"
    using assms(2) lv(3) by (intro open_logs_update) auto
  ultimately show ?thesis using assms(3) lv(1) by (auto simp: distinct_logs_def)
qed

lemma kv_inv_intro:
  assumes "kv_inv p Ms" "iTransLevel p \<ge> 2" "tree_ok t" "tmap t = M"
    "hist (iTransLevel p) M (lg # rev (take (iTransLevel p - 2) (apLog p))) Ms"
  shows "kv_inv (p\<lparr>apLog := (apLog p)[iTransLevel p - 2 := lg], pRoot := t\<rparr>) Ms"
  using assms kv_inv_level [OF assms(1,2)] open_logs_update [OF assms(2)]
  by (simp add: kv_inv_def)

lemma kv_inv_intro_same:
  assumes "kv_inv p Ms" "iTransLevel p \<ge> 2" "tree_ok t" "hist (iTransLevel p) (tmap t) (open_logs p) Ms"
  shows "kv_inv (p\<lparr>pRoot := t\<rparr>) Ms"
  using assms by (simp add: kv_inv_def open_logs_def)

lemma replace_inv:
  assumes inv: "kv_inv p Ms" and lvl: "iTransLevel p \<ge> 2"
  shows "\<exists>p'. kvmemReplace p k v = Some (SQLITE4_OK, p') \<and> kv_inv p' Ms \<and> iTransLevel p' = iTransLevel p
    \<and> kvmem_contents p' = kv_put k v (kvmem_contents p) \<and> (distinct_logs p \<longrightarrow> distinct_logs p')"
proof -
  let ?L = "iTransLevel p" and ?lg = "apLog p ! (iTransLevel p - 2)"
  let ?lgs = "rev (take (?L - 2) (apLog p))"
  have ok: "tree_ok (pRoot p)" and tr: "kvmemTransactional p" using inv by (auto simp: kv_inv_def)
  have s: "sorted_keys (rows (pRoot p))" using ok by (simp add: tree_ok_def)
  note lv = kv_inv_level [OF inv lvl]
  have h: "hist ?L (tmap (pRoot p)) (?lg # ?lgs) Ms" using inv lv by (simp add: kv_inv_def)
  from ok show ?thesis
  proof (cases rule: find_cases [where k = k])
    case (missing fs)
    let ?n = "\<lparr>nd_pData = Some v, nd_height = 0, nd_imbalance = 0, nd_mxTrans = ?L, nd_aKey = k\<rparr>"
    obtain t where t: "insertAt ?n fs = Some t" "tree_ok t" "rows t = kv_put k (Some v, ?L) (rows (pRoot p))"
      using missing(3) [of ?n] by auto
    let ?c = "\<lparr>ch_pNode = k, ch_pData = None, ch_oldTrans = 0\<rparr>"
    have "kvmemReplace p k v = Some (SQLITE4_OK, p\<lparr>apLog := (apLog p)[?L - 2 := ?c # ?lg], pRoot := t\<rparr>)"
      using missing(1) t lv lvl tr by (simp add: kvmemReplace_def kvmemNewNode_def kvmemNewChng_def Let_def)
    moreover have "kv_inv (p\<lparr>apLog := (apLog p)[?L - 2 := ?c # ?lg], pRoot := t\<rparr>) Ms"
      using kv_inv_intro [OF inv lvl t(2) tmap_put [OF s t(3)]] hist_new [OF h missing(2)] by blast
    moreover have "distinct_logs p \<longrightarrow> distinct_logs (p\<lparr>apLog := (apLog p)[?L - 2 := ?c # ?lg], pRoot := t\<rparr>)"
      using distinct_logs_push [OF inv lvl, of ?c] missing(2) by simp
    ultimately show ?thesis using t(3) s by (simp add: kvmem_contents_def live_rows_put_some)
  next
    case (found b n a fs)
    let ?t = "plug_all fs (KNode b (n\<lparr>nd_pData := Some v, nd_mxTrans := ?L\<rparr>) a)"
    have t: "tree_ok ?t" "rows ?t = kv_put k (Some v, ?L) (rows (pRoot p))" by (rule found)+
    note m = tmap_put [OF s t(2)]
    have c: "live_rows (rows ?t) = kv_put k v (live_rows (rows (pRoot p)))"
      using t(2) s by (simp add: live_rows_put_some)
    show ?thesis
    proof (cases "nd_mxTrans n = ?L")
      case True
      then have e: "n\<lparr>nd_pData := Some v\<rparr> = n\<lparr>nd_pData := Some v, nd_mxTrans := ?L\<rparr>" by simp
      have "kvmemReplace p k v = Some (SQLITE4_OK, p\<lparr>pRoot := ?t\<rparr>)"
        unfolding kvmemReplace_def e [symmetric] using found(1) lvl True by simp
      moreover have "kv_inv (p\<lparr>pRoot := ?t\<rparr>) Ms"
        using hist_again [OF h, of k] found(3) True m lv by (intro kv_inv_intro_same [OF inv lvl t(1)]) simp
      moreover have "distinct_logs (p\<lparr>pRoot := ?t\<rparr>) = distinct_logs p" by (simp add: distinct_logs_def open_logs_def)
      ultimately show ?thesis using c by (simp add: kvmem_contents_def)
    next
      case False
      let ?c = "\<lparr>ch_pNode = k, ch_pData = nd_pData n, ch_oldTrans = nd_mxTrans n\<rparr>"
      have "kvmemReplace p k v = Some (SQLITE4_OK, p\<lparr>apLog := (apLog p)[?L - 2 := ?c # ?lg], pRoot := ?t\<rparr>)"
        unfolding kvmemReplace_def using found(1,2) lvl False tr lv by (simp add: kvmemNewChng_def Let_def change_one(3))
      moreover have "kv_inv (p\<lparr>apLog := (apLog p)[?L - 2 := ?c # ?lg], pRoot := ?t\<rparr>) Ms"
        using kv_inv_intro [OF inv lvl t(1) m] hist_mark [OF h found(3) False] by blast
      moreover have "distinct_logs p \<longrightarrow> distinct_logs (p\<lparr>apLog := (apLog p)[?L - 2 := ?c # ?lg], pRoot := ?t\<rparr>)"
        using distinct_logs_push [OF inv lvl, of ?c] found(3) False by simp
      ultimately show ?thesis using c by (simp add: kvmem_contents_def)
    qed
  qed
qed

text \<open>Deleting at a cursor that points at a key.\<close>

lemma delete_inv:
  assumes inv: "kv_inv p Ms" and lvl: "iTransLevel p \<ge> 2" and cur: "cur_pNode c = Some k"
  shows "\<exists>p'. kvmemDelete p c = Some (SQLITE4_OK, p', c) \<and> kv_inv p' Ms \<and> iTransLevel p' = iTransLevel p
    \<and> kvmem_contents p' = kv_del k (kvmem_contents p) \<and> (distinct_logs p \<longrightarrow> distinct_logs p')"
proof -
  let ?L = "iTransLevel p" and ?lg = "apLog p ! (iTransLevel p - 2)"
  let ?lgs = "rev (take (?L - 2) (apLog p))"
  have ok: "tree_ok (pRoot p)" and tr: "kvmemTransactional p" using inv by (auto simp: kv_inv_def)
  have s: "sorted_keys (rows (pRoot p))" using ok by (simp add: tree_ok_def)
  note lv = kv_inv_level [OF inv lvl]
  have h: "hist ?L (tmap (pRoot p)) (?lg # ?lgs) Ms" using inv lv by (simp add: kv_inv_def)
  have gone: "kv_del k (kvmem_contents p) = kvmem_contents p" if "view (tmap (pRoot p)) k = None"
    using that map_of_contents [OF ok] by (metis kv_del_notin map_of_eq_None_iff)
  from ok show ?thesis
  proof (cases rule: find_cases [where k = k])
    case (missing fs)
    then have "kvmemDelete p c = Some (SQLITE4_OK, p, c)"
      using lvl cur tr by (simp add: kvmemDelete_def)
    then show ?thesis using inv gone missing(2) by (simp add: view_def)
  next
    case (found b n a fs)
    let ?t = "plug_all fs (KNode b (n\<lparr>nd_pData := None, nd_mxTrans := ?L\<rparr>) a)"
    have t: "tree_ok ?t" "rows ?t = kv_put k (None, ?L) (rows (pRoot p))" by (rule found)+
    note m = tmap_put [OF s t(2)]
    have c: "live_rows (rows ?t) = kv_del k (live_rows (rows (pRoot p)))"
      using t(2) s by (simp add: live_rows_put_none)
    have le: "nd_mxTrans n \<le> ?L" using hist_marks [OF h found(3)] by simp
    consider "nd_pData n = None" | "nd_pData n \<noteq> None" "nd_mxTrans n = ?L" | "nd_pData n \<noteq> None" "nd_mxTrans n < ?L"
      using le by linarith
    then show ?thesis
    proof cases
      case 1
      then have "kvmemDelete p c = Some (SQLITE4_OK, p, c)"
        using lvl cur tr found(1) by (simp add: kvmemDelete_def)
      then show ?thesis using inv gone found(3) 1 by (simp add: view_def)
    next
      case 2
      then have e: "n\<lparr>nd_pData := None\<rparr> = n\<lparr>nd_pData := None, nd_mxTrans := ?L\<rparr>" by simp
      have "kvmemDelete p c = Some (SQLITE4_OK, p\<lparr>pRoot := ?t\<rparr>, c)"
        unfolding kvmemDelete_def e [symmetric] using found(1) lvl 2 cur tr by auto
      moreover have "kv_inv (p\<lparr>pRoot := ?t\<rparr>) Ms"
        using hist_again [OF h, of k] found(3) 2 m lv by (intro kv_inv_intro_same [OF inv lvl t(1)]) simp
      moreover have "distinct_logs (p\<lparr>pRoot := ?t\<rparr>) = distinct_logs p" by (simp add: distinct_logs_def open_logs_def)
      ultimately show ?thesis using c by (simp add: kvmem_contents_def)
    next
      case 3
      let ?c = "\<lparr>ch_pNode = k, ch_pData = nd_pData n, ch_oldTrans = nd_mxTrans n\<rparr>"
      have "kvmemDelete p c = Some (SQLITE4_OK, p\<lparr>apLog := (apLog p)[?L - 2 := ?c # ?lg], pRoot := ?t\<rparr>, c)"
        unfolding kvmemDelete_def using found(1,2) lvl 3 cur tr lv by (auto simp: kvmemNewChng_def Let_def change_one(3))
      moreover have "kv_inv (p\<lparr>apLog := (apLog p)[?L - 2 := ?c # ?lg], pRoot := ?t\<rparr>) Ms"
        using kv_inv_intro [OF inv lvl t(1) m] hist_mark [OF h found(3)] 3 by auto
      moreover have "distinct_logs p \<longrightarrow> distinct_logs (p\<lparr>apLog := (apLog p)[?L - 2 := ?c # ?lg], pRoot := ?t\<rparr>)"
        using distinct_logs_push [OF inv lvl, of ?c] found(3) 3 by simp
      ultimately show ?thesis using c by (simp add: kvmem_contents_def)
    qed
  qed
qed

subsection \<open>Beginning and rolling back\<close>

lemma contents_eqI:
  "tree_ok (pRoot p) \<Longrightarrow> tree_ok (pRoot q) \<Longrightarrow> view (tmap (pRoot p)) = view (tmap (pRoot q)) \<Longrightarrow>
     kvmem_contents p = kvmem_contents q"
  by (rule sorted_keys_ext) (auto simp: kvmem_contents_def tree_ok_def simp flip: map_of_contents)

lemma hist_length: "hist L M lgs Ms \<Longrightarrow> length Ms = length lgs"
  by (induction L M lgs Ms rule: hist.induct) (auto simp: neq_Nil_conv)

lemma kv_inv_length: "kv_inv p Ms \<Longrightarrow> length Ms = iTransLevel p - 1"
  by (auto simp: kv_inv_def open_logs_def dest!: hist_length)

lemma begin_inv:
  assumes inv: "kv_inv p Ms" and l: "l = iTransLevel p + 1 \<or> l = 2 \<and> iTransLevel p \<le> 1"
  shows "\<exists>p'. kvmemBegin p l = Some (SQLITE4_OK, p') \<and> iTransLevel p' = l \<and> pRoot p' = pRoot p
    \<and> kv_inv p' (if l \<ge> 2 then tmap (pRoot p) # Ms else Ms) \<and> (distinct_logs p \<longrightarrow> distinct_logs p')"
proof (cases "l \<ge> 2")
  case True
  let ?p = "p\<lparr>apLog := take (l - 2) (apLog p) @ [[]], iTransLevel := l\<rparr>"
  have len: "l - 2 \<le> length (apLog p)" "l - 2 = iTransLevel p - 1" "l - 1 = Suc (l - 2)"
    using inv l True by (auto simp: kv_inv_def)
  have "kvmemBegin p l = Some (SQLITE4_OK, ?p)" using True l len by (auto simp: kvmemBegin_def)
  moreover have lg: "open_logs ?p = [] # open_logs p"
    using len by (simp add: open_logs_def min_def)
  moreover have "hist (l - 1) (tmap (pRoot p)) (open_logs p) Ms"
  proof (cases "l = iTransLevel p + 1")
    case True
    then show ?thesis using inv by (simp add: kv_inv_def)
  next
    case False
    then have "iTransLevel p \<le> 1" "l = 2" using l by auto
    then show ?thesis using inv by (auto simp: kv_inv_def open_logs_def)
  qed
  then have "kv_inv ?p (tmap (pRoot p) # Ms)"
    using inv True lg len by (simp add: kv_inv_def)
  ultimately show ?thesis using True by (simp add: distinct_logs_def)
next
  case False
  then have "l = 1" "iTransLevel p = 0" using l by auto
  then show ?thesis using inv by (auto simp: kvmemBegin_def kv_inv_def open_logs_def distinct_logs_def)
qed

text \<open>One pass of the rollback loop.\<close>

lemma rollback_pass:
  assumes inv: "kv_inv p Ms" and lvl: "iTransLevel p \<ge> 2"
  shows "\<exists>t. rollbackLog (pRoot p) (apLog p ! (iTransLevel p - 2)) = Some t \<and> tmap t = hd Ms
    \<and> kv_inv (p\<lparr>pRoot := t, apLog := (apLog p)[iTransLevel p - 2 := []], iTransLevel := iTransLevel p - 1\<rparr>) (tl Ms)"
proof -
  note lv = kv_inv_level [OF inv lvl]
  have h: "hist (iTransLevel p) (tmap (pRoot p)) (open_logs p) Ms" and ok: "tree_ok (pRoot p)"
    using inv by (auto simp: kv_inv_def)
  have "undo_log (tmap (pRoot p)) (apLog p ! (iTransLevel p - 2)) = Some (hd Ms)" using h lv by simp
  then obtain t where t: "rollbackLog (pRoot p) (apLog p ! (iTransLevel p - 2)) = Some t" "tree_ok t" "tmap t = hd Ms"
    using rollbackLog_undo [OF ok] by blast
  have "hist (iTransLevel p - 1) (hd Ms) (rev (take (iTransLevel p - 2) (apLog p))) (tl Ms)" using h lv by simp
  then show ?thesis using t inv lv lvl
    by (auto simp: kv_inv_def open_logs_def numeral_2_eq_2)
qed

lemma rollbackLoop_inv:
  assumes "kv_inv p Ms" "iTransLevel p = L" "l \<le> L"
  shows "\<exists>p'. rollbackLoop l L p = Some p' \<and> kv_inv (p'\<lparr>iTransLevel := l\<rparr>) (drop (L - 1 - (l - 1)) Ms)
    \<and> tmap (pRoot p') = (tmap (pRoot p) # Ms) ! (L - 1 - (l - 1)) \<and> kvmemTransactional p'"
  using assms
proof (induction L arbitrary: p Ms)
  case (Suc m)
  show ?case
  proof (cases "Suc m > l \<and> m > 0")
    case True
    let ?q = "\<lambda>t. p\<lparr>pRoot := t, apLog := (apLog p)[Suc m - 2 := []], iTransLevel := m\<rparr>"
    obtain t where t: "rollbackLog (pRoot p) (apLog p ! (Suc m - 2)) = Some t" "tmap t = hd Ms" "kv_inv (?q t) (tl Ms)"
      using rollback_pass [OF Suc.prems(1)] Suc.prems(2) True by auto
    have len: "length Ms = m" "Suc m - 2 < length (apLog p)"
      using kv_inv_length [OF Suc.prems(1)] kv_inv_level [OF Suc.prems(1)] Suc.prems(2) True by auto
    obtain p' where "rollbackLoop l m (?q t) = Some p'" "kv_inv (p'\<lparr>iTransLevel := l\<rparr>) (drop (m - 1 - (l - 1)) (tl Ms))"
      "tmap (pRoot p') = (tmap t # tl Ms) ! (m - 1 - (l - 1))" "kvmemTransactional p'"
      using Suc.IH [OF t(3)] True by auto
    moreover have "Ms = tmap t # tl Ms" using t(2) len True by (cases Ms) auto
    moreover have "Suc m - 1 - (l - 1) = Suc (m - 1 - (l - 1))" using True by auto
    ultimately show ?thesis using t len True by (auto simp: drop_Suc)
  next
    case False
    then have "l = Suc m \<or> l = 0 \<and> m = 0" using Suc.prems by auto
    then show ?thesis using False Suc.prems by (auto simp: kv_inv_def open_logs_def)
  qed
qed (auto simp: kv_inv_def open_logs_def)

lemma rollback_inv:
  assumes "kv_inv p Ms" "l \<le> iTransLevel p"
  shows "\<exists>p'. kvmemRollback p l = Some (SQLITE4_OK, p') \<and> iTransLevel p' = l
    \<and> kv_inv p' (drop (iTransLevel p - 1 - (l - 1)) Ms)
    \<and> tmap (pRoot p') = (tmap (pRoot p) # Ms) ! (iTransLevel p - 1 - (l - 1))"
  using rollbackLoop_inv [OF assms(1) refl assms(2)] assms(1)
  by (auto simp: kvmemRollback_def kv_inv_def)

subsection \<open>Committing into the enclosing transaction\<close>

lemma commitInto_ok:
  assumes "tree_ok t" "\<forall>k \<in> log_keys cs. \<exists>d m. tmap t k = Some (d, m) \<and> (m = L \<or> m = L - 1)"
  shows "\<exists>t'. commitInto L t cs = Some t' \<and> tree_ok t' \<and>
    tmap t' = (\<lambda>k. if k \<in> log_keys cs then map_option (\<lambda>(d, m). (d, L - 1)) (tmap t k) else tmap t k)"
  using assms
proof (induction cs arbitrary: t)
  case (Cons c cs)
  from Cons.prems(1) show ?case
  proof (cases rule: find_cases [where k = "ch_pNode c"])
    case (found b n a fs)
    let ?t = "plug_all fs (KNode b (n\<lparr>nd_pData := nd_pData n, nd_mxTrans := L - 1\<rparr>) a)"
    have e: "?t = plug_all fs (KNode b (n\<lparr>nd_mxTrans := L - 1\<rparr>) a)" by simp
    have ok: "tree_ok ?t" by (rule found)
    have m: "tmap ?t = (tmap t)(ch_pNode c \<mapsto> (nd_pData n, L - 1))"
      using tmap_put [OF _ found(5) [where d = "nd_pData n" and m = "L - 1"]] Cons.prems(1) by (simp add: tree_ok_def)
    have "nd_mxTrans n = L \<or> nd_mxTrans n = L - 1" using Cons.prems(2) found(3) by auto
    then have s: "commitInto L t (c # cs) = commitInto L ?t cs" using found(1) e by simp
    have "\<forall>k \<in> log_keys cs. \<exists>d m. tmap ?t k = Some (d, m) \<and> (m = L \<or> m = L - 1)"
      using Cons.prems(2) m by auto
    from Cons.IH [OF ok this] obtain t' where t': "commitInto L ?t cs = Some t'" "tree_ok t'"
      "tmap t' = (\<lambda>k. if k \<in> log_keys cs then map_option (\<lambda>(d, m). (d, L - 1)) (tmap ?t k) else tmap ?t k)" by blast
    then have "tmap t' = (\<lambda>k. if k \<in> log_keys (c # cs) then map_option (\<lambda>(d, m). (d, L - 1)) (tmap t k) else tmap t k)"
      using m found(3) by (auto simp: fun_eq_iff)
    then show ?thesis using s t' by metis
  qed (use Cons.prems(2) in auto)
qed simp

lemma view_remark: "(\<And>k. M' k = M k \<or> M' k = map_option (\<lambda>(d, m). (d, l)) (M k)) \<Longrightarrow> view M' = view M"
proof
  fix k
  assume "\<And>k. M' k = M k \<or> M' k = map_option (\<lambda>(d, m). (d, l)) (M k)"
  from this [of k] show "view M' k = view M k" by (auto simp: view_def split: option.splits)
qed

lemma commit_pass:
  assumes inv: "kv_inv p Ms" and lvl: "iTransLevel p = Suc (Suc (Suc m))"
  shows "\<exists>t. commitInto (iTransLevel p) (pRoot p) (apLog p ! (Suc m)) = Some t
    \<and> view (tmap t) = view (tmap (pRoot p))
    \<and> kv_inv (p\<lparr>pRoot := t, apLog := (apLog p)[m := apLog p ! Suc m @ apLog p ! m, Suc m := []],
               iTransLevel := Suc (Suc m)\<rparr>) (tl Ms)"
proof -
  let ?L = "iTransLevel p" and ?lg = "apLog p ! Suc m" and ?lg2 = "apLog p ! m"
  let ?lgs = "rev (take m (apLog p))" and ?M = "tmap (pRoot p)"
  have lv: "open_logs p = ?lg # ?lg2 # ?lgs" "Suc m < length (apLog p)"
    using kv_inv_level [OF inv] lvl by (auto simp: take_Suc_conv_app_nth)
  have ok: "tree_ok (pRoot p)" and h: "hist ?L ?M (?lg # ?lg2 # ?lgs) Ms"
    using inv lv by (auto simp: kv_inv_def)
  have marks: "\<forall>k \<in> log_keys ?lg. \<exists>d. ?M k = Some (d, ?L)" using h by simp
  obtain t where t: "commitInto ?L (pRoot p) ?lg = Some t" "tree_ok t"
    "tmap t = (\<lambda>k. if k \<in> log_keys ?lg then map_option (\<lambda>(d, m). (d, ?L - 1)) (?M k) else ?M k)"
    using commitInto_ok [OF ok, of ?lg ?L] marks by blast
  have u: "undo_log (tmap t) ?lg = undo_log ?M ?lg"
    using marks by (intro undo_log_cong) (auto simp: t(3))
  have "undo_log (tmap t) (?lg @ ?lg2) = Some (hd (tl Ms))"
    using u h by (simp add: undo_log_append)
  moreover have "\<exists>d. tmap t k = Some (d, ?L - 1)" if "k \<in> log_keys (?lg @ ?lg2)" for k
  proof (cases "k \<in> log_keys ?lg")
    case True
    then show ?thesis using marks t(3) by auto
  next
    case False
    then have "k \<in> log_keys ?lg2" using that by auto
    then obtain d where "hd Ms k = Some (d, ?L - 1)" using h by auto
    moreover have "hd Ms k = ?M k" using undo_log_other [of ?M ?lg "hd Ms" k] False h by auto
    ultimately show ?thesis using t(3) False by auto
  qed
  ultimately have h': "hist (?L - 1) (tmap t) ((?lg @ ?lg2) # ?lgs) (tl Ms)"
    using h lvl by simp
  have "open_logs (p\<lparr>pRoot := t, apLog := (apLog p)[m := ?lg @ ?lg2, Suc m := []], iTransLevel := Suc (Suc m)\<rparr>)
      = (?lg @ ?lg2) # ?lgs"
    using lv(2) by (simp add: open_logs_def take_Suc_conv_app_nth)
  then have "kv_inv (p\<lparr>pRoot := t, apLog := (apLog p)[m := ?lg @ ?lg2, Suc m := []], iTransLevel := Suc (Suc m)\<rparr>) (tl Ms)"
    using h' t(2) inv lv(2) lvl by (simp add: kv_inv_def)
  moreover have "view (tmap t) = view ?M"
    by (rule view_remark [where l = "?L - 1"]) (auto simp: t(3))
  ultimately show ?thesis using t(1) by blast
qed

lemma commitLoop_into:
  assumes "kv_inv p Ms" "iTransLevel p = L" "l \<le> L" "l \<ge> 2"
  shows "\<exists>p'. commitLoop l L p = Some p' \<and> iTransLevel p' = l \<and> kv_inv p' (drop (L - l) Ms)
    \<and> view (tmap (pRoot p')) = view (tmap (pRoot p))"
  using assms
proof (induction L arbitrary: p Ms)
  case (Suc k)
  show ?case
  proof (cases "Suc k > l")
    case True
    then obtain m where m: "k = Suc (Suc m)" using Suc.prems(4) by (cases k; cases "k - 1") auto
    have lv: "Suc m < length (apLog p)" using kv_inv_level(2) [OF Suc.prems(1)] Suc.prems(2) m by simp
    let ?q = "\<lambda>t. p\<lparr>pRoot := t, apLog := (apLog p)[m := apLog p ! Suc m @ apLog p ! m, Suc m := []], iTransLevel := Suc (Suc m)\<rparr>"
    obtain t where t: "commitInto (Suc k) (pRoot p) (apLog p ! Suc m) = Some t" "view (tmap t) = view (tmap (pRoot p))"
        "kv_inv (?q t) (tl Ms)"
      using commit_pass [OF Suc.prems(1), of m] Suc.prems(2) m by auto
    obtain p' where "commitLoop l k (?q t) = Some p'" "iTransLevel p' = l" "kv_inv p' (drop (k - l) (tl Ms))"
      "view (tmap (pRoot p')) = view (tmap t)"
      using Suc.IH [OF t(3)] m True Suc.prems by auto
    moreover have "commitLoop l (Suc k) p = commitLoop l k (?q t)"
      using t(1) lv True Suc.prems(4) m by simp
    moreover have "drop (k - l) (tl Ms) = drop (Suc k - l) Ms" using True by (simp add: Suc_diff_le drop_Suc)
    ultimately show ?thesis using t(2) by simp
  next
    case False
    then have "l = Suc k" using Suc.prems by simp
    then show ?thesis using Suc.prems by simp
  qed
qed simp

subsection \<open>Committing for good\<close>

text \<open>
  The effect of \<open>commitFinal\<close> on the map. It fails when a row that is deleted is met a second
  time: the first record of it has freed its node.
\<close>

definition commit_chng :: "kvmap \<Rightarrow> KVMemChng \<Rightarrow> kvmap option" where
  "commit_chng M c =
     (case M (ch_pNode c) of
        None \<Rightarrow> None
      | Some (d, t) \<Rightarrow> Some (M(ch_pNode c := (if d = None then None else Some (d, ch_oldTrans c)))))"

fun commit_log :: "kvmap \<Rightarrow> KVMemChng list \<Rightarrow> kvmap option" where
  "commit_log M [] = Some M"
| "commit_log M (c # cs) = Option.bind (commit_chng M c) (\<lambda>M. commit_log M cs)"

lemma commitFinal_log:
  assumes "tree_ok t"
  shows "case commit_log (tmap t) cs of
      None \<Rightarrow> commitFinal t cs = None
    | Some M \<Rightarrow> \<exists>t'. commitFinal t cs = Some t' \<and> tree_ok t' \<and> tmap t' = M"
  using assms
proof (induction cs arbitrary: t)
  case (Cons c cs)
  let ?k = "ch_pNode c"
  have s: "sorted_keys (rows t)" using Cons.prems by (simp add: tree_ok_def)
  from Cons.prems show ?case
  proof (cases rule: find_cases [where k = ?k])
    case (found b n a fs)
    show ?thesis
    proof (cases "nd_pData n")
      case None
      obtain t1 where t1: "kvmemRemoveNode t ?k = Some t1" "tree_ok t1" "rows t1 = kv_del ?k (rows t)"
        using remove_ok [OF Cons.prems, of ?k] found(3) by auto
      have "commitFinal t (c # cs) = commitFinal t1 cs" using found(1) None t1(1) by simp
      moreover have "commit_log (tmap t) (c # cs) = commit_log (tmap t1) cs"
        using found(3) None tmap_del [OF t1(3)] by (simp add: commit_chng_def)
      ultimately show ?thesis using Cons.IH [OF t1(2)] by (simp only:)
    next
      case (Some d)
      let ?t = "plug_all fs (KNode b (n\<lparr>nd_pData := Some d, nd_mxTrans := ch_oldTrans c\<rparr>) a)"
      have e: "n\<lparr>nd_pData := Some d, nd_mxTrans := ch_oldTrans c\<rparr> = n\<lparr>nd_mxTrans := ch_oldTrans c\<rparr>"
        using Some by simp
      have ok: "tree_ok ?t" by (rule found)
      have "commitFinal t (c # cs) = commitFinal ?t cs" unfolding e using found(1) Some by simp
      moreover have "commit_log (tmap t) (c # cs) = commit_log (tmap ?t) cs"
        using found(3) Some tmap_put [OF s found(5) [where d = "Some d" and m = "ch_oldTrans c"]]
        by (simp add: commit_chng_def)
      ultimately show ?thesis using Cons.IH [OF ok] by (simp only:)
    qed
  qed (simp add: commit_chng_def)
qed simp

lemma commit_log_append: "commit_log M (xs @ ys) = Option.bind (commit_log M xs) (\<lambda>M. commit_log M ys)"
  by (induction xs arbitrary: M) (auto split: bind_splits)

lemma commitLoop_final:
  assumes "tree_ok (pRoot p)" "iTransLevel p = L" "l \<le> 1" "L - 1 \<le> length (apLog p)"
  shows "case commit_log (tmap (pRoot p)) (concat (open_logs p)) of
      None \<Rightarrow> commitLoop l L p = None
    | Some M \<Rightarrow> \<exists>p'. commitLoop l L p = Some p' \<and> tree_ok (pRoot p') \<and> tmap (pRoot p') = M
        \<and> kvmemTransactional p' = kvmemTransactional p \<and> length (apLog p') = length (apLog p)"
  using assms
proof (induction L arbitrary: p)
  case 0
  then show ?case by (auto simp: open_logs_def)
next
  case (Suc m)
  show ?case
  proof (cases "m = 0")
    case True
    then show ?thesis using Suc.prems by (auto simp: open_logs_def)
  next
    case False
    then have lv: "open_logs p = apLog p ! (m - 1) # rev (take (m - 1) (apLog p))" "m - 1 < length (apLog p)"
      using open_logs_Cons [of p] Suc.prems by auto
    let ?q = "\<lambda>t. p\<lparr>pRoot := t, apLog := (apLog p)[m - 1 := []], iTransLevel := m\<rparr>"
    have step: "commitLoop l (Suc m) p =
        Option.bind (commitFinal (pRoot p) (apLog p ! (m - 1))) (\<lambda>t. commitLoop l m (?q t))"
      using False Suc.prems(3) lv(2) by (simp add: numeral_2_eq_2 bind_assoc)
    have lq: "open_logs (?q t) = rev (take (m - 1) (apLog p))" for t by (simp add: open_logs_def)
    show ?thesis
    proof (cases "commit_log (tmap (pRoot p)) (apLog p ! (m - 1))")
      case None
      then have "commitFinal (pRoot p) (apLog p ! (m - 1)) = None"
        using commitFinal_log [OF Suc.prems(1), of "apLog p ! (m - 1)"] by simp
      then show ?thesis using step None lv(1) by (simp add: commit_log_append)
    next
      case (Some M)
      then obtain t where t: "commitFinal (pRoot p) (apLog p ! (m - 1)) = Some t" "tree_ok t" "tmap t = M"
        using commitFinal_log [OF Suc.prems(1), of "apLog p ! (m - 1)"] by auto
      have "m - 1 \<le> length (apLog (?q t))" using Suc.prems(4) by simp
      note ih = Suc.IH [of "?q t", OF _ _ Suc.prems(3) this]
      show ?thesis using ih t lq [of t] step Some lv(1)
        by (auto simp: commit_log_append split: option.splits)
    qed
  qed
qed

text \<open>The map after a successful commit: all rows live and unmarked, with the data they had.\<close>

lemma undo_log_put:
  "k \<notin> log_keys cs \<Longrightarrow> undo_log (M(k := x)) cs = map_option (\<lambda>M. M(k := x)) (undo_log M cs)"
proof (induction cs arbitrary: M)
  case (Cons c cs)
  let ?j = "ch_pNode c"
  let ?r = "if ch_pData c \<noteq> None \<or> ch_oldTrans c > 0 then Some (ch_pData c, ch_oldTrans c) else None"
  have k: "k \<noteq> ?j" "k \<notin> log_keys cs" using Cons.prems by auto
  show ?case
  proof (cases "M ?j = None")
    case False
    have "undo_log (M(k := x)) (c # cs) = undo_log ((M(k := x))(?j := ?r)) cs"
      using False k(1) by (auto simp: undo_chng_def)
    also have "\<dots> = undo_log ((M(?j := ?r))(k := x)) cs" by (subst fun_upd_twist [OF k(1)]) (rule refl)
    also have "\<dots> = map_option (\<lambda>M. M(k := x)) (undo_log (M(?j := ?r)) cs)" by (rule Cons.IH [OF k(2)])
    also have "undo_log (M(?j := ?r)) cs = undo_log M (c # cs)" using False by (auto simp: undo_chng_def)
    finally show ?thesis .
  qed (use k in \<open>simp add: undo_chng_def\<close>)
qed simp

lemma undo_log_dom: "undo_log M cs = Some M0 \<Longrightarrow> k \<in> log_keys cs \<or> M0 k \<noteq> None \<Longrightarrow> M k \<noteq> None"
proof (induction cs arbitrary: M)
  case (Cons c cs)
  then obtain M1 where "undo_chng M c = Some M1" "undo_log M1 cs = Some M0" by (auto split: bind_splits)
  then show ?case using Cons.IH [of M1] Cons.prems(2) by (auto simp: undo_chng_def split: if_splits)
qed simp

lemma commit_log_dom: "commit_log M cs = Some M0 \<Longrightarrow> k \<in> log_keys cs \<Longrightarrow> M k \<noteq> None"
proof (induction cs arbitrary: M)
  case (Cons c cs)
  then obtain M1 where "commit_chng M c = Some M1" "commit_log M1 cs = Some M0" by (auto split: bind_splits)
  then show ?case using Cons.IH [of M1] Cons.prems(2) by (auto simp: commit_chng_def split: option.splits if_splits)
qed simp

definition clean :: "kvmap \<Rightarrow> bool" where
  "clean M \<longleftrightarrow> (\<forall>k d t. M k = Some (d, t) \<longrightarrow> d \<noteq> None \<and> t = 0)"

lemma commit_clean:
  "undo_log M G = Some M1 \<Longrightarrow> clean M1 \<Longrightarrow> commit_log M G = Some M' \<Longrightarrow> clean M'"
proof (induction G arbitrary: M M1)
  case (Cons c cs)
  let ?k = "ch_pNode c"
  obtain Mu where Mu: "undo_chng M c = Some Mu" "undo_log Mu cs = Some M1"
    using Cons.prems(1) by (auto split: bind_splits)
  obtain d t where d: "M ?k = Some (d, t)" using Cons.prems(3) by (auto simp: commit_chng_def split: option.splits)
  define x where "x = (if d = None then None else Some (d, ch_oldTrans c))"
  have c: "commit_log (M(?k := x)) cs = Some M'" using Cons.prems(3) d by (simp add: x_def commit_chng_def)
  have Mux: "M(?k := x) = Mu(?k := x)" using Mu(1) d by (auto simp: undo_chng_def)
  show ?case
  proof (cases "?k \<in> log_keys cs")
    case True
    have "Mu ?k \<noteq> None" using undo_log_dom [OF Mu(2)] True by blast
    moreover have "x \<noteq> None" using commit_log_dom [OF c True] by simp
    ultimately have "undo_log (M(?k := x)) cs = undo_log Mu cs"
      unfolding Mux using True by (intro undo_log_cong) auto
    then have "undo_log (M(?k := x)) cs = Some M1" using Mu(2) by (simp only:)
    then show ?thesis by (rule Cons.IH [OF _ Cons.prems(2) c])
  next
    case False
    have "undo_log (M(?k := x)) cs = Some (M1(?k := x))" unfolding Mux using undo_log_put [OF False] Mu(2) by simp
    moreover have "M1 ?k = Mu ?k" using undo_log_other [OF Mu(2) False] .
    then have "clean (M1(?k := x))" using Cons.prems(2) Mu(1) d
      by (auto simp: clean_def x_def undo_chng_def split: if_splits)
    ultimately show ?thesis using Cons.IH [OF _ _ c] by blast
  qed
qed simp

lemma commit_log_view: "commit_log M G = Some M' \<Longrightarrow> view M' = view M"
proof (induction G arbitrary: M)
  case (Cons c cs)
  then obtain M1 where M1: "commit_chng M c = Some M1" "commit_log M1 cs = Some M'" by (auto split: bind_splits)
  then have "view M1 = view M" by (auto simp: view_def fun_eq_iff commit_chng_def split: option.splits if_splits)
  then show ?case using Cons.IH [OF M1(2)] by simp
qed simp

lemma commit_log_defined:
  "commit_log M G \<noteq> None \<longleftrightarrow>
     (\<forall>k \<in> log_keys G. M k \<noteq> None) \<and> (\<forall>k t. M k = Some (None, t) \<longrightarrow> count_list (map ch_pNode G) k \<le> 1)"
proof (induction G arbitrary: M)
  case (Cons c cs)
  let ?k = "ch_pNode c"
  have n: "count_list (map ch_pNode cs) ?k = 0 \<longleftrightarrow> ?k \<notin> log_keys cs" by (simp add: count_list_0_iff)
  show ?case
  proof (cases "M ?k")
    case (Some dt)
    then obtain d t where d: "M ?k = Some (d, t)" by (cases dt) auto
    define M1 where "M1 = M(?k := (if d = None then None else Some (d, ch_oldTrans c)))"
    have c: "commit_log M (c # cs) = commit_log M1 cs" using d by (simp add: commit_chng_def M1_def)
    have m: "M1 j = M j" if "j \<noteq> ?k" for j using that by (simp add: M1_def)
    have mk: "M1 ?k = (if d = None then None else Some (d, ch_oldTrans c))" by (simp add: M1_def)
    have e: "M1 j = Some (None, t) \<longleftrightarrow> j \<noteq> ?k \<and> M j = Some (None, t)" for j t
      using m mk by (cases "j = ?k") auto
    have e0: "M1 j = None \<longleftrightarrow> (if j = ?k then d = None else M j = None)" for j
      using m mk by (cases "j = ?k") auto
    have f1: "(\<forall>j \<in> log_keys cs. M1 j \<noteq> None) \<longleftrightarrow> (\<forall>j \<in> log_keys cs - {?k}. M j \<noteq> None) \<and> (d = None \<longrightarrow> ?k \<notin> log_keys cs)"
    proof -
      have "(\<forall>j \<in> S. \<not> (if j = ?k then d = None else M j = None)) \<longleftrightarrow>
          (\<forall>j \<in> S - {?k}. M j \<noteq> None) \<and> (d = None \<longrightarrow> ?k \<notin> S)" for S by auto
      then show ?thesis unfolding e0 .
    qed
    have f2: "(\<forall>j t. M1 j = Some (None, t) \<longrightarrow> count_list (map ch_pNode cs) j \<le> 1)
      \<longleftrightarrow> (\<forall>j t. j \<noteq> ?k \<longrightarrow> M j = Some (None, t) \<longrightarrow> count_list (map ch_pNode (c # cs)) j \<le> 1)"
      unfolding e by auto
    have f3: "(\<forall>j t. M j = Some (None, t) \<longrightarrow> count_list (map ch_pNode (c # cs)) j \<le> 1)
      \<longleftrightarrow> (\<forall>j t. j \<noteq> ?k \<longrightarrow> M j = Some (None, t) \<longrightarrow> count_list (map ch_pNode (c # cs)) j \<le> 1)
        \<and> (d = None \<longrightarrow> ?k \<notin> log_keys cs)"
    proof -
      have gen: "((\<forall>t. P k t \<longrightarrow> C k) \<longleftrightarrow> Q) \<Longrightarrow> (\<forall>j t. P j t \<longrightarrow> C j) \<longleftrightarrow> (\<forall>j t. j \<noteq> k \<longrightarrow> P j t \<longrightarrow> C j) \<and> Q"
        for P :: "bytes \<Rightarrow> nat \<Rightarrow> bool" and C k Q by metis
      have "(\<forall>t. M ?k = Some (None, t) \<longrightarrow> count_list (map ch_pNode (c # cs)) ?k \<le> 1) \<longleftrightarrow> (d = None \<longrightarrow> ?k \<notin> log_keys cs)"
        using d n by auto
      then show ?thesis by (rule gen)
    qed
    have f4: "(\<forall>j \<in> log_keys (c # cs). M j \<noteq> None) \<longleftrightarrow> (\<forall>j \<in> log_keys cs - {?k}. M j \<noteq> None)"
    proof -
      have "(\<forall>j \<in> insert ?k S. M j \<noteq> None) \<longleftrightarrow> (\<forall>j \<in> S - {?k}. M j \<noteq> None)" for S using d by auto
      then show ?thesis by (simp only: list.set image_insert)
    qed
    show ?thesis unfolding c Cons.IH [of M1] f1 f2 f3 f4 by (simp only: conj_assoc conj_commute conj_left_commute)
  qed (simp add: commit_chng_def)
qed simp

lemma hist_undo_all: "hist L M lgs Ms \<Longrightarrow> undo_log M (concat lgs) = Some (last (M # Ms)) \<and> clean (last (M # Ms))"
proof (induction L M lgs Ms rule: hist.induct)
  case (2 L M lg lgs Ms)
  then show ?case by (cases Ms) (auto simp: undo_log_append)
qed (auto simp: clean_def)

lemma commit_final_inv:
  assumes inv: "kv_inv p Ms" and l: "l < iTransLevel p" "l \<le> 1"
  shows "kvmemCommitPhaseTwo p l = None \<longleftrightarrow>
      (\<exists>k t. tmap (pRoot p) k = Some (None, t) \<and> count_list (map ch_pNode (concat (open_logs p))) k > 1)"
    and "kvmemCommitPhaseTwo p l = Some (rc, p') \<Longrightarrow>
      rc = SQLITE4_OK \<and> iTransLevel p' = l \<and> kv_inv p' [] \<and> kvmem_contents p' = kvmem_contents p"
proof -
  let ?M = "tmap (pRoot p)" and ?G = "concat (open_logs p)"
  have ok: "tree_ok (pRoot p)" "kvmemTransactional p" "iTransLevel p - 1 \<le> length (apLog p)"
    and h: "hist (iTransLevel p) ?M (open_logs p) Ms" using inv by (auto simp: kv_inv_def)
  obtain M1 where u: "undo_log ?M ?G = Some M1" "clean M1" using hist_undo_all [OF h] by blast
  note loop = commitLoop_final [OF ok(1) refl l(2) ok(3)]
  have "kvmemCommitPhaseTwo p l = None \<longleftrightarrow> commit_log ?M ?G = None"
    using loop l ok(2) by (auto simp: kvmemCommitPhaseTwo_def split: option.splits)
  then show "kvmemCommitPhaseTwo p l = None \<longleftrightarrow> (\<exists>k t. ?M k = Some (None, t) \<and> count_list (map ch_pNode ?G) k > 1)"
    using commit_log_defined [of ?M ?G] undo_log_dom [OF u(1)] by (auto simp: not_le)
  assume c: "kvmemCommitPhaseTwo p l = Some (rc, p')"
  then obtain M' where M': "commit_log ?M ?G = Some M'"
    using loop l ok(2) by (auto simp: kvmemCommitPhaseTwo_def split: option.splits)
  then obtain q where q: "commitLoop l (iTransLevel p) p = Some q" "tree_ok (pRoot q)" "tmap (pRoot q) = M'"
    "kvmemTransactional q" using loop ok(2) by auto
  have p': "p' = q\<lparr>iTransLevel := l\<rparr>" "rc = SQLITE4_OK"
    using c q(1) l ok(2) by (auto simp: kvmemCommitPhaseTwo_def)
  have "clean M'" by (rule commit_clean [OF u M'])
  then have "kv_inv p' []" using q l p'(1) by (auto simp: kv_inv_def open_logs_def clean_def)
  moreover have "kvmem_contents p' = kvmem_contents p"
    using commit_log_view [OF M'] q ok(1) p'(1) by (intro contents_eqI) auto
  ultimately show "rc = SQLITE4_OK \<and> iTransLevel p' = l \<and> kv_inv p' [] \<and> kvmem_contents p' = kvmem_contents p"
    using p' by simp
qed

subsection \<open>Reading\<close>

lemma sorted_split_unique:
  assumes "sorted_keys (xs @ (k, d) # ys)" "xs @ (k, d) # ys = xs' @ (k, d') # ys'"
  shows "xs = xs' \<and> d = d' \<and> ys = ys'"
proof -
  have n: "k \<notin> fst ` set xs" "k \<notin> fst ` set ys" and n': "k \<notin> fst ` set xs'" "k \<notin> fst ` set ys'"
    using assms(1) assms(1) [unfolded assms(2)] fst_less_neq(1) [of _ k] fst_less_neq(2) [of _ k]
    by (auto simp: sorted_keys_append sorted_keys_Cons)
  have "takeWhile (\<lambda>x. fst x \<noteq> k) (xs @ (k, d) # ys) = xs" "takeWhile (\<lambda>x. fst x \<noteq> k) (xs' @ (k, d') # ys') = xs'"
    using n n' by (auto simp: takeWhile_append takeWhile_eq_all_conv rev_image_eqI)
  then have "xs = xs'" using assms(2) by simp
  then show ?thesis using assms(2) by simp
qed

lemma find_is_at:
  assumes "sorted_keys (rows t)" "is_at t pos xs (k, d) ys"
  shows "\<exists>b n a fs. kvmemFind k t [] = (KNode b n a, fs)" "is_at t (kvmemFind k t []) xs (k, d) ys"
proof -
  have r: "rows t = xs @ (k, d) # ys" using is_at_rows [OF assms(2)] .
  have "(\<exists>b n a fs. kvmemFind k t [] = (KNode b n a, fs)) \<and> is_at t (kvmemFind k t []) xs (k, d) ys"
    using assms(1)
  proof (cases rule: kvmemFind_cases [where k = k])
    case (missing fs)
    then show ?thesis using r by (auto simp: map_add_def split: option.splits)
  next
    case (found b n a fs)
    have at: "is_at t (KNode b n a, fs) (rows_before fs @ rows b) (row n) (rows a @ rows_after fs)"
      using is_at_self [of fs b n a] found(2) by simp
    have "rows t = (rows_before fs @ rows b) @ (k, nd_pData n, nd_mxTrans n) # (rows a @ rows_after fs)"
      using is_at_rows [OF at] found(3) by simp
    then have "xs = rows_before fs @ rows b \<and> d = (nd_pData n, nd_mxTrans n) \<and> ys = rows a @ rows_after fs"
      using r assms(1) by (intro sorted_split_unique) auto
    then show ?thesis using at found(1,3) by auto
  qed
  then show "\<exists>b n a fs. kvmemFind k t [] = (KNode b n a, fs)" "is_at t (kvmemFind k t []) xs (k, d) ys" by auto
qed

lemma is_at_cursor:
  "is_at t pos xs (k, d, m) ys \<Longrightarrow> kvmemPointAt (Some pos) = \<lparr>cur_pNode = Some k, cur_pData = d\<rparr>"
  by (auto simp: is_at_def kvmemPointAt_def split: prod.splits kvtree.splits)

lemma next_at:
  assumes "tree_ok (pRoot p)" "is_at (pRoot p) pos xs (k, d) ys" "cur_pNode c = Some k"
  shows "(\<forall>y \<in> set ys. \<not> live y) \<and> kvmemNextEntry p c = Some (SQLITE4_NOTFOUND, kvmemPointAt None)
    \<or> (\<exists>us k' v m vs. ys = us @ (k', Some v, m) # vs \<and> (\<forall>y \<in> set us. \<not> live y) \<and>
         kvmemNextEntry p c = Some (SQLITE4_OK, \<lparr>cur_pNode = Some k', cur_pData = Some v\<rparr>))"
proof -
  have s: "sorted_keys (rows (pRoot p))" using assms(1) by (simp add: tree_ok_def)
  obtain b n a fs where f: "kvmemFind k (pRoot p) [] = (KNode b n a, fs)" using find_is_at [OF s assms(2)] by blast
  have at: "is_at (pRoot p) (KNode b n a, fs) xs (k, d) ys" using find_is_at(2) [OF s assms(2)] f by simp
  have "kvmemNextEntry p c = (let pos = kvmemNextLive (KNode b n a, fs) in
      Some (if pos \<noteq> None then SQLITE4_OK else SQLITE4_NOTFOUND, kvmemPointAt pos))"
    using f assms(3) by (simp add: kvmemNextEntry_def kvmemStep_def)
  moreover from kvmemNextLive_is_at [OF at]
  have "(\<forall>y \<in> set ys. \<not> live y) \<and> kvmemNextLive (KNode b n a, fs) = None
    \<or> (\<exists>us k' v m vs. ys = us @ (k', Some v, m) # vs \<and> (\<forall>y \<in> set us. \<not> live y) \<and> (\<exists>pos'.
         kvmemNextLive (KNode b n a, fs) = Some pos' \<and> kvmemPointAt (Some pos') = \<lparr>cur_pNode = Some k', cur_pData = Some v\<rparr>))"
  proof
    assume "\<exists>pos' us r' vs. ys = us @ r' # vs \<and> live r' \<and> (\<forall>y \<in> set us. \<not> live y)
         \<and> kvmemNextLive (KNode b n a, fs) = Some pos' \<and> is_at (pRoot p) pos' (xs @ (k, d) # us) r' vs"
    then obtain pos' us r' vs where w: "ys = us @ r' # vs" "live r'" "\<forall>y \<in> set us. \<not> live y"
         "kvmemNextLive (KNode b n a, fs) = Some pos'" "is_at (pRoot p) pos' (xs @ (k, d) # us) r' vs" by blast
    then obtain k' v m where "r' = (k', Some v, m)" by (cases r') auto
    then show ?thesis using w is_at_cursor [of "pRoot p" pos' _ k' "Some v" m] by blast
  qed blast
  ultimately show ?thesis by (auto simp: Let_def; blast)
qed

lemma prev_at:
  assumes "tree_ok (pRoot p)" "is_at (pRoot p) pos xs (k, d) ys" "cur_pNode c = Some k"
  shows "(\<forall>x \<in> set xs. \<not> live x) \<and> kvmemPrevEntry p c = Some (SQLITE4_NOTFOUND, kvmemPointAt None)
    \<or> (\<exists>us k' v m vs. xs = vs @ (k', Some v, m) # us \<and> (\<forall>y \<in> set us. \<not> live y) \<and>
         kvmemPrevEntry p c = Some (SQLITE4_OK, \<lparr>cur_pNode = Some k', cur_pData = Some v\<rparr>))"
proof -
  have s: "sorted_keys (rows (pRoot p))" using assms(1) by (simp add: tree_ok_def)
  obtain b n a fs where f: "kvmemFind k (pRoot p) [] = (KNode b n a, fs)" using find_is_at [OF s assms(2)] by blast
  have at: "is_at (pRoot p) (KNode b n a, fs) xs (k, d) ys" using find_is_at(2) [OF s assms(2)] f by simp
  have "kvmemPrevEntry p c = (let pos = kvmemPrevLive (KNode b n a, fs) in
      Some (if pos \<noteq> None then SQLITE4_OK else SQLITE4_NOTFOUND, kvmemPointAt pos))"
    using f assms(3) by (simp add: kvmemPrevEntry_def kvmemStep_def)
  moreover from kvmemPrevLive_is_at [OF at]
  have "(\<forall>x \<in> set xs. \<not> live x) \<and> kvmemPrevLive (KNode b n a, fs) = None
    \<or> (\<exists>us k' v m vs. xs = vs @ (k', Some v, m) # us \<and> (\<forall>y \<in> set us. \<not> live y) \<and> (\<exists>pos'.
         kvmemPrevLive (KNode b n a, fs) = Some pos' \<and> kvmemPointAt (Some pos') = \<lparr>cur_pNode = Some k', cur_pData = Some v\<rparr>))"
  proof
    assume "\<exists>pos' us r' vs. xs = vs @ r' # us \<and> live r' \<and> (\<forall>y \<in> set us. \<not> live y)
         \<and> kvmemPrevLive (KNode b n a, fs) = Some pos' \<and> is_at (pRoot p) pos' vs r' (us @ (k, d) # ys)"
    then obtain pos' us r' vs where w: "xs = vs @ r' # us" "live r'" "\<forall>y \<in> set us. \<not> live y"
         "kvmemPrevLive (KNode b n a, fs) = Some pos'" "is_at (pRoot p) pos' vs r' (us @ (k, d) # ys)" by blast
    then obtain k' v m where "r' = (k', Some v, m)" by (cases r') auto
    then show ?thesis using w is_at_cursor [of "pRoot p" pos' _ k' "Some v" m] by blast
  qed blast
  ultimately show ?thesis by (auto simp: Let_def; blast)
qed

text \<open>The first entry at or after a key (before it), in a list split around it.\<close>

lemma kv_ceil_split:
  "\<forall>x \<in> set xs. fst x < k \<Longrightarrow> k \<le> fst y \<Longrightarrow> kv_ceil k (xs @ y # ys) = Some y"
  by (induction xs) (auto simp: kv_ceil_def not_le split: prod.splits)

lemma kv_floor_split:
  "\<forall>x \<in> set ys. k < fst x \<Longrightarrow> fst y \<le> k \<Longrightarrow> kv_floor k (xs @ y # ys) = Some y"
  using kv_ceil_def
  by (induction ys rule: rev_induct) (auto simp: kv_floor_def not_le split: prod.splits)

lemma kv_floor_None: "kv_floor k kvs = None \<longleftrightarrow> (\<forall>k' \<in> fst ` set kvs. k < k')"
  by (force simp: kv_floor_def find_None_iff not_le)

lemma live_rows_all:
  "\<forall>x \<in> set xs. P (fst x) \<Longrightarrow> \<forall>x \<in> set (live_rows xs). P (fst x)"
  by (force dest: live_rows_keys)

lemma seek_up_kvmem:
  assumes ok: "tree_ok (pRoot p)" and dir: "direction > 0"
  shows "\<exists>rc c'. kvmemSeek p c k direction = Some (rc, c') \<and>
      (case kv_ceil k (kvmem_contents p) of
         Some (k', v) \<Rightarrow> rc = (if k' = k then SQLITE4_OK else SQLITE4_INEXACT) \<and> c' = \<lparr>cur_pNode = Some k', cur_pData = Some v\<rparr>
       | None \<Rightarrow> rc = SQLITE4_NOTFOUND)"
proof -
  let ?t = "pRoot p"
  have s: "sorted_keys (rows ?t)" using ok by (simp add: tree_ok_def)
  have "seek_up_result ?t k (seekLoop k direction ?t [] (None, SQLITE4_NOTFOUND))"
    using s dir by (intro seekLoop_up) auto
  then consider (none) "seekLoop k direction ?t [] (None, SQLITE4_NOTFOUND) = (None, SQLITE4_NOTFOUND)" "\<forall>x \<in> set (rows ?t). fst x < k"
    | (some) pos xs k' d m ys where "seekLoop k direction ?t [] (None, SQLITE4_NOTFOUND) = (Some pos, if k' = k then SQLITE4_OK else SQLITE4_INEXACT)"
      "is_at ?t pos xs (k', d, m) ys" "\<forall>x \<in> set xs. fst x < k" "k \<le> k'"
    unfolding seek_up_result_def by auto
  then show ?thesis
  proof cases
    case none
    then have "kv_ceil k (kvmem_contents p) = None"
      using live_rows_all [of "rows ?t" "\<lambda>x. x < k"] by (auto simp: kv_ceil_None kvmem_contents_def)
    then show ?thesis using none by (simp add: kvmemSeek_def)
  next
    case some
    have r: "rows ?t = xs @ (k', d, m) # ys" using is_at_rows some(2) .
    have lx: "\<forall>x \<in> set (live_rows xs). fst x < k" using live_rows_all [of xs "\<lambda>x. x < k"] some(3) by blast
    show ?thesis
    proof (cases d)
      case (Some v)
      have "kv_ceil k (kvmem_contents p) = Some (k', v)"
        using kv_ceil_split [OF lx, of "(k', v)" "live_rows ys"] some(4) r Some by (simp add: kvmem_contents_def)
      then show ?thesis using some Some is_at_cursor [OF some(2)] by (simp add: kvmemSeek_def)
    next
      case None
      let ?c = "\<lparr>cur_pNode = Some k', cur_pData = None\<rparr>"
      have sk: "kvmemSeek p c k direction =
          Option.bind (kvmemNextEntry p ?c) (\<lambda>(rc, pCur). Some (if rc \<noteq> SQLITE4_OK then SQLITE4_NOTFOUND else SQLITE4_INEXACT, pCur))"
        using some None is_at_cursor [OF some(2)] dir by (simp add: kvmemSeek_def)
      from next_at [OF ok some(2), of ?c] show ?thesis
      proof
        assume a: "(\<forall>y \<in> set ys. \<not> live y) \<and> kvmemNextEntry p ?c = Some (SQLITE4_NOTFOUND, kvmemPointAt None)"
        then have "kvmem_contents p = live_rows xs" using r None by (simp add: kvmem_contents_def live_rows_dead)
        then have "kv_ceil k (kvmem_contents p) = None" using lx by (auto simp: kv_ceil_None)
        then show ?thesis using sk a by simp
      next
        assume "\<exists>us k'' v m vs. ys = us @ (k'', Some v, m) # vs \<and> (\<forall>y \<in> set us. \<not> live y) \<and>
           kvmemNextEntry p ?c = Some (SQLITE4_OK, \<lparr>cur_pNode = Some k'', cur_pData = Some v\<rparr>)"
        then obtain us k'' v m' vs where w: "ys = us @ (k'', Some v, m') # vs" "\<forall>y \<in> set us. \<not> live y"
           "kvmemNextEntry p ?c = Some (SQLITE4_OK, \<lparr>cur_pNode = Some k'', cur_pData = Some v\<rparr>)" by blast
        have "k' < k''" using s r w(1) by (auto simp: sorted_keys_append sorted_keys_Cons)
        then have k: "k < k''" using some(4) by simp
        have "kvmem_contents p = live_rows xs @ (k'', v) # live_rows vs"
          using r None w(1,2) by (simp add: kvmem_contents_def live_rows_dead)
        then have "kv_ceil k (kvmem_contents p) = Some (k'', v)"
          using kv_ceil_split [OF lx, of "(k'', v)" "live_rows vs"] k by simp
        then show ?thesis using sk w(3) k by auto
      qed simp
    qed
  qed
qed

lemma seek_down_kvmem:
  assumes ok: "tree_ok (pRoot p)" and dir: "direction < 0"
  shows "\<exists>rc c'. kvmemSeek p c k direction = Some (rc, c') \<and>
      (case kv_floor k (kvmem_contents p) of
         Some (k', v) \<Rightarrow> rc = (if k' = k then SQLITE4_OK else SQLITE4_INEXACT) \<and> c' = \<lparr>cur_pNode = Some k', cur_pData = Some v\<rparr>
       | None \<Rightarrow> rc = SQLITE4_NOTFOUND)"
proof -
  let ?t = "pRoot p"
  have s: "sorted_keys (rows ?t)" using ok by (simp add: tree_ok_def)
  have "seek_down_result ?t k (seekLoop k direction ?t [] (None, SQLITE4_NOTFOUND))"
    using s dir by (intro seekLoop_down) auto
  then consider (none) "seekLoop k direction ?t [] (None, SQLITE4_NOTFOUND) = (None, SQLITE4_NOTFOUND)" "\<forall>x \<in> set (rows ?t). k < fst x"
    | (some) pos xs k' d m ys where "seekLoop k direction ?t [] (None, SQLITE4_NOTFOUND) = (Some pos, if k' = k then SQLITE4_OK else SQLITE4_INEXACT)"
      "is_at ?t pos xs (k', d, m) ys" "\<forall>x \<in> set ys. k < fst x" "k' \<le> k"
    unfolding seek_down_result_def by auto
  then show ?thesis
  proof cases
    case none
    then have "kv_floor k (kvmem_contents p) = None"
      using live_rows_all [of "rows ?t" "\<lambda>x. k < x"] by (auto simp: kv_floor_None kvmem_contents_def)
    then show ?thesis using none by (simp add: kvmemSeek_def)
  next
    case some
    have r: "rows ?t = xs @ (k', d, m) # ys" using is_at_rows some(2) .
    have ly: "\<forall>x \<in> set (live_rows ys). k < fst x" using live_rows_all [of ys "\<lambda>x. k < x"] some(3) by blast
    show ?thesis
    proof (cases d)
      case (Some v)
      have "kv_floor k (kvmem_contents p) = Some (k', v)"
        using kv_floor_split [OF ly, of "(k', v)" "live_rows xs"] some(4) r Some by (simp add: kvmem_contents_def)
      then show ?thesis using some Some is_at_cursor [OF some(2)] by (simp add: kvmemSeek_def)
    next
      case None
      let ?c = "\<lparr>cur_pNode = Some k', cur_pData = None\<rparr>"
      have sk: "kvmemSeek p c k direction =
          Option.bind (kvmemPrevEntry p ?c) (\<lambda>(rc, pCur). Some (if rc \<noteq> SQLITE4_OK then SQLITE4_NOTFOUND else SQLITE4_INEXACT, pCur))"
        using some None is_at_cursor [OF some(2)] dir by (simp add: kvmemSeek_def)
      from prev_at [OF ok some(2), of ?c] show ?thesis
      proof
        assume a: "(\<forall>x \<in> set xs. \<not> live x) \<and> kvmemPrevEntry p ?c = Some (SQLITE4_NOTFOUND, kvmemPointAt None)"
        then have "kvmem_contents p = live_rows ys" using r None by (simp add: kvmem_contents_def live_rows_dead)
        then have "kv_floor k (kvmem_contents p) = None" using ly by (auto simp: kv_floor_None)
        then show ?thesis using sk a by simp
      next
        assume "\<exists>us k'' v m vs. xs = vs @ (k'', Some v, m) # us \<and> (\<forall>y \<in> set us. \<not> live y) \<and>
           kvmemPrevEntry p ?c = Some (SQLITE4_OK, \<lparr>cur_pNode = Some k'', cur_pData = Some v\<rparr>)"
        then obtain us k'' v m' vs where w: "xs = vs @ (k'', Some v, m') # us" "\<forall>y \<in> set us. \<not> live y"
           "kvmemPrevEntry p ?c = Some (SQLITE4_OK, \<lparr>cur_pNode = Some k'', cur_pData = Some v\<rparr>)" by blast
        have "k'' < k'" using s r w(1) by (auto simp: sorted_keys_append sorted_keys_Cons)
        then have k: "k'' < k" using some(4) by simp
        have "kvmem_contents p = live_rows vs @ (k'', v) # live_rows ys"
          using r None w(1,2) by (simp add: kvmem_contents_def live_rows_dead)
        then have "kv_floor k (kvmem_contents p) = Some (k'', v)"
          using kv_floor_split [OF ly, of "(k'', v)" "live_rows vs"] k by simp
        then show ?thesis using sk w(3) k by auto
      qed simp
    qed
  qed
qed

lemma seek_exact_kvmem:
  assumes ok: "tree_ok (pRoot p)"
  shows "\<exists>rc c'. kvmemSeek p c k 0 = Some (rc, c') \<and>
      (case map_of (kvmem_contents p) k of
         Some v \<Rightarrow> rc = SQLITE4_OK \<and> c' = \<lparr>cur_pNode = Some k, cur_pData = Some v\<rparr>
       | None \<Rightarrow> rc = SQLITE4_NOTFOUND)"
proof -
  have s: "sorted_keys (rows (pRoot p))" using ok by (simp add: tree_ok_def)
  have m: "map_of (kvmem_contents p) k = view (map_of (rows (pRoot p))) k"
    using map_of_contents [OF ok] by (simp add: tmap_def)
  from seekLoop_exact [OF s, of k] consider (none) "seekLoop k 0 (pRoot p) [] (None, SQLITE4_NOTFOUND) = (None, SQLITE4_NOTFOUND)"
      "map_of (rows (pRoot p)) k = None"
    | (some) pos xs d mx ys where "seekLoop k 0 (pRoot p) [] (None, SQLITE4_NOTFOUND) = (Some pos, SQLITE4_OK)"
      "is_at (pRoot p) pos xs (k, d, mx) ys" "map_of (rows (pRoot p)) k = Some (d, mx)"
    unfolding seek_exact_result_def by (metis surj_pair)
  then show ?thesis
  proof cases
    case none
    then show ?thesis by (simp add: kvmemSeek_def m view_def)
  next
    case some
    then show ?thesis using is_at_cursor [OF some(2)] by (cases d) (simp_all add: kvmemSeek_def m view_def)
  qed
qed

end
