(* ===== verification/KvMemSpec.thy ===== *)
theory KvMemSpec
  imports KvMem
begin

text \<open>
  The in-memory storage engine as its users see it: the contract of a store and, over whole
  histories, nested transactions on an ordered association list.
\<close>

subsection \<open>The engine is a store\<close>

definition kvmem_good :: "KVMem \<Rightarrow> bool" where
  "kvmem_good p \<longleftrightarrow> (\<exists>Ms. kv_inv p Ms) \<and> iTransLevel p \<ge> 2"

lemma kvmem_good_tree: "kvmem_good p \<Longrightarrow> tree_ok (pRoot p)"
  by (auto simp: kvmem_good_def kv_inv_def)

lemma kvmem_good_cursors [simp]: "kvmem_good (p\<lparr>nCursor := c\<rparr>) = kvmem_good p"
  by (simp add: kvmem_good_def kv_inv_def open_logs_def)

lemma kvmem_cursor_shows [simp]:
  "kvmemKey p \<lparr>cur_pNode = Some k, cur_pData = Some v\<rparr> = (SQLITE4_OK, k)"
  "kvmemData p \<lparr>cur_pNode = Some k, cur_pData = Some v\<rparr> 0 = (SQLITE4_OK, v)"
  by (simp_all add: kvmemKey_def kvmemData_def)

lemmas kvmem_vtable = kvmemMethods_def kvmemOpenCursor_def kvmemCloseCursor_def kvmem_contents_def

interpretation kvmem: kv_store_strict kvmemMethods kvmem_good kvmem_contents
proof unfold_locales
  fix s c k v rc c'
  assume s: "kvmem_good s"
  note t = kvmem_good_tree [OF s]
  show "sorted_keys (kvmem_contents s)" using t by (simp add: kvmem_contents_def tree_ok_def)
  show "\<exists>s' c. xOpenCursor kvmemMethods s = (SQLITE4_OK, s', c) \<and> kvmem_good s' \<and> kvmem_contents s' = kvmem_contents s"
    using s by (simp add: kvmem_vtable)
  show "\<exists>s'. xCloseCursor kvmemMethods s c = (SQLITE4_OK, s') \<and> kvmem_good s' \<and> kvmem_contents s' = kvmem_contents s"
    using s by (simp add: kvmem_vtable)
  show "\<exists>rc c'. xSeek kvmemMethods s c k 0 = Some (rc, c') \<and>
      (case map_of (kvmem_contents s) k of
         Some v \<Rightarrow> rc = SQLITE4_OK \<and> xKey kvmemMethods s c' = (SQLITE4_OK, k) \<and> xData kvmemMethods s c' = (SQLITE4_OK, v)
       | None \<Rightarrow> rc = SQLITE4_NOTFOUND \<or> rc = SQLITE4_INEXACT)"
    using seek_exact_kvmem [OF t, of c k] by (cases "map_of (kvmem_contents s) k") (auto simp: kvmemMethods_def)
  show "\<exists>rc c'. xSeek kvmemMethods s c k 1 = Some (rc, c') \<and>
      (case kv_ceil k (kvmem_contents s) of
         Some (k', v) \<Rightarrow> rc = (if k' = k then SQLITE4_OK else SQLITE4_INEXACT)
           \<and> xKey kvmemMethods s c' = (SQLITE4_OK, k') \<and> xData kvmemMethods s c' = (SQLITE4_OK, v)
       | None \<Rightarrow> rc = SQLITE4_NOTFOUND)"
    using seek_up_kvmem [OF t, of 1 c k] by (cases "kv_ceil k (kvmem_contents s)") (auto simp: kvmemMethods_def)
  show "\<exists>rc c'. xSeek kvmemMethods s c k (- 1) = Some (rc, c') \<and>
      (case kv_floor k (kvmem_contents s) of
         Some (k', v) \<Rightarrow> rc = (if k' = k then SQLITE4_OK else SQLITE4_INEXACT)
           \<and> xKey kvmemMethods s c' = (SQLITE4_OK, k') \<and> xData kvmemMethods s c' = (SQLITE4_OK, v)
       | None \<Rightarrow> rc = SQLITE4_NOTFOUND)"
    using seek_down_kvmem [OF t, of "-1" c k] by (cases "kv_floor k (kvmem_contents s)") (auto simp: kvmemMethods_def)
  show "\<exists>s'. xReplace kvmemMethods s k v = Some (SQLITE4_OK, s') \<and> kvmem_good s'
      \<and> kvmem_contents s' = kv_put k v (kvmem_contents s)"
    using s replace_inv [of s _ k v] by (fastforce simp: kvmem_good_def kvmemMethods_def)
  show "map_of (kvmem_contents s) k = None \<Longrightarrow> xSeek kvmemMethods s c k 0 = Some (rc, c') \<Longrightarrow> rc = SQLITE4_NOTFOUND"
    using seek_exact_kvmem [OF t, of c k] by (auto simp: kvmemMethods_def)
qed

subsection \<open>Histories\<close>

text \<open>
  A history is a list of operations, each run through the wrappers of \<open>kv.c\<close>; deleting a
  key is seeking it with a cursor and deleting there. \<open>None\<close> is an error code or undefined
  behaviour.
\<close>

datatype kv_op = OpBegin nat | OpReplace bytes bytes | OpDelete bytes | OpCommit nat | OpRollback nat | OpRevert nat

definition kv_ok :: "(int \<times> 's) option \<Rightarrow> 's option" where
  "kv_ok r = (case r of Some (rc, s) \<Rightarrow> if rc = SQLITE4_OK then Some s else None | None \<Rightarrow> None)"

definition delete_key :: "KVMem \<Rightarrow> bytes \<Rightarrow> (int \<times> KVMem) option" where
  "delete_key p k =
     (let (_, p, c) = sqlite4KVStoreOpenCursor kvmemMethods p in
      do { (rc, c) \<leftarrow> sqlite4KVCursorSeek kvmemMethods p c k 0;
           (rc, p, c) \<leftarrow> (if rc = SQLITE4_OK then sqlite4KVCursorDelete kvmemMethods p c
                           else Some (SQLITE4_OK, p, c));
           Some (rc, snd (sqlite4KVCursorClose kvmemMethods p (Some c))) })"

fun exec_op :: "kv_op \<Rightarrow> KVMem \<Rightarrow> KVMem option" where
  "exec_op (OpBegin l) p = kv_ok (sqlite4KVStoreBegin kvmemMethods p l)"
| "exec_op (OpReplace k v) p = kv_ok (sqlite4KVStoreReplace kvmemMethods p k v)"
| "exec_op (OpDelete k) p = kv_ok (delete_key p k)"
| "exec_op (OpCommit l) p = kv_ok (sqlite4KVStoreCommit kvmemMethods p l)"
| "exec_op (OpRollback l) p = kv_ok (sqlite4KVStoreRollback kvmemMethods p l)"
| "exec_op (OpRevert l) p = kv_ok (sqlite4KVStoreRevert kvmemMethods p l)"

fun exec_run :: "kv_op list \<Rightarrow> KVMem \<Rightarrow> KVMem option" where
  "exec_run [] p = Some p"
| "exec_run (op # ops) p = do { p \<leftarrow> exec_op op p; exec_run ops p }"

text \<open>
  The specification: the current level, the current contents, and the contents at the start of
  each open write transaction, innermost first. An operation outside its contract is \<open>None\<close>.
\<close>

type_synonym kv_spec = "nat \<times> (bytes \<times> bytes) list \<times> (bytes \<times> bytes) list list"

fun spec_begin :: "nat \<Rightarrow> kv_spec \<Rightarrow> kv_spec option" where
  "spec_begin l (L, cur, saved) =
     (if l = L + 1 \<or> l = 2 \<and> L \<le> 1 then Some (l, cur, if l \<ge> 2 then cur # saved else saved) else None)"

fun spec_rollback :: "nat \<Rightarrow> kv_spec \<Rightarrow> kv_spec option" where
  "spec_rollback l (L, cur, saved) =
     (if l \<le> L then Some (l, (cur # saved) ! (L - 1 - (l - 1)), drop (L - 1 - (l - 1)) saved) else None)"

fun spec_op :: "kv_op \<Rightarrow> kv_spec \<Rightarrow> kv_spec option" where
  "spec_op (OpBegin l) s = spec_begin l s"
| "spec_op (OpReplace k v) (L, cur, saved) = (if L \<ge> 2 then Some (L, kv_put k v cur, saved) else None)"
| "spec_op (OpDelete k) (L, cur, saved) = (if L \<ge> 2 then Some (L, kv_del k cur, saved) else None)"
| "spec_op (OpCommit l) (L, cur, saved) =
     (if l < L then Some (l, cur, drop (L - 1 - (l - 1)) saved) else None)"
| "spec_op (OpRollback l) s = spec_rollback l s"
| "spec_op (OpRevert l) s =
     (if l = 0 \<or> l > fst s then None else do { s \<leftarrow> spec_rollback (l - 1) s; spec_begin l s })"

fun spec_run :: "kv_op list \<Rightarrow> kv_spec \<Rightarrow> kv_spec option" where
  "spec_run [] s = Some s"
| "spec_run (op # ops) s = do { s \<leftarrow> spec_op op s; spec_run ops s }"

definition displays :: "kvmap \<Rightarrow> (bytes \<times> bytes) list \<Rightarrow> bool" where
  "displays M kvs \<longleftrightarrow> sorted_keys kvs \<and> map_of kvs = view M"

fun refines :: "KVMem \<Rightarrow> kv_spec \<Rightarrow> bool" where
  "refines p (L, cur, saved) \<longleftrightarrow>
     (\<exists>Ms. kv_inv p Ms \<and> iTransLevel p = L \<and> kvmem_contents p = cur \<and> list_all2 displays Ms saved)"

lemma displays_contents: "tree_ok (pRoot p) \<Longrightarrow> displays (tmap (pRoot p)) (kvmem_contents p)"
  using map_of_contents [of p] by (auto simp: displays_def kvmem_contents_def tree_ok_def)

lemma displays_unique: "displays M xs \<Longrightarrow> displays M ys \<Longrightarrow> xs = ys"
  by (auto simp: displays_def intro: sorted_keys_ext)

lemma kv_ok_Some [simp]: "kv_ok (Some (SQLITE4_OK, p)) = Some p"
  by (simp add: kv_ok_def)

lemma kv_inv_tree: "kv_inv p Ms \<Longrightarrow> tree_ok (pRoot p)"
  by (simp add: kv_inv_def)

lemma refines_begin:
  assumes "refines p (L, cur, saved)" "spec_begin l (L, cur, saved) = Some a"
  shows "\<exists>p'. kvmemBegin p l = Some (SQLITE4_OK, p') \<and> refines p' a \<and> (distinct_logs p \<longrightarrow> distinct_logs p')"
proof -
  obtain Ms where inv: "kv_inv p Ms" "iTransLevel p = L" "kvmem_contents p = cur" "list_all2 displays Ms saved"
    using assms(1) by auto
  have l: "l = L + 1 \<or> l = 2 \<and> L \<le> 1" and a: "a = (l, cur, if l \<ge> 2 then cur # saved else saved)"
    using assms(2) by (auto split: if_splits)
  obtain p' where "kvmemBegin p l = Some (SQLITE4_OK, p')" "iTransLevel p' = l" "pRoot p' = pRoot p"
    "kv_inv p' (if l \<ge> 2 then tmap (pRoot p) # Ms else Ms)" "distinct_logs p \<longrightarrow> distinct_logs p'"
    using begin_inv [OF inv(1)] l inv(2) by blast
  then show ?thesis using a inv displays_contents [OF kv_inv_tree [OF inv(1)]]
    by (auto simp: kvmem_contents_def split: if_splits)
qed

lemma refines_rollback:
  assumes "refines p (L, cur, saved)" "spec_rollback l (L, cur, saved) = Some a"
  shows "\<exists>p'. kvmemRollback p l = Some (SQLITE4_OK, p') \<and> refines p' a"
proof -
  obtain Ms where inv: "kv_inv p Ms" "iTransLevel p = L" "kvmem_contents p = cur" "list_all2 displays Ms saved"
    using assms(1) by auto
  let ?n = "L - 1 - (l - 1)"
  have l: "l \<le> L" and a: "a = (l, (cur # saved) ! ?n, drop ?n saved)" using assms(2) by (auto split: if_splits)
  obtain p' where p': "kvmemRollback p l = Some (SQLITE4_OK, p')" "iTransLevel p' = l"
    "kv_inv p' (drop ?n Ms)" "tmap (pRoot p') = (tmap (pRoot p) # Ms) ! ?n"
    using rollback_inv [OF inv(1)] l inv(2) by blast
  have "list_all2 displays (tmap (pRoot p) # Ms) (cur # saved)"
    using inv displays_contents [OF kv_inv_tree [OF inv(1)]] by auto
  moreover have "?n < length (tmap (pRoot p) # Ms)" using kv_inv_length [OF inv(1)] inv(2) by simp
  ultimately have "displays (tmap (pRoot p')) ((cur # saved) ! ?n)" unfolding p'(4) by (rule list_all2_nthD)
  then have "kvmem_contents p' = (cur # saved) ! ?n"
    by (rule displays_unique [OF displays_contents [OF kv_inv_tree [OF p'(3)]]])
  then show ?thesis using p' a inv(4) by (auto intro: list_all2_dropI)
qed

lemma kvmemMethods_sel:
  "xBegin kvmemMethods = kvmemBegin" "xCommitPhaseOne kvmemMethods = Some kvmemCommitPhaseOne"
  "xCommitPhaseTwo kvmemMethods = kvmemCommitPhaseTwo" "xRollback kvmemMethods = kvmemRollback"
  "xRevert kvmemMethods = Some kvmemRevert" "kv_iTransLevel kvmemMethods = iTransLevel"
  by (simp_all add: kvmemMethods_def)

lemma exec_begin:
  "kvmemBegin p l = Some (SQLITE4_OK, p') \<Longrightarrow> iTransLevel p' = l \<Longrightarrow> exec_op (OpBegin l) p = Some p'"
  by (simp add: sqlite4KVStoreBegin_def at_level_def kvmemMethods_sel)

lemma exec_commit:
  assumes "l < iTransLevel p" "kvmemTransactional p"
  shows "sqlite4KVStoreCommit kvmemMethods p l = kvmemCommitPhaseTwo p l"
proof -
  have "Option.bind (kvmemCommitPhaseTwo p l) (at_level kvmemMethods l) = kvmemCommitPhaseTwo p l"
    using assms by (simp add: kvmemCommitPhaseTwo_def at_level_def kvmemMethods_sel bind_assoc)
  then show ?thesis using assms
    by (simp add: sqlite4KVStoreCommit_def sqlite4KVStoreCommitPhaseOne_def sqlite4KVStoreCommitPhaseTwo_def
        kvmemCommitPhaseOne_def kvmemMethods_sel)
qed

lemma exec_rollback:
  "kvmemRollback p l = Some (SQLITE4_OK, p') \<Longrightarrow> iTransLevel p' = l \<Longrightarrow> l \<le> iTransLevel p \<Longrightarrow>
     exec_op (OpRollback l) p = Some p'"
  by (simp add: sqlite4KVStoreRollback_def at_level_def kvmemMethods_sel)

lemma exec_revert:
  "kvmemRollback p (l - 1) = Some (SQLITE4_OK, q) \<Longrightarrow> kvmemBegin q l = Some (SQLITE4_OK, p') \<Longrightarrow> iTransLevel p' = l \<Longrightarrow>
     0 < l \<Longrightarrow> l \<le> iTransLevel p \<Longrightarrow> exec_op (OpRevert l) p = Some p'"
  by (simp add: sqlite4KVStoreRevert_def at_level_def kvmemMethods_sel kvmemRevert_def)

lemma exec_delete:
  assumes "kv_inv p Ms" "iTransLevel p \<ge> 2"
  shows "\<exists>p'. delete_key p k = Some (SQLITE4_OK, p') \<and> kv_inv p' Ms \<and> iTransLevel p' = iTransLevel p
    \<and> kvmem_contents p' = kv_del k (kvmem_contents p) \<and> (distinct_logs p \<longrightarrow> distinct_logs p')"
proof -
  let ?p = "p\<lparr>nCursor := nCursor p + 1\<rparr>" and ?c = "\<lparr>cur_pNode = Some k, cur_pData = Some v\<rparr>"
  have inv: "kv_inv ?p Ms" "iTransLevel ?p \<ge> 2" using assms by (simp_all add: kv_inv_def open_logs_def)
  have same: "kv_inv (q\<lparr>nCursor := i\<rparr>) Ms = kv_inv q Ms" "distinct_logs (q\<lparr>nCursor := i\<rparr>) = distinct_logs q"
    "kvmem_contents (q\<lparr>nCursor := i\<rparr>) = kvmem_contents q" for q i
    by (simp_all add: kv_inv_def open_logs_def distinct_logs_def kvmem_contents_def)
  obtain rc c where sk: "kvmemSeek ?p \<lparr>cur_pNode = None, cur_pData = None\<rparr> k 0 = Some (rc, c)"
    "case map_of (kvmem_contents p) k of
       Some v \<Rightarrow> rc = SQLITE4_OK \<and> c = \<lparr>cur_pNode = Some k, cur_pData = Some v\<rparr> | None \<Rightarrow> rc = SQLITE4_NOTFOUND"
    using seek_exact_kvmem [OF kv_inv_tree [OF inv(1)]] unfolding same by blast
  have d: "delete_key p k =
      Option.bind (if rc = SQLITE4_OK then kvmemDelete ?p c else Some (SQLITE4_OK, ?p, c))
        (\<lambda>(rc, p, c). Some (rc, p\<lparr>nCursor := nCursor p - 1\<rparr>))"
    using sk(1) by (simp add: delete_key_def sqlite4KVStoreOpenCursor_def sqlite4KVCursorSeek_def sqlite4KVCursorDelete_def
        sqlite4KVCursorClose_def kvmem_vtable)
  show ?thesis
  proof (cases "map_of (kvmem_contents p) k")
    case None
    then have "kv_del k (kvmem_contents p) = kvmem_contents p"
      by (intro kv_del_notin) (simp add: map_of_eq_None_iff)
    then show ?thesis using d sk(2) None assms(1) same by simp
  next
    case (Some v)
    then have c: "rc = SQLITE4_OK" "cur_pNode c = Some k" using sk(2) by auto
    obtain q where "kvmemDelete ?p c = Some (SQLITE4_OK, q, c)" "kv_inv q Ms" "iTransLevel q = iTransLevel p"
      "kvmem_contents q = kv_del k (kvmem_contents p)" "distinct_logs p \<longrightarrow> distinct_logs q"
      using delete_inv [OF inv c(2)] same by auto
    then show ?thesis using d c(1) same by simp
  qed
qed

text \<open>One step refines the specification whenever it is defined.\<close>

lemma exec_op_refines:
  assumes R: "refines p a" and spec: "spec_op op a = Some a'" and run: "exec_op op p = Some p'"
  shows "refines p' a'"
proof -
  obtain L cur saved where a: "a = (L, cur, saved)" by (cases a)
  obtain Ms where inv: "kv_inv p Ms" "iTransLevel p = L" "kvmem_contents p = cur" "list_all2 displays Ms saved"
    using R a by auto
  show ?thesis
  proof (cases op)
    case (OpBegin l)
    then obtain q where "kvmemBegin p l = Some (SQLITE4_OK, q)" "refines q a'" "fst a' = l"
      using refines_begin [of p L cur saved l a'] R spec a by (auto split: if_splits)
    then show ?thesis using exec_begin [of p l q] OpBegin run by (cases a') auto
  next
    case (OpReplace k v)
    then have L: "iTransLevel p \<ge> 2" using spec a inv(2) by (auto split: if_splits)
    then show ?thesis using OpReplace replace_inv [OF inv(1) L, of k v] spec run a inv
      by (auto simp: sqlite4KVStoreReplace_def kvmemMethods_def split: if_splits)
  next
    case (OpDelete k)
    then have L: "iTransLevel p \<ge> 2" using spec a inv(2) by (auto split: if_splits)
    then show ?thesis using OpDelete exec_delete [OF inv(1) L, of k] spec run a inv
      by (auto split: if_splits)
  next
    case (OpCommit l)
    then have l: "l < iTransLevel p" "a' = (l, cur, drop (L - 1 - (l - 1)) saved)"
      using spec a inv(2) by (auto split: if_splits)
    then have c: "kvmemCommitPhaseTwo p l = Some (SQLITE4_OK, p')"
      using run OpCommit exec_commit [of l p] inv(1) by (auto simp: kv_ok_def kv_inv_def split: option.splits if_splits)
    show ?thesis
    proof (cases "l \<ge> 2")
      case True
      have tr: "kvmemTransactional p" using inv(1) by (simp add: kv_inv_def)
      obtain q where q: "commitLoop l L p = Some q" "iTransLevel q = l" "kv_inv q (drop (L - l) Ms)"
          "view (tmap (pRoot q)) = view (tmap (pRoot p))"
        using commitLoop_into [OF inv(1) inv(2) _ True] l(1) inv(2) by auto
      then have p': "p' = q" using c l(1) tr inv(2) by (auto simp: kvmemCommitPhaseTwo_def)
      have "kvmem_contents q = cur"
        using contents_eqI [OF kv_inv_tree [OF q(3)] kv_inv_tree [OF inv(1)] q(4)] inv(3) by simp
      moreover have "L - 1 - (l - 1) = L - l" using True by simp
      ultimately show ?thesis using p' q l(2) inv(4) by (auto intro: list_all2_dropI)
    next
      case False
      then have "l \<le> 1" by simp
      moreover have "drop (L - 1 - (l - 1)) saved = []"
        using False kv_inv_length [OF inv(1)] inv(2,4) by (simp add: list_all2_lengthD [symmetric])
      ultimately show ?thesis using commit_final_inv(2) [OF inv(1) l(1) _ c] l(2) inv(3) by auto
    qed
  next
    case (OpRollback l)
    then obtain q where "kvmemRollback p l = Some (SQLITE4_OK, q)" "refines q a'" "fst a' = l" "l \<le> L"
      using refines_rollback [of p L cur saved l a'] R spec a by (auto split: if_splits)
    then show ?thesis using exec_rollback [of p l q] OpRollback run inv(2) by (cases a') auto
  next
    case (OpRevert l)
    then obtain b where b: "l \<noteq> 0" "l \<le> L" "spec_rollback (l - 1) a = Some b" "spec_begin l b = Some a'"
      using spec a by (auto split: if_splits bind_splits)
    obtain q where q: "kvmemRollback p (l - 1) = Some (SQLITE4_OK, q)" "refines q b"
      using refines_rollback [of p L cur saved "l - 1" b] R b(3) a by auto
    obtain L' cur' saved' where b': "b = (L', cur', saved')" by (cases b)
    obtain r where r: "kvmemBegin q l = Some (SQLITE4_OK, r)" "refines r a'" "fst a' = l"
      using refines_begin [of q L' cur' saved' l a'] q b(4) b' by (auto split: if_splits)
    then have "iTransLevel r = l" by (cases a') auto
    then show ?thesis using exec_revert [OF q(1) r(1)] b(1,2) inv(2) OpRevert run r(2) by simp
  qed
qed

lemma exec_run_refines:
  "refines p a \<Longrightarrow> spec_run ops a = Some a' \<Longrightarrow> exec_run ops p = Some p' \<Longrightarrow> refines p' a'"
proof (induction ops arbitrary: p a)
  case (Cons op ops)
  obtain b q where "spec_op op a = Some b" "spec_run ops b = Some a'" "exec_op op p = Some q" "exec_run ops q = Some p'"
    using Cons.prems(2,3) by (auto split: bind_splits)
  then show ?case using Cons.IH [of q b] exec_op_refines [OF Cons.prems(1)] by blast
qed simp

lemma refines_open:
  assumes "flags AND SQLITE4_KVOPEN_NO_TRANSACTIONS = 0"
  shows "refines (sqlite4KVStoreOpenMem flags) (0, [], [])"
  using assms
  by (simp add: sqlite4KVStoreOpenMem_def kv_inv_def tree_ok_def kvmemTransactional_def open_logs_def tmap_def
      kvmem_contents_def)

text \<open>
  The one operation within its contract that fails: a commit that leaves the write transaction
  while a deleted row has more than one record in the open logs.
\<close>

definition frees_twice :: "KVMem \<Rightarrow> bool" where
  "frees_twice p \<longleftrightarrow> (\<exists>k t. map_of (rows (pRoot p)) k = Some (None, t) \<and>
     count_list (map ch_pNode (concat (open_logs p))) k > 1)"

lemma exec_op_fails:
  assumes R: "refines p a" and spec: "spec_op op a = Some a'" and none: "exec_op op p = None"
  shows "\<exists>l. op = OpCommit l \<and> l \<le> 1 \<and> frees_twice p"
proof -
  obtain L cur saved where a: "a = (L, cur, saved)" by (cases a)
  obtain Ms where inv: "kv_inv p Ms" "iTransLevel p = L" using R a by auto
  show ?thesis
  proof (cases op)
    case (OpBegin l)
    then obtain q where "kvmemBegin p l = Some (SQLITE4_OK, q)" "refines q a'" "fst a' = l"
      using refines_begin [of p L cur saved l a'] R spec a by (auto split: if_splits)
    then show ?thesis using exec_begin [of p l q] OpBegin none by (cases a') auto
  next
    case (OpReplace k v)
    then have L: "iTransLevel p \<ge> 2" using spec a inv(2) by (auto split: if_splits)
    then show ?thesis using OpReplace replace_inv [OF inv(1) L, of k v] none
      by (auto simp: sqlite4KVStoreReplace_def kvmemMethods_def)
  next
    case (OpDelete k)
    then have L: "iTransLevel p \<ge> 2" using spec a inv(2) by (auto split: if_splits)
    then show ?thesis using OpDelete exec_delete [OF inv(1) L, of k] none by auto
  next
    case (OpCommit l)
    then have l: "l < iTransLevel p" using spec a inv(2) by (auto split: if_splits)
    have tr: "kvmemTransactional p" using inv(1) by (simp add: kv_inv_def)
    have ex: "exec_op op p = kv_ok (kvmemCommitPhaseTwo p l)" using exec_commit [OF l tr] OpCommit by simp
    show ?thesis
    proof (cases "l \<ge> 2")
      case True
      obtain q where "commitLoop l L p = Some q" using commitLoop_into [OF inv _ True] l inv(2) by auto
      then show ?thesis using ex none l tr inv(2) True by (simp add: kvmemCommitPhaseTwo_def)
    next
      case False
      then have l1: "l \<le> 1" by simp
      have "kvmemCommitPhaseTwo p l = None"
      proof (rule ccontr)
        assume "kvmemCommitPhaseTwo p l \<noteq> None"
        then obtain rc q where c: "kvmemCommitPhaseTwo p l = Some (rc, q)" by auto
        then have "rc = SQLITE4_OK" using commit_final_inv(2) [OF inv(1) l l1 c] by simp
        then show False using ex none c by simp
      qed
      then show ?thesis using commit_final_inv(1) [OF inv(1) l l1] OpCommit l1 by (simp add: frees_twice_def tmap_def)
    qed
  next
    case (OpRollback l)
    then obtain q where "kvmemRollback p l = Some (SQLITE4_OK, q)" "refines q a'" "fst a' = l" "l \<le> L"
      using refines_rollback [of p L cur saved l a'] R spec a by (auto split: if_splits)
    then show ?thesis using exec_rollback [of p l q] OpRollback none inv(2) by (cases a') auto
  next
    case (OpRevert l)
    then obtain b where b: "l \<noteq> 0" "l \<le> L" "spec_rollback (l - 1) a = Some b" "spec_begin l b = Some a'"
      using spec a by (auto split: if_splits bind_splits)
    obtain q where q: "kvmemRollback p (l - 1) = Some (SQLITE4_OK, q)" "refines q b"
      using refines_rollback [of p L cur saved "l - 1" b] R b(3) a by auto
    obtain L' cur' saved' where b': "b = (L', cur', saved')" by (cases b)
    obtain r where r: "kvmemBegin q l = Some (SQLITE4_OK, r)" "refines r a'" "fst a' = l"
      using refines_begin [of q L' cur' saved' l a'] q b(4) b' by (auto split: if_splits)
    then have "iTransLevel r = l" by (cases a') auto
    then show ?thesis using exec_revert [OF q(1) r(1)] b(1,2) inv(2) OpRevert none by simp
  qed
qed

lemma exec_run_fails:
  "refines p a \<Longrightarrow> spec_run ops a = Some a' \<Longrightarrow> exec_run ops p = None \<Longrightarrow>
     \<exists>pre l rest q. ops = pre @ OpCommit l # rest \<and> l \<le> 1 \<and> exec_run pre p = Some q \<and> frees_twice q"
proof (induction ops arbitrary: p a)
  case (Cons op ops)
  obtain b where b: "spec_op op a = Some b" "spec_run ops b = Some a'" using Cons.prems(2) by (auto split: bind_splits)
  show ?case
  proof (cases "exec_op op p")
    case None
    then obtain l where "op = OpCommit l" "l \<le> 1" "frees_twice p" using exec_op_fails [OF Cons.prems(1) b(1)] by blast
    then show ?thesis by (intro exI [of _ "[]"]) auto
  next
    case (Some q)
    have "exec_run ops q = None" using Cons.prems(3) Some by simp
    then obtain pre l rest q' where "ops = pre @ OpCommit l # rest" "l \<le> 1" "exec_run pre q = Some q'" "frees_twice q'"
      using Cons.IH [OF exec_op_refines [OF Cons.prems(1) b(1) Some] b(2)] by blast
    then show ?thesis using Some by (intro exI [of _ "op # pre"] exI [of _ l] exI [of _ rest]) auto
  qed
qed simp

text \<open>Without nested write transactions every operation is defined.\<close>

fun flat_op :: "kv_op \<Rightarrow> bool" where
  "flat_op (OpBegin l) \<longleftrightarrow> l \<le> 2"
| "flat_op (OpRevert l) \<longleftrightarrow> l \<le> 2"
| "flat_op _ \<longleftrightarrow> True"

definition flat :: "KVMem \<Rightarrow> bool" where
  "flat p \<longleftrightarrow> iTransLevel p \<le> 2 \<and> distinct_logs p"

lemma distinct_logs_low: "iTransLevel p \<le> 1 \<Longrightarrow> distinct_logs p"
  by (simp add: distinct_logs_def open_logs_def)

lemma flat_rollback:
  assumes "kv_inv p Ms" "l \<le> iTransLevel p" "flat p" "kvmemRollback p l = Some (SQLITE4_OK, p')" "iTransLevel p' = l"
  shows "flat p'"
proof (cases "l = iTransLevel p \<and> l = 2")
  case True
  moreover have "rollbackLoop L L p = Some p" for L by (cases L) simp_all
  moreover have "p\<lparr>iTransLevel := iTransLevel p\<rparr> = p" by simp
  ultimately have "p' = p" using assms(4) by (auto simp: kvmemRollback_def split: if_splits)
  then show ?thesis using assms(3) by simp
next
  case False
  then show ?thesis using assms by (auto simp: flat_def intro: distinct_logs_low)
qed

lemma distinct_count_le: "distinct xs \<Longrightarrow> count_list xs k \<le> 1"
  by (induction xs) auto

lemma exec_op_total:
  assumes R: "refines p a" and spec: "spec_op op a = Some a'" and fl: "flat p" "flat_op op"
  shows "\<exists>p'. exec_op op p = Some p' \<and> flat p'"
proof -
  obtain L cur saved where a: "a = (L, cur, saved)" by (cases a)
  obtain Ms where inv: "kv_inv p Ms" "iTransLevel p = L" "kvmem_contents p = cur" "list_all2 displays Ms saved"
    using R a by auto
  have lv: "iTransLevel p \<le> 2" "distinct_logs p" using fl(1) by (auto simp: flat_def)
  show ?thesis
  proof (cases op)
    case (OpBegin l)
    then have l: "l = iTransLevel p + 1 \<or> l = 2 \<and> iTransLevel p \<le> 1" "l \<le> 2"
      using spec fl a inv(2) by (auto split: if_splits)
    obtain q where "kvmemBegin p l = Some (SQLITE4_OK, q)" "iTransLevel q = l" "distinct_logs p \<longrightarrow> distinct_logs q"
      using begin_inv [OF inv(1) l(1)] by blast
    then show ?thesis using exec_begin [of p l q] OpBegin l(2) lv by (auto simp: flat_def)
  next
    case (OpReplace k v)
    then have L: "iTransLevel p \<ge> 2" using spec a inv(2) by (auto split: if_splits)
    then show ?thesis using OpReplace replace_inv [OF inv(1) L, of k v] lv
      by (auto simp: sqlite4KVStoreReplace_def kvmemMethods_def flat_def)
  next
    case (OpDelete k)
    then have L: "iTransLevel p \<ge> 2" using spec a inv(2) by (auto split: if_splits)
    then show ?thesis using OpDelete exec_delete [OF inv(1) L, of k] lv by (auto simp: flat_def)
  next
    case (OpCommit l)
    then have l: "l < iTransLevel p" "l \<le> 1" using spec a inv(2) lv by (auto split: if_splits)
    have "count_list (map ch_pNode (concat (open_logs p))) k \<le> 1" for k
    proof (cases "iTransLevel p = 2")
      case True
      then have o: "open_logs p = [apLog p ! 0]" using kv_inv_level(1) [OF inv(1)] by simp
      then have "distinct (map ch_pNode (apLog p ! 0))" using lv(2) by (simp add: distinct_logs_def)
      then show ?thesis using o by (simp add: distinct_count_le del: One_nat_def)
    next
      case False
      then show ?thesis using lv by (simp add: open_logs_def)
    qed
    then obtain rc p' where c: "kvmemCommitPhaseTwo p l = Some (rc, p')"
      using commit_final_inv(1) [OF inv(1) l] by (metis not_le option.exhaust surj_pair)
    then show ?thesis using commit_final_inv(2) [OF inv(1) l c] OpCommit exec_commit [OF l(1)] l inv(1)
      by (auto simp: flat_def kv_inv_def intro: distinct_logs_low)
  next
    case (OpRollback l)
    then have l: "l \<le> iTransLevel p" using spec a inv(2) by (auto split: if_splits)
    obtain p' where p': "kvmemRollback p l = Some (SQLITE4_OK, p')" "iTransLevel p' = l"
      using rollback_inv [OF inv(1) l] by blast
    then show ?thesis using flat_rollback [OF inv(1) l fl(1)] OpRollback exec_rollback [OF p' l] by blast
  next
    case (OpRevert l)
    then have l: "l \<noteq> 0" "l - 1 \<le> iTransLevel p" "l \<le> 2" "l \<le> iTransLevel p" using spec a inv(2) fl(2) by (auto split: if_splits)
    obtain q where q: "kvmemRollback p (l - 1) = Some (SQLITE4_OK, q)" "iTransLevel q = l - 1"
      "kv_inv q (drop (iTransLevel p - 1 - (l - 1 - 1)) Ms)"
      using rollback_inv [OF inv(1) l(2)] by blast
    have "l = iTransLevel q + 1" using q(2) l(1) by simp
    then obtain p' where p': "kvmemBegin q l = Some (SQLITE4_OK, p')" "iTransLevel p' = l" "distinct_logs q \<longrightarrow> distinct_logs p'"
      using begin_inv [OF q(3), of l] by blast
    moreover have "distinct_logs q" using q(2) l(3) by (intro distinct_logs_low) simp
    ultimately show ?thesis using exec_revert [OF q(1) p'(1,2)] OpRevert l by (auto simp: flat_def)
  qed
qed

lemma exec_run_total:
  "refines p a \<Longrightarrow> spec_run ops a = Some a' \<Longrightarrow> flat p \<Longrightarrow> list_all flat_op ops \<Longrightarrow> \<exists>p'. exec_run ops p = Some p'"
proof (induction ops arbitrary: p a)
  case (Cons op ops)
  obtain b where b: "spec_op op a = Some b" "spec_run ops b = Some a'" using Cons.prems(2) by (auto split: bind_splits)
  obtain q where q: "exec_op op p = Some q" "flat q" using exec_op_total [OF Cons.prems(1) b(1)] Cons.prems(3,4) by auto
  show ?case using Cons.IH [OF exec_op_refines [OF Cons.prems(1) b(1) q(1)] b(2) q(2)] Cons.prems(4) q(1) by simp
qed simp

lemma is_at_exists:
  assumes "sorted_keys (rows t)" "rows t = xs @ (k, d) # ys"
  shows "\<exists>pos. is_at t pos xs (k, d) ys"
  using assms(1)
proof (cases rule: kvmemFind_cases [where k = k])
  case (missing fs)
  then show ?thesis using assms(2) by (auto simp: map_add_def split: option.splits)
next
  case (found b n a fs)
  have at: "is_at t (KNode b n a, fs) (rows_before fs @ rows b) (row n) (rows a @ rows_after fs)"
    using is_at_self [of fs b n a] found(2) by simp
  then have "rows t = (rows_before fs @ rows b) @ (k, nd_pData n, nd_mxTrans n) # (rows a @ rows_after fs)"
    using is_at_rows [OF at] found(3) by simp
  then have "xs = rows_before fs @ rows b \<and> d = (nd_pData n, nd_mxTrans n) \<and> ys = rows a @ rows_after fs"
    using assms by (intro sorted_split_unique) auto
  then show ?thesis using at found(3) by auto
qed

subsection \<open>Properties\<close>

abbreviation kv_history :: "kv_op list" where
  "kv_history \<equiv> [OpBegin 2, OpReplace [2] [7], OpReplace [1] [8], OpBegin 3, OpReplace [2] [9], OpRollback 2, OpDelete [1], OpCommit 0]"

text \<open>
  C5. Nested transactions are correct: over every history of begins, writes, deletions, commits,
  rollbacks and reverts within their contract, the engine holds exactly the contents of the
  specification, a sorted association list with the saved contents of the open transactions,
  at the same transaction level; a rollback restores what was there when the level was begun.
  The one history that does not run to its end is one that reaches a commit which leaves the
  write transaction while a deleted row has more than one record in the open logs.
\<close>

theorem kvmem_transactions:
  assumes "flags AND SQLITE4_KVOPEN_NO_TRANSACTIONS = 0"
    and "spec_run ops (0, [], []) = Some (L, cur, saved)"
  shows "case exec_run ops (sqlite4KVStoreOpenMem flags) of
      Some p \<Rightarrow> kvmem_contents p = cur \<and> iTransLevel p = L
    | None \<Rightarrow> \<exists>pre l rest p. ops = pre @ OpCommit l # rest \<and> l \<le> 1 \<and>
        exec_run pre (sqlite4KVStoreOpenMem flags) = Some p \<and> frees_twice p"
proof (cases "exec_run ops (sqlite4KVStoreOpenMem flags)")
  case None
  then show ?thesis using exec_run_fails [OF refines_open [OF assms(1)] assms(2)] by simp
next
  case (Some p)
  then show ?thesis using exec_run_refines [OF refines_open [OF assms(1)] assms(2)] by auto
qed

text \<open>A nested history that runs to its end, and one that does not.\<close>

abbreviation kv_nested :: "kv_op list" where
  "kv_nested \<equiv> [OpBegin 2, OpReplace [1] [7], OpBegin 3, OpDelete [1], OpCommit 2, OpCommit 0]"

theorem kvmem_transactions_witness:
  "(\<exists>p. exec_run kv_history (sqlite4KVStoreOpenMem 0) = Some p \<and> kvmem_contents p = [([2], [7])] \<and> iTransLevel p = 0)
   \<and> exec_run kv_nested (sqlite4KVStoreOpenMem 0) = None
   \<and> (\<exists>pre l rest p. kv_nested = pre @ OpCommit l # rest \<and> l \<le> 1 \<and>
        exec_run pre (sqlite4KVStoreOpenMem 0) = Some p \<and> frees_twice p)"
proof -
  have s: "spec_run kv_history (0, [], []) = Some (0, [([2], [7])], [])" by code_simp
  have "exec_run kv_history (sqlite4KVStoreOpenMem 0) \<noteq> None" by code_simp
  then obtain p where p: "exec_run kv_history (sqlite4KVStoreOpenMem 0) = Some p" by blast
  have n: "spec_run kv_nested (0, [], []) = Some (0, [], [])" by code_simp
  have "exec_run kv_nested (sqlite4KVStoreOpenMem 0) = None" by code_simp
  then show ?thesis using kvmem_transactions [OF _ s, of 0] kvmem_transactions [OF _ n, of 0] p by simp
qed

text \<open>
  C6. As long as no write transaction is nested, every history within the contract runs to its
  end without an error or undefined behaviour, and the result is that of the specification.
\<close>

theorem kvmem_flat_histories_run:
  assumes "flags AND SQLITE4_KVOPEN_NO_TRANSACTIONS = 0" "list_all flat_op ops"
    and "spec_run ops (0, [], []) = Some (L, cur, saved)"
  shows "\<exists>p. exec_run ops (sqlite4KVStoreOpenMem flags) = Some p \<and> kvmem_contents p = cur"
proof -
  note o = refines_open [OF assms(1)]
  have "flat (sqlite4KVStoreOpenMem flags)"
    by (simp add: flat_def sqlite4KVStoreOpenMem_def distinct_logs_low)
  then obtain p where "exec_run ops (sqlite4KVStoreOpenMem flags) = Some p"
    using exec_run_total [OF o assms(3) _ assms(2)] by blast
  then show ?thesis using exec_run_refines [OF o assms(3)] by auto
qed

theorem kvmem_flat_histories_run_witness:
  "\<exists>p. exec_run [OpBegin 2, OpReplace [2] [7], OpReplace [1] [], OpDelete [2], OpCommit 1] (sqlite4KVStoreOpenMem 0) = Some p
     \<and> kvmem_contents p = [([1], [])]"
  by (rule kvmem_flat_histories_run [where saved = "[]" and L = 1]; code_simp)

text \<open>
  C7. The tree stays balanced: after any such history the stored heights and imbalances are
  right, siblings differ in height by at most one, and the height is at most twice the binary
  logarithm of the number of rows.
\<close>

theorem kvmem_stays_balanced:
  assumes "flags AND SQLITE4_KVOPEN_NO_TRANSACTIONS = 0"
    and "spec_run ops (0, [], []) \<noteq> None"
    and "exec_run ops (sqlite4KVStoreOpenMem flags) = Some p"
  shows "avl (pRoot p) \<and> sorted_keys (rows (pRoot p)) \<and> 2 ^ (ht (pRoot p) div 2) \<le> length (rows (pRoot p)) + 1"
proof -
  obtain a where "spec_run ops (0, [], []) = Some a" using assms(2) by blast
  then have "refines p a" using exec_run_refines [OF refines_open [OF assms(1)] _ assms(3)] by blast
  then have "tree_ok (pRoot p)" by (cases a) (auto dest: kv_inv_tree)
  then show ?thesis using avl_height [of "pRoot p"] by (simp add: tree_ok_def)
qed

theorem kvmem_stays_balanced_witness:
  "\<exists>p. exec_run kv_history (sqlite4KVStoreOpenMem 0) = Some p \<and> avl (pRoot p)"
proof -
  have "exec_run kv_history (sqlite4KVStoreOpenMem 0) \<noteq> None" by code_simp
  then obtain p where "exec_run kv_history (sqlite4KVStoreOpenMem 0) = Some p" by blast
  moreover have "spec_run kv_history (0, [], []) \<noteq> None" by code_simp
  ultimately show ?thesis using kvmem_stays_balanced [of 0 kv_history p] by auto
qed

text \<open>
  C40. A commit that leaves the write transaction fails exactly when a deleted row has more than
  one record in the open logs, as after a nested transaction that deleted a row its parent had
  already changed: the first record frees the row's node, the second follows the pointer to it.
  Otherwise it keeps the contents.
\<close>

theorem kvmem_commit_frees_twice:
  assumes "kv_inv p Ms" and "l < iTransLevel p" "l \<le> 1"
  shows "(kvmemCommitPhaseTwo p l = None \<longleftrightarrow>
      (\<exists>k t. map_of (rows (pRoot p)) k = Some (None, t) \<and> count_list (map ch_pNode (concat (open_logs p))) k > 1))
    \<and> (\<forall>rc p'. kvmemCommitPhaseTwo p l = Some (rc, p') \<longrightarrow>
         rc = SQLITE4_OK \<and> iTransLevel p' = l \<and> kvmem_contents p' = kvmem_contents p)"
  using commit_final_inv [OF assms] by (auto simp: tmap_def)

theorem kvmem_commit_frees_twice_witness:
  "\<exists>p. exec_run [OpBegin 2, OpReplace [1] [7], OpBegin 3, OpDelete [1], OpCommit 2] (sqlite4KVStoreOpenMem 0) = Some p
     \<and> kvmemCommitPhaseTwo p 0 = None"
proof -
  let ?ops = "[OpBegin 2, OpReplace [1] [7], OpBegin 3, OpDelete [1], OpCommit 2]"
  let ?p = "the (exec_run ?ops (sqlite4KVStoreOpenMem 0))"
  have e: "exec_run ?ops (sqlite4KVStoreOpenMem 0) = Some ?p" by code_simp
  have "spec_run ?ops (0, [], []) = Some (2, [], [[]])" by code_simp
  then have "refines ?p (2, [], [[]])" using exec_run_refines [OF refines_open _ e] by simp
  then obtain Ms where inv: "kv_inv ?p Ms" "iTransLevel ?p = 2" by auto
  have "map_of (rows (pRoot ?p)) [1] = Some (None, 2)" by code_simp
  moreover have "count_list (map ch_pNode (concat (open_logs ?p))) [1] = 2" by code_simp
  ultimately have "kvmemCommitPhaseTwo ?p 0 = None"
    using kvmem_commit_frees_twice [OF inv(1), of 0] inv(2) by fastforce
  with e show ?thesis by blast
qed

text \<open>
  C8. Seeking finds the exact entry, or the nearest entry in the direction asked for, past all
  rows that are deleted but still in the tree, and says which; the cursor then shows that entry.
  This holds at every transaction level, 0 included: \<open>kvmem.c\<close> does not check the level, although
  \<open>kv.h\<close> says that cursor operations fail below level 1.
\<close>

theorem kvmem_seek:
  assumes "avl (pRoot p)" "sorted_keys (rows (pRoot p))" "direction \<in> {-1, 0, 1}"
  shows "\<exists>rc c'. kvmemSeek p c k direction = Some (rc, c') \<and>
      (case (if direction = 0 then map_option (Pair k) (map_of (kvmem_contents p) k)
             else if direction > 0 then kv_ceil k (kvmem_contents p) else kv_floor k (kvmem_contents p)) of
         Some (k', v) \<Rightarrow> rc = (if k' = k then SQLITE4_OK else SQLITE4_INEXACT)
           \<and> kvmemKey p c' = (SQLITE4_OK, k') \<and> kvmemData p c' 0 = (SQLITE4_OK, v)
       | None \<Rightarrow> rc = SQLITE4_NOTFOUND)"
proof -
  have ok: "tree_ok (pRoot p)" using assms by (simp add: tree_ok_def)
  consider "direction = 0" | "direction = 1" | "direction = -1" using assms(3) by auto
  then show ?thesis
  proof cases
    case 1
    then show ?thesis using seek_exact_kvmem [OF ok, of c k] by (cases "map_of (kvmem_contents p) k") auto
  next
    case 2
    then show ?thesis using seek_up_kvmem [OF ok, of 1 c k] by (cases "kv_ceil k (kvmem_contents p)") auto
  next
    case 3
    then show ?thesis using seek_down_kvmem [OF ok, of "-1" c k] by (cases "kv_floor k (kvmem_contents p)") auto
  qed
qed

text \<open>The store with the rows 1, 2 (deleted in the open transaction) and 3.\<close>

abbreviation kv_example :: KVMem where
  "kv_example \<equiv> the (exec_run [OpBegin 2, OpReplace [1] [7], OpReplace [2] [8], OpReplace [3] [9], OpCommit 0,
     OpBegin 2, OpDelete [2]] (sqlite4KVStoreOpenMem 0))"

theorem kvmem_seek_witness:
  "\<exists>rc c'. kvmemSeek kv_example \<lparr>cur_pNode = None, cur_pData = None\<rparr> [2] 1 = Some (rc, c') \<and> rc = SQLITE4_INEXACT
    \<and> kvmemKey kv_example c' = (SQLITE4_OK, [3]) \<and> kvmemData kv_example c' 0 = (SQLITE4_OK, [9])"
proof -
  have a: "avl (pRoot kv_example)" by code_simp
  have s: "sorted_keys (rows (pRoot kv_example))" by code_simp
  have "kv_ceil [2] (kvmem_contents kv_example) = Some ([3], [9])" by code_simp
  then show ?thesis using kvmem_seek [OF a s, of 1 "\<lparr>cur_pNode = None, cur_pData = None\<rparr>" "[2]"] by auto
qed

text \<open>
  C39. A cursor on a row moves to the nearest row after it (before it) that is not deleted, and
  to no row when there is none; the rows between are all deleted.
  As for seeking, the transaction level is not checked.
\<close>

theorem kvmem_next_prev:
  assumes "avl (pRoot p)" "sorted_keys (rows (pRoot p))" "rows (pRoot p) = xs @ (k, d) # ys" "cur_pNode c = Some k"
  shows "kvmemNextEntry p c =
      Some (case live_rows ys of
              [] \<Rightarrow> (SQLITE4_NOTFOUND, \<lparr>cur_pNode = None, cur_pData = None\<rparr>)
            | (k', v) # _ \<Rightarrow> (SQLITE4_OK, \<lparr>cur_pNode = Some k', cur_pData = Some v\<rparr>))
    \<and> kvmemPrevEntry p c =
      Some (case rev (live_rows xs) of
              [] \<Rightarrow> (SQLITE4_NOTFOUND, \<lparr>cur_pNode = None, cur_pData = None\<rparr>)
            | (k', v) # _ \<Rightarrow> (SQLITE4_OK, \<lparr>cur_pNode = Some k', cur_pData = Some v\<rparr>))"
proof -
  have ok: "tree_ok (pRoot p)" using assms by (simp add: tree_ok_def)
  obtain pos where at: "is_at (pRoot p) pos xs (k, d) ys"
    using is_at_exists [OF assms(2,3)] by blast
  show ?thesis
    using next_at [OF ok at assms(4)] prev_at [OF ok at assms(4)]
    by (auto simp: live_rows_dead kvmemPointAt_def)
qed

theorem kvmem_next_prev_witness:
  "kvmemNextEntry kv_example \<lparr>cur_pNode = Some [1], cur_pData = Some [7]\<rparr> =
     Some (SQLITE4_OK, \<lparr>cur_pNode = Some [3], cur_pData = Some [9]\<rparr>)"
proof -
  have a: "avl (pRoot kv_example)" by code_simp
  have s: "sorted_keys (rows (pRoot kv_example))" by code_simp
  have "rows (pRoot kv_example) = [] @ ([1], Some [7], 0) # [([2], None, 2), ([3], Some [9], 0)]" by code_simp
  then show ?thesis using kvmem_next_prev [OF a s, of "[]" "[1]"] by simp
qed

text \<open>
  Taking a node out of the tree removes exactly that row and leaves a balanced search tree,
  wherever the node is; a key that is not in the tree is a pointer to freed memory.
\<close>

theorem kvmem_remove_node:
  assumes "avl t" "sorted_keys (rows t)"
  shows "case map_of (rows t) k of
      None \<Rightarrow> kvmemRemoveNode t k = None
    | Some _ \<Rightarrow> \<exists>t'. kvmemRemoveNode t k = Some t' \<and> avl t' \<and> sorted_keys (rows t') \<and> rows t' = kv_del k (rows t)"
  using kvmemRemoveNode_None [OF assms(2), of k] kvmemRemoveNode_ok [OF assms, of k] sorted_kv_del [OF assms(2), of k]
  by (auto split: option.splits)

theorem kvmem_remove_node_witness:
  "\<exists>t'. kvmemRemoveNode (pRoot kv_example) [2] = Some t' \<and> rows t' = [([1], Some [7], 0), ([3], Some [9], 0)]"
proof -
  have a: "avl (pRoot kv_example)" by code_simp
  have s: "sorted_keys (rows (pRoot kv_example))" by code_simp
  have "map_of (rows (pRoot kv_example)) [2] = Some (None, 2)" by code_simp
  moreover have "kv_del [2] (rows (pRoot kv_example)) = [([1], Some [7], 0), ([3], Some [9], 0)]" by code_simp
  ultimately show ?thesis using kvmem_remove_node [OF a s, of "[2]"] by auto
qed

text \<open>
  The meta-data words written to a store are the ones read back, for any number of them.
\<close>

theorem kvmem_meta_roundtrip:
  assumes "kvmem_good p"
  shows "\<exists>p' p''. sqlite4KVStorePutMeta kvmemMethods junk p 0 (length a) a = Some (SQLITE4_OK, p')
    \<and> sqlite4KVStoreGetMeta kvmemMethods p' 0 (length a) = Some (SQLITE4_OK, Some a, p'')"
  by (rule kvmem.put_get_meta [OF assms])

lemma kv_example_good: "kvmem_good kv_example"
proof -
  let ?ops = "[OpBegin 2, OpReplace [1] [7], OpReplace [2] [8], OpReplace [3] [9], OpCommit 0, OpBegin 2, OpDelete [2]]"
  have e: "exec_run ?ops (sqlite4KVStoreOpenMem 0) = Some kv_example" by code_simp
  have "spec_run ?ops (0, [], []) = Some (2, [([1], [7]), ([3], [9])], [[([1], [7]), ([2], [8]), ([3], [9])]])" by code_simp
  then have "refines kv_example (2, [([1], [7]), ([3], [9])], [[([1], [7]), ([2], [8]), ([3], [9])]])"
    using exec_run_refines [OF refines_open _ e] by simp
  then show ?thesis by (auto simp: kvmem_good_def)
qed

theorem kvmem_meta_roundtrip_witness:
  "\<exists>p' p''. sqlite4KVStorePutMeta kvmemMethods (\<lambda>_. 0) kv_example 0 2 [5, 0xDEADBEEF] = Some (SQLITE4_OK, p')
    \<and> sqlite4KVStoreGetMeta kvmemMethods p' 0 2 = Some (SQLITE4_OK, Some [5, 0xDEADBEEF], p'')"
  using kvmem_meta_roundtrip [OF kv_example_good, of "\<lambda>_. 0" "[5, 0xDEADBEEF]"] by (simp add: numeral_2_eq_2)

text \<open>
  Opened without transactions, the engine reports success for a commit or a rollback but
  stays at the transaction level it was at, so the assertion of the wrapper fails.
\<close>

theorem kvmem_no_transactions_level:
  assumes "\<not> kvmemTransactional p" "l < iTransLevel p"
  shows "kvmemCommitPhaseTwo p l = Some (SQLITE4_OK, p) \<and> kvmemRollback p l = Some (SQLITE4_OK, p)
    \<and> sqlite4KVStoreCommit kvmemMethods p l = None \<and> sqlite4KVStoreRollback kvmemMethods p l = None"
  using assms by (simp add: kvmemMethods_sel kvmemCommitPhaseTwo_def sqlite4KVStoreRollback_def kvmemRollback_def at_level_def
      sqlite4KVStoreCommit_def sqlite4KVStoreCommitPhaseOne_def sqlite4KVStoreCommitPhaseTwo_def kvmemCommitPhaseOne_def)

theorem kvmem_no_transactions_level_witness:
  "\<exists>p. exec_run [OpBegin 2, OpReplace [1] [7]] (sqlite4KVStoreOpenMem 0x00020000) = Some p
     \<and> kvmemCommitPhaseTwo p 0 = Some (SQLITE4_OK, p) \<and> sqlite4KVStoreCommit kvmemMethods p 0 = None"
proof -
  let ?p = "the (exec_run [OpBegin 2, OpReplace [1] [7]] (sqlite4KVStoreOpenMem 0x00020000))"
  have "exec_run [OpBegin 2, OpReplace [1] [7]] (sqlite4KVStoreOpenMem 0x00020000) = Some ?p" by code_simp
  moreover have t: "\<not> kvmemTransactional ?p" by code_simp
  moreover have l: "iTransLevel ?p = 2" by code_simp
  ultimately show ?thesis using kvmem_no_transactions_level [OF t, of 0] by auto
qed

end
