(* ===== verification/NodeBin.thy ===== *)
theory NodeBin
  imports VectorCore
begin

unbundle bit_operations_syntax

text \<open>
  The layout of a node of the DiskANN graph (\<open>vectordiskann.c\<close>, \<open>vectorIndexInt.h\<close>): the
  block of bytes that holds the row id, the number of edges, the vector of the node, the
  (possibly compressed) vectors of the edges and their row ids and distances. The abstract
  view of a block is its list of edges; every operation on the bytes is shown to be the
  list operation it stands for. \<open>None\<close> is a failed \<open>assert\<close> or an access outside the block.
\<close>

subsection \<open>The index and a block\<close>

record 'c DiskAnnIndex =
  nFormatVersion :: int
  nDistanceFunc :: int
  nBlockSize :: int
  nVectorDims :: nat
  nNodeVectorType :: vector_type
  nEdgeVectorType :: vector_type
  nNodeVectorSize :: int
  nEdgeVectorSize :: int
  nShadowRows :: i64
  pruningAlpha :: f32
  insertL :: nat
  searchL :: nat
  iShadowTnum :: u64
  aKeyPrefix :: bytes
  pReadCsr :: "'c option"
  nReads :: int
  nWrites :: int

record BlobSpot =
  bs_nRowid :: u64
  pBuffer :: bytes
  nBufferSize :: int
  isWritable :: bool
  isInitialized :: bool
  isAborted :: bool

abbreviation (input) VECTOR_FORMAT_V1 :: int where "VECTOR_FORMAT_V1 \<equiv> 1"
abbreviation (input) VECTOR_FORMAT_V2 :: int where "VECTOR_FORMAT_V2 \<equiv> 2"
abbreviation (input) VECTOR_FORMAT_DEFAULT :: int where "VECTOR_FORMAT_DEFAULT \<equiv> 3"

text \<open>A C \<open>int\<close> used as an offset into a block.\<close>

definition mem_at :: "int \<Rightarrow> nat option" where
  "mem_at z = (if 0 \<le> z then Some (nat z) else None)"

text \<open>A C \<open>int\<close> passed as a \<open>size_t\<close>.\<close>

definition size_t :: "int \<Rightarrow> nat" where
  "size_t z = nat (z mod 2 ^ 64)"

subsection \<open>Little-endian fields\<close>

definition readLE16 :: "bytes \<Rightarrow> int \<Rightarrow> u16 option" where
  "readLE16 p off =
     do { o1 \<leftarrow> mem_at off; b \<leftarrow> memget p o1 2;
          Some (ucast (b ! 0) OR push_bit 8 (ucast (b ! 1))) }"

definition readLE32 :: "bytes \<Rightarrow> int \<Rightarrow> u32 option" where
  "readLE32 p off =
     do { o1 \<leftarrow> mem_at off; b \<leftarrow> memget p o1 4;
          Some (ucast (b ! 0) OR push_bit 8 (ucast (b ! 1)) OR push_bit 16 (ucast (b ! 2))
                OR push_bit 24 (ucast (b ! 3))) }"

definition readLE64 :: "bytes \<Rightarrow> int \<Rightarrow> u64 option" where
  "readLE64 p off =
     do { o1 \<leftarrow> mem_at off; b \<leftarrow> memget p o1 8;
          Some (ucast (b ! 0) OR push_bit 8 (ucast (b ! 1)) OR push_bit 16 (ucast (b ! 2))
                OR push_bit 24 (ucast (b ! 3)) OR push_bit 32 (ucast (b ! 4))
                OR push_bit 40 (ucast (b ! 5)) OR push_bit 48 (ucast (b ! 6))
                OR push_bit 56 (ucast (b ! 7))) }"

definition writeLE16 :: "bytes \<Rightarrow> int \<Rightarrow> u16 \<Rightarrow> bytes option" where
  "writeLE16 p off v =
     do { o1 \<leftarrow> mem_at off; memput p o1 [ucast v, ucast (drop_bit 8 v)] }"

definition writeLE32 :: "bytes \<Rightarrow> int \<Rightarrow> u32 \<Rightarrow> bytes option" where
  "writeLE32 p off v =
     do { o1 \<leftarrow> mem_at off;
          memput p o1 [ucast v, ucast (drop_bit 8 v), ucast (drop_bit 16 v), ucast (drop_bit 24 v)] }"

definition writeLE64 :: "bytes \<Rightarrow> int \<Rightarrow> u64 \<Rightarrow> bytes option" where
  "writeLE64 p off v =
     do { o1 \<leftarrow> mem_at off;
          memput p o1 [ucast v, ucast (drop_bit 8 v), ucast (drop_bit 16 v), ucast (drop_bit 24 v),
                       ucast (drop_bit 32 v), ucast (drop_bit 40 v), ucast (drop_bit 48 v),
                       ucast (drop_bit 56 v)] }"

subsection \<open>Sizes and offsets\<close>

definition nodeMetadataSize :: "int \<Rightarrow> int" where
  "nodeMetadataSize nFormat = (if nFormat \<le> VECTOR_FORMAT_V2 then 8 + 2 else 8 + 8)"

definition edgeMetadataSize :: "int \<Rightarrow> int" where
  "edgeMetadataSize nFormat = 8 + 8"

definition nodeEdgeOverhead :: "int \<Rightarrow> int \<Rightarrow> int" where
  "nodeEdgeOverhead nFormat nEdgeVector = nEdgeVector + edgeMetadataSize nFormat"

definition nodeOverhead :: "int \<Rightarrow> int \<Rightarrow> int" where
  "nodeOverhead nFormat nNodeVector = nNodeVector + nodeMetadataSize nFormat"

text \<open>The quotient is computed on \<open>int\<close> and kept in an \<open>unsigned int\<close>.\<close>

definition nodeEdgesMaxCount :: "'c DiskAnnIndex \<Rightarrow> int option" where
  "nodeEdgesMaxCount ix =
     (let nMaxEdges = c_div (nBlockSize ix - nodeOverhead (nFormatVersion ix) (nNodeVectorSize ix))
                            (nodeEdgeOverhead (nFormatVersion ix) (nEdgeVectorSize ix)) in
      do { c_assert (nMaxEdges mod 2 ^ 32 > 0); Some nMaxEdges })"

definition nodeEdgesMetadataOffset :: "'c DiskAnnIndex \<Rightarrow> int option" where
  "nodeEdgesMetadataOffset ix =
     do { nMaxEdges \<leftarrow> nodeEdgesMaxCount ix;
          let offset = (nodeMetadataSize (nFormatVersion ix) + nNodeVectorSize ix
                        + nMaxEdges * nEdgeVectorSize ix) mod 2 ^ 32;
          c_assert (offset \<le> nBlockSize ix mod 2 ^ 32);
          Some (to_int32 offset) }"

subsection \<open>Operations on a block\<close>

text \<open>
  A vector object set up by \<open>vectorInitStatic\<close> points into the block; what it shows is
  the block from its offset on, at the time it is used.
\<close>

definition vector_in :: "vector_type \<Rightarrow> nat \<Rightarrow> bytes \<Rightarrow> int \<Rightarrow> vector option" where
  "vector_in ty dims p off =
     do { o1 \<leftarrow> mem_at off; c_assert (o1 \<le> length p); Some (vectorInitStatic ty dims (drop o1 p)) }"

definition nodeBinInit :: "'c DiskAnnIndex \<Rightarrow> BlobSpot \<Rightarrow> u64 \<Rightarrow> vector \<Rightarrow> BlobSpot option" where
  "nodeBinInit ix sp nRowid pVector =
     do { c_assert (nodeMetadataSize (nFormatVersion ix) + nNodeVectorSize ix \<le> nBufferSize sp);
          n \<leftarrow> mem_at (nBufferSize sp);
          p \<leftarrow> memput (pBuffer sp) 0 (replicate n 0);
          p \<leftarrow> writeLE64 p 0 nRowid;
          o1 \<leftarrow> mem_at (nodeMetadataSize (nFormatVersion ix));
          p \<leftarrow> vectorSerializeToBlob pVector p o1 (size_t (nNodeVectorSize ix));
          Some (sp\<lparr>pBuffer := p\<rparr>) }"

definition nodeBinVector :: "'c DiskAnnIndex \<Rightarrow> BlobSpot \<Rightarrow> vector option" where
  "nodeBinVector ix sp =
     do { c_assert (nodeMetadataSize (nFormatVersion ix) + nNodeVectorSize ix \<le> nBufferSize sp);
          vector_in (nNodeVectorType ix) (nVectorDims ix) (pBuffer sp)
            (nodeMetadataSize (nFormatVersion ix)) }"

definition nodeBinEdges :: "'c DiskAnnIndex \<Rightarrow> BlobSpot \<Rightarrow> u16 option" where
  "nodeBinEdges ix sp =
     do { c_assert (nodeMetadataSize (nFormatVersion ix) \<le> nBufferSize sp); readLE16 (pBuffer sp) 8 }"

text \<open>The three results of \<open>nodeBinEdge\<close>, each computed when its pointer is not null.\<close>

definition nodeBinEdgeRowid :: "'c DiskAnnIndex \<Rightarrow> BlobSpot \<Rightarrow> int \<Rightarrow> u64 option" where
  "nodeBinEdgeRowid ix sp iEdge =
     do { offset \<leftarrow> nodeEdgesMetadataOffset ix;
          c_assert (offset + (iEdge + 1) * edgeMetadataSize (nFormatVersion ix) \<le> nBufferSize sp);
          readLE64 (pBuffer sp) (offset + iEdge * edgeMetadataSize (nFormatVersion ix) + 8) }"

definition nodeBinEdgeDistance :: "'c DiskAnnIndex \<Rightarrow> BlobSpot \<Rightarrow> int \<Rightarrow> f32 option option" where
  "nodeBinEdgeDistance ix sp iEdge =
     do { offset \<leftarrow> nodeEdgesMetadataOffset ix;
          if nFormatVersion ix \<noteq> VECTOR_FORMAT_V1
          then map_option Some
                 (readLE32 (pBuffer sp) (offset + iEdge * edgeMetadataSize (nFormatVersion ix) + 4))
          else Some None }"

definition nodeBinEdgeVectorOffset :: "'c DiskAnnIndex \<Rightarrow> int \<Rightarrow> int option" where
  "nodeBinEdgeVectorOffset ix iEdge =
     do { offset \<leftarrow> nodeEdgesMetadataOffset ix;
          c_assert (nodeMetadataSize (nFormatVersion ix) + nNodeVectorSize ix
                    + iEdge * nEdgeVectorSize ix < offset);
          Some (nodeMetadataSize (nFormatVersion ix) + nNodeVectorSize ix + iEdge * nEdgeVectorSize ix) }"

definition nodeBinEdgeVector :: "'c DiskAnnIndex \<Rightarrow> BlobSpot \<Rightarrow> int \<Rightarrow> vector option" where
  "nodeBinEdgeVector ix sp iEdge =
     do { off \<leftarrow> nodeBinEdgeVectorOffset ix iEdge;
          vector_in (nEdgeVectorType ix) (nVectorDims ix) (pBuffer sp) off }"

definition nodeBinEdge :: "'c DiskAnnIndex \<Rightarrow> BlobSpot \<Rightarrow> int \<Rightarrow> (u64 \<times> f32 option \<times> vector) option" where
  "nodeBinEdge ix sp iEdge =
     do { r \<leftarrow> nodeBinEdgeRowid ix sp iEdge; d \<leftarrow> nodeBinEdgeDistance ix sp iEdge;
          v \<leftarrow> nodeBinEdgeVector ix sp iEdge; Some (r, d, v) }"

fun findIdxLoop :: "'c DiskAnnIndex \<Rightarrow> BlobSpot \<Rightarrow> u64 \<Rightarrow> nat list \<Rightarrow> int option" where
  "findIdxLoop ix sp nRowid [] = Some (-1)"
| "findIdxLoop ix sp nRowid (i # is) =
     do { edgeId \<leftarrow> nodeBinEdgeRowid ix sp (int i);
          if edgeId = nRowid then Some (int i) else findIdxLoop ix sp nRowid is }"

definition nodeBinEdgeFindIdx :: "'c DiskAnnIndex \<Rightarrow> BlobSpot \<Rightarrow> u64 \<Rightarrow> int option" where
  "nodeBinEdgeFindIdx ix sp nRowid =
     do { n \<leftarrow> nodeBinEdges ix sp; findIdxLoop ix sp nRowid [0..<unat n] }"

definition nodeBinPruneEdges :: "'c DiskAnnIndex \<Rightarrow> BlobSpot \<Rightarrow> int \<Rightarrow> BlobSpot option" where
  "nodeBinPruneEdges ix sp nPruned =
     do { n \<leftarrow> nodeBinEdges ix sp; c_assert (0 \<le> nPruned \<and> nPruned \<le> int (unat n));
          p \<leftarrow> writeLE16 (pBuffer sp) 8 (word_of_int nPruned); Some (sp\<lparr>pBuffer := p\<rparr>) }"

text \<open>Replace the edge at position \<open>iReplace\<close>, or add one if it is the number of edges.\<close>

definition nodeBinReplaceEdge ::
  "'c DiskAnnIndex \<Rightarrow> BlobSpot \<Rightarrow> int \<Rightarrow> u64 \<Rightarrow> f32 \<Rightarrow> vector \<Rightarrow> BlobSpot option" where
  "nodeBinReplaceEdge ix sp iReplace nRowid distance pVector =
     do { nMaxEdges \<leftarrow> nodeEdgesMaxCount ix;
          n \<leftarrow> nodeBinEdges ix sp;
          c_assert (0 \<le> iReplace \<and> iReplace < nMaxEdges);
          c_assert (0 \<le> iReplace \<and> iReplace \<le> int (unat n));
          let nEdges = (if iReplace = int (unat n) then int (unat n) + 1 else int (unat n));
          let edgeVectorOffset = nodeMetadataSize (nFormatVersion ix) + nNodeVectorSize ix
                                 + iReplace * nEdgeVectorSize ix;
          offset \<leftarrow> nodeEdgesMetadataOffset ix;
          let edgeMetaOffset = offset + iReplace * edgeMetadataSize (nFormatVersion ix);
          c_assert (edgeVectorOffset + nEdgeVectorSize ix \<le> nBufferSize sp);
          c_assert (edgeMetaOffset + edgeMetadataSize (nFormatVersion ix) \<le> nBufferSize sp);
          o1 \<leftarrow> mem_at edgeVectorOffset;
          p \<leftarrow> vectorSerializeToBlob pVector (pBuffer sp) o1 (size_t (nEdgeVectorSize ix));
          p \<leftarrow> writeLE32 p (edgeMetaOffset + 4) distance;
          p \<leftarrow> writeLE64 p (edgeMetaOffset + 8) nRowid;
          p \<leftarrow> writeLE16 p 8 (word_of_int nEdges);
          Some (sp\<lparr>pBuffer := p\<rparr>) }"

definition memmove :: "bytes \<Rightarrow> int \<Rightarrow> int \<Rightarrow> int \<Rightarrow> bytes option" where
  "memmove p dst src n =
     do { d \<leftarrow> mem_at dst; s \<leftarrow> mem_at src; k \<leftarrow> mem_at n; bs \<leftarrow> memget p s k; memput p d bs }"

text \<open>Delete the edge at position \<open>iDelete\<close> by moving the last one there.\<close>

definition nodeBinDeleteEdge :: "'c DiskAnnIndex \<Rightarrow> BlobSpot \<Rightarrow> int \<Rightarrow> BlobSpot option" where
  "nodeBinDeleteEdge ix sp iDelete =
     do { n \<leftarrow> nodeBinEdges ix sp;
          let nEdges = int (unat n);
          c_assert (0 \<le> iDelete \<and> iDelete < nEdges);
          let vectors = nodeMetadataSize (nFormatVersion ix) + nNodeVectorSize ix;
          let edgeVectorOffset = vectors + iDelete * nEdgeVectorSize ix;
          let lastVectorOffset = vectors + (nEdges - 1) * nEdgeVectorSize ix;
          offset \<leftarrow> nodeEdgesMetadataOffset ix;
          let edgeMetaOffset = offset + iDelete * edgeMetadataSize (nFormatVersion ix);
          let lastMetaOffset = offset + (nEdges - 1) * edgeMetadataSize (nFormatVersion ix);
          c_assert (edgeVectorOffset + nEdgeVectorSize ix \<le> nBufferSize sp);
          c_assert (lastVectorOffset + nEdgeVectorSize ix \<le> nBufferSize sp);
          c_assert (edgeMetaOffset + edgeMetadataSize (nFormatVersion ix) \<le> nBufferSize sp);
          c_assert (lastMetaOffset + edgeMetadataSize (nFormatVersion ix) \<le> nBufferSize sp);
          p \<leftarrow> (if edgeVectorOffset < lastVectorOffset then
                 do { p \<leftarrow> memmove (pBuffer sp) edgeVectorOffset lastVectorOffset (nEdgeVectorSize ix);
                      memmove p edgeMetaOffset lastMetaOffset (edgeMetadataSize (nFormatVersion ix)) }
               else Some (pBuffer sp));
          p \<leftarrow> writeLE16 p 8 (word_of_int (nEdges - 1));
          Some (sp\<lparr>pBuffer := p\<rparr>) }"

subsection \<open>Fields of a block\<close>

definition field :: "bytes \<Rightarrow> nat \<Rightarrow> nat \<Rightarrow> bytes" where
  "field p off n = take n (drop off p)"

lemma field_length [simp]: "off + n \<le> length p \<Longrightarrow> length (field p off n) = n"
  by (simp add: field_def)

lemma field_memput_other:
  assumes "memput p off bs = Some p'" "o2 + n \<le> off \<or> off + length bs \<le> o2"
  shows "field p' o2 n = field p o2 n"
  using assms by (auto simp: memput_def field_def take_drop min_def split: if_splits)

lemma field_memput_in:
  assumes "memput p off bs = Some p'" "a + n \<le> length bs"
  shows "field p' (off + a) n = field bs a n"
  using assms by (auto simp: memput_def field_def split: if_splits)

lemma field_memput_same:
  assumes "memput p off bs = Some p'" shows "field p' off (length bs) = bs"
  using field_memput_in [OF assms, of 0 "length bs"] by (simp add: field_def)

lemma field_field: "a + n \<le> k \<Longrightarrow> field (field p s k) a n = field p (s + a) n"
  by (auto simp: field_def take_drop min_def ac_simps)

lemma memget_field: "off + n \<le> length p \<Longrightarrow> memget p off n = Some (field p off n)"
  by (simp add: memget_def field_def)

lemma mem_at_int [simp]: "mem_at (int n) = Some n"
  by (simp add: mem_at_def)

lemma mem_at_num [simp]: "mem_at 0 = Some 0" "mem_at 1 = Some 1" "mem_at (numeral w) = Some (numeral w)"
  by (simp_all add: mem_at_def)

lemma or_bytes_2: "ucast (byte 0 w) OR push_bit 8 (ucast (byte (Suc 0) w)) = (w :: 16 word)"
  using or_next_byte [of 8 w] first_byte [of w] by (simp add: byte_def take_bit_word_eq_self)

lemma or_bytes_8:
  "((((((ucast (byte 0 w) OR push_bit 8 (ucast (byte (Suc 0) w))) OR push_bit 16 (ucast (byte 2 w)))
     OR push_bit 24 (ucast (byte 3 w))) OR push_bit 32 (ucast (byte 4 w)))
     OR push_bit 40 (ucast (byte 5 w))) OR push_bit 48 (ucast (byte 6 w)))
     OR push_bit 56 (ucast (byte 7 w)) = (w :: 64 word)"
  using or_next_byte [of 8 w] or_next_byte [of 16 w] or_next_byte [of 24 w] or_next_byte [of 32 w]
    or_next_byte [of 40 w] or_next_byte [of 48 w] or_next_byte [of 56 w] first_byte [of w]
  by (simp add: byte_def take_bit_word_eq_self)

lemma readLE16_field:
  assumes "off + 2 \<le> length p" shows "readLE16 p (int off) = Some (le_word (field p off 2))"
proof -
  have "field p off 2 = le_bytes 2 (le_word (field p off 2) :: u16)"
    using assms by (subst le_bytes_le_word) simp_all
  then obtain w :: u16 where w: "field p off 2 = le_bytes 2 w" by blast
  show ?thesis
    using assms or_bytes_2 [of w] unfolding readLE16_def
    by (simp add: memget_field w le_word_le_bytes) (simp add: le_bytes_def be_bytes_num)
qed

lemma readLE32_field:
  assumes "off + 4 \<le> length p" shows "readLE32 p (int off) = Some (le_word (field p off 4))"
proof -
  have "field p off 4 = le_bytes 4 (le_word (field p off 4) :: u32)"
    using assms by (subst le_bytes_le_word) simp_all
  then obtain w :: u32 where w: "field p off 4 = le_bytes 4 w" by blast
  show ?thesis
    using assms or_bytes_4 [of w] unfolding readLE32_def
    by (simp add: memget_field w le_word_le_bytes) (simp add: le_bytes_def be_bytes_num or.assoc)
qed

lemma readLE64_field:
  assumes "off + 8 \<le> length p" shows "readLE64 p (int off) = Some (le_word (field p off 8))"
proof -
  have "field p off 8 = le_bytes 8 (le_word (field p off 8) :: u64)"
    using assms by (subst le_bytes_le_word) simp_all
  then obtain w :: u64 where w: "field p off 8 = le_bytes 8 w" by blast
  show ?thesis
    using assms or_bytes_8 [of w] unfolding readLE64_def
    by (simp add: memget_field w le_word_le_bytes) (simp add: le_bytes_def be_bytes_num or.assoc)
qed

lemma writeLE_memput:
  "writeLE16 p (int off) v = memput p off (le_bytes 2 v)"
  "writeLE32 p (int off) x = memput p off (le_bytes 4 x)"
  "writeLE64 p (int off) y = memput p off (le_bytes 8 y)"
  by (simp_all add: writeLE16_def writeLE32_def writeLE64_def le_bytes_def be_bytes_num byte_def)

lemma memmove_memput:
  "s + n \<le> length p \<Longrightarrow> memmove p (int d) (int s) (int n) = memput p d (field p s n)"
  by (simp add: memmove_def memget_field)

subsection \<open>The layout\<close>

text \<open>
  What an opened index satisfies: its sizes are those of its vector types, one edge fits in
  a block, and the number of edges a block can hold fits the 16-bit counter.
\<close>

definition max_edges :: "'c DiskAnnIndex \<Rightarrow> nat" where
  "max_edges ix =
     nat ((nBlockSize ix - nodeOverhead (nFormatVersion ix) (nNodeVectorSize ix))
          div nodeEdgeOverhead (nFormatVersion ix) (nEdgeVectorSize ix))"

definition index_ok :: "'c DiskAnnIndex \<Rightarrow> bool" where
  "index_ok ix \<longleftrightarrow>
     0 < nVectorDims ix \<and> nVectorDims ix \<le> MAX_VECTOR_SZ \<and>
     nNodeVectorSize ix = int (vectorDataSize (nNodeVectorType ix) (nVectorDims ix)) \<and>
     nEdgeVectorSize ix = int (vectorDataSize (nEdgeVectorType ix) (nVectorDims ix)) \<and>
     nodeOverhead (nFormatVersion ix) (nNodeVectorSize ix)
       + nodeEdgeOverhead (nFormatVersion ix) (nEdgeVectorSize ix) \<le> nBlockSize ix \<and>
     nBlockSize ix < 2 ^ 31 \<and> max_edges ix < 2 ^ 16"

definition hdr_size :: "'c DiskAnnIndex \<Rightarrow> nat" where
  "hdr_size ix = (if nFormatVersion ix \<le> 2 then 10 else 16)"

definition node_size :: "'c DiskAnnIndex \<Rightarrow> nat" where
  "node_size ix = vectorDataSize (nNodeVectorType ix) (nVectorDims ix)"

definition edge_size :: "'c DiskAnnIndex \<Rightarrow> nat" where
  "edge_size ix = vectorDataSize (nEdgeVectorType ix) (nVectorDims ix)"

definition vec_off :: "'c DiskAnnIndex \<Rightarrow> nat \<Rightarrow> nat" where
  "vec_off ix i = hdr_size ix + node_size ix + i * edge_size ix"

definition meta_off :: "'c DiskAnnIndex \<Rightarrow> nat \<Rightarrow> nat" where
  "meta_off ix i = vec_off ix (max_edges ix) + i * 16"

lemma index_ok_sizes:
  assumes "index_ok ix"
  shows "size_t (nNodeVectorSize ix) = node_size ix" "size_t (nEdgeVectorSize ix) = edge_size ix"
    "nVectorDims ix \<le> MAX_VECTOR_SZ"
proof -
  have d: "nVectorDims ix < 2 ^ 32" using assms by (simp add: index_ok_def MAX_VECTOR_SZ_def)
  have "int (vectorDataSize ty (nVectorDims ix)) mod 2 ^ 64 = int (vectorDataSize ty (nVectorDims ix))" for ty
    using vectorDataSize_bound [OF d, of ty] by (intro mod_pos_pos_trivial) auto
  then show "size_t (nNodeVectorSize ix) = node_size ix" "size_t (nEdgeVectorSize ix) = edge_size ix"
    "nVectorDims ix \<le> MAX_VECTOR_SZ"
    using assms by (simp_all add: index_ok_def size_t_def node_size_def edge_size_def)
qed

lemma vectorDataSize_pos: "0 < dims \<Longrightarrow> dims \<le> MAX_VECTOR_SZ \<Longrightarrow> 0 < vectorDataSize ty dims"
  by (cases ty) (auto simp: bits_bytes_small)

lemma hdr_size_int: "nodeMetadataSize (nFormatVersion ix) = int (hdr_size ix)"
  by (simp add: nodeMetadataSize_def hdr_size_def)

lemma hdr_size_bounds: "10 \<le> hdr_size ix" "hdr_size ix \<le> 16"
  by (simp_all add: hdr_size_def)

lemma ok_sizes:
  assumes "index_ok ix"
  shows "nNodeVectorSize ix = int (node_size ix)" "nEdgeVectorSize ix = int (edge_size ix)" "0 < edge_size ix"
  using assms by (simp_all add: index_ok_def node_size_def edge_size_def vectorDataSize_pos)

lemma ok_block:
  assumes "index_ok ix"
  shows "0 < max_edges ix" "max_edges ix < 2 ^ 16"
    "int (hdr_size ix + node_size ix + max_edges ix * (edge_size ix + 16)) \<le> nBlockSize ix"
    "nBlockSize ix < 2 ^ 31"
    "c_div (nBlockSize ix - nodeOverhead (nFormatVersion ix) (nNodeVectorSize ix))
       (nodeEdgeOverhead (nFormatVersion ix) (nEdgeVectorSize ix)) = int (max_edges ix)"
proof -
  let ?a = "nBlockSize ix - (int (node_size ix) + int (hdr_size ix))" and ?b = "int (edge_size ix) + 16"
  have le: "?b \<le> ?a" and small: "nBlockSize ix < 2 ^ 31" "max_edges ix < 2 ^ 16"
    using assms ok_sizes [OF assms]
    by (auto simp: index_ok_def nodeOverhead_def nodeEdgeOverhead_def edgeMetadataSize_def hdr_size_int)
  have m: "max_edges ix = nat (?a div ?b)"
    using ok_sizes [OF assms]
    by (simp add: max_edges_def nodeOverhead_def nodeEdgeOverhead_def edgeMetadataSize_def hdr_size_int)
  have "1 \<le> ?a div ?b" using le by (simp add: pos_imp_zdiv_pos_iff int_one_le_iff_zero_less)
  then have mi: "int (max_edges ix) = ?a div ?b" using m by simp
  then show "0 < max_edges ix" using \<open>1 \<le> ?a div ?b\<close> by simp
  have "?a div ?b * ?b \<le> ?a" using div_mult_mod_eq [of ?a ?b] pos_mod_sign [of ?b ?a] by linarith
  then show "int (hdr_size ix + node_size ix + max_edges ix * (edge_size ix + 16)) \<le> nBlockSize ix"
    using mi by (simp add: algebra_simps)
  show "c_div (nBlockSize ix - nodeOverhead (nFormatVersion ix) (nNodeVectorSize ix))
       (nodeEdgeOverhead (nFormatVersion ix) (nEdgeVectorSize ix)) = int (max_edges ix)"
    using mi le ok_sizes [OF assms]
    by (simp add: c_div_def nodeOverhead_def nodeEdgeOverhead_def edgeMetadataSize_def hdr_size_int)
  show "max_edges ix < 2 ^ 16" "nBlockSize ix < 2 ^ 31" by (fact small)+
qed

lemma nodeEdgesMaxCount_ok: "index_ok ix \<Longrightarrow> nodeEdgesMaxCount ix = Some (int (max_edges ix))"
  using ok_block [of ix] by (simp add: nodeEdgesMaxCount_def)

lemma vec_off_Suc: "vec_off ix (Suc i) = vec_off ix i + edge_size ix"
  by (simp add: vec_off_def)

lemma vec_off_mono: "i \<le> j \<Longrightarrow> vec_off ix i \<le> vec_off ix j"
  by (simp add: vec_off_def)

lemma slot_bounds:
  assumes "index_ok ix" "i < max_edges ix"
  shows "vec_off ix i + edge_size ix \<le> meta_off ix 0" "int (meta_off ix i + 16) \<le> nBlockSize ix"
    "vec_off ix i < meta_off ix 0" "hdr_size ix + node_size ix \<le> vec_off ix i"
proof -
  have "vec_off ix i + edge_size ix \<le> vec_off ix (max_edges ix)"
    using vec_off_mono [of "Suc i" "max_edges ix" ix] assms by (simp add: vec_off_Suc)
  then show "vec_off ix i + edge_size ix \<le> meta_off ix 0" by (simp add: meta_off_def)
  then show "vec_off ix i < meta_off ix 0" using ok_sizes(3) [OF assms(1)] by linarith
  have "meta_off ix i + 16 \<le> meta_off ix (max_edges ix)"
    using assms(2) by (simp add: meta_off_def)
  also have "\<dots> = hdr_size ix + node_size ix + max_edges ix * (edge_size ix + 16)"
    by (simp add: meta_off_def vec_off_def algebra_simps)
  finally show "int (meta_off ix i + 16) \<le> nBlockSize ix" using ok_block(3) [OF assms(1)] by linarith
qed (simp add: vec_off_def)

lemma slots_disjoint:
  assumes "i \<noteq> j"
  shows "vec_off ix i + edge_size ix \<le> vec_off ix j \<or> vec_off ix j + edge_size ix \<le> vec_off ix i"
    "meta_off ix i + 16 \<le> meta_off ix j \<or> meta_off ix j + 16 \<le> meta_off ix i"
proof -
  consider "i < j" | "j < i" using assms by linarith
  then show "vec_off ix i + edge_size ix \<le> vec_off ix j \<or> vec_off ix j + edge_size ix \<le> vec_off ix i"
    using vec_off_mono [of "Suc i" j ix] vec_off_mono [of "Suc j" i ix] by cases (simp_all add: vec_off_Suc)
  show "meta_off ix i + 16 \<le> meta_off ix j \<or> meta_off ix j + 16 \<le> meta_off ix i"
    using assms by (auto simp: meta_off_def)
qed

lemma nodeEdgesMetadataOffset_ok:
  assumes "index_ok ix" shows "nodeEdgesMetadataOffset ix = Some (int (meta_off ix 0))"
proof -
  have b: "int (meta_off ix 0) \<le> nBlockSize ix"
    using slot_bounds(2) [OF assms ok_block(1) [OF assms]] by linarith
  then have s: "int (meta_off ix 0) < 2 ^ 31" using ok_block(4) [OF assms] by linarith
  have "int (hdr_size ix) + int (node_size ix) + int (max_edges ix) * int (edge_size ix) = int (meta_off ix 0)"
    by (simp add: meta_off_def vec_off_def)
  with b s ok_block(4) [OF assms] show ?thesis
    by (simp add: nodeEdgesMetadataOffset_def nodeEdgesMaxCount_ok assms ok_sizes [OF assms] hdr_size_int to_int32_def)
qed

lemma edge_offsets:
  "nodeMetadataSize (nFormatVersion ix) + int (node_size ix) + int i * int (edge_size ix) = int (vec_off ix i)"
  "int (meta_off ix 0) + int i * edgeMetadataSize v = int (meta_off ix i)"
  "int (meta_off ix 0) + (int i + 1) * edgeMetadataSize v = int (meta_off ix i + 16)"
  by (simp_all add: hdr_size_int vec_off_def meta_off_def edgeMetadataSize_def)

subsection \<open>The edges of a block\<close>

text \<open>An edge: row id, distance, the bytes of its vector.\<close>

type_synonym edge = "u64 \<times> f32 \<times> bytes"

definition edge_at :: "'c DiskAnnIndex \<Rightarrow> bytes \<Rightarrow> nat \<Rightarrow> edge" where
  "edge_at ix p i =
     (le_word (field p (meta_off ix i + 8) 8), le_word (field p (meta_off ix i + 4) 4),
      field p (vec_off ix i) (edge_size ix))"

definition edge_count :: "bytes \<Rightarrow> nat" where
  "edge_count p = unat (le_word (field p 8 2) :: u16)"

definition edges :: "'c DiskAnnIndex \<Rightarrow> BlobSpot \<Rightarrow> edge list" where
  "edges ix sp = map (edge_at ix (pBuffer sp)) [0..<edge_count (pBuffer sp)]"

definition node_rowid :: "BlobSpot \<Rightarrow> u64" where
  "node_rowid sp = le_word (field (pBuffer sp) 0 8)"

definition node_vec :: "'c DiskAnnIndex \<Rightarrow> BlobSpot \<Rightarrow> bytes" where
  "node_vec ix sp = field (pBuffer sp) (hdr_size ix) (node_size ix)"

text \<open>A block of the index: its size is the index's and its edges fit.\<close>

definition node_ok :: "'c DiskAnnIndex \<Rightarrow> BlobSpot \<Rightarrow> bool" where
  "node_ok ix sp \<longleftrightarrow>
     nBufferSize sp = nBlockSize ix \<and> int (length (pBuffer sp)) = nBlockSize ix \<and>
     edge_count (pBuffer sp) \<le> max_edges ix"

text \<open>A vector that can be stored as an edge, or as the vector of a node.\<close>

definition fits :: "vector_type \<Rightarrow> nat \<Rightarrow> vector \<Rightarrow> bool" where
  "fits ty dims v \<longleftrightarrow> vtype v = ty \<and> vdims v = dims \<and> well_sized v"

lemma length_edges [simp]: "length (edges ix sp) = edge_count (pBuffer sp)"
  by (simp add: edges_def)

lemma edges_nth [simp]: "i < edge_count (pBuffer sp) \<Longrightarrow> edges ix sp ! i = edge_at ix (pBuffer sp) i"
  by (simp add: edges_def)

lemma edges_eqI:
  assumes "edge_count (pBuffer sp) = length es"
    and "\<And>i. i < length es \<Longrightarrow> edge_at ix (pBuffer sp) i = es ! i"
  shows "edges ix sp = es"
  using assms by (auto intro: nth_equalityI)

lemma block_bounds:
  assumes "index_ok ix" "int (length p) = nBlockSize ix" "i < max_edges ix"
  shows "vec_off ix i + edge_size ix \<le> length p" "meta_off ix i + 16 \<le> length p"
    "hdr_size ix + node_size ix \<le> length p" "10 \<le> length p"
  using slot_bounds [OF assms(1,3)] slot_bounds(2) [OF assms(1), of 0] hdr_size_bounds [of ix]
    ok_block(1) [OF assms(1)] assms(2)
  by linarith+

lemma nodeBinEdges_ok:
  assumes "index_ok ix" "node_ok ix sp"
  shows "\<exists>w. nodeBinEdges ix sp = Some w \<and> unat w = edge_count (pBuffer sp)"
proof -
  have l: "int (length (pBuffer sp)) = nBlockSize ix" "nBufferSize sp = nBlockSize ix"
    using assms by (simp_all add: node_ok_def)
  note b = block_bounds [OF assms(1) l(1) ok_block(1) [OF assms(1)]]
  have "int (hdr_size ix) \<le> nBufferSize sp" using b(3) l by linarith
  moreover have "readLE16 (pBuffer sp) 8 = Some (le_word (field (pBuffer sp) 8 2))"
    using readLE16_field [of 8 "pBuffer sp"] b(4) by simp
  ultimately show ?thesis
    by (simp add: nodeBinEdges_def edge_count_def hdr_size_int)
qed

lemma nodeBinEdge_ok:
  assumes "index_ok ix" "node_ok ix sp" "i < max_edges ix"
  shows "nodeBinEdgeRowid ix sp (int i) = Some (fst (edge_at ix (pBuffer sp) i))"
    "nodeBinEdgeDistance ix sp (int i) =
       Some (if nFormatVersion ix = 1 then None else Some (fst (snd (edge_at ix (pBuffer sp) i))))"
    "nodeBinEdgeVectorOffset ix (int i) = Some (int (vec_off ix i))"
    "nodeBinEdgeVector ix sp (int i) =
       Some (vectorInitStatic (nEdgeVectorType ix) (nVectorDims ix) (drop (vec_off ix i) (pBuffer sp)))"
proof -
  have l: "int (length (pBuffer sp)) = nBlockSize ix" "nBufferSize sp = nBlockSize ix"
    using assms by (simp_all add: node_ok_def)
  note b = block_bounds [OF assms(1) l(1) assms(3)] and s = slot_bounds [OF assms(1,3)]
  note off = nodeEdgesMetadataOffset_ok [OF assms(1)]
  have "readLE64 (pBuffer sp) (int (meta_off ix i + 8)) = Some (le_word (field (pBuffer sp) (meta_off ix i + 8) 8))"
    using b(2) by (intro readLE64_field) simp
  then have "readLE64 (pBuffer sp) (int (meta_off ix i) + 8) = Some (le_word (field (pBuffer sp) (meta_off ix i + 8) 8))"
    by simp
  then show "nodeBinEdgeRowid ix sp (int i) = Some (fst (edge_at ix (pBuffer sp) i))"
    unfolding nodeBinEdgeRowid_def off bind.bind_lunit edge_offsets
    using s(2) l(2) by (simp add: edge_at_def)
  have "readLE32 (pBuffer sp) (int (meta_off ix i + 4)) = Some (le_word (field (pBuffer sp) (meta_off ix i + 4) 4))"
    using b(2) by (intro readLE32_field) simp
  then have "readLE32 (pBuffer sp) (int (meta_off ix i) + 4) = Some (le_word (field (pBuffer sp) (meta_off ix i + 4) 4))"
    by simp
  then show "nodeBinEdgeDistance ix sp (int i) =
       Some (if nFormatVersion ix = 1 then None else Some (fst (snd (edge_at ix (pBuffer sp) i))))"
    unfolding nodeBinEdgeDistance_def off bind.bind_lunit edge_offsets by (simp add: edge_at_def)
  show o: "nodeBinEdgeVectorOffset ix (int i) = Some (int (vec_off ix i))"
    unfolding nodeBinEdgeVectorOffset_def off bind.bind_lunit ok_sizes [OF assms(1)] edge_offsets
    using s(3) by simp
  show "nodeBinEdgeVector ix sp (int i) =
       Some (vectorInitStatic (nEdgeVectorType ix) (nVectorDims ix) (drop (vec_off ix i) (pBuffer sp)))"
    unfolding nodeBinEdgeVector_def o bind.bind_lunit vector_in_def
    using b(1) by simp
qed

lemma findIdxLoop_ok:
  assumes "index_ok ix" "node_ok ix sp" "\<forall>i \<in> set is. i < max_edges ix"
  shows "findIdxLoop ix sp r is =
     Some (case List.find (\<lambda>i. fst (edge_at ix (pBuffer sp) i) = r) is of Some i \<Rightarrow> int i | None \<Rightarrow> -1)"
  using assms(3) by (induction "is") (auto simp: nodeBinEdge_ok(1) [OF assms(1,2)])

lemma length_data_part_fits:
  "fits ty dims v \<Longrightarrow> vectorDataSize ty dims \<le> length old \<Longrightarrow> length (data_part v old) = vectorDataSize ty dims"
  by (auto simp: fits_def length_data_part)

lemma data_part_old: "fits ty dims v \<Longrightarrow> vectorDataSize ty dims \<le> n \<Longrightarrow> data_part v (take n old) = data_part v old"
  using align4(2) [of dims] align4(3) [of dims]
  by (auto simp: fits_def data_part_def drop_take min_def)

subsection \<open>The operations on the edges\<close>

lemma le_word_le_bytes_field:
  "LENGTH('a) \<le> 8 * n \<Longrightarrow> memput p off (le_bytes n (w :: 'a::len word)) = Some p' \<Longrightarrow>
     le_word (field p' off n) = w"
  using field_memput_same [of p off "le_bytes n w" p'] by (simp add: le_word_le_bytes)

lemma edge_at_cong:
  assumes "field p' (vec_off ix i) (edge_size ix) = field p (vec_off ix i) (edge_size ix)"
    and "field p' (meta_off ix i) 16 = field p (meta_off ix i) 16"
  shows "edge_at ix p' i = edge_at ix p i"
proof -
  have "field p' (meta_off ix i + a) n = field p (meta_off ix i + a) n" if "a + n \<le> 16" for a n
    using assms(2) field_field [OF that] by metis
  with assms(1) show ?thesis by (simp add: edge_at_def)
qed

lemma set_count:
  assumes "k < 2 ^ 16" "memput p 8 (le_bytes 2 (word_of_int (int k) :: u16)) = Some p'"
  shows "edge_count p' = k"
  using le_word_le_bytes_field [OF _ assms(2)] assms(1) by (simp add: edge_count_def unat_of_nat)

text \<open>Writing the header leaves the edges, writing an edge leaves the header and the others.\<close>

lemma header_write:
  assumes "memput p o1 bs = Some p'" "o1 + length bs \<le> hdr_size ix"
  shows "edge_at ix p' i = edge_at ix p i"
    "field p' (hdr_size ix) (node_size ix) = field p (hdr_size ix) (node_size ix)"
proof -
  have "hdr_size ix \<le> vec_off ix i" "vec_off ix 0 \<le> meta_off ix i" "hdr_size ix \<le> vec_off ix 0"
    using vec_off_mono [of 0 "max_edges ix" ix] by (auto simp: vec_off_def meta_off_def)
  then show "edge_at ix p' i = edge_at ix p i"
    using assms(2) by (intro edge_at_cong field_memput_other [OF assms(1)]) auto
  show "field p' (hdr_size ix) (node_size ix) = field p (hdr_size ix) (node_size ix)"
    using assms(2) by (intro field_memput_other [OF assms(1)]) simp
qed

lemma vec_write:
  assumes "memput p (vec_off ix i) bs = Some p'" "length bs = edge_size ix" "i < max_edges ix" "index_ok ix"
  shows "j \<noteq> i \<Longrightarrow> j < max_edges ix \<Longrightarrow> edge_at ix p' j = edge_at ix p j"
    "field p' (meta_off ix j) 16 = field p (meta_off ix j) 16"
    "o2 + n \<le> hdr_size ix + node_size ix \<Longrightarrow> field p' o2 n = field p o2 n"
    "field p' (vec_off ix i) (edge_size ix) = bs"
proof -
  note s = slot_bounds [OF assms(4,3)]
  have "meta_off ix 0 \<le> meta_off ix j" for j by (simp add: meta_off_def)
  then show m: "field p' (meta_off ix j) 16 = field p (meta_off ix j) 16" for j
    using s(1) assms(2) by (intro field_memput_other [OF assms(1)]) (metis order.trans)
  show "edge_at ix p' j = edge_at ix p j" if "j \<noteq> i" "j < max_edges ix"
    using slots_disjoint(1) [OF that(1), of ix] assms(2)
    by (intro edge_at_cong m field_memput_other [OF assms(1)]) auto
  show "field p' o2 n = field p o2 n" if "o2 + n \<le> hdr_size ix + node_size ix"
    using that s(4) by (intro field_memput_other [OF assms(1)]) linarith
  show "field p' (vec_off ix i) (edge_size ix) = bs"
    using field_memput_same [OF assms(1)] assms(2) by simp
qed

lemma meta_write:
  assumes "memput p (meta_off ix i + a) bs = Some p'" "a + length bs \<le> 16" "i < max_edges ix" "index_ok ix"
  shows "j \<noteq> i \<Longrightarrow> j < max_edges ix \<Longrightarrow> edge_at ix p' j = edge_at ix p j"
    "j < max_edges ix \<Longrightarrow> field p' (vec_off ix j) (edge_size ix) = field p (vec_off ix j) (edge_size ix)"
    "o2 + n \<le> hdr_size ix + node_size ix \<Longrightarrow> field p' o2 n = field p o2 n"
proof -
  have m: "meta_off ix 0 \<le> meta_off ix i" by (simp add: meta_off_def)
  show v: "field p' (vec_off ix j) (edge_size ix) = field p (vec_off ix j) (edge_size ix)"
    if "j < max_edges ix" for j
    using m slot_bounds(1) [OF assms(4) that] by (intro field_memput_other [OF assms(1)]) linarith
  show "edge_at ix p' j = edge_at ix p j" if "j \<noteq> i" "j < max_edges ix"
    using slots_disjoint(2) [OF that(1), of ix] assms(2)
    by (intro edge_at_cong v [OF that(2)] field_memput_other [OF assms(1)]) auto
  show "field p' o2 n = field p o2 n" if "o2 + n \<le> hdr_size ix + node_size ix"
    using that m slot_bounds(3,4) [OF assms(4,3)] by (intro field_memput_other [OF assms(1)]) linarith
qed

text \<open>The edge that a vector, a row id and a distance make in a slot with contents \<open>old\<close>.\<close>

definition new_edge :: "u64 \<Rightarrow> f32 \<Rightarrow> vector \<Rightarrow> bytes \<Rightarrow> edge" where
  "new_edge r d v old = (r, d, data_part v old)"

lemma nodeBinReplaceEdge_ok:
  assumes "index_ok ix" "node_ok ix sp" "i < max_edges ix" "i \<le> edge_count (pBuffer sp)"
    and "fits (nEdgeVectorType ix) (nVectorDims ix) v"
  shows "\<exists>sp'. nodeBinReplaceEdge ix sp (int i) r d v = Some sp' \<and> node_ok ix sp' \<and>
     edges ix sp' = take i (edges ix sp) @ new_edge r d v (snd (snd (edge_at ix (pBuffer sp) i)))
                    # drop (Suc i) (edges ix sp) \<and>
     node_rowid sp' = node_rowid sp \<and> node_vec ix sp' = node_vec ix sp \<and> sp' = sp\<lparr>pBuffer := pBuffer sp'\<rparr>"
proof -
  let ?p = "pBuffer sp" and ?n = "edge_count (pBuffer sp)"
  let ?bs = "data_part v (drop (vec_off ix i) ?p)" and ?m = "meta_off ix i"
  let ?k = "if i = ?n then ?n + 1 else ?n"
  have l: "int (length ?p) = nBlockSize ix" "nBufferSize sp = nBlockSize ix" "?n \<le> max_edges ix"
    using assms(2) by (simp_all add: node_ok_def)
  note b = block_bounds [OF assms(1) l(1) assms(3)] and sz = ok_sizes [OF assms(1)]
  have k: "?k \<le> max_edges ix" "?k < 2 ^ 16" using assms(3) l(3) ok_block(2) [OF assms(1)] by auto
  have len: "length ?bs = edge_size ix"
    using b(1) assms(5) by (subst length_data_part_fits) (auto simp: edge_size_def)
  have ws: "well_sized v" "vectorDataSize (vtype v) (vdims v) = edge_size ix"
    using assms(5) by (simp_all add: fits_def edge_size_def)
  obtain p1 where p1: "memput ?p (vec_off ix i) ?bs = Some p1"
    using b(1) len memput_in [of "vec_off ix i" ?bs ?p] by auto
  obtain p2 where p2: "memput p1 (?m + 4) (le_bytes 4 d) = Some p2"
    using b(2) memput_length [OF p1] memput_in [of "?m + 4" "le_bytes 4 d" p1] by auto
  obtain p3 where p3: "memput p2 (?m + 8) (le_bytes 8 r) = Some p3"
    using b(2) memput_length [OF p1] memput_length [OF p2] memput_in [of "?m + 8" "le_bytes 8 r" p2] by auto
  obtain p4 where p4: "memput p3 8 (le_bytes 2 (word_of_int (int ?k) :: u16)) = Some p4"
    using b(4) memput_length [OF p1] memput_length [OF p2] memput_length [OF p3]
      memput_in [of 8 "le_bytes 2 (word_of_int (int ?k) :: u16)" p3] by auto
  have lp4: "length p4 = length ?p"
    using memput_length [OF p1] memput_length [OF p2] memput_length [OF p3] memput_length [OF p4] by simp
  obtain w where w: "nodeBinEdges ix sp = Some w" "unat w = ?n"
    using nodeBinEdges_ok [OF assms(1,2)] by blast
  have ser: "vectorSerializeToBlob v ?p (vec_off ix i) (size_t (nEdgeVectorSize ix)) = Some p1"
    using serialize_data_part [OF ws(1), of "vec_off ix i" ?p "edge_size ix"] b(1) ws(2) p1 assms(5)
    by (simp add: index_ok_sizes [OF assms(1)] fits_def)
  have kk: "(if int i = int ?n then int ?n + 1 else int ?n) = int ?k" by simp
  have p2': "writeLE32 p1 (int ?m + 4) d = Some p2" and p3': "writeLE64 p2 (int ?m + 8) r = Some p3"
    and p4': "writeLE16 p3 8 (word_of_int (int ?k)) = Some p4"
    using p2 p3 p4 writeLE_memput(2) [of p1 "?m + 4" d] writeLE_memput(3) [of p2 "?m + 8" r]
      writeLE_memput(1) [of p3 8] by simp_all
  have c: "int (vec_off ix i) + int (edge_size ix) \<le> nBufferSize sp" "int ?m + edgeMetadataSize (nFormatVersion ix) \<le> nBufferSize sp"
    using b(1,2) l by (auto simp: edgeMetadataSize_def)
  have run: "nodeBinReplaceEdge ix sp (int i) r d v = Some (sp\<lparr>pBuffer := p4\<rparr>)"
    unfolding nodeBinReplaceEdge_def nodeEdgesMaxCount_ok [OF assms(1)] w(1) Let_def sz edge_offsets
      nodeEdgesMetadataOffset_ok [OF assms(1)] bind.bind_lunit w(2) kk
    using assms(3,4) c by (simp add: ser [unfolded sz] p2' p3' p4' del: of_int_of_nat_eq)
  have e: "edge_at ix p4 j = (if j = i then new_edge r d v (snd (snd (edge_at ix ?p i))) else edge_at ix ?p j)"
    if "j < max_edges ix" for j
  proof (cases "j = i")
    case False
    then show ?thesis
      using that assms(1,3) header_write(1) [OF p4, of ix] hdr_size_bounds(1) [of ix]
      by (simp add: meta_write(1) [OF p3] meta_write(1) [OF p2] vec_write(1) [OF p1 len])
  next
    case True
    have "le_word (field p3 (?m + 4) 4) = d"
    proof -
      have "field p3 (?m + 4) 4 = field p2 (?m + 4) 4" by (intro field_memput_other [OF p3]) simp
      then show ?thesis using le_word_le_bytes_field [OF _ p2] by simp
    qed
    moreover have "le_word (field p3 (?m + 8) 8) = r" using le_word_le_bytes_field [OF _ p3] by simp
    moreover have "field p3 (vec_off ix i) (edge_size ix) = ?bs"
      using assms(1,3) by (simp add: meta_write(2) [OF p3] meta_write(2) [OF p2] vec_write(4) [OF p1 len])
    moreover have "?bs = data_part v (field ?p (vec_off ix i) (edge_size ix))"
      using data_part_old [OF assms(5), of "edge_size ix" "drop (vec_off ix i) ?p"] by (simp add: field_def edge_size_def)
    ultimately show ?thesis
      using True header_write(1) [OF p4, of ix] hdr_size_bounds(1) [of ix] by (simp add: edge_at_def new_edge_def)
  qed
  have cnt: "edge_count p4 = ?k" by (rule set_count [OF k(2) p4])
  have es: "edges ix (sp\<lparr>pBuffer := p4\<rparr>) = take i (edges ix sp)
      @ new_edge r d v (snd (snd (edge_at ix ?p i))) # drop (Suc i) (edges ix sp)"
    using assms(3,4) k(1) l(3) by (intro edges_eqI) (auto simp: cnt e nth_append nth_Cons')
  have keep: "field p4 o2 n = field ?p o2 n" if "o2 + n \<le> hdr_size ix + node_size ix" "o2 + n \<le> 8 \<or> 10 \<le> o2" for o2 n
    using that assms(1,3) field_memput_other [OF p4, of o2 n]
    by (auto simp: meta_write(3) [OF p3] meta_write(3) [OF p2] vec_write(3) [OF p1 len])
  have "field p4 0 8 = field ?p 0 8" "field p4 (hdr_size ix) (node_size ix) = field ?p (hdr_size ix) (node_size ix)"
    using hdr_size_bounds(1) [of ix] by (simp_all add: keep)
  moreover have "node_ok ix (sp\<lparr>pBuffer := p4\<rparr>)" using l lp4 cnt k(1) by (simp add: node_ok_def)
  ultimately show ?thesis
    using run es by (intro exI [of _ "sp\<lparr>pBuffer := p4\<rparr>"]) (simp add: node_rowid_def node_vec_def)
qed

lemma write_count:
  assumes "index_ok ix" "int (length p) = nBlockSize ix" "k \<le> max_edges ix"
  shows "\<exists>p'. writeLE16 p 8 (word_of_int (int k)) = Some p' \<and> length p' = length p \<and> edge_count p' = k \<and>
     (\<forall>i. edge_at ix p' i = edge_at ix p i) \<and> field p' 0 8 = field p 0 8 \<and>
     field p' (hdr_size ix) (node_size ix) = field p (hdr_size ix) (node_size ix)"
proof -
  have "10 \<le> length p" using block_bounds(4) [OF assms(1,2) ok_block(1) [OF assms(1)]] .
  then obtain p' where p': "memput p 8 (le_bytes 2 (word_of_int (int k) :: u16)) = Some p'"
    using memput_in [of 8 "le_bytes 2 (word_of_int (int k) :: u16)" p] by auto
  have "k < 2 ^ 16" using assms(3) ok_block(2) [OF assms(1)] by linarith
  then show ?thesis
    using set_count [OF _ p'] memput_length [OF p'] p' writeLE_memput(1) [of p 8 "word_of_int (int k)"]
      header_write [OF p', of ix] hdr_size_bounds(1) [of ix] field_memput_other [OF p', of 0 8]
    by auto
qed

lemma nodeBinPruneEdges_ok:
  assumes "index_ok ix" "node_ok ix sp" "k \<le> edge_count (pBuffer sp)"
  shows "\<exists>sp'. nodeBinPruneEdges ix sp (int k) = Some sp' \<and> node_ok ix sp' \<and>
     edges ix sp' = take k (edges ix sp) \<and> node_rowid sp' = node_rowid sp \<and> node_vec ix sp' = node_vec ix sp \<and>
     sp' = sp\<lparr>pBuffer := pBuffer sp'\<rparr>"
proof -
  have l: "int (length (pBuffer sp)) = nBlockSize ix" "edge_count (pBuffer sp) \<le> max_edges ix"
    using assms(2) by (simp_all add: node_ok_def)
  obtain w where w: "nodeBinEdges ix sp = Some w" "unat w = edge_count (pBuffer sp)"
    using nodeBinEdges_ok [OF assms(1,2)] by blast
  obtain p' where p': "writeLE16 (pBuffer sp) 8 (word_of_int (int k)) = Some p'" "length p' = length (pBuffer sp)"
      "edge_count p' = k" "\<And>i. edge_at ix p' i = edge_at ix (pBuffer sp) i" "field p' 0 8 = field (pBuffer sp) 0 8"
      "field p' (hdr_size ix) (node_size ix) = field (pBuffer sp) (hdr_size ix) (node_size ix)"
    using write_count [OF assms(1) l(1), of k] assms(3) l(2) by auto
  have "edges ix (sp\<lparr>pBuffer := p'\<rparr>) = take k (edges ix sp)"
    using assms(3) p'(3,4) by (intro edges_eqI) auto
  moreover have "nodeBinPruneEdges ix sp (int k) = Some (sp\<lparr>pBuffer := p'\<rparr>)"
    unfolding nodeBinPruneEdges_def w(1) bind.bind_lunit w(2) using assms(3) p'(1) by simp
  ultimately show ?thesis
    using assms p' l by (simp add: node_ok_def node_rowid_def node_vec_def)
qed

text \<open>Copying the slot of the last edge onto another one.\<close>

lemma copy_slot:
  assumes "index_ok ix" "int (length p) = nBlockSize ix" "i < max_edges ix" "l < max_edges ix" "i \<noteq> l"
    and "memput p (vec_off ix i) (field p (vec_off ix l) (edge_size ix)) = Some p1"
    and "memput p1 (meta_off ix i) (field p1 (meta_off ix l) 16) = Some p2"
  shows "j < max_edges ix \<Longrightarrow> edge_at ix p2 j = (if j = i then edge_at ix p l else edge_at ix p j)"
    "o2 + n \<le> hdr_size ix + node_size ix \<Longrightarrow> field p2 o2 n = field p o2 n"
proof -
  note bi = block_bounds [OF assms(1,2,3)] and bl = block_bounds [OF assms(1,2,4)]
  have lp: "length p1 = length p" by (rule memput_length [OF assms(6)])
  have len: "length (field p (vec_off ix l) (edge_size ix)) = edge_size ix" "length (field p1 (meta_off ix l) 16) = 16"
    using bl lp by simp_all
  have p2: "memput p1 (meta_off ix i + 0) (field p1 (meta_off ix l) 16) = Some p2" using assms(7) by simp
  note v = vec_write [OF assms(6) len(1) assms(3,1)] and m = meta_write [OF p2 _ assms(3,1)]
  show "field p2 o2 n = field p o2 n" if "o2 + n \<le> hdr_size ix + node_size ix"
    using that len by (simp add: v(3) m(3))
  show "edge_at ix p2 j = (if j = i then edge_at ix p l else edge_at ix p j)" if "j < max_edges ix"
  proof (cases "j = i")
    case False
    then show ?thesis using that len by (simp add: v(1) m(1))
  next
    case True
    have "field p2 (meta_off ix i + a) n = field p (meta_off ix l + a) n" if "a + n \<le> 16" for a n
    proof -
      have "field p2 (meta_off ix i + a) n = field (field p1 (meta_off ix l) 16) a n"
        using field_memput_in [OF assms(7)] that len by simp
      also have "\<dots> = field (field p (meta_off ix l) 16) a n" by (simp add: v(2))
      finally show ?thesis using that by (simp add: field_field)
    qed
    moreover have "field p2 (vec_off ix i) (edge_size ix) = field p (vec_off ix l) (edge_size ix)"
      using assms(3) len by (simp add: v(4) m(2))
    ultimately show ?thesis using True by (simp add: edge_at_def)
  qed
qed

lemma nodeBinDeleteEdge_ok:
  assumes "index_ok ix" "node_ok ix sp" "i < edge_count (pBuffer sp)"
  shows "\<exists>sp'. nodeBinDeleteEdge ix sp (int i) = Some sp' \<and> node_ok ix sp' \<and>
     edges ix sp' = butlast ((edges ix sp)[i := last (edges ix sp)]) \<and>
     node_rowid sp' = node_rowid sp \<and> node_vec ix sp' = node_vec ix sp \<and> sp' = sp\<lparr>pBuffer := pBuffer sp'\<rparr> \<and>
     (\<forall>j < max_edges ix. j \<noteq> i \<longrightarrow> edge_at ix (pBuffer sp') j = edge_at ix (pBuffer sp) j)"
proof -
  let ?p = "pBuffer sp" and ?n = "edge_count (pBuffer sp)" let ?l = "?n - 1"
  have l: "int (length ?p) = nBlockSize ix" "nBufferSize sp = nBlockSize ix" "?n \<le> max_edges ix"
    using assms(2) by (simp_all add: node_ok_def)
  have im: "i < max_edges ix" "?l < max_edges ix" "i \<le> ?l" using assms(3) l(3) by auto
  note bi = block_bounds [OF assms(1) l(1) im(1)] and bl = block_bounds [OF assms(1) l(1) im(2)]
  obtain w where w: "nodeBinEdges ix sp = Some w" "unat w = ?n"
    using nodeBinEdges_ok [OF assms(1,2)] by blast
  have n1: "int ?n - 1 = int ?l" using assms(3) by simp
  have c: "int (vec_off ix i) + int (edge_size ix) \<le> nBufferSize sp" "int (vec_off ix ?l) + int (edge_size ix) \<le> nBufferSize sp"
    "int (meta_off ix i) + edgeMetadataSize (nFormatVersion ix) \<le> nBufferSize sp"
    "int (meta_off ix ?l) + edgeMetadataSize (nFormatVersion ix) \<le> nBufferSize sp"
    using bi(1,2) bl(1,2) l by (auto simp: edgeMetadataSize_def)
  have lt: "int (vec_off ix i) < int (vec_off ix ?l) \<longleftrightarrow> i \<noteq> ?l"
    using im(3) ok_sizes(3) [OF assms(1)] by (auto simp: vec_off_def)
  obtain p2 where p2: "(if i \<noteq> ?l then
        do { p \<leftarrow> memmove ?p (int (vec_off ix i)) (int (vec_off ix ?l)) (int (edge_size ix));
             memmove p (int (meta_off ix i)) (int (meta_off ix ?l)) (edgeMetadataSize (nFormatVersion ix)) }
        else Some ?p) = Some p2" "length p2 = length ?p"
      "\<And>j. j < max_edges ix \<Longrightarrow> edge_at ix p2 j = (if j = i then edge_at ix ?p ?l else edge_at ix ?p j)"
      "\<And>o2 n. o2 + n \<le> hdr_size ix + node_size ix \<Longrightarrow> field p2 o2 n = field ?p o2 n"
  proof (cases "i = ?l")
    case False
    obtain p1 where p1: "memput ?p (vec_off ix i) (field ?p (vec_off ix ?l) (edge_size ix)) = Some p1"
      using bi(1) bl(1) memput_in [of "vec_off ix i" "field ?p (vec_off ix ?l) (edge_size ix)" ?p] by auto
    obtain p2 where p2: "memput p1 (meta_off ix i) (field p1 (meta_off ix ?l) 16) = Some p2"
      using bi(2) bl(2) memput_length [OF p1] memput_in [of "meta_off ix i" "field p1 (meta_off ix ?l) 16" p1] by auto
    have "memmove p1 (int (meta_off ix i)) (int (meta_off ix ?l)) 16 = Some p2"
      using memmove_memput [of "meta_off ix ?l" 16 p1] bl(2) memput_length [OF p1] p2 by simp
    moreover have "memmove ?p (int (vec_off ix i)) (int (vec_off ix ?l)) (int (edge_size ix)) = Some p1"
      using memmove_memput [of "vec_off ix ?l" "edge_size ix" ?p] bl(1) p1 by simp
    moreover have "length p2 = length ?p" using memput_length [OF p1] memput_length [OF p2] by simp
    ultimately show ?thesis
      using False copy_slot [OF assms(1) l(1) im(1,2) False p1 p2] that by (simp add: edgeMetadataSize_def)
  qed (use that in auto)
  obtain p3 where p3: "writeLE16 p2 8 (word_of_int (int ?l)) = Some p3" "length p3 = length p2"
      "edge_count p3 = ?l" "\<And>i. edge_at ix p3 i = edge_at ix p2 i" "field p3 0 8 = field p2 0 8"
      "field p3 (hdr_size ix) (node_size ix) = field p2 (hdr_size ix) (node_size ix)"
    using write_count [OF assms(1), of p2 ?l] p2(2) l(1) im(2) by auto
  have run: "nodeBinDeleteEdge ix sp (int i) = Some (sp\<lparr>pBuffer := p3\<rparr>)"
    unfolding nodeBinDeleteEdge_def w(1) Let_def bind.bind_lunit w(2) n1 ok_sizes [OF assms(1)] edge_offsets
      nodeEdgesMetadataOffset_ok [OF assms(1)] lt p2(1)
    using assms(3) c p3(1) by (simp del: of_int_of_nat_eq)
  have "edges ix (sp\<lparr>pBuffer := p3\<rparr>) = butlast ((edges ix sp)[i := last (edges ix sp)])"
    using assms(3) im p3(3,4) p2(3)
    by (intro edges_eqI) (auto simp: nth_butlast nth_list_update last_conv_nth length_0_conv [symmetric] simp del: length_0_conv)
  then show ?thesis
    using run p3 p2(2-4) l im hdr_size_bounds(1) [of ix]
    by (simp add: node_ok_def node_rowid_def node_vec_def)
qed

lemma edge_count_0: "field p 8 2 = [0, 0] \<Longrightarrow> edge_count p = 0"
  by (simp add: edge_count_def le_word_def be_word_simps)

lemma nodeBinInit_ok:
  assumes "index_ok ix" "nBufferSize sp = nBlockSize ix" "int (length (pBuffer sp)) = nBlockSize ix"
    and "fits (nNodeVectorType ix) (nVectorDims ix) v"
  shows "\<exists>sp'. nodeBinInit ix sp r v = Some sp' \<and> node_ok ix sp' \<and> edges ix sp' = [] \<and>
     node_rowid sp' = r \<and> node_vec ix sp' = data_part v (replicate (node_size ix) 0) \<and> sp' = sp\<lparr>pBuffer := pBuffer sp'\<rparr>"
proof -
  let ?h = "hdr_size ix" and ?N = "nat (nBlockSize ix)" let ?z = "replicate ?N (0 :: u8)"
  have N: "?N = length (pBuffer sp)" "int ?N = nBlockSize ix" using assms(3) by simp_all
  note b = block_bounds [OF assms(1,3) ok_block(1) [OF assms(1)]]
  have z: "memput (pBuffer sp) 0 ?z = Some ?z" using N by (simp add: memput_def)
  obtain p1 where p1: "memput ?z 0 (le_bytes 8 r) = Some p1"
    using b(4) N memput_in [of 0 "le_bytes 8 r" ?z] by auto
  let ?bs = "data_part v (drop ?h p1)"
  have l1: "length p1 = ?N" using memput_length [OF p1] by simp
  have ds: "vectorDataSize (vtype v) (vdims v) = node_size ix" using assms(4) by (simp add: fits_def node_size_def)
  have len: "length ?bs = node_size ix"
    using b(3) N l1 assms(4) by (subst length_data_part_fits) (auto simp: node_size_def)
  obtain p2 where p2: "memput p1 ?h ?bs = Some p2" using b(3) N l1 len memput_in [of ?h ?bs p1] by auto
  have ser: "vectorSerializeToBlob v p1 ?h (size_t (nNodeVectorSize ix)) = Some p2"
    using serialize_data_part [of v ?h p1 "node_size ix"] p2 assms(4) ds b(3) N l1
    by (simp add: index_ok_sizes [OF assms(1)] fits_def)
  have w: "writeLE64 ?z 0 r = Some p1" using p1 writeLE_memput(3) [of ?z 0 r] by simp
  have run: "nodeBinInit ix sp r v = Some (sp\<lparr>pBuffer := p2\<rparr>)"
    using b(3) N z w ser assms(2) ok_sizes(1) [OF assms(1)]
    by (simp add: nodeBinInit_def hdr_size_int mem_at_def [of "nBlockSize ix"])
  have "field p1 8 2 = field ?z 8 2" by (intro field_memput_other [OF p1]) simp
  moreover have "field p2 8 2 = field p1 8 2"
    using hdr_size_bounds(1) [of ix] by (intro field_memput_other [OF p2]) simp
  ultimately have cnt: "edge_count p2 = 0"
    using b(4) N by (intro edge_count_0) (simp add: field_def eval_nat_numeral)
  have "field p2 0 8 = field p1 0 8" using hdr_size_bounds(1) [of ix] by (intro field_memput_other [OF p2]) simp
  then have rid: "le_word (field p2 0 8) = r" using le_word_le_bytes_field [OF _ p1] by simp
  have "drop ?h p1 = replicate (?N - ?h) 0"
    using p1 hdr_size_bounds(1) [of ix] by (auto simp: memput_def split: if_splits)
  then have "data_part v (drop ?h p1) = data_part v (replicate (?N - ?h) 0)" by simp
  also have "\<dots> = data_part v (take (node_size ix) (replicate (?N - ?h) 0))"
    using data_part_old [OF assms(4), of "node_size ix" "replicate (?N - ?h) 0"] by (simp add: node_size_def)
  also have "take (node_size ix) (replicate (?N - ?h) 0) = replicate (node_size ix) (0 :: u8)"
    using b(3) N by simp
  finally have vec: "field p2 ?h (node_size ix) = data_part v (replicate (node_size ix) 0)"
    using field_memput_same [OF p2] len by simp
  have "edges ix (sp\<lparr>pBuffer := p2\<rparr>) = []" by (rule edges_eqI) (simp_all add: cnt)
  then show ?thesis
    using run cnt rid vec N assms(2) memput_length [OF p2] l1 by (simp add: node_ok_def node_rowid_def node_vec_def)
qed

lemma nodeBinEdgeFindIdx_ok:
  assumes "index_ok ix" "node_ok ix sp"
  shows "nodeBinEdgeFindIdx ix sp r =
     Some (case List.find (\<lambda>i. fst (edges ix sp ! i) = r) [0..<length (edges ix sp)] of Some i \<Rightarrow> int i | None \<Rightarrow> -1)"
proof -
  obtain w where w: "nodeBinEdges ix sp = Some w" "unat w = edge_count (pBuffer sp)"
    using nodeBinEdges_ok [OF assms] by blast
  have "edge_count (pBuffer sp) \<le> max_edges ix" using assms(2) by (simp add: node_ok_def)
  then have a: "\<forall>i \<in> set [0..<edge_count (pBuffer sp)]. i < max_edges ix" by auto
  have "List.find (\<lambda>i. fst (edge_at ix (pBuffer sp) i) = r) [0..<edge_count (pBuffer sp)] =
      List.find (\<lambda>i. fst (edges ix sp ! i) = r) [0..<edge_count (pBuffer sp)]"
    by (intro find_cong) auto
  then show ?thesis by (simp add: nodeBinEdgeFindIdx_def w findIdxLoop_ok [OF assms a])
qed

subsection \<open>Properties\<close>

text \<open>
  C21. A block implements a list of edges: initialising makes it empty (with the row id and
  the vector of the node), replacing position \<open>i\<close> updates the list there or appends at its
  end, deleting position \<open>i\<close> moves the last edge there, and pruning cuts the list. No operation
  on edges touches the row id or the vector of the node, and none leaves the block.
\<close>

theorem node_edges_refine:
  assumes "index_ok ix" "node_ok ix sp"
    and "fits (nNodeVectorType ix) (nVectorDims ix) u" "fits (nEdgeVectorType ix) (nVectorDims ix) v"
  shows "(\<exists>sp'. nodeBinInit ix sp r u = Some sp' \<and> node_ok ix sp' \<and> edges ix sp' = [] \<and>
            node_rowid sp' = r \<and> node_vec ix sp' = data_part u (replicate (node_size ix) 0)) \<and>
    (\<forall>i < max_edges ix. i \<le> length (edges ix sp) \<longrightarrow>
       (\<exists>sp' old. nodeBinReplaceEdge ix sp (int i) r d v = Some sp' \<and> node_ok ix sp' \<and>
          edges ix sp' = (if i = length (edges ix sp) then edges ix sp @ [(r, d, data_part v old)]
                          else (edges ix sp)[i := (r, d, data_part v (snd (snd (edges ix sp ! i))))]) \<and>
          node_rowid sp' = node_rowid sp \<and> node_vec ix sp' = node_vec ix sp)) \<and>
    (\<forall>i < length (edges ix sp).
       (\<exists>sp'. nodeBinDeleteEdge ix sp (int i) = Some sp' \<and> node_ok ix sp' \<and>
          edges ix sp' = butlast ((edges ix sp)[i := last (edges ix sp)]) \<and>
          node_rowid sp' = node_rowid sp \<and> node_vec ix sp' = node_vec ix sp)) \<and>
    (\<forall>k \<le> length (edges ix sp).
       (\<exists>sp'. nodeBinPruneEdges ix sp (int k) = Some sp' \<and> node_ok ix sp' \<and>
          edges ix sp' = take k (edges ix sp) \<and>
          node_rowid sp' = node_rowid sp \<and> node_vec ix sp' = node_vec ix sp))"
proof (intro conjI allI impI)
  show "\<exists>sp'. nodeBinInit ix sp r u = Some sp' \<and> node_ok ix sp' \<and> edges ix sp' = [] \<and>
            node_rowid sp' = r \<and> node_vec ix sp' = data_part u (replicate (node_size ix) 0)"
    using nodeBinInit_ok [OF assms(1) _ _ assms(3), of sp r] assms(2) by (auto simp: node_ok_def)
next
  fix i assume i: "i < max_edges ix" "i \<le> length (edges ix sp)"
  then obtain sp' where "nodeBinReplaceEdge ix sp (int i) r d v = Some sp'" "node_ok ix sp'"
     "edges ix sp' = take i (edges ix sp) @ new_edge r d v (snd (snd (edge_at ix (pBuffer sp) i)))
                    # drop (Suc i) (edges ix sp)"
     "node_rowid sp' = node_rowid sp" "node_vec ix sp' = node_vec ix sp"
    using nodeBinReplaceEdge_ok [OF assms(1,2) i(1) _ assms(4)] by auto
  then show "\<exists>sp' old. nodeBinReplaceEdge ix sp (int i) r d v = Some sp' \<and> node_ok ix sp' \<and>
          edges ix sp' = (if i = length (edges ix sp) then edges ix sp @ [(r, d, data_part v old)]
                          else (edges ix sp)[i := (r, d, data_part v (snd (snd (edges ix sp ! i))))]) \<and>
          node_rowid sp' = node_rowid sp \<and> node_vec ix sp' = node_vec ix sp"
    using i(2) by (auto simp: new_edge_def upd_conv_take_nth_drop)
qed (use nodeBinDeleteEdge_ok [OF assms(1,2)] nodeBinPruneEdges_ok [OF assms(1,2)] in \<open>simp; blast\<close>)+

definition ex_index :: "unit DiskAnnIndex" where
  "ex_index = \<lparr>nFormatVersion = 3, nDistanceFunc = 2, nBlockSize = 60, nVectorDims = 1,
     nNodeVectorType = FLOAT32, nEdgeVectorType = FLOAT32, nNodeVectorSize = 4, nEdgeVectorSize = 4,
     nShadowRows = 0, pruningAlpha = 0x3F99999A, insertL = 70, searchL = 200, iShadowTnum = 5,
     aKeyPrefix = [5], pReadCsr = None, nReads = 0, nWrites = 0\<rparr>"

definition ex_block :: BlobSpot where
  "ex_block = \<lparr>bs_nRowid = 7, pBuffer = replicate 60 0, nBufferSize = 60, isWritable = True,
     isInitialized = False, isAborted = False\<rparr>"

lemma ex_index_ok: "index_ok ex_index" "max_edges ex_index = 2"
  by (simp_all add: index_ok_def ex_index_def max_edges_def nodeOverhead_def nodeEdgeOverhead_def
      nodeMetadataSize_def edgeMetadataSize_def MAX_VECTOR_SZ_def)

lemma ex_block_ok: "node_ok ex_index ex_block" "edges ex_index ex_block = []"
proof -
  have c: "edge_count (pBuffer ex_block) = 0" by code_simp
  then show "edges ex_index ex_block = []" by (intro edges_eqI) simp_all
  show "node_ok ex_index ex_block"
    using c by (simp add: node_ok_def) (simp add: ex_block_def ex_index_def)
qed

lemma node_edges_refine_witness:
  "\<exists>sp'. nodeBinReplaceEdge ex_index ex_block 0 9 0x3F800000 (vectorInit FLOAT32 1 [1, 2, 3, 4]) = Some sp' \<and>
     edges ex_index sp' = [(9, 0x3F800000, [1, 2, 3, 4])]"
  (is "\<exists>sp'. nodeBinReplaceEdge _ _ _ _ _ ?v = _ \<and> _")
proof -
  have ok: "index_ok ex_index" "node_ok ex_index ex_block" "max_edges ex_index = 2"
    "length (edges ex_index ex_block) = 0" "nEdgeVectorType ex_index = FLOAT32" "nVectorDims ex_index = 1"
    "nNodeVectorType ex_index = FLOAT32"
    using ex_index_ok ex_block_ok by (auto simp: ex_index_def)
  have f: "fits FLOAT32 1 (vectorInit FLOAT32 1 [1, 2, 3, 4])" by code_simp
  have d: "data_part (vectorInit FLOAT32 1 [1, 2, 3, 4]) old = [1, 2, 3, 4]" for old
    by (simp add: data_part_def vectorInit_def)
  have "\<forall>i < max_edges ex_index. i \<le> length (edges ex_index ex_block) \<longrightarrow>
      (\<exists>sp' old. nodeBinReplaceEdge ex_index ex_block (int i) 9 0x3F800000 ?v = Some sp' \<and> node_ok ex_index sp' \<and>
         edges ex_index sp' = (if i = length (edges ex_index ex_block)
            then edges ex_index ex_block @ [(9, 0x3F800000, data_part ?v old)]
            else (edges ex_index ex_block)[i := (9, 0x3F800000, data_part ?v (snd (snd (edges ex_index ex_block ! i))))]) \<and>
         node_rowid sp' = node_rowid ex_block \<and> node_vec ex_index sp' = node_vec ex_index ex_block)"
    using node_edges_refine [where ix = ex_index and sp = ex_block and u = ?v and v = ?v and r = 9 and d = "0x3F800000"] ok(1,2,5-7) f by simp
  from this [rule_format, of 0] show ?thesis using ok(3,4) ex_block_ok(2) d by auto
qed

text \<open>
  Looking up edges: reading position \<open>i\<close> gives the row id, the distance (left alone in
  format 1) and a vector that shows the stored bytes; searching a row id gives its first
  position, or -1 if no edge leads to it.
\<close>

theorem node_edge_lookup:
  assumes "index_ok ix" "node_ok ix sp"
  shows "(\<forall>i < length (edges ix sp). \<exists>vec. nodeBinEdge ix sp (int i) =
        Some (fst (edges ix sp ! i), if nFormatVersion ix = 1 then None else Some (fst (snd (edges ix sp ! i))), vec) \<and>
        fits (nEdgeVectorType ix) (nVectorDims ix) vec \<and> take (edge_size ix) (vdata vec) = snd (snd (edges ix sp ! i))) \<and>
    (\<exists>k. nodeBinEdgeFindIdx ix sp r = Some k \<and>
       (if r \<in> fst ` set (edges ix sp)
        then 0 \<le> k \<and> nat k < length (edges ix sp) \<and> fst (edges ix sp ! nat k) = r \<and>
             (\<forall>j < nat k. fst (edges ix sp ! j) \<noteq> r)
        else k = -1))"
proof (intro conjI allI impI)
  fix i assume i: "i < length (edges ix sp)"
  have l: "int (length (pBuffer sp)) = nBlockSize ix" and im: "i < max_edges ix"
    using assms(2) i by (auto simp: node_ok_def)
  let ?v = "vectorInitStatic (nEdgeVectorType ix) (nVectorDims ix) (drop (vec_off ix i) (pBuffer sp))"
  have "nodeBinEdge ix sp (int i) =
        Some (fst (edges ix sp ! i), if nFormatVersion ix = 1 then None else Some (fst (snd (edges ix sp ! i))), ?v)"
    using i by (simp add: nodeBinEdge_def nodeBinEdge_ok [OF assms im])
  moreover have "fits (nEdgeVectorType ix) (nVectorDims ix) ?v"
    using block_bounds(1) [OF assms(1) l im] by (simp add: fits_def vectorInitStatic_def well_sized_def edge_size_def)
  moreover have "take (edge_size ix) (vdata ?v) = snd (snd (edges ix sp ! i))"
    using i by (simp add: vectorInitStatic_def edge_at_def field_def)
  ultimately show "\<exists>vec. nodeBinEdge ix sp (int i) =
        Some (fst (edges ix sp ! i), if nFormatVersion ix = 1 then None else Some (fst (snd (edges ix sp ! i))), vec) \<and>
        fits (nEdgeVectorType ix) (nVectorDims ix) vec \<and> take (edge_size ix) (vdata vec) = snd (snd (edges ix sp ! i))"
    by blast
next
  let ?f = "List.find (\<lambda>i. fst (edges ix sp ! i) = r) [0..<length (edges ix sp)]"
  show "\<exists>k. nodeBinEdgeFindIdx ix sp r = Some k \<and>
       (if r \<in> fst ` set (edges ix sp)
        then 0 \<le> k \<and> nat k < length (edges ix sp) \<and> fst (edges ix sp ! nat k) = r \<and>
             (\<forall>j < nat k. fst (edges ix sp ! j) \<noteq> r)
        else k = -1)"
  proof (cases ?f)
    case None
    then have "r \<notin> fst ` set (edges ix sp)" by (auto simp: find_None_iff set_conv_nth)
    with None show ?thesis by (simp add: nodeBinEdgeFindIdx_ok [OF assms])
  next
    case (Some i)
    then have "i < length (edges ix sp)" "fst (edges ix sp ! i) = r" "\<forall>j < i. fst (edges ix sp ! j) \<noteq> r"
      by (auto simp: find_Some_iff simp del: edges_nth length_edges)
    moreover from this have "r \<in> fst ` set (edges ix sp)" by (metis imageI nth_mem)
    ultimately show ?thesis using Some by (simp add: nodeBinEdgeFindIdx_ok [OF assms] del: edges_nth length_edges)
  qed
qed

lemma node_edge_lookup_witness:
  "\<exists>k. nodeBinEdgeFindIdx ex_index ex_block 9 = Some k \<and> k = -1"
  using node_edge_lookup [OF ex_index_ok(1) ex_block_ok(1), where r = 9] ex_block_ok(2) by simp

end
