(* ===== verification/BlobSpot.thy ===== *)
theory BlobSpot
  imports RecordCodec KvMemSpec NodeBin
begin

unbundle bit_operations_syntax

text \<open>
  The blobs of \<open>vectordiskann.c\<close>: how a block of the graph is read from and written to the
  key-value store, by-passing the SQL layer. The key is the prefix of the shadow table
  followed by the row id, the value the record SQL would have written. The proofs use only the
  contract \<open>kv_store\<close> of the store. Timing is left out; the database handle is the store. Sizes
  are \<open>int\<close>s without a bound: that \<open>nBufferSize + 40\<close> (in \<open>blobSpotFlush\<close>) and the size of the data
  read (in \<open>blobSpotReload\<close>) fit an \<open>int\<close> is not checked, for an index has blocks of at most 128 MB.
\<close>

abbreviation (input) DISKANN_ROW_NOT_FOUND :: int where "DISKANN_ROW_NOT_FOUND \<equiv> 1001"

subsection \<open>Keys and records\<close>

definition blobSpotBuildKey :: "'c DiskAnnIndex \<Rightarrow> i64 \<Rightarrow> bytes" where
  "blobSpotBuildKey ix nRowid = aKeyPrefix ix @ sqlite4VdbeEncodeIntKey nRowid"

text \<open>
  The offset of the blob in the record and its size; \<open>None\<close> is the null pointer. The header
  size is cut to an \<open>int\<close>, and the end of the blob is not compared with the record's.
\<close>

definition blobSpotDecodeRecord :: "bytes \<Rightarrow> (int \<times> int) option" where
  "blobSpotDecodeRecord pData =
     do { (nHdr, hdrSize) \<leftarrow> sqlite4GetVarint64 pData;
          if int nHdr + to_i32 hdrSize > int (length pData) then None
          else do {
            let payloadOff = int nHdr + to_i32 hdrSize;
            (n, typeCode) \<leftarrow> sqlite4GetVarint64 (drop nHdr pData);
            col0Size \<leftarrow> (if typeCode = 0 then Some 0
                         else if typeCode \<ge> 2 \<and> typeCode \<le> 10 then Some (int (unat (typeCode - 2)))
                         else None);
            (n2, blobTypeCode) \<leftarrow> sqlite4GetVarint64 (drop (nHdr + n) pData);
            if blobTypeCode < 23 \<or> blobTypeCode AND 3 \<noteq> 3 then None
            else Some (payloadOff + col0Size, to_i32 ((blobTypeCode - 23) div 4)) } }"

definition blobSpotEncodeRecord :: "i64 \<Rightarrow> bytes \<Rightarrow> bytes" where
  "blobSpotEncodeRecord nRowid pBlob =
     (let nIntBytes = (if sint nRowid < 0 then sigNeg (sint nRowid) (-128) 1 else sigPos (sint nRowid) 127 1);
          aHdrBuf = of_nat (nIntBytes + 2) # sqlite4PutVarint64 (23 + 4 * of_nat (length pBlob)) in
      sqlite4PutVarint64 (of_nat (length aHdrBuf)) @ aHdrBuf @ putIntBytes nIntBytes nRowid @ pBlob)"

subsection \<open>Reading and writing\<close>

definition blobSpotCreate :: "(nat \<Rightarrow> u8) \<Rightarrow> u64 \<Rightarrow> int \<Rightarrow> bool \<Rightarrow> BlobSpot option" where
  "blobSpotCreate junk nRowid nBufSize bWritable =
     do { c_assert (nBufSize > 0);
          Some \<lparr>bs_nRowid = nRowid, pBuffer = malloc junk (nat nBufSize), nBufferSize = nBufSize,
                isWritable = bWritable, isInitialized = False, isAborted = False\<rparr> }"

text \<open>The jump to \<open>abort\<close>.\<close>

definition reloadAbort :: "int \<Rightarrow> 'c DiskAnnIndex \<Rightarrow> 's \<Rightarrow> BlobSpot \<Rightarrow> int \<times> 'c DiskAnnIndex \<times> 's \<times> BlobSpot" where
  "reloadAbort rc ix s sp =
     (if rc = SQLITE4_OK then SQLITE4_ERROR else rc, ix, s, sp\<lparr>isAborted := True, isInitialized := False\<rparr>)"

definition blobSpotReload ::
  "('s, 'c) KVStoreMethods \<Rightarrow> 'c DiskAnnIndex \<Rightarrow> 's \<Rightarrow> BlobSpot \<Rightarrow> u64 \<Rightarrow> int
     \<Rightarrow> (int \<times> 'c DiskAnnIndex \<times> 's \<times> BlobSpot) option" where
  "blobSpotReload m ix s sp nRowid nBufSize =
     do { c_assert (nBufferSize sp = nBufSize);
          if bs_nRowid sp = nRowid \<and> isInitialized sp then Some (SQLITE4_OK, ix, s, sp)
          else do {
            let sp = (if isAborted sp then sp\<lparr>isAborted := False, isInitialized := False\<rparr> else sp);
            let sp = sp\<lparr>bs_nRowid := nRowid, isInitialized := False\<rparr>;
            let aKey = blobSpotBuildKey ix nRowid;
            let (rc, s, c) = (case pReadCsr ix of
                 None \<Rightarrow> sqlite4KVStoreOpenCursor m s
               | Some c \<Rightarrow> (SQLITE4_OK, s, c));
            let ix = ix\<lparr>pReadCsr := Some c\<rparr>;
            if rc \<noteq> SQLITE4_OK then Some (reloadAbort rc ix s sp)
            else do {
              (rc, c) \<leftarrow> sqlite4KVCursorSeek m s c aKey 0;
              let ix = ix\<lparr>pReadCsr := Some c\<rparr>;
              if rc = SQLITE4_NOTFOUND \<or> rc = SQLITE4_INEXACT then Some (DISKANN_ROW_NOT_FOUND, ix, s, sp)
              else if rc \<noteq> SQLITE4_OK then Some (reloadAbort rc ix s sp)
              else do {
                let (rc, pData) = sqlite4KVCursorData m s c;
                if rc \<noteq> SQLITE4_OK then Some (reloadAbort rc ix s sp)
                else case blobSpotDecodeRecord pData of
                  None \<Rightarrow> Some (reloadAbort SQLITE4_ERROR ix s sp)
                | Some (off, nBlob) \<Rightarrow>
                    if nBlob < nBufSize then Some (reloadAbort SQLITE4_ERROR ix s sp)
                    else do {
                      o1 \<leftarrow> mem_at off; n \<leftarrow> mem_at nBufSize;
                      bs \<leftarrow> memget pData o1 n;
                      p \<leftarrow> memput (pBuffer sp) 0 bs;
                      Some (SQLITE4_OK, ix\<lparr>nReads := nReads ix + 1\<rparr>, s,
                            sp\<lparr>pBuffer := p, isInitialized := True\<rparr>) } } } } }"

definition blobSpotFlush ::
  "('s, 'c) KVStoreMethods \<Rightarrow> 'c DiskAnnIndex \<Rightarrow> 's \<Rightarrow> BlobSpot \<Rightarrow> (int \<times> 'c DiskAnnIndex \<times> 's) option" where
  "blobSpotFlush m ix s sp =
     do { n \<leftarrow> mem_at (nBufferSize sp);
          blob \<leftarrow> memget (pBuffer sp) 0 n;
          (rc, s) \<leftarrow> sqlite4KVStoreReplace m s (blobSpotBuildKey ix (bs_nRowid sp))
                      (blobSpotEncodeRecord (bs_nRowid sp) blob);
          Some (if rc \<noteq> SQLITE4_OK then (rc, ix, s) else (SQLITE4_OK, ix\<lparr>nWrites := nWrites ix + 1\<rparr>, s)) }"

subsection \<open>The record of a row\<close>

lemma to_from_int64: "sqlite4_num_to_int64 (sqlite4_num_from_int64 v) = (v, 0)"
proof -
  let ?m = "n_m (sqlite4_num_from_int64 v)"
  have b: "- (2 ^ 63) \<le> sint v" "sint v < 2 ^ 63" using sint_greater_eq [of v] sint_less [of v] by simp_all
  have u: "int (unat ?m) = \<bar>sint v\<bar>" using from_int64_abs [of v] by simp
  have m: "?m = (if sint v < 0 then - v else v)" by (rule from_int64_fields)
  have "\<not> ?m > LARGEST_INT64 + 1" if "sint v < 0"
  proof -
    have "int (unat ?m) \<le> int (2 ^ 63)" unfolding u using b that by simp
    then have "unat ?m \<le> 2 ^ 63" by (simp only: of_nat_le_iff)
    then show ?thesis by (simp add: LARGEST_INT64_def word_less_nat_alt)
  qed
  moreover have "\<not> ?m > LARGEST_INT64" if "\<not> sint v < 0"
  proof -
    have "int (unat ?m) < int (2 ^ 63)" unfolding u using b that by simp
    then have "unat ?m < 2 ^ 63" by (simp only: of_nat_less_iff)
    then show ?thesis by (simp add: LARGEST_INT64_def word_less_nat_alt)
  qed
  ultimately show ?thesis
    by (cases "sint v < 0") (simp_all add: sqlite4_num_to_int64_def from_int64_fields(2-4) m)
qed

lemma encode_record_data:
  "sqlite4VdbeEncodeData encoding [MInt (sqlite4_num_from_int64 v), MBlob blob] = Some (blobSpotEncodeRecord v blob)"
  by (simp add: sqlite4VdbeEncodeData_def headerOf_def payloadOf_def to_from_int64 blobSpotEncodeRecord_def
      significantBytes_def Let_def)

lemma to_i32_nat: "k < 2 ^ 31 \<Longrightarrow> to_i32 (of_nat k) = int k"
  by (simp add: to_i32_def unsigned_of_nat take_bit_nat_eq_self signed_of_nat signed_take_bit_int_eq_self take_bit_int_eq_self)

lemma blob_type:
  assumes "k < 2 ^ 31"
  shows "\<not> (23 + 4 * of_nat k :: u64) < 23" "(23 + 4 * of_nat k :: u64) AND 3 = 3"
    "to_i32 ((23 + 4 * of_nat k - 23) div 4) = int k"
proof -
  have un: "n < 2 ^ 64 \<Longrightarrow> unat (of_nat n :: u64) = n" for n by (simp add: unat_of_nat)
  have k4: "4 * k + 23 < 2 ^ 64" using assms by simp
  have u: "unat (23 + 4 * of_nat k :: u64) = 23 + 4 * k" "unat (4 * of_nat k :: u64) = 4 * k"
    using k4 un [of "23 + 4 * k"] un [of "4 * k"] by simp_all
  show "\<not> (23 + 4 * of_nat k :: u64) < 23" using u by (simp add: word_less_nat_alt)
  have "(23 + 4 * of_nat k :: u64) AND 3 = take_bit 2 (23 + 4 * of_nat k)"
    by (simp add: take_bit_eq_mask mask_eq_exp_minus_1)
  moreover have "unat (take_bit 2 (23 + 4 * of_nat k :: u64)) = 3"
    by (simp only: unsigned_take_bit_eq u) (simp add: take_bit_eq_mod mod_simps)
  ultimately show "(23 + 4 * of_nat k :: u64) AND 3 = 3" by (simp add: word_unat_eq_iff)
  have "(23 + 4 * of_nat k - 23 :: u64) div 4 = of_nat k"
    using k4 by (simp add: word_unat_eq_iff unat_div u unat_of_nat)
  moreover have "to_i32 (of_nat k) = int k"
    using assms by (rule to_i32_nat)
  ultimately show "to_i32 ((23 + 4 * of_nat k - 23) div 4) = int k" by simp
qed

lemma decode_encode_record:
  assumes "length blob < 2 ^ 31"
  shows "\<exists>off. blobSpotDecodeRecord (blobSpotEncodeRecord v blob) = Some (int off, int (length blob)) \<and>
     off + length blob = length (blobSpotEncodeRecord v blob) \<and> drop off (blobSpotEncodeRecord v blob) = blob"
proof -
  let ?n = "significantBytes v" let ?T = "23 + 4 * of_nat (length blob) :: u64"
  let ?P = "sqlite4PutVarint64 ?T" let ?h = "of_nat (?n + 2) # ?P"
  let ?V = "sqlite4PutVarint64 (of_nat (length ?h))" let ?I = "putIntBytes ?n v"
  let ?r = "blobSpotEncodeRecord v blob"
  note f = significantBytes_fits [of v]
  have r: "?r = ?V @ ?h @ ?I @ blob"
    by (simp add: blobSpotEncodeRecord_def significantBytes_def Let_def)
  have I: "length ?I = ?n" using putIntBytes_be [OF f(2)] by simp
  have P9: "length (sqlite4PutVarint64 x) \<le> 9" for x
    by (simp add: sqlite4PutVarint64_def varintWrite32_def Let_def)
  have g1: "sqlite4GetVarint64 ?r = Some (length ?V, of_nat (length ?h))" unfolding r by (rule sqlite4_roundtrip)
  have "sqlite4PutVarint64 (of_nat (?n + 2)) = [of_nat (?n + 2)]" using f(2) by (intro put_small_nat) simp
  then have g2: "sqlite4GetVarint64 (drop (length ?V) ?r) = Some (1, of_nat (?n + 2))"
    using sqlite4_roundtrip [of "of_nat (?n + 2)" "?P @ ?I @ blob"] by (simp add: r)
  have "drop (length ?V + 1) ?r = ?P @ ?I @ blob" by (simp add: r)
  then have g3: "sqlite4GetVarint64 (drop (length ?V + 1) ?r) = Some (length ?P, ?T)"
    by (simp only: sqlite4_roundtrip)
  have h: "to_i32 (of_nat (length ?h)) = int (length ?h)"
    using P9 [of ?T] by (intro to_i32_nat) simp
  have t: "of_nat (?n + 2) \<noteq> (0 :: u64)" "2 \<le> (of_nat (?n + 2) :: u64)" "(of_nat (?n + 2) :: u64) \<le> 10"
    "unat (of_nat (?n + 2) - 2 :: u64) = ?n"
    using f(1,2) small_type(2-6) [of "?n + 2"] by (auto simp: word_le_nat_alt unat_of_nat)
  let ?off = "length ?V + length ?h + ?n"
  have "blobSpotDecodeRecord ?r = Some (int ?off, int (length blob))"
    unfolding blobSpotDecodeRecord_def g1 bind.bind_lunit prod.case h Let_def g2 g3
    using t blob_type [OF assms] I by (simp add: r)
  moreover have "?off + length blob = length ?r" "drop ?off ?r = blob" using I by (simp_all add: r)
  ultimately show ?thesis by blast
qed

lemma key_inj: "blobSpotBuildKey ix v = blobSpotBuildKey ix w \<longleftrightarrow> v = w"
proof
  assume "blobSpotBuildKey ix v = blobSpotBuildKey ix w"
  then have "num_same (sqlite4_num_from_int64 v) (sqlite4_num_from_int64 w)"
    by (simp add: blobSpotBuildKey_def sqlite4VdbeEncodeIntKey_def key_iff)
  then have "real_of_int (sint v) = real_of_int (sint w)"
    by (simp only: num_same_def from_int64_class from_int64_val)
  then have "sint v = sint w" by (simp only: of_int_eq_iff)
  then show "v = w" by (rule signed_word_eqI)
qed simp

subsection \<open>The blocks in a store\<close>

text \<open>
  The blocks of an index among the contents of a store, by row id; and that everything under
  its prefix is the record of a block.
\<close>

definition node_table :: "'c DiskAnnIndex \<Rightarrow> (bytes \<times> bytes) list \<Rightarrow> u64 \<Rightarrow> bytes option" where
  "node_table ix kvs r =
     map_option (\<lambda>v. drop (length v - nat (nBlockSize ix)) v) (map_of kvs (blobSpotBuildKey ix r))"

definition table_ok :: "'c DiskAnnIndex \<Rightarrow> (bytes \<times> bytes) list \<Rightarrow> bool" where
  "table_ok ix kvs \<longleftrightarrow>
     0 < nBlockSize ix \<and> nBlockSize ix < 2 ^ 31 \<and>
     (\<forall>r v. map_of kvs (blobSpotBuildKey ix r) = Some v \<longrightarrow>
        (\<exists>blob. int (length blob) = nBlockSize ix \<and> v = blobSpotEncodeRecord r blob))"

definition spot_sized :: "'c DiskAnnIndex \<Rightarrow> BlobSpot \<Rightarrow> bool" where
  "spot_sized ix sp \<longleftrightarrow> nBufferSize sp = nBlockSize ix \<and> int (length (pBuffer sp)) = nBlockSize ix"

text \<open>
  Reading and writing blobs moves the cursor of the index and counts; nothing else of the
  index changes, and the layout of a block depends on the rest only.
\<close>

definition base_index :: "'c DiskAnnIndex \<Rightarrow> 'c DiskAnnIndex" where
  "base_index ix = ix\<lparr>pReadCsr := None, nReads := 0, nWrites := 0\<rparr>"

definition same_index :: "'c DiskAnnIndex \<Rightarrow> 'c DiskAnnIndex \<Rightarrow> bool" where
  "same_index ix ix' \<longleftrightarrow> base_index ix = base_index ix'"

lemma same_index_refl [simp]: "same_index ix ix"
  by (simp add: same_index_def)

lemma same_index_trans [trans]: "same_index a b \<Longrightarrow> same_index b c \<Longrightarrow> same_index a c"
  by (simp add: same_index_def)

lemma same_index_sym: "same_index a b \<Longrightarrow> same_index b a"
  by (simp add: same_index_def)

lemma same_index_updates [simp]:
  "same_index ix (ix\<lparr>pReadCsr := c\<rparr>)" "same_index ix (ix\<lparr>nReads := n\<rparr>)" "same_index ix (ix\<lparr>nWrites := n\<rparr>)"
  "same_index ix (ix\<lparr>pReadCsr := c, nReads := n\<rparr>)"
  by (simp_all add: same_index_def base_index_def)

lemma base_index_sel:
  "nFormatVersion (base_index ix) = nFormatVersion ix" "nDistanceFunc (base_index ix) = nDistanceFunc ix"
  "nBlockSize (base_index ix) = nBlockSize ix" "nVectorDims (base_index ix) = nVectorDims ix"
  "nNodeVectorType (base_index ix) = nNodeVectorType ix" "nEdgeVectorType (base_index ix) = nEdgeVectorType ix"
  "nNodeVectorSize (base_index ix) = nNodeVectorSize ix" "nEdgeVectorSize (base_index ix) = nEdgeVectorSize ix"
  "nShadowRows (base_index ix) = nShadowRows ix" "pruningAlpha (base_index ix) = pruningAlpha ix"
  "insertL (base_index ix) = insertL ix" "searchL (base_index ix) = searchL ix"
  "iShadowTnum (base_index ix) = iShadowTnum ix" "aKeyPrefix (base_index ix) = aKeyPrefix ix"
  by (simp_all add: base_index_def)

lemma same_index_sel:
  assumes "same_index ix ix'"
  shows "nFormatVersion ix' = nFormatVersion ix" "nDistanceFunc ix' = nDistanceFunc ix"
    "nBlockSize ix' = nBlockSize ix" "nVectorDims ix' = nVectorDims ix"
    "nNodeVectorType ix' = nNodeVectorType ix" "nEdgeVectorType ix' = nEdgeVectorType ix"
    "nNodeVectorSize ix' = nNodeVectorSize ix" "nEdgeVectorSize ix' = nEdgeVectorSize ix"
    "nShadowRows ix' = nShadowRows ix" "pruningAlpha ix' = pruningAlpha ix"
    "insertL ix' = insertL ix" "searchL ix' = searchL ix"
    "iShadowTnum ix' = iShadowTnum ix" "aKeyPrefix ix' = aKeyPrefix ix"
  using assms unfolding same_index_def by (metis base_index_sel)+

lemma same_index_layout:
  assumes "same_index ix ix'"
  shows "index_ok ix' = index_ok ix" "max_edges ix' = max_edges ix" "edge_at ix' = edge_at ix"
    "edges ix' = edges ix" "node_vec ix' = node_vec ix" "node_ok ix' = node_ok ix" "spot_sized ix' = spot_sized ix"
    "table_ok ix' = table_ok ix" "node_table ix' = node_table ix" "blobSpotBuildKey ix' = blobSpotBuildKey ix"
proof -
  note s = same_index_sel [OF assms]
  show m: "max_edges ix' = max_edges ix" by (simp add: max_edges_def s)
  have o: "vec_off ix' = vec_off ix" "hdr_size ix' = hdr_size ix" "node_size ix' = node_size ix"
    "edge_size ix' = edge_size ix" "meta_off ix' = meta_off ix"
    by (auto simp: fun_eq_iff vec_off_def hdr_size_def node_size_def edge_size_def meta_off_def m s)
  show "index_ok ix' = index_ok ix" by (simp add: index_ok_def m s)
  show e: "edge_at ix' = edge_at ix" by (simp add: fun_eq_iff edge_at_def o)
  show "edges ix' = edges ix" by (simp add: fun_eq_iff edges_def e)
  show "node_vec ix' = node_vec ix" by (simp add: fun_eq_iff node_vec_def o)
  show "node_ok ix' = node_ok ix" by (simp add: fun_eq_iff node_ok_def m s)
  show "spot_sized ix' = spot_sized ix" by (simp add: fun_eq_iff spot_sized_def s)
  show k: "blobSpotBuildKey ix' = blobSpotBuildKey ix" by (simp add: fun_eq_iff blobSpotBuildKey_def s)
  show "node_table ix' = node_table ix" by (simp add: fun_eq_iff node_table_def s k)
  show "table_ok ix' = table_ok ix" by (simp add: fun_eq_iff table_ok_def s k)
qed

lemma table_entry:
  assumes "table_ok ix kvs" "node_table ix kvs r = Some b"
  shows "int (length b) = nBlockSize ix" "map_of kvs (blobSpotBuildKey ix r) = Some (blobSpotEncodeRecord r b)"
proof -
  obtain v where v: "map_of kvs (blobSpotBuildKey ix r) = Some v" "b = drop (length v - nat (nBlockSize ix)) v"
    using assms(2) by (auto simp: node_table_def)
  obtain blob where blob: "int (length blob) = nBlockSize ix" "v = blobSpotEncodeRecord r blob"
    using assms(1) v(1) by (auto simp: table_ok_def)
  have "length blob < 2 ^ 31" using blob(1) assms(1) by (simp add: table_ok_def)
  from decode_encode_record [OF this, of r] obtain off
    where "off + length blob = length v" "drop off v = blob" unfolding blob(2) by metis
  then have "length v - nat (nBlockSize ix) = off" using blob(1) by linarith
  then have "b = blob" using v(2) \<open>drop off v = blob\<close> by simp
  then show "int (length b) = nBlockSize ix" "map_of kvs (blobSpotBuildKey ix r) = Some (blobSpotEncodeRecord r b)"
    using blob v(1) by simp_all
qed

lemma node_table_None: "node_table ix kvs r = None \<longleftrightarrow> map_of kvs (blobSpotBuildKey ix r) = None"
  by (simp add: node_table_def)

lemma table_put:
  assumes "table_ok ix kvs" "sorted_keys kvs" "int (length b) = nBlockSize ix"
  shows "table_ok ix (kv_put (blobSpotBuildKey ix r) (blobSpotEncodeRecord r b) kvs)"
    "node_table ix (kv_put (blobSpotBuildKey ix r) (blobSpotEncodeRecord r b) kvs) = (node_table ix kvs)(r \<mapsto> b)"
proof -
  let ?kvs = "kv_put (blobSpotBuildKey ix r) (blobSpotEncodeRecord r b) kvs"
  show t: "table_ok ix ?kvs"
    using assms by (auto simp: table_ok_def key_inj)
  have "node_table ix ?kvs r = Some b"
  proof -
    have "length b < 2 ^ 31" using assms(1,3) by (simp add: table_ok_def)
    then obtain off where "off + length b = length (blobSpotEncodeRecord r b)" "drop off (blobSpotEncodeRecord r b) = b"
      using decode_encode_record by metis
    moreover from this have "length (blobSpotEncodeRecord r b) - nat (nBlockSize ix) = off" using assms(3) by linarith
    ultimately show ?thesis using assms(2) by (simp add: node_table_def)
  qed
  then show "node_table ix ?kvs = (node_table ix kvs)(r \<mapsto> b)"
    using assms(2) by (auto simp: fun_eq_iff node_table_def key_inj)
qed

subsection \<open>Reading and writing blocks of any store\<close>

context kv_store
begin

lemma reload_cached:
  assumes "spot_sized ix sp" "bs_nRowid sp = r" "isInitialized sp"
  shows "blobSpotReload m ix s sp r (nBlockSize ix) = Some (SQLITE4_OK, ix, s, sp)"
  using assms by (simp add: blobSpotReload_def spot_sized_def)

lemma reload_fresh:
  assumes "good s" "table_ok ix (contents s)" "spot_sized ix sp" "\<not> (bs_nRowid sp = r \<and> isInitialized sp)"
  shows "\<exists>ix' s'. same_index ix ix' \<and> good s' \<and> contents s' = contents s \<and>
    blobSpotReload m ix s sp r (nBlockSize ix) =
      Some (case node_table ix (contents s) r of
              Some b \<Rightarrow> (SQLITE4_OK, ix', s',
                 sp\<lparr>bs_nRowid := r, pBuffer := b, isInitialized := True, isAborted := False\<rparr>)
            | None \<Rightarrow> (DISKANN_ROW_NOT_FOUND, ix', s',
                 sp\<lparr>bs_nRowid := r, isInitialized := False, isAborted := False\<rparr>))"
proof -
  let ?k = "blobSpotBuildKey ix r"
  obtain s1 c where o: "(case pReadCsr ix of None \<Rightarrow> sqlite4KVStoreOpenCursor m s
                         | Some c \<Rightarrow> (SQLITE4_OK, s, c)) = (SQLITE4_OK, s1, c)" "good s1" "contents s1 = contents s"
    using open_cursor [OF assms(1)] assms(1) by (cases "pReadCsr ix") (auto simp: sqlite4KVStoreOpenCursor_def)
  obtain rc c2 where k: "xSeek m s1 c ?k 0 = Some (rc, c2)"
    "case map_of (contents s) ?k of
         Some v \<Rightarrow> rc = SQLITE4_OK \<and> xKey m s1 c2 = (SQLITE4_OK, ?k) \<and> xData m s1 c2 = (SQLITE4_OK, v)
       | None \<Rightarrow> rc = SQLITE4_NOTFOUND \<or> rc = SQLITE4_INEXACT"
    using seek_exact [OF o(2), of c ?k] o(3) by metis
  define sp1 where "sp1 = sp\<lparr>bs_nRowid := r, isInitialized := False, isAborted := False\<rparr>"
  have sp1: "(if isAborted sp then sp\<lparr>isAborted := False, isInitialized := False\<rparr> else sp)
      \<lparr>bs_nRowid := r, isInitialized := False\<rparr> = sp1"
    by (cases sp) (simp add: sp1_def)
  have b: "nBufferSize sp = nBlockSize ix" "int (length (pBuffer sp)) = nBlockSize ix"
    using assms(3) by (simp_all add: spot_sized_def)
  show ?thesis
  proof (cases "node_table ix (contents s) r")
    case None
    then have "map_of (contents s) ?k = None" by (simp add: node_table_None)
    then have rc: "rc = SQLITE4_NOTFOUND \<or> rc = SQLITE4_INEXACT" using k(2) by simp
    have "blobSpotReload m ix s sp r (nBlockSize ix) =
        Some (DISKANN_ROW_NOT_FOUND, ix\<lparr>pReadCsr := Some c2\<rparr>, s1, sp1)"
      using assms(4) rc unfolding blobSpotReload_def o(1) sp1 Let_def
      by (auto simp: b c_assert_def sqlite4KVCursorSeek_def k(1))
    then show ?thesis
      using None o(2,3) by (intro exI [of _ "ix\<lparr>pReadCsr := Some c2\<rparr>"] exI [of _ s1]) (simp add: sp1_def)
  next
    case (Some blob)
    note e = table_entry [OF assms(2) Some]
    have rc: "rc = SQLITE4_OK" "xData m s1 c2 = (SQLITE4_OK, blobSpotEncodeRecord r blob)"
      using k(2) e(2) by simp_all
    have small: "length blob < 2 ^ 31" using e(1) assms(2) by (simp add: table_ok_def)
    obtain off where off: "blobSpotDecodeRecord (blobSpotEncodeRecord r blob) = Some (int off, int (length blob))"
      "off + length blob = length (blobSpotEncodeRecord r blob)" "drop off (blobSpotEncodeRecord r blob) = blob"
      using decode_encode_record [OF small] by metis
    have g: "memget (blobSpotEncodeRecord r blob) off (length blob) = Some blob"
      using off(2,3) by (simp add: memget_def)
    have p: "memput (pBuffer sp1) 0 blob = Some blob" using b(2) e(1) by (simp add: memput_def sp1_def)
    have "blobSpotReload m ix s sp r (nBlockSize ix) =
        Some (SQLITE4_OK, ix\<lparr>pReadCsr := Some c2, nReads := nReads ix + 1\<rparr>, s1,
              sp1\<lparr>pBuffer := blob, isInitialized := True\<rparr>)"
      using assms(4) unfolding blobSpotReload_def o(1) sp1 Let_def
      by (auto simp: b c_assert_def sqlite4KVCursorSeek_def sqlite4KVCursorData_def k(1) rc off(1) g p
          simp flip: e(1))
    then show ?thesis
      using Some o(2,3)
      by (intro exI [of _ "ix\<lparr>pReadCsr := Some c2, nReads := nReads ix + 1\<rparr>"] exI [of _ s1]) (simp add: sp1_def)
  qed
qed

lemma flush_ok:
  assumes "good s" "table_ok ix (contents s)" "spot_sized ix sp"
  shows "\<exists>ix' s'. blobSpotFlush m ix s sp = Some (SQLITE4_OK, ix', s') \<and> same_index ix ix' \<and> good s' \<and>
    table_ok ix (contents s') \<and>
    node_table ix (contents s') = (node_table ix (contents s))(bs_nRowid sp \<mapsto> pBuffer sp)"
proof -
  let ?p = "pBuffer sp" and ?r = "bs_nRowid sp"
  have b: "nBufferSize sp = nBlockSize ix" "int (length ?p) = nBlockSize ix"
    using assms(3) by (simp_all add: spot_sized_def)
  obtain s' where s': "xReplace m s (blobSpotBuildKey ix ?r) (blobSpotEncodeRecord ?r ?p) = Some (SQLITE4_OK, s')"
    "good s'" "contents s' = kv_put (blobSpotBuildKey ix ?r) (blobSpotEncodeRecord ?r ?p) (contents s)"
    using replace [OF assms(1)] by blast
  have g: "memget ?p 0 (length ?p) = Some ?p" by (simp add: memget_def)
  have "blobSpotFlush m ix s sp = Some (SQLITE4_OK, ix\<lparr>nWrites := nWrites ix + 1\<rparr>, s')"
    using s'(1) g by (simp add: blobSpotFlush_def b(1) sqlite4KVStoreReplace_def flip: b(2))
  then show ?thesis
    using s' table_put [OF assms(2) sorted [OF assms(1)] b(2)]
    by (intro exI [of _ "ix\<lparr>nWrites := nWrites ix + 1\<rparr>"] exI [of _ s']) simp
qed

end

lemma length_encode_record: "length (blobSpotEncodeRecord v blob) \<le> length blob + 27"
proof -
  have P: "length (sqlite4PutVarint64 x) \<le> 9" for x
    by (simp add: sqlite4PutVarint64_def varintWrite32_def Let_def)
  have "length (putIntBytes (significantBytes v) v) \<le> 8"
    using putIntBytes_be [of "significantBytes v" v] significantBytes_fits(2) [of v] by simp
  moreover have "sqlite4PutVarint64 (of_nat k) = [of_nat k]" if "k \<le> 240" for k using that by (rule put_small_nat)
  ultimately show ?thesis
    using P [of "23 + 4 * of_nat (length blob)"]
    by (simp add: blobSpotEncodeRecord_def Let_def flip: significantBytes_def of_nat_Suc)
qed

lemma blob_columns:
  assumes "length blob < 2 ^ 30" "1 \<le> mxCol"
  shows "sqlite4VdbeDecoderGetColumn iLimit mxCol (Some (blobSpotEncodeRecord v blob)) aKey d 0 =
      Some (0, MInt (sqlite4_num_from_int64 v))"
    "sqlite4VdbeDecoderGetColumn iLimit mxCol (Some (blobSpotEncodeRecord v blob)) aKey d 1 =
      Some (0, if length blob \<le> iLimit then MBlob blob else MNull)"
proof -
  have "length (blobSpotEncodeRecord v blob) < 2 ^ 31" using length_encode_record [of v blob] assms(1) by simp
  note g = getColumn_stored [OF encode_record_data [of 1 v blob] _ this]
  show "sqlite4VdbeDecoderGetColumn iLimit mxCol (Some (blobSpotEncodeRecord v blob)) aKey d 0 =
      Some (0, MInt (sqlite4_num_from_int64 v))"
    "sqlite4VdbeDecoderGetColumn iLimit mxCol (Some (blobSpotEncodeRecord v blob)) aKey d 1 =
      Some (0, if length blob \<le> iLimit then MBlob blob else MNull)"
    using g [of 0 mxCol iLimit aKey d] g [of 1 mxCol iLimit aKey d] assms(2)
    by (simp_all add: readback_def cell_length_def stored_def to_from_int64)
qed

subsection \<open>Properties\<close>

text \<open>
  C19. The record the vector index writes behind SQL's back is the record SQL would have
  written: encoding the row id and the blob gives the bytes of \<open>sqlite4VdbeEncodeData\<close>, SQL's
  decoder reads the row id from it and, if the blob is not longer than the limit
  \<open>SQLITE4_LIMIT_LENGTH\<close> of the connection, the blob; a longer blob reads as \<open>NULL\<close>, with no
  error. The index's own decoder, which does not look at the limit, finds the blob where it is.
\<close>

theorem blob_record_equivalence:
  assumes "length blob < 2 ^ 30" "1 \<le> mxCol"
  shows "sqlite4VdbeEncodeData encoding [MInt (sqlite4_num_from_int64 v), MBlob blob] = Some (blobSpotEncodeRecord v blob) \<and>
    sqlite4VdbeDecoderGetColumn iLimit mxCol (Some (blobSpotEncodeRecord v blob)) aKey pDefault 0 =
      Some (0, MInt (sqlite4_num_from_int64 v)) \<and>
    sqlite4VdbeDecoderGetColumn iLimit mxCol (Some (blobSpotEncodeRecord v blob)) aKey pDefault 1 =
      Some (0, if length blob \<le> iLimit then MBlob blob else MNull) \<and>
    (\<exists>off. blobSpotDecodeRecord (blobSpotEncodeRecord v blob) = Some (int off, int (length blob)) \<and>
       memget (blobSpotEncodeRecord v blob) off (length blob) = Some blob)"
proof -
  have "length blob < 2 ^ 31" using assms(1) by simp
  from decode_encode_record [OF this, of v] obtain off where
    "blobSpotDecodeRecord (blobSpotEncodeRecord v blob) = Some (int off, int (length blob))"
    "off + length blob = length (blobSpotEncodeRecord v blob)" "drop off (blobSpotEncodeRecord v blob) = blob" by blast
  then have "memget (blobSpotEncodeRecord v blob) off (length blob) = Some blob" by (simp add: memget_def)
  then show ?thesis
    using encode_record_data [of encoding v blob] blob_columns [OF assms] \<open>blobSpotDecodeRecord _ = _\<close> by blast
qed

lemma blob_record_equivalence_witness:
  "sqlite4VdbeEncodeData 1 [MInt (sqlite4_num_from_int64 300), MBlob [1, 2, 3]] = Some (blobSpotEncodeRecord 300 [1, 2, 3]) \<and>
   blobSpotEncodeRecord 300 [1, 2, 3] = [2, 4, 35, 1, 44, 1, 2, 3] \<and>
   sqlite4VdbeDecoderGetColumn 1000000000 2 (Some (blobSpotEncodeRecord 300 [1, 2, 3])) [] None 1 = Some (0, MBlob [1, 2, 3])"
proof -
  have "blobSpotEncodeRecord 300 [1, 2, 3] = [2, 4, 35, 1, 44, 1, 2, 3]" by code_simp
  then show ?thesis using blob_record_equivalence [of "[1, 2, 3]" 2 1 300 1000000000 "[]" None] by simp
qed

text \<open>
  C14. Blocks survive in the store: after a block is flushed, reading its row id into another
  blob gives its bytes, and reading any other row id gives what it gave before - the block that
  was there, or the answer that there is no such row. Shown for the in-memory engine, from the
  contract of a store alone.
\<close>

theorem blob_spot_roundtrip:
  assumes "kvmem_good s" "table_ok ix (kvmem_contents s)" "spot_sized ix sp"
    and "spot_sized ix sp2" "\<not> isInitialized sp2"
  shows "\<exists>ix1 s1. blobSpotFlush kvmemMethods ix s sp = Some (SQLITE4_OK, ix1, s1) \<and>
    kvmem_good s1 \<and> table_ok ix (kvmem_contents s1) \<and>
    (\<forall>r. \<exists>rc ix2 s2 sp3. blobSpotReload kvmemMethods ix1 s1 sp2 r (nBlockSize ix) = Some (rc, ix2, s2, sp3) \<and>
       kvmem_contents s2 = kvmem_contents s1 \<and>
       (case (if r = bs_nRowid sp then Some (pBuffer sp) else node_table ix (kvmem_contents s) r) of
          Some b \<Rightarrow> rc = SQLITE4_OK \<and> pBuffer sp3 = b \<and> bs_nRowid sp3 = r \<and> isInitialized sp3
        | None \<Rightarrow> rc = DISKANN_ROW_NOT_FOUND \<and> \<not> isInitialized sp3))"
proof -
  obtain ix1 s1 where f: "blobSpotFlush kvmemMethods ix s sp = Some (SQLITE4_OK, ix1, s1)" "same_index ix ix1"
    "kvmem_good s1" "table_ok ix (kvmem_contents s1)"
    "node_table ix (kvmem_contents s1) = (node_table ix (kvmem_contents s))(bs_nRowid sp \<mapsto> pBuffer sp)"
    using kvmem.flush_ok [OF assms(1-3)] by blast
  note l = same_index_layout [OF f(2)] and n = same_index_sel(3) [OF f(2)]
  have "\<exists>rc ix2 s2 sp3. blobSpotReload kvmemMethods ix1 s1 sp2 r (nBlockSize ix) = Some (rc, ix2, s2, sp3) \<and>
       kvmem_contents s2 = kvmem_contents s1 \<and>
       (case (if r = bs_nRowid sp then Some (pBuffer sp) else node_table ix (kvmem_contents s) r) of
          Some b \<Rightarrow> rc = SQLITE4_OK \<and> pBuffer sp3 = b \<and> bs_nRowid sp3 = r \<and> isInitialized sp3
        | None \<Rightarrow> rc = DISKANN_ROW_NOT_FOUND \<and> \<not> isInitialized sp3)" for r
    using kvmem.reload_fresh [of s1 ix1 sp2 r] f assms(4,5)
    by (force simp: l n split: option.splits)
  then show ?thesis using f by blast
qed


definition kv_index :: "KVMemCursor DiskAnnIndex" where
  "kv_index = \<lparr>nFormatVersion = 3, nDistanceFunc = 2, nBlockSize = 60, nVectorDims = 1,
     nNodeVectorType = FLOAT32, nEdgeVectorType = FLOAT32, nNodeVectorSize = 4, nEdgeVectorSize = 4,
     nShadowRows = 0, pruningAlpha = 0x3F99999A, insertL = 70, searchL = 200, iShadowTnum = 5,
     aKeyPrefix = [5], pReadCsr = None, nReads = 0, nWrites = 0\<rparr>"

definition kv_begun :: KVMem where
  "kv_begun = the (exec_run [OpBegin 2] (sqlite4KVStoreOpenMem 0))"

lemma kv_begun: "kvmem_good kv_begun" "kvmem_contents kv_begun = []"
proof -
  have e: "exec_run [OpBegin 2] (sqlite4KVStoreOpenMem 0) = Some kv_begun" by code_simp
  have "spec_run [OpBegin 2] (0, [], []) = Some (2, [], [[]])" by code_simp
  then have "refines kv_begun (2, [], [[]])" using exec_run_refines [OF refines_open _ e] by simp
  then show "kvmem_good kv_begun" by (auto simp: kvmem_good_def)
  show "kvmem_contents kv_begun = []" by code_simp
qed

lemma blob_spot_roundtrip_witness:
  "\<exists>ix1 s1. blobSpotFlush kvmemMethods kv_index kv_begun ex_block = Some (SQLITE4_OK, ix1, s1) \<and>
    (\<exists>rc ix2 s2 sp3. blobSpotReload kvmemMethods ix1 s1 ex_block 8 60 = Some (rc, ix2, s2, sp3) \<and> rc = DISKANN_ROW_NOT_FOUND)"
proof -
  have n: "nBlockSize kv_index = 60" by (simp add: kv_index_def)
  have t: "table_ok kv_index (kvmem_contents kv_begun)"
    "spot_sized kv_index ex_block" "\<not> isInitialized ex_block" "bs_nRowid ex_block = 7"
    "node_table kv_index [] 8 = None"
    by (simp_all add: table_ok_def kv_begun(2) n spot_sized_def) (simp_all add: ex_block_def node_table_def)
  obtain ix1 s1 where f: "blobSpotFlush kvmemMethods kv_index kv_begun ex_block = Some (SQLITE4_OK, ix1, s1)"
    "\<forall>r. \<exists>rc ix2 s2 sp3. blobSpotReload kvmemMethods ix1 s1 ex_block r 60 = Some (rc, ix2, s2, sp3) \<and>
       kvmem_contents s2 = kvmem_contents s1 \<and>
       (case (if r = bs_nRowid ex_block then Some (pBuffer ex_block)
              else node_table kv_index (kvmem_contents kv_begun) r) of
          Some b \<Rightarrow> rc = SQLITE4_OK \<and> pBuffer sp3 = b \<and> bs_nRowid sp3 = r \<and> isInitialized sp3
        | None \<Rightarrow> rc = DISKANN_ROW_NOT_FOUND \<and> \<not> isInitialized sp3)"
    using blob_spot_roundtrip [OF kv_begun(1) t(1,2,2,3), unfolded n] by blast
  from f(2) [rule_format, of 8] show ?thesis using f(1) t(4,5) kv_begun(2) by auto
qed

end
