(* ===== verification/DiskSearch.thy ===== *)
theory DiskSearch
  imports BlobSpot
begin

unbundle bit_operations_syntax

text \<open>
  The greedy search of \<open>vectordiskann.c\<close>: pairs of an exact and a compressed vector, bounded
  sorted buffers, the search context with its nodes on the heap, and the search loop over the
  graph in the store. A node is an index into a list of cells, a freed cell is \<open>None\<close>, and any
  use of a freed node, a failed \<open>assert\<close> or a loop that does not end is \<open>None\<close> as a result.
  Timing, counters and messages are left out; allocation succeeds.
\<close>

subsection \<open>Pairs of vectors\<close>

record VectorPair =
  vp_nodeType :: vector_type
  vp_edgeType :: vector_type
  vp_pNode :: "vector option"
  vp_pEdge :: "vector option"

definition initVectorPair :: "(nat \<Rightarrow> u8) \<Rightarrow> vector_type \<Rightarrow> vector_type \<Rightarrow> nat \<Rightarrow> VectorPair" where
  "initVectorPair junk nodeType edgeType dims =
     \<lparr>vp_nodeType = nodeType, vp_edgeType = edgeType, vp_pNode = None,
      vp_pEdge = (if nodeType = edgeType then None else Some (vectorAlloc junk edgeType dims))\<rparr>"

definition loadVectorPair :: "VectorPair \<Rightarrow> vector \<Rightarrow> VectorPair option" where
  "loadVectorPair pPair pVector =
     (if vp_edgeType pPair \<noteq> vp_nodeType pPair
      then do { e \<leftarrow> vp_pEdge pPair; e \<leftarrow> vectorConvert pVector e;
                Some (pPair\<lparr>vp_pNode := Some pVector, vp_pEdge := Some e\<rparr>) }
      else Some (pPair\<lparr>vp_pNode := Some pVector, vp_pEdge := Some pVector\<rparr>))"

subsection \<open>Bounded buffers\<close>

text \<open>The first position with a larger distance, the end if there is room, or \<open>None\<close> for -1.\<close>

fun firstGreater :: "f32 \<Rightarrow> f32 list \<Rightarrow> nat option" where
  "firstGreater d [] = None"
| "firstGreater d (a # as) = (if f32_lt d a then Some 0 else map_option Suc (firstGreater d as))"

text \<open>
  The assertions of a \<open>SQLITE4_DEBUG\<close> build are part of the model: here the loop that asserts that
  the distances are sorted, \<open>aDistances[i] <= aDistances[i + 1]\<close>, which a NaN fails.
\<close>

definition distanceBufferInsertIdx :: "f32 list \<Rightarrow> nat \<Rightarrow> f32 \<Rightarrow> nat option option" where
  "distanceBufferInsertIdx aDistances nMaxSize distance =
     do { c_assert (successively f32_le aDistances);
          Some (case firstGreater distance aDistances of
                  Some i \<Rightarrow> Some i
                | None \<Rightarrow> if length aDistances < nMaxSize then Some (length aDistances) else None) }"

text \<open>The buffer after the insertion and the item that fell off its end.\<close>

definition bufferInsert :: "'a list \<Rightarrow> nat \<Rightarrow> nat \<Rightarrow> 'a \<Rightarrow> ('a list \<times> 'a option) option" where
  "bufferInsert aBuffer nMaxSize iInsert pItem =
     do { c_assert (nMaxSize > 0);
          c_assert (length aBuffer \<le> nMaxSize);
          c_assert (iInsert \<le> length aBuffer \<and> iInsert < nMaxSize);
          let (b, l) = (if length aBuffer = nMaxSize then (butlast aBuffer, Some (last aBuffer)) else (aBuffer, None));
          Some (take iInsert b @ pItem # drop iInsert b, l) }"

definition bufferDelete :: "'a list \<Rightarrow> nat \<Rightarrow> 'a list option" where
  "bufferDelete aBuffer iDelete =
     do { c_assert (iDelete < length aBuffer);
          Some (take iDelete aBuffer @ drop (iDelete + 1) aBuffer) }"

subsection \<open>Distances\<close>

abbreviation (input) VECTOR_METRIC_TYPE_COS :: int where "VECTOR_METRIC_TYPE_COS \<equiv> 1"
abbreviation (input) VECTOR_METRIC_TYPE_L2 :: int where "VECTOR_METRIC_TYPE_L2 \<equiv> 2"

definition diskAnnVectorDistance :: "'c DiskAnnIndex \<Rightarrow> vector \<Rightarrow> vector \<Rightarrow> f32 option" where
  "diskAnnVectorDistance ix v1 v2 =
     (if nDistanceFunc ix = VECTOR_METRIC_TYPE_COS then vectorDistanceCos v1 v2
      else if nDistanceFunc ix = VECTOR_METRIC_TYPE_L2 then vectorDistanceL2 v1 v2
      else None)"

subsection \<open>Nodes and the search context\<close>

record DiskAnnNode =
  dn_nRowid :: u64
  dn_visited :: bool
  dn_pBlobSpot :: "BlobSpot option"

record DiskAnnSearchCtx =
  heap :: "DiskAnnNode option list"
  query :: VectorPair
  aCandidates :: "nat list"
  aDistances :: "f32 list"
  maxCandidates :: nat
  aTopCandidates :: "nat list"
  aTopDistances :: "f32 list"
  maxTopCandidates :: nat
  visitedList :: "nat list"
  nUnvisited :: u32
  blobMode :: bool
  ctxBuffers :: bool

definition node_at :: "DiskAnnSearchCtx \<Rightarrow> nat \<Rightarrow> DiskAnnNode option" where
  "node_at ctx p = (if p < length (heap ctx) then heap ctx ! p else None)"

definition node_put :: "DiskAnnSearchCtx \<Rightarrow> nat \<Rightarrow> DiskAnnNode \<Rightarrow> DiskAnnSearchCtx" where
  "node_put ctx p n = ctx\<lparr>heap := (heap ctx)[p := Some n]\<rparr>"

definition diskAnnNodeAlloc :: "DiskAnnSearchCtx \<Rightarrow> u64 \<Rightarrow> nat \<times> DiskAnnSearchCtx" where
  "diskAnnNodeAlloc ctx nRowid =
     (length (heap ctx),
      ctx\<lparr>heap := heap ctx @ [Some \<lparr>dn_nRowid = nRowid, dn_visited = False, dn_pBlobSpot = None\<rparr>]\<rparr>)"

definition diskAnnNodeFree :: "DiskAnnSearchCtx \<Rightarrow> nat \<Rightarrow> DiskAnnSearchCtx option" where
  "diskAnnNodeFree ctx p = do { n \<leftarrow> node_at ctx p; Some (ctx\<lparr>heap := (heap ctx)[p := None]\<rparr>) }"

abbreviation (input) DISKANN_BLOB_WRITABLE :: bool where "DISKANN_BLOB_WRITABLE \<equiv> True"
abbreviation (input) DISKANN_BLOB_READONLY :: bool where "DISKANN_BLOB_READONLY \<equiv> False"

text \<open>
  \<open>sqlite4_malloc\<close> gives no memory for zero bytes; a size is cut to an \<open>int\<close>, so a larger one is
  undefined here. \<open>ctxBuffers\<close> says that the four buffers are allocated.
\<close>

definition sqlite4Malloc :: "nat \<Rightarrow> bool" where
  "sqlite4Malloc n \<longleftrightarrow> 0 < n \<and> n < 0x7fffff00"

definition diskAnnSearchCtxInit ::
  "(nat \<Rightarrow> u8) \<Rightarrow> 'c DiskAnnIndex \<Rightarrow> vector \<Rightarrow> nat \<Rightarrow> nat \<Rightarrow> bool \<Rightarrow> (int \<times> DiskAnnSearchCtx) option" where
  "diskAnnSearchCtxInit junk ix pQuery maxCand topCand mode =
     do { q \<leftarrow> loadVectorPair (initVectorPair junk (nNodeVectorType ix) (nEdgeVectorType ix) (nVectorDims ix)) pQuery;
          c_assert (maxCand * 8 < 2 ^ 31 \<and> topCand * 8 < 2 ^ 31);
          let ok = (sqlite4Malloc (maxCand * 4) \<and> sqlite4Malloc (maxCand * 8) \<and>
                    sqlite4Malloc (topCand * 4) \<and> sqlite4Malloc (topCand * 8));
          Some (if ok then SQLITE4_OK else SQLITE4_NOMEM,
                \<lparr>heap = [], query = q, aCandidates = [], aDistances = [], maxCandidates = maxCand,
                 aTopCandidates = [], aTopDistances = [], maxTopCandidates = topCand, visitedList = [],
                 nUnvisited = 0, blobMode = mode, ctxBuffers = ok\<rparr>) }"

text \<open>Free the candidates that were not visited, then the visited list, then the buffers.\<close>

fun freeUnvisited :: "DiskAnnSearchCtx \<Rightarrow> nat list \<Rightarrow> DiskAnnSearchCtx option" where
  "freeUnvisited ctx [] = Some ctx"
| "freeUnvisited ctx (p # ps) =
     do { n \<leftarrow> node_at ctx p;
          ctx \<leftarrow> (if \<not> dn_visited n then diskAnnNodeFree ctx p else Some ctx);
          freeUnvisited ctx ps }"

fun freeAll :: "DiskAnnSearchCtx \<Rightarrow> nat list \<Rightarrow> DiskAnnSearchCtx option" where
  "freeAll ctx [] = Some ctx"
| "freeAll ctx (p # ps) = do { ctx \<leftarrow> diskAnnNodeFree ctx p; freeAll ctx ps }"

definition diskAnnSearchCtxDeinit :: "DiskAnnSearchCtx \<Rightarrow> DiskAnnSearchCtx option" where
  "diskAnnSearchCtxDeinit ctx =
     do { ctx \<leftarrow> freeUnvisited ctx (aCandidates ctx);
          ctx \<leftarrow> freeAll ctx (visitedList ctx);
          c_assert (ctxBuffers ctx);
          Some (ctx\<lparr>ctxBuffers := False\<rparr>) }"

fun anyRowid :: "DiskAnnSearchCtx \<Rightarrow> u64 \<Rightarrow> nat list \<Rightarrow> bool option" where
  "anyRowid ctx nRowid [] = Some False"
| "anyRowid ctx nRowid (p # ps) =
     do { n \<leftarrow> node_at ctx p; if dn_nRowid n = nRowid then Some True else anyRowid ctx nRowid ps }"

definition diskAnnSearchCtxIsVisited :: "DiskAnnSearchCtx \<Rightarrow> u64 \<Rightarrow> bool option" where
  "diskAnnSearchCtxIsVisited ctx nRowid = anyRowid ctx nRowid (visitedList ctx)"

definition diskAnnSearchCtxHasCandidate :: "DiskAnnSearchCtx \<Rightarrow> u64 \<Rightarrow> bool option" where
  "diskAnnSearchCtxHasCandidate ctx nRowid = anyRowid ctx nRowid (aCandidates ctx)"

definition diskAnnSearchCtxShouldAddCandidate :: "DiskAnnSearchCtx \<Rightarrow> f32 \<Rightarrow> nat option" where
  "diskAnnSearchCtxShouldAddCandidate ctx candidateDist =
     (case firstGreater candidateDist (aDistances ctx) of
        Some i \<Rightarrow> Some i
      | None \<Rightarrow> if length (aCandidates ctx) < maxCandidates ctx then Some (length (aCandidates ctx)) else None)"

definition diskAnnSearchCtxMarkVisited :: "DiskAnnSearchCtx \<Rightarrow> nat \<Rightarrow> f32 \<Rightarrow> DiskAnnSearchCtx option" where
  "diskAnnSearchCtxMarkVisited ctx pNode distance =
     do { c_assert (nUnvisited ctx > 0);
          n \<leftarrow> node_at ctx pNode;
          c_assert (\<not> dn_visited n);
          let ctx = node_put ctx pNode (n\<lparr>dn_visited := True\<rparr>);
          let ctx = ctx\<lparr>nUnvisited := nUnvisited ctx - 1, visitedList := pNode # visitedList ctx\<rparr>;
          iInsert \<leftarrow> distanceBufferInsertIdx (aTopDistances ctx) (maxTopCandidates ctx) distance;
          case iInsert of
            None \<Rightarrow> Some ctx
          | Some iInsert \<Rightarrow>
              do { (t, _) \<leftarrow> bufferInsert (aTopCandidates ctx) (maxTopCandidates ctx) iInsert pNode;
                   (d, _) \<leftarrow> bufferInsert (aTopDistances ctx) (maxTopCandidates ctx) iInsert distance;
                   Some (ctx\<lparr>aTopCandidates := t, aTopDistances := d\<rparr>) } }"

definition diskAnnSearchCtxHasUnvisited :: "DiskAnnSearchCtx \<Rightarrow> bool" where
  "diskAnnSearchCtxHasUnvisited ctx = (nUnvisited ctx > 0)"

definition diskAnnSearchCtxGetCandidate :: "DiskAnnSearchCtx \<Rightarrow> nat \<Rightarrow> (nat \<times> f32) option" where
  "diskAnnSearchCtxGetCandidate ctx i =
     do { c_assert (i < length (aCandidates ctx)); c_assert (i < length (aDistances ctx));
          Some (aCandidates ctx ! i, aDistances ctx ! i) }"

definition diskAnnSearchCtxDeleteCandidate :: "DiskAnnSearchCtx \<Rightarrow> nat \<Rightarrow> DiskAnnSearchCtx option" where
  "diskAnnSearchCtxDeleteCandidate ctx iDelete =
     do { c_assert (nUnvisited ctx > 0);
          c_assert (iDelete < length (aCandidates ctx));
          n \<leftarrow> node_at ctx (aCandidates ctx ! iDelete);
          c_assert (\<not> dn_visited n);
          c_assert (dn_pBlobSpot n = None);
          ctx \<leftarrow> diskAnnNodeFree ctx (aCandidates ctx ! iDelete);
          c \<leftarrow> bufferDelete (aCandidates ctx) iDelete;
          d \<leftarrow> bufferDelete (aDistances ctx) iDelete;
          Some (ctx\<lparr>aCandidates := c, aDistances := d, nUnvisited := nUnvisited ctx - 1\<rparr>) }"

definition diskAnnSearchCtxInsertCandidate ::
  "DiskAnnSearchCtx \<Rightarrow> nat \<Rightarrow> nat \<Rightarrow> f32 \<Rightarrow> DiskAnnSearchCtx option" where
  "diskAnnSearchCtxInsertCandidate ctx iInsert pCandidate distance =
     do { (c, pLast) \<leftarrow> bufferInsert (aCandidates ctx) (maxCandidates ctx) iInsert pCandidate;
          (d, _) \<leftarrow> bufferInsert (aDistances ctx) (maxCandidates ctx) iInsert distance;
          let ctx = ctx\<lparr>aCandidates := c, aDistances := d\<rparr>;
          ctx \<leftarrow> (case pLast of
                   None \<Rightarrow> Some ctx
                 | Some l \<Rightarrow>
                     do { n \<leftarrow> node_at ctx l;
                          if \<not> dn_visited n
                          then do { c_assert (dn_pBlobSpot n = None);
                                    diskAnnNodeFree (ctx\<lparr>nUnvisited := nUnvisited ctx - 1\<rparr>) l }
                          else Some ctx });
          Some (ctx\<lparr>nUnvisited := nUnvisited ctx + 1\<rparr>) }"

fun firstUnvisited :: "DiskAnnSearchCtx \<Rightarrow> nat list \<Rightarrow> nat \<Rightarrow> nat option option" where
  "firstUnvisited ctx [] i = Some None"
| "firstUnvisited ctx (p # ps) i =
     do { n \<leftarrow> node_at ctx p; if dn_visited n then firstUnvisited ctx ps (i + 1) else Some (Some i) }"

definition diskAnnSearchCtxFindClosestCandidateIdx :: "DiskAnnSearchCtx \<Rightarrow> nat option option" where
  "diskAnnSearchCtxFindClosestCandidateIdx ctx =
     do { c_assert (successively f32_le (aDistances ctx)); firstUnvisited ctx (aCandidates ctx) 0 }"

subsection \<open>The search\<close>

text \<open>The loop over the edges of the block \<open>sp\<close> of a visited node.\<close>

fun edgesLoop :: "'c DiskAnnIndex \<Rightarrow> BlobSpot \<Rightarrow> nat list \<Rightarrow> DiskAnnSearchCtx \<Rightarrow> DiskAnnSearchCtx option" where
  "edgesLoop ix sp [] ctx = Some ctx"
| "edgesLoop ix sp (i # is) ctx =
     do { edgeRowid \<leftarrow> nodeBinEdgeRowid ix sp (int i);
          edgeVector \<leftarrow> nodeBinEdgeVector ix sp (int i);
          v \<leftarrow> diskAnnSearchCtxIsVisited ctx edgeRowid;
          h \<leftarrow> (if v then Some True else diskAnnSearchCtxHasCandidate ctx edgeRowid);
          if h then edgesLoop ix sp is ctx
          else do {
            q \<leftarrow> vp_pEdge (query ctx);
            edgeDistance \<leftarrow> diskAnnVectorDistance ix q edgeVector;
            case diskAnnSearchCtxShouldAddCandidate ctx edgeDistance of
              None \<Rightarrow> edgesLoop ix sp is ctx
            | Some iInsert \<Rightarrow>
                do { let (p, ctx) = diskAnnNodeAlloc ctx edgeRowid;
                     ctx \<leftarrow> diskAnnSearchCtxInsertCandidate ctx iInsert p edgeDistance;
                     edgesLoop ix sp is ctx } } }"

text \<open>
  The state of the loop: the index (its cursor moves), the store, the context and the blob the
  readers share. One iteration gives the next state or the return code.
\<close>

type_synonym ('s, 'c) search_state = "'c DiskAnnIndex \<times> 's \<times> DiskAnnSearchCtx \<times> BlobSpot option"

text \<open>Load the block of the candidate \<open>p\<close>, into the shared blob or a blob of its own.\<close>

definition loadCandidate ::
  "(nat \<Rightarrow> u8) \<Rightarrow> ('s, 'c) KVStoreMethods \<Rightarrow> ('s, 'c) search_state \<Rightarrow> nat
     \<Rightarrow> (int \<times> BlobSpot \<times> ('s, 'c) search_state) option" where
  "loadCandidate junk m st p =
     (let (ix, s, ctx, reuse) = st in
      do { n \<leftarrow> node_at ctx p;
           case reuse of
             Some sp \<Rightarrow>
               do { (rc, ix, s, sp) \<leftarrow> blobSpotReload m ix s sp (dn_nRowid n) (nBlockSize ix);
                    Some (rc, sp, (ix, s, ctx, Some sp)) }
           | None \<Rightarrow>
               do { sp \<leftarrow> (case dn_pBlobSpot n of
                            Some sp \<Rightarrow> Some sp
                          | None \<Rightarrow> blobSpotCreate junk (dn_nRowid n) (nBlockSize ix) (blobMode ctx));
                    (rc, ix, s, sp) \<leftarrow> blobSpotReload m ix s sp (dn_nRowid n) (nBlockSize ix);
                    Some (rc, sp, (ix, s, node_put ctx p (n\<lparr>dn_pBlobSpot := Some sp\<rparr>), None)) } })"

definition searchStep ::
  "(nat \<Rightarrow> u8) \<Rightarrow> ('s, 'c) KVStoreMethods \<Rightarrow> ('s, 'c) search_state
     \<Rightarrow> (('s, 'c) search_state + int \<times> ('s, 'c) search_state) option" where
  "searchStep junk m st =
     (let (ix, s, ctx, reuse) = st in
      if \<not> diskAnnSearchCtxHasUnvisited ctx then Some (Inr (SQLITE4_OK, st))
      else do {
        ic \<leftarrow> diskAnnSearchCtxFindClosestCandidateIdx ctx;
        iCandidate \<leftarrow> ic;
        (p, distance) \<leftarrow> diskAnnSearchCtxGetCandidate ctx iCandidate;
        (rc, sp, ix, s, ctx, reuse) \<leftarrow> loadCandidate junk m st p;
        if rc = DISKANN_ROW_NOT_FOUND then
          do { ctx \<leftarrow> diskAnnSearchCtxDeleteCandidate ctx iCandidate; Some (Inl (ix, s, ctx, reuse)) }
        else if rc \<noteq> SQLITE4_OK then Some (Inr (rc, (ix, s, ctx, reuse)))
        else do {
          vCandidate \<leftarrow> nodeBinVector ix sp;
          nEdges \<leftarrow> nodeBinEdges ix sp;
          distance \<leftarrow> (if vp_nodeType (query ctx) \<noteq> vp_edgeType (query ctx)
                      then do { q \<leftarrow> vp_pNode (query ctx); diskAnnVectorDistance ix vCandidate q }
                      else Some distance);
          ctx \<leftarrow> diskAnnSearchCtxMarkVisited ctx p distance;
          ctx \<leftarrow> edgesLoop ix sp [0..<unat nEdges] ctx;
          Some (Inl (ix, s, ctx, reuse)) } })"

partial_function (option) searchLoop ::
  "(nat \<Rightarrow> u8) \<Rightarrow> ('s, 'c) KVStoreMethods \<Rightarrow> ('s, 'c) search_state \<Rightarrow> (int \<times> ('s, 'c) search_state) option" where
  "searchLoop junk m st =
     do { r \<leftarrow> searchStep junk m st;
          case r of Inl st \<Rightarrow> searchLoop junk m st | Inr res \<Rightarrow> Some res }"

text \<open>
  Once the start node is a candidate it belongs to the context; before that an error frees it.
  The result leaves the shared blob out, which is freed at the end.
\<close>

definition diskAnnSearchInternal ::
  "(nat \<Rightarrow> u8) \<Rightarrow> ('s, 'c) KVStoreMethods \<Rightarrow> 'c DiskAnnIndex \<Rightarrow> 's \<Rightarrow> DiskAnnSearchCtx \<Rightarrow> u64
     \<Rightarrow> (int \<times> 'c DiskAnnIndex \<times> 's \<times> DiskAnnSearchCtx) option" where
  "diskAnnSearchInternal junk m ix s ctx nStartRowid =
     do { let (start, ctx) = diskAnnNodeAlloc ctx nStartRowid;
          sp \<leftarrow> blobSpotCreate junk nStartRowid (nBlockSize ix) (blobMode ctx);
          (rc, ix, s, sp) \<leftarrow> blobSpotReload m ix s sp nStartRowid (nBlockSize ix);
          if rc \<noteq> SQLITE4_OK then do { ctx \<leftarrow> diskAnnNodeFree ctx start; Some (rc, ix, s, ctx) }
          else do {
            startVector \<leftarrow> nodeBinVector ix sp;
            q \<leftarrow> vp_pNode (query ctx);
            startDistance \<leftarrow> diskAnnVectorDistance ix q startVector;
            n \<leftarrow> node_at ctx start;
            let (ctx, reuse) = (if blobMode ctx = DISKANN_BLOB_READONLY then (ctx, Some sp)
                                else (node_put ctx start (n\<lparr>dn_pBlobSpot := Some sp\<rparr>), None));
            ctx \<leftarrow> diskAnnSearchCtxInsertCandidate ctx 0 start startDistance;
            (rc, ix, s, ctx, reuse) \<leftarrow> searchLoop junk m (ix, s, ctx, reuse);
            Some (rc, ix, s, ctx) } }"

end
