(* ===== verification/BeamSearch.thy ===== *)
theory BeamSearch
  imports SoftFloat "HOL-Library.While_Combinator" "HOL-Library.Multiset"
begin

text \<open>
  What the search of \<open>vectordiskann.c\<close> promises, without heap, counters or store: a beam search
  over a graph of row ids. A row is missing or has the distance of its own vector to the query,
  if that is computed, and its edges, each with a distance to the query. The beam keeps the
  closest candidates seen, expands the closest one not visited, and stops when all of them
  are.
\<close>

type_synonym beam_graph = "u64 \<Rightarrow> (f32 option \<times> (u64 \<times> f32) list) option"

text \<open>Candidates with distance and visited flag, the visited rows (newest first), the best of them.\<close>

record beam =
  bm_cands :: "(u64 \<times> f32 \<times> bool) list"
  bm_log :: "(u64 \<times> f32) list"
  bm_top :: "(u64 \<times> f32) list"

subsection \<open>Bounded sorted lists\<close>

fun insort_dist :: "('a \<Rightarrow> f32) \<Rightarrow> 'a \<Rightarrow> 'a list \<Rightarrow> 'a list" where
  "insort_dist f x [] = [x]"
| "insort_dist f x (y # ys) = (if f32_lt (f x) (f y) then x # y # ys else y # insort_dist f x ys)"

definition keep :: "nat \<Rightarrow> ('a \<Rightarrow> f32) \<Rightarrow> 'a \<Rightarrow> 'a list \<Rightarrow> 'a list" where
  "keep k f x xs = take k (insort_dist f x xs)"

definition by_dist :: "('a \<Rightarrow> f32) \<Rightarrow> 'a list \<Rightarrow> bool" where
  "by_dist f xs = sorted_wrt (\<lambda>x y. f32_le (f x) (f y)) xs"

lemma set_insort_dist [simp]: "set (insort_dist f x xs) = insert x (set xs)"
  by (induction xs) auto

lemma length_insort_dist [simp]: "length (insort_dist f x xs) = Suc (length xs)"
  by (induction xs) auto

lemma mset_insort_dist [simp]: "mset (insort_dist f x xs) = add_mset x (mset xs)"
  by (induction xs) auto

lemma map_insort_dist: "map g (insort_dist (\<lambda>x. f (g x)) x xs) = insort_dist f (g x) (map g xs)"
  by (induction xs) auto

lemma insort_dist_by_dist:
  assumes "by_dist f xs" "\<forall>y \<in> insert x (set xs). \<not> f32_nan (f y)" shows "by_dist f (insort_dist f x xs)"
  using assms
proof (induction xs)
  case (Cons y ys)
  show ?case
  proof (cases "f32_lt (f x) (f y)")
    case True
    then show ?thesis using Cons.prems f32_lt_le [OF True] by (auto simp: by_dist_def intro: f32_le_trans)
  next
    case False
    then have "f32_le (f y) (f x)" using Cons.prems f32_not_lt [of "f x" "f y"] by simp
    moreover have "by_dist f (insort_dist f x ys)" using Cons by (simp add: by_dist_def)
    ultimately show ?thesis using Cons.prems False by (auto simp: by_dist_def)
  qed
qed (simp add: by_dist_def)

lemma by_dist_take: "by_dist f xs \<Longrightarrow> by_dist f (take k xs)"
  by (auto simp: by_dist_def intro: sorted_wrt_take)

text \<open>Inserting at the first larger distance and dropping what exceeds the bound.\<close>

lemma take_insort_take: "take k (insort_dist f x (take k xs)) = take k (insort_dist f x xs)"
proof (induction xs arbitrary: k)
  case (Cons y ys)
  then show ?case by (cases k) (auto simp: take_Cons')
qed simp

lemma insort_dist_cases:
  obtains "insort_dist f x xs = xs @ [x]" "\<forall>y \<in> set xs. \<not> f32_lt (f x) (f y)"
  | i where "i < length xs" "f32_lt (f x) (f (xs ! i))" "\<forall>j < i. \<not> f32_lt (f x) (f (xs ! j))"
      "insort_dist f x xs = take i xs @ x # drop i xs"
proof (induction xs arbitrary: thesis)
  case (Cons y ys)
  show ?case
  proof (cases "f32_lt (f x) (f y)")
    case True
    then show ?thesis using Cons.prems(2) [of 0] by simp
  next
    case False
    show ?thesis
    proof (rule Cons.IH)
      assume "insort_dist f x ys = ys @ [x]" "\<forall>y \<in> set ys. \<not> f32_lt (f x) (f y)"
      then show thesis using False by (intro Cons.prems(1)) auto
    next
      fix i assume "i < length ys" "f32_lt (f x) (f (ys ! i))" "\<forall>j < i. \<not> f32_lt (f x) (f (ys ! j))"
        "insort_dist f x ys = take i ys @ x # drop i ys"
      then show thesis using False by (intro Cons.prems(2) [of "Suc i"]) (auto simp: less_Suc_eq_0_disj)
    qed
  qed
qed simp

definition dist_sort :: "('a \<Rightarrow> f32) \<Rightarrow> 'a list \<Rightarrow> 'a list" where
  "dist_sort f xs = foldr (insort_dist f) xs []"

lemma dist_sort_props:
  "mset (dist_sort f xs) = mset xs"
  "\<forall>x \<in> set xs. \<not> f32_nan (f x) \<Longrightarrow> by_dist f (dist_sort f xs)"
proof -
  show m: "mset (dist_sort f xs) = mset xs" by (induction xs) (simp_all add: dist_sort_def)
  have s: "set (dist_sort f ys) = set ys" for ys by (induction ys) (simp_all add: dist_sort_def)
  show "by_dist f (dist_sort f xs)" if "\<forall>x \<in> set xs. \<not> f32_nan (f x)"
    using that
  proof (induction xs)
    case (Cons x xs)
    have "by_dist f (insort_dist f x (dist_sort f xs))"
      by (rule insort_dist_by_dist) (use Cons s [of xs] in auto)
    then show ?case by (simp add: dist_sort_def)
  qed (simp add: dist_sort_def by_dist_def)
qed

lemma keep_dist_sort: "keep k f x (take k (dist_sort f xs)) = take k (dist_sort f (x # xs))"
  by (simp add: keep_def take_insort_take dist_sort_def)


lemma keep_set: "set (keep k f x xs) \<subseteq> insert x (set xs)"
  using set_take_subset [of k "insort_dist f x xs"] by (simp add: keep_def)

lemma keep_length: "length xs \<le> k \<Longrightarrow> length (keep k f x xs) \<le> k"
  by (simp add: keep_def)

lemma keep_by_dist:
  "by_dist f xs \<Longrightarrow> \<forall>y \<in> insert x (set xs). \<not> f32_nan (f y) \<Longrightarrow> by_dist f (keep k f x xs)"
  by (simp add: keep_def by_dist_take insort_dist_by_dist)

lemma keep_room: "length xs < k \<Longrightarrow> keep k f x xs = insort_dist f x xs"
  by (simp add: keep_def)

lemma keep_distinct:
  assumes "distinct (map g xs)" "g x \<notin> g ` set xs" shows "distinct (map g (keep k f x xs))"
proof -
  have "mset (map g (insort_dist f x xs)) = mset (map g (x # xs))" by simp
  then have "distinct (map g (insort_dist f x xs))" using assms mset_eq_imp_distinct_iff by fastforce
  then show ?thesis by (simp add: keep_def flip: take_map)
qed

lemma keep_dropped:
  assumes "by_dist f xs" "\<forall>y \<in> insert x (set xs). \<not> f32_nan (f y)"
    and "y \<in> insert x (set xs)" "y \<notin> set (keep k f x xs)"
  shows "length (keep k f x xs) = k" "\<forall>z \<in> set (keep k f x xs). f32_le (f z) (f y)"
proof -
  let ?zs = "insort_dist f x xs"
  have y: "y \<in> set ?zs" "y \<notin> set (take k ?zs)" using assms(3,4) by (simp_all add: keep_def)
  then have d: "y \<in> set (drop k ?zs)" by (metis Un_iff append_take_drop_id set_append)
  then show "length (keep k f x xs) = k" by (cases "k \<le> length ?zs") (simp_all add: keep_def)
  have "by_dist f (take k ?zs @ drop k ?zs)" using insort_dist_by_dist [OF assms(1,2)] by simp
  then show "\<forall>z \<in> set (keep k f x xs). f32_le (f z) (f y)"
    using d unfolding keep_def by_dist_def sorted_wrt_append by blast
qed

lemma keep_below:
  assumes "by_dist f xs" "\<forall>y \<in> insert x (set xs). \<not> f32_nan (f y)"
    and "length xs = k" "\<forall>y \<in> set xs. f32_le (f y) b"
  shows "length (keep k f x xs) = k" "\<forall>y \<in> set (keep k f x xs). f32_le (f y) b"
proof -
  show "length (keep k f x xs) = k" using assms(3) by (simp add: keep_def)
  show "\<forall>y \<in> set (keep k f x xs). f32_le (f y) b"
  proof (cases rule: insort_dist_cases [of f x xs])
    case 1
    then show ?thesis using assms(3,4) by (simp add: keep_def)
  next
    case (2 i)
    then have "f32_le (f x) b" using assms(4) f32_lt_le f32_le_trans nth_mem by blast
    then show ?thesis using keep_set [of k f x xs] assms(4) by blast
  qed
qed

subsection \<open>The search\<close>

definition cand_dist :: "u64 \<times> f32 \<times> bool \<Rightarrow> f32" where "cand_dist = (\<lambda>(r, d, v). d)"

definition cand_open :: "u64 \<times> f32 \<times> bool \<Rightarrow> bool" where "cand_open = (\<lambda>(r, d, v). \<not> v)"

definition seen :: "beam \<Rightarrow> u64 set" where
  "seen b = fst ` set (bm_log b) \<union> fst ` set (bm_cands b)"

definition beam_start :: "u64 \<Rightarrow> f32 \<Rightarrow> beam" where
  "beam_start r d = \<lparr>bm_cands = [(r, d, False)], bm_log = [], bm_top = []\<rparr>"

definition beam_edge :: "nat \<Rightarrow> beam \<Rightarrow> u64 \<times> f32 \<Rightarrow> beam" where
  "beam_edge L b = (\<lambda>(r, d).
     if r \<in> seen b then b else b\<lparr>bm_cands := keep L cand_dist (r, d, False) (bm_cands b)\<rparr>)"

definition beam_open :: "beam \<Rightarrow> bool" where
  "beam_open b = list_ex cand_open (bm_cands b)"

definition beam_visit :: "nat \<Rightarrow> u64 \<Rightarrow> f32 \<Rightarrow> (u64 \<times> f32 \<times> bool) list \<Rightarrow> beam \<Rightarrow> beam" where
  "beam_visit K r d cs b = \<lparr>bm_cands = cs, bm_log = (r, d) # bm_log b, bm_top = keep K snd (r, d) (bm_top b)\<rparr>"

definition beam_step :: "nat \<Rightarrow> nat \<Rightarrow> beam_graph \<Rightarrow> beam \<Rightarrow> beam" where
  "beam_step L K G b =
     (let pre = takeWhile (\<lambda>c. \<not> cand_open c) (bm_cands b) in
      case dropWhile (\<lambda>c. \<not> cand_open c) (bm_cands b) of
        [] \<Rightarrow> b
      | (r, d, v) # rest \<Rightarrow>
          (case G r of
             None \<Rightarrow> b\<lparr>bm_cands := pre @ rest\<rparr>
           | Some (exact, es) \<Rightarrow>
               foldl (beam_edge L)
                 (beam_visit K r (case exact of Some e \<Rightarrow> e | None \<Rightarrow> d) (pre @ (r, d, True) # rest) b) es))"

definition beam_search :: "nat \<Rightarrow> nat \<Rightarrow> beam_graph \<Rightarrow> u64 \<Rightarrow> f32 \<Rightarrow> beam option" where
  "beam_search L K G r d = while_option beam_open (beam_step L K G) (beam_start r d)"


subsection \<open>Invariant and termination\<close>

inductive_set beam_reach :: "beam_graph \<Rightarrow> u64 \<Rightarrow> u64 set" for G r0 where
  reach_start: "r0 \<in> beam_reach G r0"
| reach_edge: "r \<in> beam_reach G r0 \<Longrightarrow> G r = Some (x, es) \<Longrightarrow> (r', d) \<in> set es \<Longrightarrow> r' \<in> beam_reach G r0"

definition beam_ok :: "nat \<Rightarrow> nat \<Rightarrow> beam_graph \<Rightarrow> u64 \<Rightarrow> beam \<Rightarrow> bool" where
  "beam_ok L K G r0 b \<longleftrightarrow>
     distinct (map fst (bm_cands b)) \<and> distinct (map fst (bm_log b)) \<and>
     (\<forall>c \<in> set (bm_cands b). cand_open c \<longleftrightarrow> fst c \<notin> fst ` set (bm_log b)) \<and>
     length (bm_cands b) \<le> L \<and> bm_top b = take K (dist_sort snd (bm_log b)) \<and>
     fst ` set (bm_log b) \<subseteq> dom G \<and> seen b \<subseteq> beam_reach G r0"

lemma beam_okD:
  assumes "beam_ok L K G r0 b"
  shows "distinct (map fst (bm_cands b))" "distinct (map fst (bm_log b))" "length (bm_cands b) \<le> L"
    "c \<in> set (bm_cands b) \<Longrightarrow> cand_open c = (fst c \<notin> fst ` set (bm_log b))"
    "bm_top b = take K (dist_sort snd (bm_log b))" "fst ` set (bm_log b) \<subseteq> dom G"
    "fst ` set (bm_log b) \<subseteq> beam_reach G r0" "fst ` set (bm_cands b) \<subseteq> beam_reach G r0"
  using assms by (simp_all add: beam_ok_def seen_def)

lemma cand_open_simps [simp]: "cand_open (r, d, v) = (\<not> v)" "cand_dist (r, d, v) = d"
  by (simp_all add: cand_open_def cand_dist_def)

lemma beam_ok_start: "0 < L \<Longrightarrow> beam_ok L K G r0 (beam_start r0 d)"
  by (simp add: beam_ok_def beam_start_def dist_sort_def seen_def reach_start)

lemma beam_ok_edge:
  assumes "beam_ok L K G r0 b" "r \<in> beam_reach G r0" shows "beam_ok L K G r0 (beam_edge L b (r, d))"
proof (cases "r \<in> seen b")
  case False
  let ?cs = "keep L cand_dist (r, d, False) (bm_cands b)"
  have new: "r \<notin> fst ` set (bm_log b)" "r \<notin> fst ` set (bm_cands b)" using False by (auto simp: seen_def)
  have sub: "set ?cs \<subseteq> insert (r, d, False) (set (bm_cands b))" by (rule keep_set)
  note ok = beam_okD [OF assms(1)]
  have "distinct (map fst ?cs)" using ok(1) new by (intro keep_distinct) simp_all
  moreover have "length ?cs \<le> L" using ok(3) by (rule keep_length)
  moreover have "\<forall>c \<in> set ?cs. cand_open c \<longleftrightarrow> fst c \<notin> fst ` set (bm_log b)"
  proof
    fix c assume "c \<in> set ?cs"
    then have "c = (r, d, False) \<or> c \<in> set (bm_cands b)" using sub by blast
    then show "cand_open c \<longleftrightarrow> fst c \<notin> fst ` set (bm_log b)" using ok(4) [of c] new(1) by (elim disjE) simp_all
  qed
  moreover have "fst ` set ?cs \<subseteq> beam_reach G r0"
    using image_mono [OF sub, of fst] ok(8) assms(2) by auto
  ultimately show ?thesis using assms(1) False by (simp add: beam_ok_def beam_edge_def seen_def)
qed (use assms in \<open>simp add: beam_edge_def\<close>)

lemma beam_edges_log [simp]:
  "bm_log (foldl (beam_edge L) b es) = bm_log b" "bm_top (foldl (beam_edge L) b es) = bm_top b"
  by (induction es arbitrary: b) (auto simp: beam_edge_def split: prod.splits)

lemma beam_ok_edges:
  "beam_ok L K G r0 b \<Longrightarrow> fst ` set es \<subseteq> beam_reach G r0 \<Longrightarrow> beam_ok L K G r0 (foldl (beam_edge L) b es)"
  by (induction es arbitrary: b) (auto simp: beam_ok_edge)

text \<open>The candidates around the closest one that is not visited.\<close>

lemma open_split:
  assumes "beam_open b"
  obtains pre r d rest where "bm_cands b = pre @ (r, d, False) # rest" "\<forall>c \<in> set pre. \<not> cand_open c"
    "takeWhile (\<lambda>c. \<not> cand_open c) (bm_cands b) = pre" "dropWhile (\<lambda>c. \<not> cand_open c) (bm_cands b) = (r, d, False) # rest"
proof -
  let ?P = "\<lambda>c. \<not> cand_open c"
  obtain c rest where c: "dropWhile ?P (bm_cands b) = c # rest"
    using assms by (cases "dropWhile ?P (bm_cands b)") (auto simp: beam_open_def list_ex_iff)
  then have "cand_open c" using hd_dropWhile [of ?P "bm_cands b"] by simp
  then obtain r d where "c = (r, d, False)" by (cases c) (auto simp: cand_open_def)
  then show thesis
    using that [of "takeWhile ?P (bm_cands b)" r d rest] c takeWhile_dropWhile_id [of ?P "bm_cands b"]
    by (auto dest: set_takeWhileD)
qed

definition opens :: "beam \<Rightarrow> nat" where
  "opens b = length (filter cand_open (bm_cands b))"

lemma beam_step_cases:
  assumes "beam_ok L K G r0 b" "beam_open b"
  obtains (missing) pre r d rest where "bm_cands b = pre @ (r, d, False) # rest" "G r = None"
      "beam_step L K G b = b\<lparr>bm_cands := pre @ rest\<rparr>"
  | (visit) pre r d rest x es where "bm_cands b = pre @ (r, d, False) # rest" "G r = Some (x, es)"
      "beam_step L K G b = foldl (beam_edge L)
         (beam_visit K r (case x of Some e \<Rightarrow> e | None \<Rightarrow> d) (pre @ (r, d, True) # rest) b) es"
proof (rule open_split [OF assms(2)])
  fix pre r d rest assume s: "bm_cands b = pre @ (r, d, False) # rest" "\<forall>c \<in> set pre. \<not> cand_open c"
    "takeWhile (\<lambda>c. \<not> cand_open c) (bm_cands b) = pre" "dropWhile (\<lambda>c. \<not> cand_open c) (bm_cands b) = (r, d, False) # rest"
  show thesis
  proof (cases "G r")
    case None
    then show thesis using s by (intro missing [of pre r d rest]) (simp_all add: beam_step_def Let_def)
  next
    case (Some y)
    then show thesis
      using s by (cases y, intro visit [of pre r d rest "fst y" "snd y"]) (simp_all add: beam_step_def Let_def)
  qed
qed

lemma beam_ok_visit:
  assumes "beam_ok L K G r0 b" "bm_cands b = pre @ (r, d, False) # rest" "G r \<noteq> None"
  shows "beam_ok L K G r0 (beam_visit K r e (pre @ (r, d, True) # rest) b)"
    "r \<notin> fst ` set (bm_log b)" "r \<in> beam_reach G r0"
proof -
  note ok = beam_okD [OF assms(1)]
  let ?cs = "pre @ (r, d, True) # rest" let ?b = "beam_visit K r e ?cs b"
  have d: "distinct (map fst (pre @ (r, d, False) # rest))" using ok(1) assms(2) by simp
  show r: "r \<notin> fst ` set (bm_log b)" "r \<in> beam_reach G r0"
    using ok(4) [of "(r, d, False)"] ok(8) assms(2) by auto
  have "cand_open c = (fst c \<notin> fst ` set (bm_log ?b))" if c: "c \<in> set ?cs" for c
  proof (cases "c = (r, d, True)")
    case False
    then have "c \<in> set (bm_cands b)" "fst c \<noteq> r" using c d assms(2) by (auto simp: image_iff)
    then show ?thesis using ok(4) [of c] by (simp add: beam_visit_def)
  qed (simp add: beam_visit_def)
  moreover have "bm_top ?b = take K (dist_sort snd ((r, e) # bm_log b))"
    by (simp add: beam_visit_def ok(5) keep_dist_sort)
  moreover have "fst ` set (bm_log ?b) \<subseteq> dom G" using ok(6) assms(3) by (auto simp: beam_visit_def)
  moreover have "seen ?b \<subseteq> beam_reach G r0"
    using ok(7,8) r assms(2) by (simp add: beam_visit_def seen_def)
  ultimately show "beam_ok L K G r0 ?b"
    using ok(2,3) d r assms(2) by (simp add: beam_ok_def beam_visit_def)
qed

lemma beam_ok_step:
  assumes "beam_ok L K G r0 b" "beam_open b" shows "beam_ok L K G r0 (beam_step L K G b)"
proof (cases rule: beam_step_cases [OF assms])
  case (1 pre r d rest)
  then show ?thesis using assms(1) by (auto simp: beam_ok_def seen_def)
next
  case (2 pre r d rest x es)
  note v = beam_ok_visit [OF assms(1) 2(1)]
  have "fst ` set es \<subseteq> beam_reach G r0" using v(3) 2(2) by (auto intro: reach_edge [of r])
  then show ?thesis using 2 v(1) by (simp add: beam_ok_edges)
qed

lemma beam_search_ends:
  assumes "finite (dom G)" "0 < L"
  shows "\<exists>b. beam_search L K G r0 d = Some b \<and> beam_ok L K G r0 b \<and> \<not> beam_open b"
proof -
  let ?R = "inv_image (less_than <*lex*> less_than) (\<lambda>b. (card (dom G - fst ` set (bm_log b)), opens b))"
  have wf: "wf ?R" by auto
  have less: "(beam_step L K G b, b) \<in> ?R" if b: "beam_ok L K G r0 b \<and> beam_open b" for b
  proof (cases rule: beam_step_cases [OF conjunct1 [OF b] conjunct2 [OF b]])
    case (1 pre r d rest)
    then show ?thesis by (simp add: opens_def cand_open_def)
  next
    case (2 pre r d rest x es)
    have "r \<in> dom G - fst ` set (bm_log b)"
      using 2 b beam_ok_visit(2) [OF conjunct1 [OF b] 2(1)] by auto
    then have "card (dom G - insert r (fst ` set (bm_log b))) < card (dom G - fst ` set (bm_log b))"
      using assms(1) by (intro psubset_card_mono) auto
    then show ?thesis using 2 by (simp add: beam_visit_def)
  qed
  obtain b where b: "beam_search L K G r0 d = Some b"
    using wf_rel_while_option_Some [OF wf, where P = "beam_ok L K G r0" and b = beam_open and c = "beam_step L K G"]
      less beam_ok_step beam_ok_start [OF assms(2)] unfolding beam_search_def by blast
  moreover have "beam_ok L K G r0 b"
    using while_option_rule [where P = "beam_ok L K G r0", OF _ b [unfolded beam_search_def]]
      beam_ok_step beam_ok_start [OF assms(2)] by blast
  moreover have "\<not> beam_open b" using b unfolding beam_search_def by (rule while_option_stop)
  ultimately show ?thesis by blast
qed


subsection \<open>Distances that are numbers\<close>

text \<open>No row that can be reached has a NaN for its own distance or for the distance of an edge.\<close>

definition numbers :: "beam_graph \<Rightarrow> u64 \<Rightarrow> bool" where
  "numbers G r0 \<longleftrightarrow> (\<forall>r \<in> beam_reach G r0. \<forall>x es. G r = Some (x, es) \<longrightarrow>
     (\<forall>e. x = Some e \<longrightarrow> \<not> f32_nan e) \<and> (\<forall>y \<in> set es. \<not> f32_nan (snd y)))"

text \<open>Then the buffers of the beam are sorted.\<close>

definition beam_sorted :: "beam \<Rightarrow> bool" where
  "beam_sorted b \<longleftrightarrow> by_dist cand_dist (bm_cands b) \<and> by_dist snd (bm_top b) \<and>
     (\<forall>c \<in> set (bm_cands b). \<not> f32_nan (cand_dist c)) \<and> (\<forall>e \<in> set (bm_top b). \<not> f32_nan (snd e))"

lemma beam_sortedD:
  assumes "beam_sorted b"
  shows "by_dist cand_dist (bm_cands b)" "by_dist snd (bm_top b)"
    "c \<in> set (bm_cands b) \<Longrightarrow> \<not> f32_nan (cand_dist c)" "e \<in> set (bm_top b) \<Longrightarrow> \<not> f32_nan (snd e)"
  using assms unfolding beam_sorted_def by blast+

lemma by_dist_successively: "by_dist f xs \<Longrightarrow> successively f32_le (map f xs)"
  unfolding by_dist_def by (intro successively_if_sorted_wrt) (simp add: sorted_wrt_map)

lemma beam_sorted_start: "\<not> f32_nan d \<Longrightarrow> beam_sorted (beam_start r0 d)"
  by (simp add: beam_sorted_def beam_start_def by_dist_def)

lemma beam_sorted_edges:
  "beam_sorted b \<Longrightarrow> \<forall>y \<in> set es. \<not> f32_nan (snd y) \<Longrightarrow> beam_sorted (foldl (beam_edge L) b es)"
proof (induction es arbitrary: b)
  case (Cons y es)
  obtain r d where y: "y = (r, d)" by (cases y)
  let ?c = "(r, d, False)"
  note s = beam_sortedD [OF Cons.prems(1)]
  have nan: "\<forall>c \<in> insert ?c (set (bm_cands b)). \<not> f32_nan (cand_dist c)"
    using s(3) Cons.prems(2) by (simp add: y)
  then have "\<forall>c \<in> set (keep L cand_dist ?c (bm_cands b)). \<not> f32_nan (cand_dist c)"
    using keep_set [of L cand_dist ?c "bm_cands b"] by blast
  then have "beam_sorted (beam_edge L b y)"
    using keep_by_dist [OF s(1) nan, of L] Cons.prems(1) by (simp add: beam_edge_def y beam_sorted_def)
  then show ?case using Cons.IH Cons.prems(2) by simp
qed simp

lemma beam_sorted_step:
  assumes "beam_ok L K G r0 b" "beam_open b" "beam_sorted b" "numbers G r0"
  shows "beam_sorted (beam_step L K G b)"
proof (cases rule: beam_step_cases [OF assms(1,2)])
  case (1 pre r d rest)
  then show ?thesis using assms(3) by (auto simp: beam_sorted_def by_dist_def sorted_wrt_append)
next
  case (2 pre r d rest x es)
  let ?e = "case x of Some e \<Rightarrow> e | None \<Rightarrow> d"
  let ?v = "beam_visit K r ?e (pre @ (r, d, True) # rest) b"
  note s = beam_sortedD [OF assms(3)]
  have "r \<in> beam_reach G r0" using beam_ok_visit(3) [OF assms(1) 2(1)] 2(2) by simp
  then have n: "\<And>e. x = Some e \<Longrightarrow> \<not> f32_nan e" "\<forall>y \<in> set es. \<not> f32_nan (snd y)"
    using assms(4) 2(2) unfolding numbers_def by blast+
  have "\<not> f32_nan ?e" using n(1) s(3) [of "(r, d, False)"] 2(1) by (auto split: option.splits)
  then have nan: "\<forall>y \<in> insert (r, ?e) (set (bm_top b)). \<not> f32_nan (snd y)" using s(4) by simp
  then have "\<forall>y \<in> set (keep K snd (r, ?e) (bm_top b)). \<not> f32_nan (snd y)"
    using keep_set [of K snd "(r, ?e)" "bm_top b"] by blast
  moreover have "by_dist cand_dist (pre @ (r, d, True) # rest)"
    using s(1) by (simp add: 2(1) by_dist_def sorted_wrt_append)
  moreover have "\<forall>c \<in> set (pre @ (r, d, True) # rest). \<not> f32_nan (cand_dist c)"
    using s(3) s(3) [of "(r, d, False)"] unfolding 2(1) by (simp_all del: split_paired_All)
  ultimately have "beam_sorted ?v"
    using keep_by_dist [OF s(2) nan, of K] by (simp add: beam_sorted_def beam_visit_def)
  then show ?thesis unfolding 2(3) using n(2) by (rule beam_sorted_edges)
qed

subsection \<open>The local optimum\<close>

text \<open>
  A clean graph: a row has one distance as the target of edges, no distance is NaN, and no edge
  leads to a missing row.
\<close>

definition beam_clean :: "beam_graph \<Rightarrow> (u64 \<Rightarrow> f32) \<Rightarrow> bool" where
  "beam_clean G \<delta> \<longleftrightarrow> (\<forall>r x es. G r = Some (x, es) \<longrightarrow>
     (\<forall>(y, e) \<in> set es. e = \<delta> y \<and> \<not> f32_nan e \<and> y \<in> dom G) \<and> (\<forall>e. x = Some e \<longrightarrow> \<not> f32_nan e))"

lemma clean_numbers: "beam_clean G \<delta> \<Longrightarrow> numbers G r0"
  unfolding beam_clean_def numbers_def by fastforce

text \<open>A row was seen and is still known, or the beam is full of rows no farther away.\<close>

definition settled :: "nat \<Rightarrow> (u64 \<Rightarrow> f32) \<Rightarrow> beam \<Rightarrow> u64 \<Rightarrow> bool" where
  "settled L \<delta> b y \<longleftrightarrow>
     y \<in> seen b \<or> length (bm_cands b) = L \<and> (\<forall>c \<in> set (bm_cands b). f32_le (cand_dist c) (\<delta> y))"

text \<open>The distance a visited row is ranked by; the start row is not the target of an edge.\<close>

definition row_dist :: "beam_graph \<Rightarrow> (u64 \<Rightarrow> f32) \<Rightarrow> u64 \<Rightarrow> f32 \<Rightarrow> u64 \<Rightarrow> f32" where
  "row_dist G \<delta> r0 d0 r =
     (case G r of Some (Some e, es) \<Rightarrow> e | _ \<Rightarrow> if r = r0 then d0 else \<delta> r)"

definition beam_dists :: "beam_graph \<Rightarrow> (u64 \<Rightarrow> f32) \<Rightarrow> u64 \<Rightarrow> f32 \<Rightarrow> beam \<Rightarrow> bool" where
  "beam_dists G \<delta> r0 d0 b \<longleftrightarrow>
     by_dist cand_dist (bm_cands b) \<and> (\<forall>c \<in> set (bm_cands b). \<not> f32_nan (cand_dist c)) \<and>
     (\<forall>c \<in> set (bm_cands b). cand_open c \<longrightarrow> cand_dist c = (if fst c = r0 then d0 else \<delta> (fst c))) \<and>
     (\<forall>e \<in> set (bm_log b). \<not> f32_nan (snd e)) \<and> (\<forall>e \<in> set (bm_log b). snd e = row_dist G \<delta> r0 d0 (fst e))"

lemma beam_distsD:
  assumes "beam_dists G \<delta> r0 d0 b"
  shows "by_dist cand_dist (bm_cands b)" "c \<in> set (bm_cands b) \<Longrightarrow> \<not> f32_nan (cand_dist c)"
    "c \<in> set (bm_cands b) \<Longrightarrow> cand_open c \<Longrightarrow> cand_dist c = (if fst c = r0 then d0 else \<delta> (fst c))"
    "e \<in> set (bm_log b) \<Longrightarrow> \<not> f32_nan (snd e) \<and> snd e = row_dist G \<delta> r0 d0 (fst e)"
  using assms unfolding beam_dists_def by blast+

lemma edge_settles:
  assumes "beam_ok L K G r0 b" "beam_dists G \<delta> r0 d0 b" "r0 \<in> fst ` set (bm_log b)" "\<not> f32_nan (\<delta> y)"
  shows "beam_dists G \<delta> r0 d0 (beam_edge L b (y, \<delta> y))" "settled L \<delta> (beam_edge L b (y, \<delta> y)) y"
    "settled L \<delta> b z \<Longrightarrow> settled L \<delta> (beam_edge L b (y, \<delta> y)) z"
proof -
  let ?b = "beam_edge L b (y, \<delta> y)" and ?c = "(y, \<delta> y, False)"
  note ok = beam_okD [OF assms(1)] and ds = beam_distsD [OF assms(2)]
  have nan: "\<forall>c \<in> insert ?c (set (bm_cands b)). \<not> f32_nan (cand_dist c)" using ds(2) assms(4) by simp
  have "beam_dists G \<delta> r0 d0 ?b \<and> settled L \<delta> ?b y \<and> (settled L \<delta> b z \<longrightarrow> settled L \<delta> ?b z)"
  proof (cases "y \<in> seen b")
    case True
    then show ?thesis using assms(2) by (simp add: beam_edge_def settled_def)
  next
    case False
    let ?cs = "keep L cand_dist ?c (bm_cands b)"
    have b: "?b = b\<lparr>bm_cands := ?cs\<rparr>" using False by (simp add: beam_edge_def)
    note sub = keep_set [of L cand_dist ?c "bm_cands b"]
    note dropped = keep_dropped [OF ds(1) nan, where k = L]
    have "beam_dists G \<delta> r0 d0 ?b"
    proof -
      have "y \<noteq> r0" using False assms(3) by (auto simp: seen_def)
      then have "cand_dist c = (if fst c = r0 then d0 else \<delta> (fst c))" if "c \<in> insert ?c (set (bm_cands b))" "cand_open c" for c
        using ds(3) [of c] that by (cases "c = ?c") simp_all
      then have "\<forall>c \<in> set ?cs. cand_open c \<longrightarrow> cand_dist c = (if fst c = r0 then d0 else \<delta> (fst c))"
        using sub by blast
      moreover have "\<forall>c \<in> set ?cs. \<not> f32_nan (cand_dist c)" using sub nan by blast
      moreover have "\<forall>e \<in> set (bm_log b). \<not> f32_nan (snd e)" "\<forall>e \<in> set (bm_log b). snd e = row_dist G \<delta> r0 d0 (fst e)"
        using ds(4) by blast+
      ultimately show ?thesis using keep_by_dist [OF ds(1) nan, of L] by (simp add: beam_dists_def b)
    qed
    moreover have "settled L \<delta> ?b y"
    proof (cases "?c \<in> set ?cs")
      case True
      then have "y \<in> fst ` set ?cs" by force
      then show ?thesis by (simp add: settled_def b seen_def)
    qed (use dropped [of ?c] in \<open>simp add: settled_def b\<close>)
    moreover have "settled L \<delta> ?b z" if z: "settled L \<delta> b z"
    proof (cases "z \<in> seen b")
      case True
      show ?thesis
      proof (cases "z \<in> seen ?b")
        case False
        then have z: "z \<notin> fst ` set (bm_log b)" "z \<notin> fst ` set ?cs" "z \<in> fst ` set (bm_cands b)"
          using True by (auto simp: seen_def b)
        then obtain c where c: "c \<in> set (bm_cands b)" "fst c = z" "c \<notin> set ?cs" by blast
        then have "cand_dist c = \<delta> z" using ok(4) [OF c(1)] ds(3) [OF c(1)] assms(3) z(1) c(2) by (auto split: if_splits)
        then show ?thesis using dropped [of c] c by (simp add: settled_def b)
      qed (simp add: settled_def)
    next
      case False
      then show ?thesis using z keep_below [OF ds(1) nan, of L "\<delta> z"] by (simp add: settled_def b)
    qed
    ultimately show ?thesis by blast
  qed
  then show "beam_dists G \<delta> r0 d0 ?b" "settled L \<delta> ?b y" "settled L \<delta> b z \<Longrightarrow> settled L \<delta> ?b z" by blast+
qed

lemma edges_settle:
  assumes "beam_ok L K G r0 b" "beam_dists G \<delta> r0 d0 b" "r0 \<in> fst ` set (bm_log b)"
    and "\<forall>(y, e) \<in> set es. e = \<delta> y \<and> \<not> f32_nan e \<and> y \<in> beam_reach G r0"
  shows "beam_dists G \<delta> r0 d0 (foldl (beam_edge L) b es) \<and> (\<forall>y \<in> fst ` set es. settled L \<delta> (foldl (beam_edge L) b es) y) \<and>
    (\<forall>z. settled L \<delta> b z \<longrightarrow> settled L \<delta> (foldl (beam_edge L) b es) z)"
  using assms
proof (induction es arbitrary: b)
  case (Cons p es)
  obtain y where p: "p = (y, \<delta> y)" "\<not> f32_nan (\<delta> y)" "y \<in> beam_reach G r0" using Cons.prems(4) by (cases p) auto
  note e = edge_settles [OF Cons.prems(1-3) p(2)]
  have "bm_log (beam_edge L b p) = bm_log b" by (simp add: beam_edge_def p)
  then have "r0 \<in> fst ` set (bm_log (beam_edge L b (y, \<delta> y)))" using Cons.prems(3) p(1) by simp
  from Cons.IH [OF beam_ok_edge [OF Cons.prems(1) p(3)] e(1) this] Cons.prems(4)
  show ?case using e(2,3) unfolding p(1) by simp
qed simp

definition beam_best :: "nat \<Rightarrow> beam_graph \<Rightarrow> (u64 \<Rightarrow> f32) \<Rightarrow> u64 \<Rightarrow> f32 \<Rightarrow> beam \<Rightarrow> bool" where
  "beam_best L G \<delta> r0 d0 b \<longleftrightarrow>
     beam_dists G \<delta> r0 d0 b \<and>
     (if bm_log b = [] then fst ` set (bm_cands b) = {r0} else r0 \<in> fst ` set (bm_log b)) \<and>
     (\<forall>r \<in> fst ` set (bm_log b). \<forall>x es. G r = Some (x, es) \<longrightarrow> (\<forall>y \<in> fst ` set es. settled L \<delta> b y))"

lemma reach_dom:
  assumes "beam_clean G \<delta>" "r0 \<in> dom G" "r \<in> beam_reach G r0" shows "r \<in> dom G"
  using assms(3)
proof induction
  case (reach_edge r x es y d)
  then show ?case using assms(1) unfolding beam_clean_def by fast
qed (fact assms(2))

lemma beam_best_step:
  assumes "beam_ok L K G r0 b" "beam_open b" "beam_best L G \<delta> r0 d0 b" "beam_clean G \<delta>" "r0 \<in> dom G"
  shows "beam_best L G \<delta> r0 d0 (beam_step L K G b)"
proof (cases rule: beam_step_cases [OF assms(1,2)])
  case (1 pre r d rest)
  then have "r \<in> beam_reach G r0" using beam_okD(8) [OF assms(1)] by auto
  then show ?thesis using reach_dom [OF assms(4,5)] 1(2) by auto
next
  case (2 pre r d rest x es)
  let ?e = "case x of Some e \<Rightarrow> e | None \<Rightarrow> d"
  let ?v = "beam_visit K r ?e (pre @ (r, d, True) # rest) b"
  have ok: "beam_ok L K G r0 ?v" and r: "r \<in> beam_reach G r0" using beam_ok_visit [OF assms(1) 2(1)] 2(2) by simp_all
  have ds: "beam_dists G \<delta> r0 d0 b" using assms(3) by (simp add: beam_best_def)
  note dsD = beam_distsD [OF this]
  have "by_dist cand_dist (pre @ (r, d, True) # rest)"
    using dsD(1) by (simp add: 2(1) by_dist_def sorted_wrt_append)
  moreover have "\<not> f32_nan ?e" using dsD(2) [of "(r, d, False)"] assms(4) 2(1,2) by (auto simp: beam_clean_def split: option.splits)
  moreover have "?e = row_dist G \<delta> r0 d0 r"
  proof -
    have "cand_dist (r, d, False) = (if fst (r, d, False) = r0 then d0 else \<delta> (fst (r, d, False)))"
      by (rule dsD(3)) (simp_all add: 2(1))
    then have "(if r = r0 then d0 else \<delta> r) = d" by (simp only: cand_open_simps fst_conv)
    then show ?thesis using 2(2) by (cases x) (auto simp: row_dist_def)
  qed
  ultimately have e: "by_dist cand_dist (pre @ (r, d, True) # rest)" "\<not> f32_nan ?e" "?e = row_dist G \<delta> r0 d0 r"
    by simp_all
  have log: "\<not> f32_nan (snd y) \<and> snd y = row_dist G \<delta> r0 d0 (fst y)" if "y \<in> set (bm_log ?v)" for y
  proof (cases "y = (r, ?e)")
    case True
    then show ?thesis using e(2,3) by (metis fst_conv snd_conv)
  next
    case False
    then have "y \<in> set (bm_log b)" using that by (simp add: beam_visit_def)
    then show ?thesis by (rule dsD(4))
  qed
  have "\<forall>c \<in> set (pre @ (r, d, True) # rest). \<not> f32_nan (cand_dist c)"
    "\<forall>c \<in> set (pre @ (r, d, True) # rest). cand_open c \<longrightarrow> cand_dist c = (if fst c = r0 then d0 else \<delta> (fst c))"
    using dsD(2) dsD(3) dsD(2) [of "(r, d, False)"] unfolding 2(1) by (simp_all del: split_paired_All)
  moreover have "\<forall>y \<in> set (bm_log ?v). \<not> f32_nan (snd y)" "\<forall>y \<in> set (bm_log ?v). snd y = row_dist G \<delta> r0 d0 (fst y)"
    using log by blast+
  moreover have cv: "bm_cands ?v = pre @ (r, d, True) # rest" by (simp add: beam_visit_def)
  ultimately have dv: "beam_dists G \<delta> r0 d0 ?v" unfolding beam_dists_def cv using e(1) by blast
  have r0: "r0 \<in> fst ` set (bm_log ?v)"
    using assms(3) 2(1) by (auto simp: beam_best_def beam_visit_def split: if_splits)
  have es: "\<forall>(y, e) \<in> set es. e = \<delta> y \<and> \<not> f32_nan e \<and> y \<in> beam_reach G r0"
    using assms(4) 2(2) reach_edge [OF r 2(2)] unfolding beam_clean_def by fast
  have keep: "settled L \<delta> ?v z" if "settled L \<delta> b z" for z
    using that unfolding settled_def seen_def beam_visit_def 2(1) by auto
  note s = edges_settle [OF ok dv r0 es]
  have "\<forall>y \<in> fst ` set es'. settled L \<delta> (foldl (beam_edge L) ?v es) y"
    if "q \<in> fst ` set (bm_log ?v)" "G q = Some (x', es')" for q x' es'
  proof (cases "q = r")
    case False
    then have "q \<in> fst ` set (bm_log b)" using that(1) by (auto simp: beam_visit_def)
    then have "\<forall>y \<in> fst ` set es'. settled L \<delta> b y" using assms(3) that(2) unfolding beam_best_def by blast
    then show ?thesis using s keep by blast
  qed (use s that(2) 2(2) in simp)
  then show ?thesis using s r0 unfolding beam_best_def 2(3) beam_edges_log by (auto simp: beam_visit_def)
qed


theorem beam_search_best:
  assumes "finite (dom G)" "0 < L" "beam_clean G \<delta>" "r0 \<in> dom G" "\<not> f32_nan d0"
  shows "\<exists>b. beam_search L K G r0 d0 = Some b \<and>
    (\<forall>e \<in> set (bm_log b). snd e = row_dist G \<delta> r0 d0 (fst e)) \<and>
    bm_top b = take K (dist_sort snd (bm_log b)) \<and> by_dist snd (bm_top b) \<and> distinct (map fst (bm_log b)) \<and>
    r0 \<in> fst ` set (bm_log b) \<and> fst ` set (bm_log b) \<subseteq> beam_reach G r0 \<and>
    length (bm_cands b) \<le> L \<and> fst ` set (bm_cands b) \<subseteq> fst ` set (bm_log b) \<and>
    (\<forall>r \<in> fst ` set (bm_log b). \<forall>x es. G r = Some (x, es) \<longrightarrow>
       (\<forall>y \<in> fst ` set es. y \<in> fst ` set (bm_log b) \<or>
          length (bm_cands b) = L \<and> (\<forall>c \<in> set (bm_cands b). f32_le (cand_dist c) (\<delta> y)))) \<and>
    (length (bm_cands b) < L \<longrightarrow> fst ` set (bm_log b) = beam_reach G r0)"
proof -
  let ?P = "\<lambda>b. beam_ok L K G r0 b \<and> beam_best L G \<delta> r0 d0 b"
  obtain b where b: "beam_search L K G r0 d0 = Some b" "beam_ok L K G r0 b" "\<not> beam_open b"
    using beam_search_ends [OF assms(1,2)] by blast
  have "?P (beam_start r0 d0)"
    using beam_ok_start [OF assms(2)] assms(5) by (simp add: beam_best_def beam_dists_def beam_start_def by_dist_def)
  then have "?P b"
    using while_option_rule [where P = ?P, OF _ b(1) [unfolded beam_search_def]] beam_ok_step beam_best_step assms(3,4)
    by blast
  then have best: "beam_best L G \<delta> r0 d0 b" ..
  note ok = beam_okD [OF b(2)] and ds = beam_distsD [OF best [unfolded beam_best_def, THEN conjunct1]]
  let ?V = "fst ` set (bm_log b)"
  have cands: "fst ` set (bm_cands b) \<subseteq> ?V"
    using ok(4) b(3) by (auto simp: beam_open_def list_ex_iff)
  then have seen: "seen b = ?V" by (auto simp: seen_def)
  have r0: "r0 \<in> ?V"
    using best cands by (auto simp: beam_best_def split: if_splits)
  have edges: "\<forall>r \<in> ?V. \<forall>x es. G r = Some (x, es) \<longrightarrow> (\<forall>y \<in> fst ` set es. y \<in> ?V \<or>
      length (bm_cands b) = L \<and> (\<forall>c \<in> set (bm_cands b). f32_le (cand_dist c) (\<delta> y)))"
    using best unfolding beam_best_def settled_def seen by blast
  have "beam_reach G r0 \<subseteq> ?V" if "length (bm_cands b) < L"
  proof
    fix r assume "r \<in> beam_reach G r0"
    then show "r \<in> ?V"
    proof induction
      case (reach_edge r x es y d)
      then have "y \<in> fst ` set es" by force
      then show ?case using edges reach_edge that by blast
    qed (fact r0)
  qed
  moreover have "by_dist snd (bm_top b)"
    unfolding ok(5) using dist_sort_props(2) [of "bm_log b" snd] ds(4) by (intro by_dist_take) blast
  ultimately show ?thesis using b(1) ok cands r0 edges ds(4) by (intro exI [of _ b]) blast
qed

end
