(* ===== verification/SearchRefine.thy ===== *)
theory SearchRefine
  imports DiskSearch BeamSearch
begin

text \<open>
  The search of \<open>DiskSearch\<close> implements the beam search of \<open>BeamSearch\<close> on the graph in the
  store: every operation of the search context is the operation on the beam, no assertion
  fails, no freed node is used, and the loop ends.
\<close>

subsection \<open>Nodes on the heap\<close>

lemma node_at_heap [simp]:
  "node_at (ctx\<lparr>aCandidates := c\<rparr>) = node_at ctx" "node_at (ctx\<lparr>aDistances := d\<rparr>) = node_at ctx"
  "node_at (ctx\<lparr>aTopCandidates := c\<rparr>) = node_at ctx" "node_at (ctx\<lparr>aTopDistances := d\<rparr>) = node_at ctx"
  "node_at (ctx\<lparr>visitedList := c\<rparr>) = node_at ctx" "node_at (ctx\<lparr>nUnvisited := u\<rparr>) = node_at ctx"
  by (simp_all add: node_at_def fun_eq_iff)

lemma node_at_cong: "heap c = heap c' \<Longrightarrow> node_at c = node_at c'"
  by (simp add: node_at_def fun_eq_iff)

lemma node_at_dom: "p \<in> dom (node_at ctx) \<Longrightarrow> p < length (heap ctx)"
  by (auto simp: node_at_def split: if_splits)

lemma node_at_put: "p \<in> dom (node_at ctx) \<Longrightarrow> node_at (node_put ctx p n) = (node_at ctx)(p \<mapsto> n)"
  using node_at_dom [of p ctx] by (auto simp: node_at_def node_put_def fun_eq_iff nth_list_update)

lemma node_put_sel [simp]:
  "aCandidates (node_put ctx p n) = aCandidates ctx" "aDistances (node_put ctx p n) = aDistances ctx"
  "maxCandidates (node_put ctx p n) = maxCandidates ctx" "aTopCandidates (node_put ctx p n) = aTopCandidates ctx"
  "aTopDistances (node_put ctx p n) = aTopDistances ctx" "maxTopCandidates (node_put ctx p n) = maxTopCandidates ctx"
  "visitedList (node_put ctx p n) = visitedList ctx" "nUnvisited (node_put ctx p n) = nUnvisited ctx"
  "blobMode (node_put ctx p n) = blobMode ctx" "query (node_put ctx p n) = query ctx"
  "ctxBuffers (node_put ctx p n) = ctxBuffers ctx"
  by (simp_all add: node_put_def)

lemma node_alloc:
  "diskAnnNodeAlloc ctx r = (p, ctx') \<Longrightarrow> p \<notin> dom (node_at ctx) \<and>
     node_at ctx' = (node_at ctx)(p \<mapsto> \<lparr>dn_nRowid = r, dn_visited = False, dn_pBlobSpot = None\<rparr>) \<and>
     ctx' = ctx\<lparr>heap := heap ctx'\<rparr>"
  by (auto simp: diskAnnNodeAlloc_def node_at_def fun_eq_iff nth_append dom_def)

lemma node_free:
  assumes "p \<in> dom (node_at ctx)"
  shows "\<exists>h. diskAnnNodeFree ctx p = Some (ctx\<lparr>heap := h\<rparr>) \<and> node_at (ctx\<lparr>heap := h\<rparr>) = (node_at ctx)(p := None)"
proof -
  obtain n where "node_at ctx p = Some n" using assms by blast
  moreover have "node_at (ctx\<lparr>heap := (heap ctx)[p := None]\<rparr>) = (node_at ctx)(p := None)"
    by (auto simp: node_at_def fun_eq_iff nth_list_update)
  ultimately show ?thesis by (auto simp: diskAnnNodeFree_def)
qed

lemma anyRowid_eq:
  "set ps \<subseteq> dom (node_at ctx) \<Longrightarrow>
     anyRowid ctx r ps = Some (r \<in> (\<lambda>p. dn_nRowid (the (node_at ctx p))) ` set ps)"
  by (induction ps) auto

subsection \<open>Buffers\<close>

lemma firstGreater_less: "firstGreater d ds = Some i \<Longrightarrow> i < length ds"
  by (induction ds arbitrary: i) (auto split: if_splits)

lemma firstGreater_insort:
  "insort_dist snd (x, d) zs =
     (case firstGreater d (map snd zs) of Some i \<Rightarrow> take i zs @ (x, d) # drop i zs | None \<Rightarrow> zs @ [(x, d)])"
  by (induction zs) (auto split: option.splits)

text \<open>Where \<open>distanceBufferInsertIdx\<close> and \<open>diskAnnSearchCtxShouldAddCandidate\<close> put an item.\<close>

definition insertIdx :: "f32 list \<Rightarrow> nat \<Rightarrow> f32 \<Rightarrow> nat option" where
  "insertIdx ds k d =
     (case firstGreater d ds of Some i \<Rightarrow> Some i | None \<Rightarrow> if length ds < k then Some (length ds) else None)"

lemma insertIdx_None:
  assumes "insertIdx (map f zs) k (f x) = None" "length zs \<le> k" shows "keep k f x zs = zs"
proof -
  have "firstGreater (f x) (map f zs) = None \<Longrightarrow> insort_dist f x zs = zs @ [x]"
    by (induction zs) (auto split: if_splits)
  then show ?thesis using assms by (auto simp: insertIdx_def keep_def split: option.splits if_splits)
qed

lemma bufferInsert_eq:
  assumes "i \<le> length xs" "i < k" "length xs \<le> k"
  shows "bufferInsert xs k i x =
     Some (take k (take i xs @ x # drop i xs), if length xs = k then Some (last xs) else None)"
proof (cases "length xs = k")
  case True
  then have "take (k - Suc i) (drop i xs) = drop i (butlast xs)"
    using assms by (simp add: butlast_conv_take drop_take)
  moreover have "take i (butlast xs) = take i xs" using True assms by (simp add: butlast_conv_take)
  ultimately show ?thesis
    using True assms by (simp add: bufferInsert_def c_assert_bind take_Cons' Suc_diff_Suc)
next
  case False
  then show ?thesis using assms by (simp add: bufferInsert_def c_assert_bind)
qed

lemma insertIdx_Some:
  assumes "insertIdx (map snd zs) k d = Some i" "length zs \<le> k"
  shows "i \<le> length zs" "i < k"
    "bufferInsert (map fst zs) k i x =
       Some (map fst (keep k snd (x, d) zs), if length zs = k then Some (last (map fst zs)) else None)"
    "bufferInsert (map snd zs) k i d =
       Some (map snd (keep k snd (x, d) zs), if length zs = k then Some (last (map snd zs)) else None)"
    "length zs = k \<Longrightarrow> insort_dist snd (x, d) zs = keep k snd (x, d) zs @ [last zs]"
proof -
  have i: "i \<le> length zs \<and> i < k"
    using assms firstGreater_less [of d "map snd zs"] by (fastforce simp: insertIdx_def split: option.splits if_splits)
  then show "i \<le> length zs" "i < k" by simp_all
  have e: "insort_dist snd (x, d) zs = take i zs @ (x, d) # drop i zs"
    using assms(1) by (auto simp: insertIdx_def firstGreater_insort split: option.splits if_splits)
  show "bufferInsert (map fst zs) k i x =
       Some (map fst (keep k snd (x, d) zs), if length zs = k then Some (last (map fst zs)) else None)"
    "bufferInsert (map snd zs) k i d =
       Some (map snd (keep k snd (x, d) zs), if length zs = k then Some (last (map snd zs)) else None)"
    using i assms(2) by (simp_all add: bufferInsert_eq keep_def e take_map drop_map flip: take_map)
  assume l: "length zs = k"
  let ?A = "take i zs @ (x, d) # drop i (butlast zs)"
  have "take i zs @ (x, d) # drop i zs = ?A @ [last zs]"
    using i l by (cases zs rule: rev_cases) simp_all
  moreover have "length ?A = k" using i l by simp
  ultimately show "insort_dist snd (x, d) zs = keep k snd (x, d) zs @ [last zs]"
    by (metis append_eq_conv_conj e keep_def)
qed

subsection \<open>The context and the beam\<close>

text \<open>
  The nodes \<open>N\<close> of a context and its buffers show the beam \<open>b\<close>; a node in use is a candidate
  or visited, and the flag and the counter of the nodes not visited are right.
\<close>

definition row_of :: "(nat \<Rightarrow> DiskAnnNode option) \<Rightarrow> nat \<Rightarrow> u64" where
  "row_of N p = dn_nRowid (the (N p))"

definition cand_view :: "(nat \<Rightarrow> DiskAnnNode option) \<Rightarrow> nat \<times> f32 \<Rightarrow> u64 \<times> f32 \<times> bool" where
  "cand_view N = (\<lambda>(p, d). (row_of N p, d, dn_visited (the (N p))))"

definition top_view :: "(nat \<Rightarrow> DiskAnnNode option) \<Rightarrow> nat \<times> f32 \<Rightarrow> u64 \<times> f32" where
  "top_view N = (\<lambda>(p, d). (row_of N p, d))"

definition bufs_ok :: "DiskAnnSearchCtx \<Rightarrow> bool" where
  "bufs_ok ctx \<longleftrightarrow>
     length (aDistances ctx) = length (aCandidates ctx) \<and> length (aTopDistances ctx) = length (aTopCandidates ctx) \<and>
     length (aTopCandidates ctx) \<le> maxTopCandidates ctx \<and> length (aCandidates ctx) \<le> maxCandidates ctx \<and>
     maxCandidates ctx < 2 ^ 31 \<and> distinct (aCandidates ctx) \<and> distinct (visitedList ctx) \<and>
     set (aTopCandidates ctx) \<subseteq> set (visitedList ctx)"

definition ctx_rel :: "(nat \<Rightarrow> DiskAnnNode option) \<Rightarrow> DiskAnnSearchCtx \<Rightarrow> beam \<Rightarrow> bool" where
  "ctx_rel N ctx b \<longleftrightarrow>
     bufs_ok ctx \<and> dom N = set (aCandidates ctx) \<union> set (visitedList ctx) \<and>
     (\<forall>p n. N p = Some n \<longrightarrow> dn_visited n = (p \<in> set (visitedList ctx))) \<and>
     nUnvisited ctx = of_nat (opens b) \<and>
     bm_cands b = map (cand_view N) (zip (aCandidates ctx) (aDistances ctx)) \<and>
     map fst (bm_log b) = map (row_of N) (visitedList ctx) \<and>
     bm_top b = map (top_view N) (zip (aTopCandidates ctx) (aTopDistances ctx))"

lemma bufs_okD:
  assumes "bufs_ok ctx"
  shows "length (aDistances ctx) = length (aCandidates ctx)" "length (aTopDistances ctx) = length (aTopCandidates ctx)"
    "length (aTopCandidates ctx) \<le> maxTopCandidates ctx" "length (aCandidates ctx) \<le> maxCandidates ctx"
    "maxCandidates ctx < 2 ^ 31" "distinct (aCandidates ctx)" "distinct (visitedList ctx)"
    "set (aTopCandidates ctx) \<subseteq> set (visitedList ctx)"
  using assms by (simp_all add: bufs_ok_def)

lemma ctx_relD:
  assumes "ctx_rel N ctx b"
  shows "bufs_ok ctx" "dom N = set (aCandidates ctx) \<union> set (visitedList ctx)"
    "N p = Some n \<Longrightarrow> dn_visited n = (p \<in> set (visitedList ctx))" "nUnvisited ctx = of_nat (opens b)"
    "bm_cands b = map (cand_view N) (zip (aCandidates ctx) (aDistances ctx))"
    "map fst (bm_log b) = map (row_of N) (visitedList ctx)"
    "bm_top b = map (top_view N) (zip (aTopCandidates ctx) (aTopDistances ctx))"
  using assms by (simp_all add: ctx_rel_def)

text \<open>Only the rows and flags of the nodes in the buffers count.\<close>

lemma cand_view_cong: "N p = N' p \<Longrightarrow> cand_view N (p, d) = cand_view N' (p, d)"
  by (simp add: cand_view_def row_of_def)

lemma keep_cand_view:
  "keep k cand_dist (cand_view N (x, d)) (map (cand_view N) zs) = map (cand_view N) (keep k snd (x, d) zs)"
proof -
  have "(\<lambda>z. cand_dist (cand_view N z)) = snd" by (auto simp: cand_view_def)
  then show ?thesis using map_insort_dist [of "cand_view N" cand_dist "(x, d)" zs] by (simp add: keep_def flip: take_map)
qed

lemma keep_top_view:
  "keep k snd (top_view N (x, d)) (map (top_view N) zs) = map (top_view N) (keep k snd (x, d) zs)"
proof -
  have "(\<lambda>z. snd (top_view N z)) = snd" by (auto simp: top_view_def)
  then show ?thesis using map_insort_dist [of "top_view N" snd "(x, d)" zs] by (simp add: keep_def flip: take_map)
qed

lemma seen_rows:
  assumes "ctx_rel N ctx b"
  shows "fst ` set (bm_log b) = row_of N ` set (visitedList ctx)" "fst ` set (bm_cands b) = row_of N ` set (aCandidates ctx)"
proof -
  note r = ctx_relD [OF assms]
  show "fst ` set (bm_log b) = row_of N ` set (visitedList ctx)" using r(6) by (metis set_map)
  have "map fst (bm_cands b) = map (row_of N) (map fst (zip (aCandidates ctx) (aDistances ctx)))"
    by (simp add: r(5) cand_view_def split_def)
  also have "\<dots> = map (row_of N) (aCandidates ctx)" using bufs_okD(1) [OF r(1)] by simp
  finally show "fst ` set (bm_cands b) = row_of N ` set (aCandidates ctx)" by (metis set_map)
qed

lemma opens_less: "ctx_rel N ctx b \<Longrightarrow> opens b \<le> length (aCandidates ctx) \<and> opens b < 2 ^ 31"
  using ctx_relD(5) [of N ctx b] bufs_okD(1,4,5) [OF ctx_relD(1), of N ctx b]
    length_filter_le [of cand_open "bm_cands b"] by (simp add: opens_def)

lemma open_iff: "beam_open b \<longleftrightarrow> 0 < opens b"
  unfolding beam_open_def opens_def list_ex_iff length_greater_0_conv filter_empty_conv by blast

lemma hasUnvisited_eq: "ctx_rel N ctx b \<Longrightarrow> diskAnnSearchCtxHasUnvisited ctx = beam_open b"
  using opens_less [of N ctx b] ctx_relD(4) [of N ctx b]
  by (simp add: diskAnnSearchCtxHasUnvisited_def open_iff word_less_nat_alt unat_of_nat)


lemma opens_keep:
  assumes "length (bm_cands b) \<le> k" "cand_open c"
  shows "\<lbrakk>length (bm_cands b) = k; insort_dist cand_dist c (bm_cands b) = keep k cand_dist c (bm_cands b) @ [l]\<rbrakk>
      \<Longrightarrow> opens (b\<lparr>bm_cands := keep k cand_dist c (bm_cands b)\<rparr>) = opens b + 1 - (if cand_open l then 1 else 0)"
    "length (bm_cands b) < k \<Longrightarrow> opens (b\<lparr>bm_cands := keep k cand_dist c (bm_cands b)\<rparr>) = opens b + 1"
proof -
  have "mset (filter cand_open (insort_dist cand_dist c (bm_cands b))) = add_mset c (mset (filter cand_open (bm_cands b)))"
    using assms(2) by simp
  then have n: "length (filter cand_open (insort_dist cand_dist c (bm_cands b))) = opens b + 1"
    unfolding opens_def by (metis Suc_eq_plus1 size_add_mset size_mset)
  then show "\<lbrakk>length (bm_cands b) = k; insort_dist cand_dist c (bm_cands b) = keep k cand_dist c (bm_cands b) @ [l]\<rbrakk>
      \<Longrightarrow> opens (b\<lparr>bm_cands := keep k cand_dist c (bm_cands b)\<rparr>) = opens b + 1 - (if cand_open l then 1 else 0)"
    by (simp add: opens_def split: if_splits)
  show "length (bm_cands b) < k \<Longrightarrow> opens (b\<lparr>bm_cands := keep k cand_dist c (bm_cands b)\<rparr>) = opens b + 1"
    using n by (simp add: keep_room opens_def)
qed

text \<open>The nodes that were not visited have no block of their own, so they can be evicted.\<close>

definition bare :: "(nat \<Rightarrow> DiskAnnNode option) \<Rightarrow> bool" where
  "bare N \<longleftrightarrow> (\<forall>p n. N p = Some n \<longrightarrow> \<not> dn_visited n \<longrightarrow> dn_pBlobSpot n = None)"

text \<open>What the operations leave alone.\<close>

definition same_ctx :: "DiskAnnSearchCtx \<Rightarrow> DiskAnnSearchCtx \<Rightarrow> bool" where
  "same_ctx ctx ctx' \<longleftrightarrow> query ctx' = query ctx \<and> maxCandidates ctx' = maxCandidates ctx \<and>
     maxTopCandidates ctx' = maxTopCandidates ctx \<and> blobMode ctx' = blobMode ctx \<and> ctxBuffers ctx' = ctxBuffers ctx"

lemma insert_candidate:
  assumes "ctx_rel N ctx0 b" "bare N" "p \<notin> dom N" "\<not> dn_visited n"
    and "ctx = ctx0\<lparr>heap := h\<rparr>" "node_at ctx = N(p \<mapsto> n)" "dn_nRowid n = r"
    and "insertIdx (aDistances ctx) (maxCandidates ctx) d = Some i"
  shows "\<exists>ctx'. diskAnnSearchCtxInsertCandidate ctx i p d = Some ctx' \<and> same_ctx ctx ctx' \<and>
    ctx_rel (node_at ctx') ctx' (b\<lparr>bm_cands := keep (maxCandidates ctx) cand_dist (r, d, False) (bm_cands b)\<rparr>) \<and>
    node_at ctx' \<subseteq>\<^sub>m N(p \<mapsto> n) \<and> visitedList ctx' = visitedList ctx"
proof -
  note rel = ctx_relD [OF assms(1)]
  have sel: "aCandidates ctx0 = aCandidates ctx" "aDistances ctx0 = aDistances ctx" "maxCandidates ctx0 = maxCandidates ctx"
    "visitedList ctx0 = visitedList ctx" "nUnvisited ctx0 = nUnvisited ctx" "aTopCandidates ctx0 = aTopCandidates ctx"
    "aTopDistances ctx0 = aTopDistances ctx" "maxTopCandidates ctx0 = maxTopCandidates ctx"
    by (simp_all add: assms(5))
  note rel = rel [unfolded sel] and bufs = bufs_okD [OF rel(1), unfolded sel]
  define zs where "zs = zip (aCandidates ctx) (aDistances ctx)"
  let ?k = "maxCandidates ctx" let ?N = "N(p \<mapsto> n)"
  let ?zs' = "keep ?k snd (p, d) zs"
  let ?b = "b\<lparr>bm_cands := keep ?k cand_dist (r, d, False) (bm_cands b)\<rparr>"
  have zs: "aCandidates ctx = map fst zs" "aDistances ctx = map snd zs" "length zs \<le> ?k" "length zs = length (bm_cands b)"
    using bufs(1,4) rel(5) by (simp_all add: zs_def)
  have new: "cand_view ?N (p, d) = (r, d, False)" using assms(4,7) by (simp add: cand_view_def row_of_def)
  have old: "cand_view ?N z = cand_view N z" if "z \<in> set zs" for z
  proof -
    have "fst z \<in> dom N" using that set_zip_leftD [of "fst z" "snd z"] rel(2) by (simp add: zs_def)
    then have "fst z \<noteq> p" using assms(3) by metis
    then show ?thesis using cand_view_cong [of ?N "fst z" N "snd z"] by simp
  qed
  have cands: "bm_cands b = map (cand_view ?N) zs" using rel(5) old by (simp add: zs_def)
  have cands': "bm_cands ?b = map (cand_view ?N) ?zs'"
    unfolding cands new [symmetric] keep_cand_view by simp
  note idx = insertIdx_Some [OF assms(8) [unfolded zs(2)] zs(3), folded zs(2), folded zs(1)]
  note ins = idx(1,2) idx(3) [of p] idx(4) [of p] idx(5) [of p]
  have dz: "distinct (map fst zs)" "fst (p, d) \<notin> fst ` set zs"
    using bufs(6) assms(3) rel(2) unfolding zs(1) by auto
  then have dist: "distinct (map fst ?zs')" by (rule keep_distinct)
  have close: "ctx_rel M ctx' ?b"
    if "M \<subseteq>\<^sub>m ?N" "dom M = set (map fst ?zs') \<union> set (visitedList ctx)"
      "ctx' = ctx\<lparr>aCandidates := map fst ?zs', aDistances := map snd ?zs', nUnvisited := of_nat (opens ?b), heap := h'\<rparr>"
    for M ctx' h'
  proof -
    have M: "M q = ?N q" if "q \<in> set (map fst ?zs') \<union> set (visitedList ctx)" for q
      using that \<open>M \<subseteq>\<^sub>m ?N\<close> unfolding \<open>dom M = _\<close> [symmetric] by (simp add: map_le_def)
    have v: "p \<notin> set (visitedList ctx)" using assms(3) rel(2) by auto
    have row: "row_of M q = row_of N q" if "q \<in> set (visitedList ctx)" for q
      using M [of q] that v by (auto simp: row_of_def)
    have "dn_visited m = (q \<in> set (visitedList ctx))" if "M q = Some m" for q m
    proof -
      have "?N q = Some m" using \<open>M \<subseteq>\<^sub>m ?N\<close> that by (auto simp: map_le_def dom_def)
      then show ?thesis using rel(3) [of q m] v assms(4) by (auto split: if_splits)
    qed
    moreover have "map (cand_view ?N) ?zs' = map (cand_view M) ?zs'"
    proof (rule map_cong [OF refl])
      fix z assume "z \<in> set ?zs'"
      then have "fst z \<in> set (map fst ?zs')" by simp
      then show "cand_view ?N z = cand_view M z" using M [of "fst z"] by (cases z) (auto intro: cand_view_cong)
    qed
    moreover have "map (row_of N) (visitedList ctx) = map (row_of M) (visitedList ctx)" using row by simp
    moreover have "map (top_view N) (zip (aTopCandidates ctx) (aTopDistances ctx)) =
        map (top_view M) (zip (aTopCandidates ctx) (aTopDistances ctx))"
      using row bufs(8) by (auto simp: top_view_def dest!: set_zip_leftD)
    moreover have "bufs_ok ctx'" using bufs dist zs(3) keep_length [OF zs(3)] that(3) by (simp add: bufs_ok_def)
    ultimately show ?thesis
      using that(2,3) rel(6,7) by (simp add: ctx_rel_def cands' zip_map_fst_snd)
  qed
  let ?c2 = "ctx\<lparr>aCandidates := map fst ?zs', aDistances := map snd ?zs'\<rparr>"
  show ?thesis
  proof (cases "length zs = ?k")
    case False
    then have len: "length zs < ?k" using zs(3) by simp
    have "diskAnnSearchCtxInsertCandidate ctx i p d = Some (?c2\<lparr>nUnvisited := nUnvisited ctx + 1\<rparr>)"
      using ins(3,4) False by (simp add: diskAnnSearchCtxInsertCandidate_def)
    moreover have "nUnvisited ctx + 1 = of_nat (opens ?b)"
      using opens_keep(2) [of b ?k "(r, d, False)"] len zs(4) rel(4) by simp
    moreover have "dom ?N = set (map fst ?zs') \<union> set (visitedList ctx)"
      using rel(2) zs(1) len by (simp add: keep_room)
    ultimately show ?thesis
      using close [of ?N _ "heap ctx"] assms(6) by (intro exI [of _ "?c2\<lparr>nUnvisited := nUnvisited ctx + 1\<rparr>"])
        (simp add: same_ctx_def)
  next
    case True
    let ?l = "last (aCandidates ctx)"
    have full: "insort_dist snd (p, d) zs = ?zs' @ [last zs]" by (rule ins(5) [OF True])
    have ne: "zs \<noteq> []" using True ins(2) by auto
    then have l: "fst (last zs) = ?l" "?l \<in> set (aCandidates ctx)"
      using zs(1) by (metis last_map, metis last_in_set list.map_disc_iff)
    have "set (insort_dist snd (p, d) zs) = insert (p, d) (set zs)" by simp
    then have all: "insert p (set (aCandidates ctx)) = insert ?l (set (map fst ?zs'))"
      unfolding full using l(1) zs(1) by (metis (no_types, lifting) fst_conv image_insert list.set_map list.simps(15) set_append Un_insert_right list.set(1) sup_bot.right_neutral)
    have "distinct (map fst (keep (Suc ?k) snd (p, d) zs))"
      using dz by (rule keep_distinct)
    then have ln: "?l \<notin> set (map fst ?zs')" using True full l(1) by (simp add: keep_room)
    have lp: "?l \<noteq> p" using l(2) assms(3) rel(2) by auto
    obtain m where m: "N ?l = Some m" using l(2) rel(2) by (metis UnI1 domD)
    have "insort_dist cand_dist (r, d, False) (bm_cands b) = map (cand_view ?N) (insort_dist snd (p, d) zs)"
      unfolding cands new [symmetric] using keep_cand_view [of "Suc ?k" ?N p d zs] True by (simp add: keep_room)
    then have "insort_dist cand_dist (r, d, False) (bm_cands b) =
        keep ?k cand_dist (r, d, False) (bm_cands b) @ [cand_view ?N (last zs)]"
      using full cands' by simp
    from opens_keep(1) [OF _ _ _ this]
    have op: "opens ?b = opens b + 1 - (if dn_visited m then 0 else 1)"
      using True zs(4) m lp l(1) by (simp add: cand_view_def split_def)
    have pos: "0 < opens b" if "\<not> dn_visited m"
    proof -
      have "cand_view ?N (last zs) \<in> set (bm_cands b)" unfolding cands using ne by simp
      moreover have "cand_open (cand_view ?N (last zs))"
        using m lp l(1) that by (simp add: cand_view_def split_def)
      ultimately have "filter cand_open (bm_cands b) \<noteq> []" by (auto simp: filter_empty_conv)
      then show ?thesis by (simp add: opens_def)
    qed
    have node: "node_at ?c2 ?l = Some m" using assms(6) lp m by simp
    note I = diskAnnSearchCtxInsertCandidate_def ins(3,4) True
    show ?thesis
    proof (cases "dn_visited m")
      case True
      have "diskAnnSearchCtxInsertCandidate ctx i p d = Some (?c2\<lparr>nUnvisited := nUnvisited ctx + 1\<rparr>)"
        using True node by (simp add: I)
      moreover have "nUnvisited ctx + 1 = of_nat (opens ?b)" using op True rel(4) by simp
      moreover have "dom ?N = set (map fst ?zs') \<union> set (visitedList ctx)"
      proof -
        have "?l \<in> set (visitedList ctx)" using rel(3) [OF m] True by simp
        moreover have "dom ?N = insert p (set (aCandidates ctx)) \<union> set (visitedList ctx)" using rel(2) by simp
        ultimately show ?thesis unfolding all by (simp only: Un_insert_left insert_absorb UnI2)
      qed
      ultimately show ?thesis
        using close [of ?N _ "heap ctx"] assms(6) by (intro exI [of _ "?c2\<lparr>nUnvisited := nUnvisited ctx + 1\<rparr>"])
          (simp add: same_ctx_def)
    next
      case False
      let ?c3 = "?c2\<lparr>nUnvisited := nUnvisited ctx - 1\<rparr>"
      have "?l \<in> dom (node_at ?c3)" using node by auto
      then obtain h2 where h2: "diskAnnNodeFree ?c3 ?l = Some (?c3\<lparr>heap := h2\<rparr>)"
        "node_at (?c3\<lparr>heap := h2\<rparr>) = (node_at ?c3)(?l := None)"
        using node_free by blast
      let ?c4 = "?c3\<lparr>heap := h2, nUnvisited := nUnvisited ctx - 1 + 1\<rparr>"
      have "dn_pBlobSpot m = None" using assms(2) m False by (simp add: bare_def)
      then have "diskAnnSearchCtxInsertCandidate ctx i p d = Some ?c4"
        using False node h2(1) by (simp add: I)
      moreover have "nUnvisited ctx - 1 + 1 = of_nat (opens ?b)" using op pos False rel(4) by simp
      moreover have N4: "node_at ?c4 = ?N(?l := None)"
        using h2(2) assms(6) node_at_cong [of ?c4 "?c3\<lparr>heap := h2\<rparr>"] by simp
      moreover have "dom (?N(?l := None)) = set (map fst ?zs') \<union> set (visitedList ctx)"
      proof -
        have "?l \<notin> set (visitedList ctx)" using rel(3) m False by simp
        then show ?thesis using rel(2) all ln lp by auto
      qed
      moreover have "?N(?l := None) \<subseteq>\<^sub>m ?N" by (auto simp: map_le_def)
      ultimately show ?thesis
        using close [of "?N(?l := None)" ?c4 h2] by (intro exI [of _ ?c4]) (simp add: same_ctx_def)
    qed
  qed
qed


text \<open>A candidate of the beam and its node.\<close>

lemma split_view:
  assumes "ctx_rel N ctx b" "bm_cands b = pre @ (r, d, v) # rest"
  obtains zp p zr n where "zip (aCandidates ctx) (aDistances ctx) = zp @ (p, d) # zr"
    "map (cand_view N) zp = pre" "map (cand_view N) zr = rest" "length zp = length pre"
    "aCandidates ctx = map fst zp @ p # map fst zr" "aDistances ctx = map snd zp @ d # map snd zr"
    "p \<notin> fst ` set zp" "p \<notin> fst ` set zr" "N p = Some n" "dn_nRowid n = r" "dn_visited n = v"
proof -
  note rel = ctx_relD [OF assms(1)] and bufs = bufs_okD [OF ctx_relD(1) [OF assms(1)]]
  let ?zs = "zip (aCandidates ctx) (aDistances ctx)"
  have "map (cand_view N) ?zs = pre @ (r, d, v) # rest" using rel(5) assms(2) by simp
  then obtain zp z zr where z: "?zs = zp @ z # zr" "map (cand_view N) zp = pre" "cand_view N z = (r, d, v)"
    "map (cand_view N) zr = rest"
    by (auto simp: map_eq_append_conv map_eq_Cons_conv)
  then obtain p where p: "z = (p, d)" "row_of N p = r" "dn_visited (the (N p)) = v"
    by (cases z) (simp add: cand_view_def)
  have c: "aCandidates ctx = map fst zp @ p # map fst zr" "aDistances ctx = map snd zp @ d # map snd zr"
    using arg_cong [OF z(1), of "map fst"] arg_cong [OF z(1), of "map snd"] bufs(1) p(1) by simp_all
  then have "p \<in> dom N" using rel(2) by auto
  moreover have "p \<notin> fst ` set zp" "p \<notin> fst ` set zr" using bufs(6) unfolding c(1) by auto
  ultimately show thesis using that z p c by (auto simp: row_of_def)
qed

lemma rest_view:
  assumes "p \<notin> fst ` set zs" shows "map (cand_view (N(p := x))) zs = map (cand_view N) zs"
proof (rule map_cong [OF refl])
  fix z assume "z \<in> set zs"
  then have "fst z \<noteq> p" using assms by blast
  then show "cand_view (N(p := x)) z = cand_view N z" using cand_view_cong [of "N(p := x)" "fst z" N "snd z"] by simp
qed

lemma mark_visited:
  assumes "ctx_rel (node_at ctx) ctx b" "bm_cands b = pre @ (r, d, False) # rest" "p = aCandidates ctx ! length pre"
    and "by_dist snd (bm_top b)"
  shows "\<exists>ctx' n. diskAnnSearchCtxMarkVisited ctx p e = Some ctx' \<and> same_ctx ctx ctx' \<and>
    ctx_rel (node_at ctx') ctx' (beam_visit (maxTopCandidates ctx) r e (pre @ (r, d, True) # rest) b) \<and>
    node_at ctx p = Some n \<and> node_at ctx' = (node_at ctx)(p \<mapsto> n\<lparr>dn_visited := True\<rparr>)"
proof -
  note rel = ctx_relD [OF assms(1)] and bufs = bufs_okD [OF ctx_relD(1) [OF assms(1)]]
  obtain zp p' zr n where z: "zip (aCandidates ctx) (aDistances ctx) = zp @ (p', d) # zr"
    "map (cand_view (node_at ctx)) zp = pre" "map (cand_view (node_at ctx)) zr = rest" "length zp = length pre"
    "aCandidates ctx = map fst zp @ p' # map fst zr" "aDistances ctx = map snd zp @ d # map snd zr"
    "p' \<notin> fst ` set zp" "p' \<notin> fst ` set zr" "node_at ctx p' = Some n" "dn_nRowid n = r" "\<not> dn_visited n"
    using split_view [OF assms(1,2)] by metis
  have p: "p' = p" unfolding assms(3) z(5) z(4) [symmetric] by (simp add: nth_append)
  note z = z [unfolded p]
  let ?N = "(node_at ctx)(p \<mapsto> n\<lparr>dn_visited := True\<rparr>)"
  have v: "p \<notin> set (visitedList ctx)" using rel(3) [OF z(9)] z(11) by simp
  have put: "node_at (node_put ctx p (n\<lparr>dn_visited := True\<rparr>)) = ?N" using z(9) by (intro node_at_put) auto
  let ?b = "beam_visit (maxTopCandidates ctx) r e (pre @ (r, d, True) # rest) b"
  have op: "opens b = Suc (opens ?b)" using assms(2) by (simp add: opens_def beam_visit_def)
  have nu: "nUnvisited ctx > 0" "nUnvisited ctx - 1 = of_nat (opens ?b)"
    using hasUnvisited_eq [OF assms(1)] op rel(4) by (simp_all add: open_iff diskAnnSearchCtxHasUnvisited_def)
  define ts where "ts = zip (aTopCandidates ctx) (aTopDistances ctx)"
  have ts: "aTopCandidates ctx = map fst ts" "aTopDistances ctx = map snd ts" "length ts \<le> maxTopCandidates ctx"
    using bufs(2,3) by (simp_all add: ts_def)
  have sorted: "successively f32_le (map snd ts)"
    using by_dist_successively [OF assms(4)] rel(7) by (simp add: ts_def top_view_def split_def comp_def)
  let ?ts = "keep (maxTopCandidates ctx) snd (p, e) ts"
  define c1 where "c1 = (node_put ctx p (n\<lparr>dn_visited := True\<rparr>))
    \<lparr>nUnvisited := nUnvisited ctx - 1, visitedList := p # visitedList ctx\<rparr>"
  define c2 where "c2 = c1\<lparr>aTopCandidates := map fst ?ts, aTopDistances := map snd ?ts\<rparr>"
  have "diskAnnSearchCtxMarkVisited ctx p e = Some c2"
  proof (cases "insertIdx (map snd ts) (maxTopCandidates ctx) e")
    case None
    then have "?ts = ts" using ts(3) by (intro insertIdx_None) simp_all
    then have "c2 = c1" using ts by (simp add: c2_def c1_def node_put_def)
    then show ?thesis
      using None sorted z(9,11) nu(1) ts(2) by (simp add: diskAnnSearchCtxMarkVisited_def c1_def node_put_def
          distanceBufferInsertIdx_def insertIdx_def split: option.splits if_splits)
  next
    case (Some i)
    note I = insertIdx_Some [OF Some ts(3)]
    show ?thesis
      using Some sorted z(9,11) nu(1) ts I(3) [of p] I(4) [of p] by (simp add: diskAnnSearchCtxMarkVisited_def c1_def c2_def
          distanceBufferInsertIdx_def insertIdx_def split: option.splits if_splits)
  qed
  moreover have N2: "node_at c2 = ?N" using put node_at_cong [of c2 "node_put ctx p (n\<lparr>dn_visited := True\<rparr>)"]
    by (simp add: c2_def c1_def)
  moreover have "ctx_rel ?N c2 ?b"
  proof -
    have row: "row_of ?N q = row_of (node_at ctx) q" for q using z(9) by (simp add: row_of_def)
    then have top: "top_view ?N = top_view (node_at ctx)" by (simp add: top_view_def)
    have "map (cand_view ?N) zp = pre" "map (cand_view ?N) zr = rest"
      using z(2,3,7,8) by (simp_all only: rest_view not_False_eq_True)
    then have cands: "map (cand_view ?N) (zip (aCandidates ctx) (aDistances ctx)) = pre @ (r, d, True) # rest"
      using z(1,10) by (simp add: cand_view_def row_of_def)
    have "map (top_view ?N) ?ts = keep (maxTopCandidates ctx) snd (r, e) (bm_top b)"
      using keep_top_view [of "maxTopCandidates ctx" ?N p e ts] rel(7) z(10) top
      by (simp add: ts_def top_view_def row_of_def)
    moreover have "set (map fst ?ts) \<subseteq> insert p (set (visitedList ctx))"
      using image_mono [OF keep_set [of "maxTopCandidates ctx" snd "(p, e)" ts], of fst] bufs(8) ts(1) by auto
    then have "bufs_ok c2"
      using bufs v keep_length [OF ts(3), of snd "(p, e)"] by (simp add: bufs_ok_def c2_def c1_def)
    moreover have "dom ?N = set (aCandidates ctx) \<union> set (p # visitedList ctx)"
      using rel(2) z(5) by auto
    moreover have "\<forall>q m. ?N q = Some m \<longrightarrow> dn_visited m = (q \<in> set (p # visitedList ctx))"
      using rel(3) by auto
    moreover have "map (row_of ?N) (visitedList ctx) = map fst (bm_log b)" unfolding rel(6) using row by simp
    ultimately show ?thesis
      using cands nu(2) z(9,10) by (simp add: ctx_rel_def c2_def c1_def beam_visit_def zip_map_fst_snd row_of_def)
  qed
  ultimately show ?thesis using z(9) by (intro exI [of _ c2] exI [of _ n]) (simp add: same_ctx_def c2_def c1_def)
qed


lemma delete_candidate:
  assumes "ctx_rel (node_at ctx) ctx b" "bare (node_at ctx)" "bm_cands b = pre @ (r, d, False) # rest"
  shows "\<exists>ctx'. diskAnnSearchCtxDeleteCandidate ctx (length pre) = Some ctx' \<and> same_ctx ctx ctx' \<and>
    ctx_rel (node_at ctx') ctx' (b\<lparr>bm_cands := pre @ rest\<rparr>) \<and>
    node_at ctx' = (node_at ctx)(aCandidates ctx ! length pre := None)"
proof -
  note rel = ctx_relD [OF assms(1)] and bufs = bufs_okD [OF ctx_relD(1) [OF assms(1)]]
  obtain zp p zr n where z: "zip (aCandidates ctx) (aDistances ctx) = zp @ (p, d) # zr"
    "map (cand_view (node_at ctx)) zp = pre" "map (cand_view (node_at ctx)) zr = rest" "length zp = length pre"
    "aCandidates ctx = map fst zp @ p # map fst zr" "aDistances ctx = map snd zp @ d # map snd zr"
    "p \<notin> fst ` set zp" "p \<notin> fst ` set zr" "node_at ctx p = Some n" "dn_nRowid n = r" "\<not> dn_visited n"
    using split_view [OF assms(1,3)] by metis
  let ?b = "b\<lparr>bm_cands := pre @ rest\<rparr>"
  have p: "aCandidates ctx ! length pre = p" using z(4,5) by (simp add: nth_append)
  have op: "opens b = Suc (opens ?b)" using assms(3) by (simp add: opens_def)
  have nu: "nUnvisited ctx > 0" "nUnvisited ctx - 1 = of_nat (opens ?b)"
    using hasUnvisited_eq [OF assms(1)] op rel(4) by (simp_all add: open_iff diskAnnSearchCtxHasUnvisited_def)
  obtain h where h: "diskAnnNodeFree ctx p = Some (ctx\<lparr>heap := h\<rparr>)" "node_at (ctx\<lparr>heap := h\<rparr>) = (node_at ctx)(p := None)"
    using node_free [of p ctx] z(9) by blast
  let ?N = "(node_at ctx)(p := None)"
  define c1 where "c1 = ctx\<lparr>heap := h, aCandidates := map fst (zp @ zr), aDistances := map snd (zp @ zr),
    nUnvisited := nUnvisited ctx - 1\<rparr>"
  have N: "node_at c1 = ?N" using h(2) node_at_cong [of c1 "ctx\<lparr>heap := h\<rparr>"] by (simp add: c1_def)
  have "dn_pBlobSpot n = None" using assms(2) z(9,11) by (auto simp: bare_def)
  then have "diskAnnSearchCtxDeleteCandidate ctx (length pre) = Some c1"
    using nu(1) z(9,11) h(1) p z(4)
    by (simp add: diskAnnSearchCtxDeleteCandidate_def bufferDelete_def c1_def z(5,6) nth_append)
  moreover have "ctx_rel ?N c1 ?b"
  proof -
    have v: "p \<notin> set (visitedList ctx)" using rel(3) [OF z(9)] z(11) by simp
    then have row: "row_of ?N q = row_of (node_at ctx) q" if "q \<in> set (visitedList ctx)" for q
      using that by (auto simp: row_of_def)
    have "map (cand_view ?N) zp = pre" "map (cand_view ?N) zr = rest"
      using z(2,3,7,8) by (simp_all only: rest_view not_False_eq_True)
    moreover have "bufs_ok c1" using bufs unfolding bufs_ok_def c1_def z(5,6) by auto
    moreover have "dom ?N = fst ` set zp \<union> fst ` set zr \<union> set (visitedList ctx)"
      using rel(2) z(7,8) v unfolding z(5) by auto
    moreover have "\<forall>q m. ?N q = Some m \<longrightarrow> dn_visited m = (q \<in> set (visitedList ctx))"
      using rel(3) by auto
    moreover have "map (row_of ?N) (visitedList ctx) = map fst (bm_log b)" unfolding rel(6) using row by simp
    moreover have "map (top_view ?N) (zip (aTopCandidates ctx) (aTopDistances ctx)) = bm_top b"
      using row bufs(8) unfolding rel(7) by (auto simp: top_view_def dest!: set_zip_leftD)
    moreover have "zip (aCandidates c1) (aDistances c1) = zp @ zr"
      using zip_map_fst_snd [of "zp @ zr"] by (simp add: c1_def)
    ultimately show ?thesis
      using nu(2) by (simp add: ctx_rel_def) (simp add: c1_def image_Un)
  qed
  ultimately show ?thesis using N p by (intro exI [of _ c1]) (simp add: same_ctx_def c1_def)
qed

lemma find_closest:
  assumes "ctx_rel (node_at ctx) ctx b" "bm_cands b = pre @ (r, d, False) # rest" "\<forall>c \<in> set pre. \<not> cand_open c"
    and "by_dist cand_dist (bm_cands b)"
  shows "diskAnnSearchCtxFindClosestCandidateIdx ctx = Some (Some (length pre))"
    "diskAnnSearchCtxGetCandidate ctx (length pre) = Some (aCandidates ctx ! length pre, d)"
proof -
  obtain zp p zr n where z: "map (cand_view (node_at ctx)) zp = pre" "length zp = length pre"
    "aCandidates ctx = map fst zp @ p # map fst zr" "aDistances ctx = map snd zp @ d # map snd zr"
    "node_at ctx p = Some n" "\<not> dn_visited n"
    using split_view [OF assms(1,2)] by metis
  have "firstUnvisited ctx (map fst zp @ p # map fst zr) k = Some (Some (k + length zp))"
    if "\<forall>z \<in> set zp. fst z \<in> dom (node_at ctx) \<and> \<not> cand_open (cand_view (node_at ctx) z)" for k
    using that z(5,6)
  proof (induction zp arbitrary: k)
    case (Cons y zp)
    then have "dn_visited (the (node_at ctx (fst y)))" "fst y \<in> dom (node_at ctx)"
      by (cases y; simp add: cand_view_def)+
    then show ?case using Cons by auto
  qed simp
  moreover have "\<forall>z \<in> set zp. fst z \<in> dom (node_at ctx) \<and> \<not> cand_open (cand_view (node_at ctx) z)"
    using assms(3) ctx_relD(2) [OF assms(1)] unfolding z(1) [symmetric] z(3) by auto
  moreover have "successively f32_le (aDistances ctx)"
    using by_dist_successively [OF assms(4)] ctx_relD(5) [OF assms(1)] bufs_okD(1) [OF ctx_relD(1) [OF assms(1)]]
    by (simp add: cand_view_def cand_dist_def comp_def split_def)
  ultimately show "diskAnnSearchCtxFindClosestCandidateIdx ctx = Some (Some (length pre))"
    using z(2) by (simp add: diskAnnSearchCtxFindClosestCandidateIdx_def z(3))
  show "diskAnnSearchCtxGetCandidate ctx (length pre) = Some (aCandidates ctx ! length pre, d)"
    using z(2) by (simp add: diskAnnSearchCtxGetCandidate_def z(3,4) nth_append)
qed


subsection \<open>The graph in the store\<close>

definition block_vec :: "'c DiskAnnIndex \<Rightarrow> bytes \<Rightarrow> vector" where
  "block_vec ix blk = vectorInitStatic (nNodeVectorType ix) (nVectorDims ix) (drop (hdr_size ix) blk)"

definition edge_vec :: "'c DiskAnnIndex \<Rightarrow> bytes \<Rightarrow> nat \<Rightarrow> vector" where
  "edge_vec ix blk i = vectorInitStatic (nEdgeVectorType ix) (nVectorDims ix) (drop (vec_off ix i) blk)"

text \<open>The edges of a block with their distances to the query, and the whole graph.\<close>

definition edge_dist :: "'c DiskAnnIndex \<Rightarrow> VectorPair \<Rightarrow> bytes \<Rightarrow> nat \<Rightarrow> u64 \<times> f32" where
  "edge_dist ix q blk i =
     (fst (edge_at ix blk i), the (diskAnnVectorDistance ix (the (vp_pEdge q)) (edge_vec ix blk i)))"

definition node_dist :: "'c DiskAnnIndex \<Rightarrow> VectorPair \<Rightarrow> bytes \<Rightarrow> f32 option" where
  "node_dist ix q blk =
     (if vp_nodeType q \<noteq> vp_edgeType q then diskAnnVectorDistance ix (block_vec ix blk) (the (vp_pNode q)) else None)"

definition search_graph :: "'c DiskAnnIndex \<Rightarrow> (bytes \<times> bytes) list \<Rightarrow> VectorPair \<Rightarrow> beam_graph" where
  "search_graph ix kvs q r =
     map_option (\<lambda>blk. (node_dist ix q blk, map (edge_dist ix q blk) [0..<edge_count blk])) (node_table ix kvs r)"

text \<open>
  The distance is one the metric has for the types of the index: there is no L2 distance of 1-bit
  vectors (\<open>vectorDistanceL2\<close> runs \<open>assert(0)\<close>).
\<close>

definition dist_ok :: "'c DiskAnnIndex \<Rightarrow> bool" where
  "dist_ok ix \<longleftrightarrow> nDistanceFunc ix = 1
     \<or> nDistanceFunc ix = 2 \<and> nNodeVectorType ix \<noteq> FLOAT1BIT \<and> nEdgeVectorType ix \<noteq> FLOAT1BIT"

definition graph_ok :: "'c DiskAnnIndex \<Rightarrow> (bytes \<times> bytes) list \<Rightarrow> bool" where
  "graph_ok ix kvs \<longleftrightarrow> index_ok ix \<and> table_ok ix kvs \<and>
     (\<forall>r blk. node_table ix kvs r = Some blk \<longrightarrow> edge_count blk \<le> max_edges ix)"

definition pair_ok :: "'c DiskAnnIndex \<Rightarrow> VectorPair \<Rightarrow> bool" where
  "pair_ok ix q \<longleftrightarrow> vp_nodeType q = nNodeVectorType ix \<and> vp_edgeType q = nEdgeVectorType ix \<and>
     (\<exists>v. vp_pNode q = Some v \<and> fits (nNodeVectorType ix) (nVectorDims ix) v) \<and>
     (\<exists>v. vp_pEdge q = Some v \<and> fits (nEdgeVectorType ix) (nVectorDims ix) v)"

lemma distance_some:
  assumes "index_ok ix" "dist_ok ix"
  shows "fits (nNodeVectorType ix) (nVectorDims ix) u \<Longrightarrow> fits (nNodeVectorType ix) (nVectorDims ix) v \<Longrightarrow>
      \<exists>d. diskAnnVectorDistance ix u v = Some d"
    "fits (nEdgeVectorType ix) (nVectorDims ix) u \<Longrightarrow> fits (nEdgeVectorType ix) (nVectorDims ix) v \<Longrightarrow>
      \<exists>d. diskAnnVectorDistance ix u v = Some d"
  using assms distances_defined [of u v] by (auto simp: diskAnnVectorDistance_def fits_def index_ok_def dist_ok_def)

lemma block_vec_fits:
  assumes "index_ok ix" "int (length blk) = nBlockSize ix"
  shows "fits (nNodeVectorType ix) (nVectorDims ix) (block_vec ix blk)"
    "i < max_edges ix \<Longrightarrow> fits (nEdgeVectorType ix) (nVectorDims ix) (edge_vec ix blk i)"
  using block_bounds [OF assms ok_block(1) [OF assms(1)]] block_bounds(1) [OF assms, of i]
  by (simp_all add: fits_def vectorInitStatic_def well_sized_def block_vec_def edge_vec_def
      node_size_def [symmetric] edge_size_def [symmetric])

lemma nodeBinVector_ok:
  assumes "index_ok ix" "node_ok ix sp" shows "nodeBinVector ix sp = Some (block_vec ix (pBuffer sp))"
proof -
  have l: "int (length (pBuffer sp)) = nBlockSize ix" "nBufferSize sp = nBlockSize ix"
    using assms(2) by (simp_all add: node_ok_def)
  note b = block_bounds [OF assms(1) l(1) ok_block(1) [OF assms(1)]]
  then show ?thesis
    using l ok_sizes(1) [OF assms(1)] by (simp add: nodeBinVector_def vector_in_def block_vec_def hdr_size_int)
qed

definition keeps :: "(nat \<Rightarrow> DiskAnnNode option) \<Rightarrow> (nat \<Rightarrow> DiskAnnNode option) \<Rightarrow> bool" where
  "keeps N N' \<longleftrightarrow> (\<forall>q m. N' q = Some m \<and> dn_pBlobSpot m \<noteq> None \<longrightarrow> N q = Some m)"

lemma keeps_bare: "keeps N N' \<Longrightarrow> bare N \<Longrightarrow> bare N'"
  unfolding keeps_def bare_def by blast

lemma keeps_trans: "keeps N N' \<Longrightarrow> keeps N' N'' \<Longrightarrow> keeps N N''"
  unfolding keeps_def by blast

lemma anyRowid_seen:
  assumes "ctx_rel (node_at ctx) ctx b"
  shows "diskAnnSearchCtxIsVisited ctx r = Some (r \<in> fst ` set (bm_log b))"
    "diskAnnSearchCtxHasCandidate ctx r = Some (r \<in> fst ` set (bm_cands b))"
  using ctx_relD(2) [OF assms] seen_rows [OF assms]
  by (simp_all add: diskAnnSearchCtxIsVisited_def diskAnnSearchCtxHasCandidate_def anyRowid_eq row_of_def)

lemma edges_loop:
  assumes "graph_ok ix kvs" "dist_ok ix" "pair_ok ix (query ctx)" "node_ok ix sp" "set is \<subseteq> {0..<edge_count (pBuffer sp)}"
    and "ctx_rel (node_at ctx) ctx b" "bare (node_at ctx)"
  shows "\<exists>ctx'. edgesLoop ix sp is ctx = Some ctx' \<and> same_ctx ctx ctx' \<and>
    ctx_rel (node_at ctx') ctx'
      (foldl (beam_edge (maxCandidates ctx)) b (map (edge_dist ix (query ctx) (pBuffer sp)) is)) \<and>
    keeps (node_at ctx) (node_at ctx') \<and> visitedList ctx' = visitedList ctx \<and>
    (\<forall>q \<in> set (visitedList ctx). node_at ctx' q = node_at ctx q)"
  using assms(3,5-)
proof (induction "is" arbitrary: ctx b)
  case (Cons i "is")
  have ix: "index_ok ix" "dist_ok ix" using assms(1,2) by (simp_all add: graph_ok_def)
  have i: "i < max_edges ix" "int (length (pBuffer sp)) = nBlockSize ix"
    using assms(4) Cons.prems(2) by (simp_all add: node_ok_def)
  note e = nodeBinEdge_ok [OF ix(1) assms(4) i(1)]
  let ?r = "fst (edge_at ix (pBuffer sp) i)" and ?v = "edge_vec ix (pBuffer sp) i"
  obtain qe where qe: "vp_pEdge (query ctx) = Some qe" "fits (nEdgeVectorType ix) (nVectorDims ix) qe"
    using Cons.prems(1) by (auto simp: pair_ok_def)
  obtain d where d: "diskAnnVectorDistance ix qe ?v = Some d"
    using distance_some(2) [OF ix qe(2) block_vec_fits(2) [OF ix(1) i(2,1)]] by blast
  have ed: "edge_dist ix (query ctx) (pBuffer sp) i = (?r, d)" using qe(1) d by (simp add: edge_dist_def)
  note seen = anyRowid_seen [OF Cons.prems(3), of ?r]
  show ?case
  proof (cases "?r \<in> seen b")
    case True
    then have "beam_edge (maxCandidates ctx) b (?r, d) = b" by (simp add: beam_edge_def)
    moreover have "edgesLoop ix sp (i # is) ctx = edgesLoop ix sp is ctx"
      using True seen e by (auto simp: seen_def)
    ultimately show ?thesis using Cons.IH [OF Cons.prems(1) _ Cons.prems(3,4)] Cons.prems(2) ed by simp
  next
    case False
    let ?k = "maxCandidates ctx"
    note rel = ctx_relD [OF Cons.prems(3)] and bufs = bufs_okD [OF ctx_relD(1) [OF Cons.prems(3)]]
    have dists: "map cand_dist (bm_cands b) = aDistances ctx" and len: "length (bm_cands b) \<le> ?k"
      using rel(5) bufs(1,4) by (simp_all add: cand_view_def cand_dist_def comp_def split_def)
    have add: "diskAnnSearchCtxShouldAddCandidate ctx d = insertIdx (aDistances ctx) ?k d"
      using bufs(1) by (simp add: diskAnnSearchCtxShouldAddCandidate_def insertIdx_def cong: option.case_cong)
    have edge: "beam_edge ?k b (?r, d) = b\<lparr>bm_cands := keep ?k cand_dist (?r, d, False) (bm_cands b)\<rparr>"
      using False by (simp add: beam_edge_def)
    show ?thesis
    proof (cases "insertIdx (aDistances ctx) ?k d")
      case None
      then have "beam_edge ?k b (?r, d) = b"
        using insertIdx_None [of cand_dist "bm_cands b" ?k "(?r, d, False)"] dists len edge by simp
      moreover have "edgesLoop ix sp (i # is) ctx = edgesLoop ix sp is ctx"
        using False seen e qe d add None by (simp add: seen_def edge_vec_def)
      ultimately show ?thesis using Cons.IH [OF Cons.prems(1) _ Cons.prems(3,4)] Cons.prems(2) ed by simp
    next
      case (Some j)
      obtain p c1 where p: "diskAnnNodeAlloc ctx ?r = (p, c1)" by (cases "diskAnnNodeAlloc ctx ?r")
      let ?n = "\<lparr>dn_nRowid = ?r, dn_visited = False, dn_pBlobSpot = None\<rparr>"
      obtain h where h: "p \<notin> dom (node_at ctx)" "node_at c1 = (node_at ctx)(p \<mapsto> ?n)" "c1 = ctx\<lparr>heap := h\<rparr>"
        using node_alloc [OF p] by blast
      have "insertIdx (aDistances c1) (maxCandidates c1) d = Some j" using Some h(3) by simp
      from insert_candidate [OF Cons.prems(3,4) h(1) _ h(3,2) _ this, of ?r]
      obtain c2 where c2: "diskAnnSearchCtxInsertCandidate c1 j p d = Some c2" "same_ctx c1 c2"
        "ctx_rel (node_at c2) c2 (beam_edge ?k b (?r, d))" "node_at c2 \<subseteq>\<^sub>m (node_at ctx)(p \<mapsto> ?n)"
        "visitedList c2 = visitedList ctx"
        using h(3) edge by auto
      have sub: "\<And>q m. node_at c2 q = Some m \<Longrightarrow> ((node_at ctx)(p \<mapsto> ?n)) q = Some m"
        using c2(4) by (metis domI map_le_def)
      have k: "keeps (node_at ctx) (node_at c2)"
        unfolding keeps_def
      proof (intro allI impI)
        fix q m assume "node_at c2 q = Some m \<and> dn_pBlobSpot m \<noteq> None"
        then show "node_at ctx q = Some m" using sub [of q m] by (cases "q = p") auto
      qed
      have same: "same_ctx ctx c2" using c2(2) h(3) by (simp add: same_ctx_def)
      have vis: "node_at c2 q = node_at ctx q" if "q \<in> set (visitedList ctx)" for q
      proof -
        have "q \<in> dom (node_at c2)" "q \<noteq> p" using that ctx_relD(2) [OF c2(3)] c2(5) rel(2) h(1) by auto
        then show ?thesis using sub [of q] by auto
      qed
      have "edgesLoop ix sp (i # is) ctx = edgesLoop ix sp is c2"
        using False seen e qe d add Some p c2(1) by (simp add: seen_def edge_vec_def)
      moreover have "pair_ok ix (query c2)" using Cons.prems(1) same by (simp add: same_ctx_def)
      moreover note Cons.IH [OF this _ c2(3) keeps_bare [OF k Cons.prems(4)]]
      ultimately obtain c3 where c3: "edgesLoop ix sp (i # is) ctx = Some c3" "same_ctx c2 c3"
        "ctx_rel (node_at c3) c3 (foldl (beam_edge (maxCandidates c2)) (beam_edge ?k b (?r, d))
           (map (edge_dist ix (query c2) (pBuffer sp)) is))"
        "keeps (node_at c2) (node_at c3)" "visitedList c3 = visitedList ctx"
        "\<forall>q \<in> set (visitedList ctx). node_at c3 q = node_at c2 q"
        using Cons.prems(2) c2(5) by auto
      then show ?thesis
        using same ed keeps_trans [OF k] vis by (intro exI [of _ c3]) (simp add: same_ctx_def)
    qed
  qed
qed (auto simp: same_ctx_def keeps_def)

end
