(* ===== verification/SearchLoop.thy ===== *)
theory SearchLoop
  imports SearchRefine
begin

unbundle bit_operations_syntax

subsection \<open>Blobs of the search\<close>

text \<open>
  A reader has one blob for all nodes; a writer has one in every node it visited, which holds
  the block of that node.
\<close>

definition blob_of :: "'c DiskAnnIndex \<Rightarrow> (bytes \<times> bytes) list \<Rightarrow> u64 \<Rightarrow> BlobSpot \<Rightarrow> bool" where
  "blob_of ix kvs r sp \<longleftrightarrow>
     spot_sized ix sp \<and> bs_nRowid sp = r \<and> isInitialized sp \<and> node_table ix kvs r = Some (pBuffer sp)"

definition reader_ok :: "'c DiskAnnIndex \<Rightarrow> (bytes \<times> bytes) list \<Rightarrow> BlobSpot \<Rightarrow> bool" where
  "reader_ok ix kvs sp \<longleftrightarrow> spot_sized ix sp \<and> (isInitialized sp \<longrightarrow> node_table ix kvs (bs_nRowid sp) = Some (pBuffer sp))"

definition blobs_ok ::
  "'c DiskAnnIndex \<Rightarrow> (bytes \<times> bytes) list \<Rightarrow> (nat \<Rightarrow> DiskAnnNode option) \<Rightarrow> bool \<Rightarrow> BlobSpot option \<Rightarrow> bool" where
  "blobs_ok ix kvs N mode reuse \<longleftrightarrow>
     (if mode
      then reuse = None \<and> (\<forall>q n. N q = Some n \<longrightarrow> (case dn_pBlobSpot n of
             None \<Rightarrow> \<not> dn_visited n | Some sp \<Rightarrow> blob_of ix kvs (dn_nRowid n) sp \<and> isWritable sp))
      else (\<exists>sp. reuse = Some sp \<and> reader_ok ix kvs sp) \<and> (\<forall>q n. N q = Some n \<longrightarrow> dn_pBlobSpot n = None))"

lemma same_index_graph:
  assumes "same_index ix ix'"
  shows "graph_ok ix' = graph_ok ix" "pair_ok ix' = pair_ok ix" "search_graph ix' = search_graph ix"
    "blobs_ok ix' = blobs_ok ix" "edge_dist ix' = edge_dist ix" "node_dist ix' = node_dist ix"
    "diskAnnVectorDistance ix' = diskAnnVectorDistance ix" "blob_of ix' = blob_of ix"
    "block_vec ix' = block_vec ix" "dist_ok ix' = dist_ok ix"
proof -
  note s = same_index_sel [OF assms] and l = same_index_layout [OF assms]
  have o: "vec_off ix' = vec_off ix" "hdr_size ix' = hdr_size ix"
    by (auto simp: fun_eq_iff vec_off_def hdr_size_def node_size_def edge_size_def s)
  show v: "block_vec ix' = block_vec ix" by (simp add: fun_eq_iff block_vec_def o s)
  show d: "diskAnnVectorDistance ix' = diskAnnVectorDistance ix" by (simp add: fun_eq_iff diskAnnVectorDistance_def s)
  show e: "edge_dist ix' = edge_dist ix" by (simp add: fun_eq_iff edge_dist_def edge_vec_def d l o s)
  show n: "node_dist ix' = node_dist ix" by (simp add: fun_eq_iff node_dist_def block_vec_def d l o s)
  show "graph_ok ix' = graph_ok ix" by (simp add: fun_eq_iff graph_ok_def l s)
  show "dist_ok ix' = dist_ok ix" by (simp add: dist_ok_def s)
  show "pair_ok ix' = pair_ok ix" by (simp add: fun_eq_iff pair_ok_def s)
  show "search_graph ix' = search_graph ix" by (simp add: fun_eq_iff search_graph_def e n l)
  show b: "blob_of ix' = blob_of ix" by (simp add: fun_eq_iff blob_of_def l)
  have c: "reader_ok ix' = reader_ok ix" by (simp add: fun_eq_iff reader_ok_def l)
  show "blobs_ok ix' = blobs_ok ix" by (intro ext) (simp only: blobs_ok_def b c)
qed

text \<open>Giving a node its blob changes nothing the beam shows.\<close>

lemma ctx_rel_blob:
  assumes "ctx_rel (node_at ctx) ctx b" "node_at ctx p = Some n"
  shows "ctx_rel (node_at (node_put ctx p (n\<lparr>dn_pBlobSpot := x\<rparr>))) (node_put ctx p (n\<lparr>dn_pBlobSpot := x\<rparr>)) b"
    "node_at (node_put ctx p (n\<lparr>dn_pBlobSpot := x\<rparr>)) = (node_at ctx)(p \<mapsto> n\<lparr>dn_pBlobSpot := x\<rparr>)"
proof -
  let ?N = "(node_at ctx)(p \<mapsto> n\<lparr>dn_pBlobSpot := x\<rparr>)"
  show N: "node_at (node_put ctx p (n\<lparr>dn_pBlobSpot := x\<rparr>)) = ?N" using assms(2) by (intro node_at_put) auto
  have row: "row_of ?N = row_of (node_at ctx)" using assms(2) by (auto simp: row_of_def fun_eq_iff)
  have "dn_visited (the (?N q)) = dn_visited (the (node_at ctx q))" for q using assms(2) by simp
  then have "cand_view ?N = cand_view (node_at ctx)" "top_view ?N = top_view (node_at ctx)"
    using row by (simp_all add: cand_view_def top_view_def del: fun_upd_apply)
  moreover have "dom ?N = dom (node_at ctx)" using assms(2) by auto
  moreover have "\<forall>q m. ?N q = Some m \<longrightarrow> dn_visited m = (q \<in> set (visitedList ctx))"
    using ctx_relD(3) [OF assms(1)] assms(2) by auto
  ultimately show "ctx_rel (node_at (node_put ctx p (n\<lparr>dn_pBlobSpot := x\<rparr>))) (node_put ctx p (n\<lparr>dn_pBlobSpot := x\<rparr>)) b"
    using assms(1) row unfolding N by (simp add: ctx_rel_def bufs_ok_def del: fun_upd_apply)
qed

context kv_store
begin

text \<open>Reading the block of a row, or finding that there is none.\<close>

lemma reload_reader:
  assumes "good s" "table_ok ix (contents s)" "reader_ok ix (contents s) sp"
  shows "\<exists>ix' s' sp'. same_index ix ix' \<and> good s' \<and> contents s' = contents s \<and> reader_ok ix (contents s) sp' \<and>
    isWritable sp' = isWritable sp \<and>
    (case node_table ix (contents s) r of
       Some blk \<Rightarrow> blobSpotReload m ix s sp r (nBlockSize ix) = Some (SQLITE4_OK, ix', s', sp') \<and>
         blob_of ix (contents s) r sp'
     | None \<Rightarrow> blobSpotReload m ix s sp r (nBlockSize ix) = Some (DISKANN_ROW_NOT_FOUND, ix', s', sp'))"
proof (cases "bs_nRowid sp = r \<and> isInitialized sp")
  case True
  then show ?thesis
    using reload_cached [of ix sp r s] assms by (auto simp: reader_ok_def blob_of_def intro!: exI [of _ ix] exI [of _ s])
next
  case False
  have sz: "spot_sized ix sp" using assms(3) by (simp add: reader_ok_def)
  obtain ix' s' where r: "same_index ix ix'" "good s'" "contents s' = contents s"
    "blobSpotReload m ix s sp r (nBlockSize ix) =
      Some (case node_table ix (contents s) r of
              Some b \<Rightarrow> (SQLITE4_OK, ix', s',
                 sp\<lparr>bs_nRowid := r, pBuffer := b, isInitialized := True, isAborted := False\<rparr>)
            | None \<Rightarrow> (DISKANN_ROW_NOT_FOUND, ix', s',
                 sp\<lparr>bs_nRowid := r, isInitialized := False, isAborted := False\<rparr>))"
    using reload_fresh [OF assms(1,2) sz False] by blast
  show ?thesis
  proof (cases "node_table ix (contents s) r")
    case None
    then show ?thesis using r sz
      by (intro exI [of _ ix'] exI [of _ s'] exI [of _ "sp\<lparr>bs_nRowid := r, isInitialized := False, isAborted := False\<rparr>"])
        (simp add: reader_ok_def spot_sized_def)
  next
    case (Some blk)
    then show ?thesis using r sz table_entry(1) [OF assms(2) Some]
      by (intro exI [of _ ix'] exI [of _ s'] exI [of _ "sp\<lparr>bs_nRowid := r, pBuffer := blk, isInitialized := True, isAborted := False\<rparr>"])
        (simp add: reader_ok_def spot_sized_def blob_of_def)
  qed
qed

lemma create_reader:
  assumes "0 < nBlockSize ix"
  shows "\<exists>sp. blobSpotCreate junk r (nBlockSize ix) w = Some sp \<and> reader_ok ix kvs sp \<and> isWritable sp = w"
  using assms by (simp add: blobSpotCreate_def reader_ok_def spot_sized_def)

lemma load_candidate:
  assumes "good s" "graph_ok ix (contents s)" "blobs_ok ix (contents s) (node_at ctx) (blobMode ctx) reuse"
    and "ctx_rel (node_at ctx) ctx b" "node_at ctx p = Some n" "\<not> dn_visited n"
    and "blobMode ctx \<longrightarrow> node_table ix (contents s) (dn_nRowid n) \<noteq> None"
  shows "\<exists>ix' s' sp ctx' reuse' rc. loadCandidate junk m (ix, s, ctx, reuse) p = Some (rc, sp, (ix', s', ctx', reuse')) \<and>
    same_index ix ix' \<and> good s' \<and> contents s' = contents s \<and> same_ctx ctx ctx' \<and>
    blobs_ok ix (contents s) (node_at ctx') (blobMode ctx) reuse' \<and> ctx_rel (node_at ctx') ctx' b \<and>
    aCandidates ctx' = aCandidates ctx \<and>
    (case node_table ix (contents s) (dn_nRowid n) of
       Some blk \<Rightarrow> rc = SQLITE4_OK \<and> blob_of ix (contents s) (dn_nRowid n) sp \<and>
         node_at ctx' = (node_at ctx)(p \<mapsto> n\<lparr>dn_pBlobSpot := if blobMode ctx then Some sp else None\<rparr>) 
     | None \<Rightarrow> rc = DISKANN_ROW_NOT_FOUND \<and> ctx' = ctx)"
proof (cases "blobMode ctx")
  case False
  then obtain sp where sp: "reuse = Some sp" "reader_ok ix (contents s) sp" "dn_pBlobSpot n = None"
    using assms(3,5) by (auto simp: blobs_ok_def)
  have "table_ok ix (contents s)" using assms(2) by (simp add: graph_ok_def)
  from reload_reader [OF assms(1) this sp(2), of "dn_nRowid n"]
  obtain ix' s' sp' where r: "same_index ix ix'" "good s'" "contents s' = contents s" "reader_ok ix (contents s) sp'"
    "case node_table ix (contents s) (dn_nRowid n) of
       Some blk \<Rightarrow> blobSpotReload m ix s sp (dn_nRowid n) (nBlockSize ix) = Some (SQLITE4_OK, ix', s', sp') \<and>
         blob_of ix (contents s) (dn_nRowid n) sp'
     | None \<Rightarrow> blobSpotReload m ix s sp (dn_nRowid n) (nBlockSize ix) = Some (DISKANN_ROW_NOT_FOUND, ix', s', sp')"
    by blast
  have N: "(node_at ctx)(p \<mapsto> n\<lparr>dn_pBlobSpot := None\<rparr>) = node_at ctx" using assms(5) sp(3) by (intro ext) (auto; cases n; simp)
  show ?thesis
    using r(5) assms(3,4,5) False sp(1) r(1-4) N
    by (intro exI [of _ ix'] exI [of _ s'] exI [of _ sp'] exI [of _ ctx] exI [of _ "Some sp'"])
      (auto simp: loadCandidate_def same_ctx_def blobs_ok_def split: option.splits)
next
  case True
  obtain blk where blk: "node_table ix (contents s) (dn_nRowid n) = Some blk" using assms(7) True by blast
  have t: "table_ok ix (contents s)" "0 < nBlockSize ix" using assms(2) by (simp_all add: graph_ok_def table_ok_def)
  obtain sp where sp: "(case dn_pBlobSpot n of Some sp \<Rightarrow> Some sp
      | None \<Rightarrow> blobSpotCreate junk (dn_nRowid n) (nBlockSize ix) (blobMode ctx)) = Some sp"
    "reader_ok ix (contents s) sp" "isWritable sp"
  proof (cases "dn_pBlobSpot n")
    case None
    then show ?thesis using create_reader [OF t(2), of junk "dn_nRowid n" True] True that by auto
  next
    case (Some sp)
    then have "blob_of ix (contents s) (dn_nRowid n) sp" "isWritable sp" using assms(3,5) True by (force simp: blobs_ok_def)+
    then show ?thesis using Some that by (simp add: reader_ok_def blob_of_def)
  qed
  from reload_reader [OF assms(1) t(1) sp(2), of "dn_nRowid n"]
  obtain ix' s' sp' where r: "same_index ix ix'" "good s'" "contents s' = contents s" "isWritable sp'"
    "blobSpotReload m ix s sp (dn_nRowid n) (nBlockSize ix) = Some (SQLITE4_OK, ix', s', sp')"
    "blob_of ix (contents s) (dn_nRowid n) sp'"
    using sp(3) blk by auto
  have reuse: "reuse = None" using assms(3) True by (simp add: blobs_ok_def)
  note c = ctx_rel_blob [OF assms(4,5), of "Some sp'"]
  have "loadCandidate junk m (ix, s, ctx, reuse) p =
      Some (SQLITE4_OK, sp', ix', s', node_put ctx p (n\<lparr>dn_pBlobSpot := Some sp'\<rparr>), None)"
    using reuse assms(5) sp(1) r(5) by (simp add: loadCandidate_def)
  moreover have "blobs_ok ix (contents s) ((node_at ctx)(p \<mapsto> n\<lparr>dn_pBlobSpot := Some sp'\<rparr>)) True None"
    using assms(3) True r(4,6) by (simp add: blobs_ok_def)
  ultimately show ?thesis
    using c r True blk
    by (intro exI [of _ ix'] exI [of _ s'] exI [of _ sp'] exI [of _ "node_put ctx p (n\<lparr>dn_pBlobSpot := Some sp'\<rparr>)"]
        exI [of _ None] exI [of _ SQLITE4_OK]) (simp add: same_ctx_def)
qed

end

subsection \<open>One step of the loop\<close>

text \<open>
  The distances a search from \<open>r0\<close> meets are numbers. With a NaN among them the buffers need not be
  sorted, and the assertions of a debug build that they are would fail.
\<close>

definition comparable :: "'c DiskAnnIndex \<Rightarrow> (bytes \<times> bytes) list \<Rightarrow> VectorPair \<Rightarrow> u64 \<Rightarrow> bool" where
  "comparable ix kvs q r0 \<longleftrightarrow> numbers (search_graph ix kvs q) r0 \<and>
     (\<forall>blk v d. node_table ix kvs r0 = Some blk \<longrightarrow> vp_pNode q = Some v \<longrightarrow>
        diskAnnVectorDistance ix v (block_vec ix blk) = Some d \<longrightarrow> \<not> f32_nan d)"

definition search_inv ::
  "('s \<Rightarrow> bool) \<Rightarrow> ('s \<Rightarrow> (bytes \<times> bytes) list) \<Rightarrow> 'c DiskAnnIndex \<Rightarrow> (bytes \<times> bytes) list
     \<Rightarrow> DiskAnnSearchCtx \<Rightarrow> ('s, 'c) search_state \<Rightarrow> beam \<Rightarrow> bool" where
  "search_inv good contents ix0 kvs ctx0 st b \<longleftrightarrow>
     (case st of (ix, s, ctx, reuse) \<Rightarrow>
        same_index ix0 ix \<and> good s \<and> contents s = kvs \<and> same_ctx ctx0 ctx \<and> ctx_rel (node_at ctx) ctx b \<and>
        blobs_ok ix0 kvs (node_at ctx) (blobMode ctx0) reuse \<and>
        (bare (node_at ctx) \<or> (\<exists>p. dom (node_at ctx) = {p})))"

lemma same_ctx_trans: "same_ctx a b \<Longrightarrow> same_ctx b c \<Longrightarrow> same_ctx a c"
  by (simp add: same_ctx_def)

lemma same_ctx_sel:
  assumes "same_ctx a b"
  shows "query b = query a" "maxCandidates b = maxCandidates a" "maxTopCandidates b = maxTopCandidates a"
    "blobMode b = blobMode a"
  using assms by (simp_all add: same_ctx_def)

lemma blob_node_ok:
  assumes "graph_ok ix kvs" "blob_of ix kvs r sp" shows "node_ok ix sp"
  using assms by (auto simp: graph_ok_def blob_of_def node_ok_def spot_sized_def)

lemma node_dist_some:
  assumes "graph_ok ix kvs" "dist_ok ix" "pair_ok ix q" "int (length blk) = nBlockSize ix"
  shows "(if vp_nodeType q \<noteq> vp_edgeType q
          then Option.bind (vp_pNode q) (\<lambda>v. diskAnnVectorDistance ix (block_vec ix blk) v) else Some d) =
     Some (case node_dist ix q blk of Some e \<Rightarrow> e | None \<Rightarrow> d)"
proof -
  have ix: "index_ok ix" "dist_ok ix" using assms(1,2) by (simp_all add: graph_ok_def)
  obtain v where v: "vp_pNode q = Some v" "fits (nNodeVectorType ix) (nVectorDims ix) v"
    using assms(3) by (auto simp: pair_ok_def)
  obtain e where "diskAnnVectorDistance ix (block_vec ix blk) v = Some e"
    using distance_some(1) [OF ix block_vec_fits(1) [OF ix(1) assms(4)] v(2)] by blast
  then show ?thesis using v by (simp add: node_dist_def)
qed

text \<open>The loop over the edges keeps the blobs.\<close>

lemma blobs_ok_keeps:
  assumes "blobs_ok ix kvs N mode reuse" "keeps N N'" "\<And>q n. N' q = Some n \<Longrightarrow> dn_visited n \<Longrightarrow> N q = Some n"
  shows "blobs_ok ix kvs N' mode reuse"
proof (cases mode)
  case False
  then have none: "dn_pBlobSpot n = None" if "N q = Some n" for q n using assms(1) that by (simp add: blobs_ok_def)
  have "dn_pBlobSpot n = None" if "N' q = Some n" for q n
    using assms(2) none [of q n] that unfolding keeps_def by blast
  then show ?thesis using assms(1) False by (simp add: blobs_ok_def)
next
  case True
  have "case dn_pBlobSpot n of None \<Rightarrow> \<not> dn_visited n | Some sp \<Rightarrow> blob_of ix kvs (dn_nRowid n) sp \<and> isWritable sp"
    if n: "N' q = Some n" for q n
  proof (cases "dn_pBlobSpot n = None \<and> \<not> dn_visited n")
    case False
    then have "N q = Some n" using assms(2,3) n unfolding keeps_def by blast
    then show ?thesis using assms(1) True unfolding blobs_ok_def by metis
  qed simp
  then show ?thesis using assms(1) True by (simp add: blobs_ok_def)
qed

context kv_store
begin

lemma search_step:
  assumes "graph_ok ix0 kvs" "pair_ok ix0 (query ctx0)" "search_inv good contents ix0 kvs ctx0 st b" "beam_open b"
    and "G = search_graph ix0 kvs (query ctx0)" "beam_ok L K G r0 b"
    and "L = maxCandidates ctx0" "K = maxTopCandidates ctx0"
    and "blobMode ctx0 \<longrightarrow> beam_reach G r0 \<subseteq> dom G" "beam_sorted b" "dist_ok ix0"
  shows "\<exists>st'. searchStep junk m st = Some (Inl st') \<and>
    search_inv good contents ix0 kvs ctx0 st' (beam_step L K G b)"
proof -
  obtain ix s ctx reuse where st: "st = (ix, s, ctx, reuse)" by (cases st)
  have inv: "same_index ix0 ix" "good s" "contents s = kvs" "same_ctx ctx0 ctx" "ctx_rel (node_at ctx) ctx b"
    "blobs_ok ix0 kvs (node_at ctx) (blobMode ctx0) reuse" "bare (node_at ctx) \<or> (\<exists>p. dom (node_at ctx) = {p})"
    using assms(3) by (simp_all add: search_inv_def st)
  note sc = same_ctx_sel [OF inv(4)] and si = same_index_graph [OF inv(1)] and lay = same_index_layout [OF inv(1)]
  obtain pre r d rest where o: "bm_cands b = pre @ (r, d, False) # rest" "\<forall>c \<in> set pre. \<not> cand_open c"
    "takeWhile (\<lambda>c. \<not> cand_open c) (bm_cands b) = pre" "dropWhile (\<lambda>c. \<not> cand_open c) (bm_cands b) = (r, d, False) # rest"
    using open_split [OF assms(4)] by metis
  obtain zp p zr n where z0: "zip (aCandidates ctx) (aDistances ctx) = zp @ (p, d) # zr"
    "map (cand_view (node_at ctx)) zp = pre" "map (cand_view (node_at ctx)) zr = rest" "length zp = length pre"
    "aCandidates ctx = map fst zp @ p # map fst zr" "aDistances ctx = map snd zp @ d # map snd zr"
    "p \<notin> fst ` set zp" "p \<notin> fst ` set zr" "node_at ctx p = Some n" "dn_nRowid n = r" "\<not> dn_visited n"
    using split_view [OF inv(5) o(1)] by metis
  note z = z0(5,4,9-11)
  have p: "aCandidates ctx ! length pre = p" using z(1,2) by (simp add: nth_append)
  note fc = find_closest [OF inv(5) o(1,2) beam_sortedD(1) [OF assms(10)], unfolded p]
  have r: "r \<in> beam_reach G r0" using beam_okD(8) [OF assms(6)] o(1) by auto
  have G: "G r = None \<longleftrightarrow> node_table ix0 kvs r = None" by (simp add: assms(5) search_graph_def)
  have md: "blobMode ctx \<longrightarrow> node_table ix (contents s) (dn_nRowid n) \<noteq> None"
    using assms(9) r G sc(4) z(4) lay inv(3) by auto
  have g0: "graph_ok ix (contents s)" "blobs_ok ix (contents s) (node_at ctx) (blobMode ctx) reuse"
    using assms(1) inv(3,6) sc(4) si by simp_all
  note load = load_candidate [OF inv(2) g0 inv(5) z(3,5) md, of junk, unfolded inv(3) sc(4) z(4) si lay]
  obtain ix' s' sp ctx' reuse' rc where ld:
    "loadCandidate junk m (ix, s, ctx, reuse) p = Some (rc, sp, ix', s', ctx', reuse')"
    "same_index ix ix'" "good s'" "contents s' = kvs" "same_ctx ctx ctx'"
    "blobs_ok ix0 kvs (node_at ctx') (blobMode ctx0) reuse'" "ctx_rel (node_at ctx') ctx' b"
    "aCandidates ctx' = aCandidates ctx"
    "case node_table ix0 kvs r of
       Some blk \<Rightarrow> rc = SQLITE4_OK \<and> blob_of ix0 kvs r sp \<and>
         node_at ctx' = (node_at ctx)(p \<mapsto> n\<lparr>dn_pBlobSpot := if blobMode ctx0 then Some sp else None\<rparr>)
     | None \<Rightarrow> rc = DISKANN_ROW_NOT_FOUND \<and> ctx' = ctx"
    using load by blast
  have t: "table_ok ix0 kvs" using assms(1) by (simp add: graph_ok_def)
  have hu: "diskAnnSearchCtxHasUnvisited ctx" using hasUnvisited_eq [OF inv(5)] assms(4) by simp
  have six: "same_index ix0 ix'" by (rule same_index_trans [OF inv(1) ld(2)])
  have sct: "same_ctx ctx0 ctx'" by (rule same_ctx_trans [OF inv(4) ld(5)])
  show ?thesis
  proof (cases "node_table ix0 kvs r")
    case None
    then have rc: "rc = DISKANN_ROW_NOT_FOUND" "ctx' = ctx" using ld(9) by simp_all
    have G0: "G r = None" using None G by simp
    then have mode: "\<not> blobMode ctx0" using assms(9) r by auto
    then have "bare (node_at ctx)" using inv(6) by (simp add: blobs_ok_def bare_def)
    from delete_candidate [OF inv(5) this o(1)]
    obtain ctx2 where c2: "diskAnnSearchCtxDeleteCandidate ctx (length pre) = Some ctx2" "same_ctx ctx ctx2"
      "ctx_rel (node_at ctx2) ctx2 (b\<lparr>bm_cands := pre @ rest\<rparr>)" "node_at ctx2 = (node_at ctx)(p := None)"
      using p by blast
    have step: "beam_step L K G b = b\<lparr>bm_cands := pre @ rest\<rparr>" using o G0 by (simp add: beam_step_def)
    have "blobs_ok ix0 kvs (node_at ctx2) (blobMode ctx0) reuse'" "bare (node_at ctx2)"
      using ld(6) rc(2) mode unfolding c2(4) by (auto simp: blobs_ok_def bare_def)
    then have "search_inv good contents ix0 kvs ctx0 (ix', s', ctx2, reuse') (beam_step L K G b)"
      using six ld(3,4) same_ctx_trans [OF inv(4) c2(2)] c2(3) step by (simp add: search_inv_def)
    moreover have "searchStep junk m st = Some (Inl (ix', s', ctx2, reuse'))"
      using hu fc ld(1) rc c2(1) by (simp add: searchStep_def st)
    ultimately show ?thesis by blast
  next
    case (Some blk)
    then have rc: "rc = SQLITE4_OK" and sp: "blob_of ix0 kvs r sp" "pBuffer sp = blk"
      and N1: "node_at ctx' = (node_at ctx)(p \<mapsto> n\<lparr>dn_pBlobSpot := if blobMode ctx0 then Some sp else None\<rparr>)"
      using ld(9) by (auto simp: blob_of_def)
    note si' = same_index_graph [OF six] and lay' = same_index_layout [OF six] and sc' = same_ctx_sel [OF sct]
    have g: "graph_ok ix' kvs" "pair_ok ix' (query ctx')" "node_ok ix' sp" "index_ok ix'" "dist_ok ix'"
      using assms(1,2,11) blob_node_ok [OF assms(1) sp(1)] by (simp_all add: si' lay' sc' graph_ok_def)
    have len: "int (length blk) = nBlockSize ix'" using g(3) sp(2) by (simp add: node_ok_def)
    obtain w where w: "nodeBinEdges ix' sp = Some w" "unat w = edge_count blk"
      using nodeBinEdges_ok [OF g(4,3)] sp(2) by blast
    define e where "e = (case node_dist ix' (query ctx') blk of Some e \<Rightarrow> e | None \<Rightarrow> d)"
    have p': "p = aCandidates ctx' ! length pre" using p ld(8) by simp
    let ?v = "beam_visit K r e (pre @ (r, d, True) # rest) b"
    obtain ctx2 n' where c2: "diskAnnSearchCtxMarkVisited ctx' p e = Some ctx2" "same_ctx ctx' ctx2"
      "ctx_rel (node_at ctx2) ctx2 ?v" "node_at ctx' p = Some n'" "node_at ctx2 = (node_at ctx')(p \<mapsto> n'\<lparr>dn_visited := True\<rparr>)"
      using mark_visited [OF ld(7) o(1) p' beam_sortedD(2) [OF assms(10)], of e] assms(8) sc'(3) by auto
    have n': "n' = n\<lparr>dn_pBlobSpot := if blobMode ctx0 then Some sp else None\<rparr>" using c2(4) N1 by simp
    have bare2: "bare (node_at ctx2)"
      using inv(7)
    proof
      assume "\<exists>p. dom (node_at ctx) = {p}"
      then have "dom (node_at ctx) = {p}" using z(3) by (metis domI singletonD)
      then have "\<And>q. q \<noteq> p \<Longrightarrow> node_at ctx q = None" by (metis domI singletonD option.exhaust)
      then show ?thesis unfolding c2(5) N1 bare_def by simp
    qed (auto simp: c2(5) N1 bare_def)
    have "isWritable sp" if "blobMode ctx0" using ld(6) c2(4) that unfolding n' blobs_ok_def by fastforce
    then have blobs2: "blobs_ok ix0 kvs (node_at ctx2) (blobMode ctx0) reuse'"
      using ld(6) c2(4) sp(1) z(4) unfolding c2(5) n' blobs_ok_def by (auto simp: blob_of_def)
    have q2: "pair_ok ix' (query ctx2)" using g(2) same_ctx_sel(1) [OF c2(2)] by simp
    from edges_loop [OF g(1,5) q2 g(3) _ c2(3) bare2, of "[0..<unat w]"]
    obtain ctx3 where c3: "edgesLoop ix' sp [0..<unat w] ctx2 = Some ctx3" "same_ctx ctx2 ctx3"
      "ctx_rel (node_at ctx3) ctx3 (foldl (beam_edge L) ?v (map (edge_dist ix' (query ctx2) blk) [0..<edge_count blk]))"
      "keeps (node_at ctx2) (node_at ctx3)" "visitedList ctx3 = visitedList ctx2"
      "\<forall>q \<in> set (visitedList ctx2). node_at ctx3 q = node_at ctx2 q"
      using w(2) sp(2) same_ctx_sel(2) [OF c2(2)] sc'(2) assms(7) by auto
    have q3: "query ctx2 = query ctx0" "query ctx' = query ctx0" using same_ctx_sel(1) [OF c2(2)] sc'(1) by simp_all
    have Gr: "G r = Some (node_dist ix' (query ctx') blk, map (edge_dist ix' (query ctx2) blk) [0..<edge_count blk])"
      using Some by (simp add: assms(5) search_graph_def si' q3)
    have step: "beam_step L K G b = foldl (beam_edge L) ?v (map (edge_dist ix' (query ctx2) blk) [0..<edge_count blk])"
      using o Gr by (simp add: beam_step_def e_def)
    have "blobs_ok ix0 kvs (node_at ctx3) (blobMode ctx0) reuse'"
      using blobs2 c3(4)
    proof (rule blobs_ok_keeps)
      fix q k assume "node_at ctx3 q = Some k" "dn_visited k"
      then show "node_at ctx2 q = Some k" using ctx_relD(3) [OF c3(3)] c3(5,6) by metis
    qed
    then have "search_inv good contents ix0 kvs ctx0 (ix', s', ctx3, reuse') (beam_step L K G b)"
      using six ld(3,4) same_ctx_trans [OF sct same_ctx_trans [OF c2(2) c3(2)]] c3(3) step keeps_bare [OF c3(4) bare2]
      by (simp add: search_inv_def)
    moreover have "searchStep junk m st = Some (Inl (ix', s', ctx3, reuse'))"
      using hu fc ld(1) rc w(1) c2(1) c3(1) nodeBinVector_ok [OF g(4,3)] node_dist_some [OF g(1,5,2) len, of d] sp(2)
      by (simp add: searchStep_def st e_def)
    ultimately show ?thesis by blast
  qed
qed

end

text \<open>The query of a search for \<open>v\<close>, whose distances are numbers from any row.\<close>

definition query_pair :: "(nat \<Rightarrow> u8) \<Rightarrow> 'c DiskAnnIndex \<Rightarrow> vector \<Rightarrow> VectorPair option" where
  "query_pair junk ix v =
     loadVectorPair (initVectorPair junk (nNodeVectorType ix) (nEdgeVectorType ix) (nVectorDims ix)) v"

definition comparable_vector :: "(nat \<Rightarrow> u8) \<Rightarrow> 'c DiskAnnIndex \<Rightarrow> (bytes \<times> bytes) list \<Rightarrow> vector \<Rightarrow> bool" where
  "comparable_vector junk ix kvs v \<longleftrightarrow> (\<forall>q r. query_pair junk ix v = Some q \<longrightarrow> comparable ix kvs q r)"

lemma init_query: "diskAnnSearchCtxInit junk ix v L K mode = Some (rc, ctx) \<Longrightarrow> query_pair junk ix v = Some (query ctx)"
  by (auto simp: diskAnnSearchCtxInit_def query_pair_def Let_def c_assert_bind split: if_splits bind_splits)

subsection \<open>The loop and the search\<close>

lemma while_option_steps:
  assumes "while_option P f s = Some t"
  shows "\<exists>k. t = (f ^^ k) s \<and> \<not> P t \<and> (\<forall>i < k. P ((f ^^ i) s))"
proof -
  let ?k = "LEAST k. \<not> P ((f ^^ k) s)"
  have ex: "\<exists>k. \<not> P ((f ^^ k) s)" and t: "t = (f ^^ ?k) s"
    using assms by (auto simp: while_option_def split: if_splits)
  have "\<not> P ((f ^^ ?k) s)" using ex by (rule LeastI_ex)
  moreover have "\<forall>i < ?k. P ((f ^^ i) s)" using not_less_Least by blast
  ultimately show ?thesis using t by blast
qed

text \<open>Tearing the context down frees every node once.\<close>

lemma free_unvisited:
  assumes "distinct ps" "set ps \<subseteq> dom (node_at ctx)"
  shows "\<exists>h. freeUnvisited ctx ps = Some (ctx\<lparr>heap := h\<rparr>) \<and>
    node_at (ctx\<lparr>heap := h\<rparr>) = (\<lambda>q. if q \<in> set ps \<and> \<not> dn_visited (the (node_at ctx q)) then None else node_at ctx q)"
  using assms
proof (induction ps arbitrary: ctx)
  case (Cons p ps)
  obtain n where n: "node_at ctx p = Some n" using Cons.prems(2) by auto
  show ?case
  proof (cases "dn_visited n")
    case True
    obtain h where h: "freeUnvisited ctx ps = Some (ctx\<lparr>heap := h\<rparr>)"
      "node_at (ctx\<lparr>heap := h\<rparr>) = (\<lambda>q. if q \<in> set ps \<and> \<not> dn_visited (the (node_at ctx q)) then None else node_at ctx q)"
      using Cons.IH [of ctx] Cons.prems by auto
    then show ?thesis using True n by (intro exI [of _ h]) (auto simp: fun_eq_iff)
  next
    case False
    obtain h1 where h1: "diskAnnNodeFree ctx p = Some (ctx\<lparr>heap := h1\<rparr>)" "node_at (ctx\<lparr>heap := h1\<rparr>) = (node_at ctx)(p := None)"
      using node_free [of p ctx] n by auto
    have sub: "set ps \<subseteq> dom (node_at (ctx\<lparr>heap := h1\<rparr>))"
      using Cons.prems by (simp add: h1(2) subset_Diff_insert)
    obtain h where h: "freeUnvisited (ctx\<lparr>heap := h1\<rparr>) ps = Some (ctx\<lparr>heap := h1, heap := h\<rparr>)"
      "node_at (ctx\<lparr>heap := h1, heap := h\<rparr>) =
        (\<lambda>q. if q \<in> set ps \<and> \<not> dn_visited (the (node_at (ctx\<lparr>heap := h1\<rparr>) q)) then None else node_at (ctx\<lparr>heap := h1\<rparr>) q)"
      using Cons.IH [OF _ sub] Cons.prems(1) by auto
    then show ?thesis using False n h1 Cons.prems(1) by (intro exI [of _ h]) (auto simp: fun_eq_iff)
  qed
next
  case (Nil ctx)
  show ?case by (intro exI [of _ "heap ctx"]) simp
qed

lemma free_all:
  assumes "distinct ps" "set ps \<subseteq> dom (node_at ctx)"
  shows "\<exists>h. freeAll ctx ps = Some (ctx\<lparr>heap := h\<rparr>) \<and>
    node_at (ctx\<lparr>heap := h\<rparr>) = (\<lambda>q. if q \<in> set ps then None else node_at ctx q)"
  using assms
proof (induction ps arbitrary: ctx)
  case (Cons p ps)
  obtain h1 where h1: "diskAnnNodeFree ctx p = Some (ctx\<lparr>heap := h1\<rparr>)" "node_at (ctx\<lparr>heap := h1\<rparr>) = (node_at ctx)(p := None)"
    using node_free [of p ctx] Cons.prems by auto
  have sub: "set ps \<subseteq> dom (node_at (ctx\<lparr>heap := h1\<rparr>))"
      using Cons.prems by (simp add: h1(2) subset_Diff_insert)
    obtain h where h: "freeAll (ctx\<lparr>heap := h1\<rparr>) ps = Some (ctx\<lparr>heap := h1, heap := h\<rparr>)"
    "node_at (ctx\<lparr>heap := h1, heap := h\<rparr>) = (\<lambda>q. if q \<in> set ps then None else node_at (ctx\<lparr>heap := h1\<rparr>) q)"
    using Cons.IH [OF _ sub] Cons.prems(1) by auto
  then show ?case using h1 by (intro exI [of _ h]) (auto simp: fun_eq_iff)
next
  case (Nil ctx)
  show ?case by (intro exI [of _ "heap ctx"]) simp
qed

lemma deinit_ok:
  assumes "ctx_rel (node_at ctx) ctx b" "ctxBuffers ctx"
  shows "\<exists>ctx'. diskAnnSearchCtxDeinit ctx = Some ctx' \<and> node_at ctx' = Map.empty \<and> \<not> ctxBuffers ctx'"
proof -
  note rel = ctx_relD [OF assms(1)] and bufs = bufs_okD [OF ctx_relD(1) [OF assms(1)]]
  obtain h where h: "freeUnvisited ctx (aCandidates ctx) = Some (ctx\<lparr>heap := h\<rparr>)"
    "node_at (ctx\<lparr>heap := h\<rparr>) =
      (\<lambda>q. if q \<in> set (aCandidates ctx) \<and> \<not> dn_visited (the (node_at ctx q)) then None else node_at ctx q)"
    using free_unvisited [OF bufs(6)] rel(2) by blast
  have vis: "dn_visited (the (node_at ctx q)) = (q \<in> set (visitedList ctx))" if "q \<in> dom (node_at ctx)" for q
    using rel(3) that by auto
  have N: "node_at (ctx\<lparr>heap := h\<rparr>) q = (if q \<in> set (visitedList ctx) then node_at ctx q else None)" for q
    using vis [of q] rel(2) unfolding h(2) by (cases "q \<in> dom (node_at ctx)") (auto simp: domIff)
  have "set (visitedList ctx) \<subseteq> dom (node_at (ctx\<lparr>heap := h\<rparr>))"
  proof
    fix q assume q: "q \<in> set (visitedList ctx)"
    then have "q \<in> dom (node_at ctx)" using rel(2) by simp
    then show "q \<in> dom (node_at (ctx\<lparr>heap := h\<rparr>))" using q N [of q] by (simp add: domIff)
  qed
  from free_all [OF _ this] obtain h2 where h2: "freeAll (ctx\<lparr>heap := h\<rparr>) (visitedList ctx) = Some (ctx\<lparr>heap := h, heap := h2\<rparr>)"
    "node_at (ctx\<lparr>heap := h, heap := h2\<rparr>) = (\<lambda>q. if q \<in> set (visitedList ctx) then None else node_at (ctx\<lparr>heap := h\<rparr>) q)"
    using bufs(7) by auto
  have "node_at (ctx\<lparr>heap := h2\<rparr>) = Map.empty" using h2(2) N by (auto simp: fun_eq_iff)
  moreover have "node_at (ctx\<lparr>heap := h2, ctxBuffers := False\<rparr>) = node_at (ctx\<lparr>heap := h2\<rparr>)" by (rule node_at_cong) simp
  ultimately show ?thesis using h(1) h2(1) assms(2)
    by (intro exI [of _ "ctx\<lparr>heap := h2, ctxBuffers := False\<rparr>"]) (simp add: diskAnnSearchCtxDeinit_def)
qed

text \<open>The rows of an index are finitely many.\<close>

lemma finite_table: "finite (dom (node_table ix kvs))"
proof -
  have "blobSpotBuildKey ix ` dom (node_table ix kvs) \<subseteq> dom (map_of kvs)" by (auto simp: node_table_def)
  then have "finite (blobSpotBuildKey ix ` dom (node_table ix kvs))" using finite_dom_map_of finite_subset by blast
  moreover have "inj_on (blobSpotBuildKey ix) (dom (node_table ix kvs))" by (rule inj_onI) (simp add: key_inj)
  ultimately show ?thesis by (rule finite_imageD)
qed

lemma finite_graph: "finite (dom (search_graph ix kvs q))"
proof -
  have "dom (search_graph ix kvs q) = dom (node_table ix kvs)" by (auto simp: search_graph_def)
  then show ?thesis by (simp add: finite_table)
qed


text \<open>The context before the search.\<close>

definition fresh_ctx :: "DiskAnnSearchCtx \<Rightarrow> bool" where
  "fresh_ctx ctx \<longleftrightarrow> heap ctx = [] \<and> aCandidates ctx = [] \<and> aDistances ctx = [] \<and> aTopCandidates ctx = [] \<and>
     aTopDistances ctx = [] \<and> visitedList ctx = [] \<and> nUnvisited ctx = 0 \<and> ctxBuffers ctx"

lemma init_fresh:
  assumes "diskAnnSearchCtxInit junk ix v L K mode = Some (SQLITE4_OK, ctx)"
  shows "fresh_ctx ctx" "maxCandidates ctx = L" "maxTopCandidates ctx = K" "blobMode ctx = mode" "vp_pNode (query ctx) = Some v" "0 < L" "0 < K" "L < 2 ^ 31" "ctxBuffers ctx"
  using assms by (auto simp: diskAnnSearchCtxInit_def fresh_ctx_def loadVectorPair_def sqlite4Malloc_def Let_def c_assert_bind
      split: if_splits bind_splits)

definition no_beam :: beam where "no_beam = \<lparr>bm_cands = [], bm_log = [], bm_top = []\<rparr>"

lemma fresh_rel:
  assumes "fresh_ctx ctx" "maxCandidates ctx < 2 ^ 31" shows "ctx_rel Map.empty ctx no_beam"
  using assms by (simp add: fresh_ctx_def ctx_rel_def bufs_ok_def no_beam_def opens_def)

context kv_store
begin

lemma search_loop:
  assumes "graph_ok ix0 kvs" "pair_ok ix0 (query ctx0)" "search_inv good contents ix0 kvs ctx0 st b"
    and "G = search_graph ix0 kvs (query ctx0)" "beam_ok L K G r0 b"
    and "L = maxCandidates ctx0" "K = maxTopCandidates ctx0"
    and "blobMode ctx0 \<longrightarrow> beam_reach G r0 \<subseteq> dom G"
    and "while_option beam_open (beam_step L K G) b = Some b'" "beam_sorted b" "numbers G r0" "dist_ok ix0"
  shows "\<exists>st'. searchLoop junk m st = Some (SQLITE4_OK, st') \<and> search_inv good contents ix0 kvs ctx0 st' b'"
proof -
  obtain k where k: "b' = (beam_step L K G ^^ k) b" "\<not> beam_open b'" "\<forall>i < k. beam_open ((beam_step L K G ^^ i) b)"
    using while_option_steps [OF assms(9)] by blast
  from assms(3,5) k assms(10) show ?thesis
  proof (induction k arbitrary: st b)
    case 0
    obtain ix s ctx reuse where st: "st = (ix, s, ctx, reuse)" by (cases st)
    have "\<not> diskAnnSearchCtxHasUnvisited ctx"
      using 0 hasUnvisited_eq [of "node_at ctx" ctx b] by (simp add: search_inv_def st)
    then have "searchStep junk m st = Some (Inr (SQLITE4_OK, st))" by (simp add: searchStep_def st)
    then show ?case using 0 by (simp add: searchLoop.simps [of junk m st])
  next
    case (Suc k)
    have open_b: "beam_open b" using Suc.prems(5) by force
    obtain st1 where st1: "searchStep junk m st = Some (Inl st1)" "search_inv good contents ix0 kvs ctx0 st1 (beam_step L K G b)"
      using search_step [OF assms(1,2) Suc.prems(1) open_b assms(4) Suc.prems(2) assms(6,7,8) Suc.prems(6) assms(12)] by blast
    have "\<forall>i < k. beam_open ((beam_step L K G ^^ i) (beam_step L K G b))"
      using Suc.prems(5) by (metis Suc_mono funpow_simps_right(2) comp_apply)
    moreover have "b' = (beam_step L K G ^^ k) (beam_step L K G b)" using Suc.prems(3) by (simp add: funpow_swap1)
    ultimately obtain st' where "searchLoop junk m st1 = Some (SQLITE4_OK, st')" "search_inv good contents ix0 kvs ctx0 st' b'"
      using Suc.IH [OF st1(2) beam_ok_step [OF Suc.prems(2) open_b]] Suc.prems(4)
        beam_sorted_step [OF Suc.prems(2) open_b Suc.prems(6) assms(11)] by blast
    then show ?case using st1(1) by (simp add: searchLoop.simps [of junk m st])
  qed
qed

lemma search_internal:
  assumes "good s" "graph_ok ix (contents s)" "fresh_ctx ctx" "pair_ok ix (query ctx)"
    and "0 < maxCandidates ctx" "maxCandidates ctx < 2 ^ 31" "node_table ix (contents s) r0 = Some blk"
    and "G = search_graph ix (contents s) (query ctx)" "vp_pNode (query ctx) = Some v"
    and "blobMode ctx \<longrightarrow> beam_reach G r0 \<subseteq> dom G" "comparable ix (contents s) (query ctx) r0" "dist_ok ix"
  shows "\<exists>d b ix' s' ctx'. diskAnnVectorDistance ix v (block_vec ix blk) = Some d \<and>
    beam_search (maxCandidates ctx) (maxTopCandidates ctx) G r0 d = Some b \<and>
    diskAnnSearchInternal junk m ix s ctx r0 = Some (SQLITE4_OK, ix', s', ctx') \<and>
    same_index ix ix' \<and> good s' \<and> contents s' = contents s \<and> same_ctx ctx ctx' \<and> ctx_rel (node_at ctx') ctx' b \<and>
    (blobMode ctx \<longrightarrow> blobs_ok ix (contents s) (node_at ctx') True None)"
proof -
  have t: "table_ok ix (contents s)" "0 < nBlockSize ix" "index_ok ix" "dist_ok ix"
    using assms(2,12) by (simp_all add: graph_ok_def table_ok_def)
  let ?L = "maxCandidates ctx" and ?K = "maxTopCandidates ctx" and ?kvs = "contents s"
  obtain p c1 where p: "diskAnnNodeAlloc ctx r0 = (p, c1)" by (cases "diskAnnNodeAlloc ctx r0")
  have N: "node_at ctx = Map.empty" using assms(3) by (auto simp: fresh_ctx_def node_at_def)
  note a = node_alloc [OF p]
  then obtain h1 where c1: "c1 = ctx\<lparr>heap := h1\<rparr>" by blast
  let ?n = "\<lparr>dn_nRowid = r0, dn_visited = False, dn_pBlobSpot = None\<rparr>"
  obtain sp0 where sp0: "blobSpotCreate junk r0 (nBlockSize ix) (blobMode c1) = Some sp0" "reader_ok ix ?kvs sp0"
    "isWritable sp0 = blobMode c1" using create_reader [OF t(2)] by blast
  obtain ix1 s1 sp where r: "same_index ix ix1" "good s1" "contents s1 = ?kvs" "isWritable sp = blobMode c1"
    "blobSpotReload m ix s sp0 r0 (nBlockSize ix) = Some (SQLITE4_OK, ix1, s1, sp)" "blob_of ix ?kvs r0 sp"
    using reload_reader [OF assms(1) t(1) sp0(2), of r0] assms(7) sp0(3) by auto
  note si = same_index_graph [OF r(1)] and lay = same_index_layout [OF r(1)]
  have blk: "pBuffer sp = blk" using r(6) assms(7) by (simp add: blob_of_def)
  have nok: "node_ok ix sp" by (rule blob_node_ok [OF assms(2) r(6)])
  then have vec: "nodeBinVector ix1 sp = Some (block_vec ix blk)"
    using nodeBinVector_ok [of ix1 sp] t(3) blk by (simp add: lay si)
  have "int (length blk) = nBlockSize ix" using nok blk by (simp add: node_ok_def)
  then obtain d where d: "diskAnnVectorDistance ix v (block_vec ix blk) = Some d"
    using distance_some(1) [OF t(3,4) _ block_vec_fits(1) [OF t(3)]] assms(4,9) by (auto simp: pair_ok_def)
  have cmp: "\<not> f32_nan d" "numbers G r0" using assms(7,8,9,11) d by (auto simp: comparable_def)
  define n' where "n' = (if blobMode c1 then ?n\<lparr>dn_pBlobSpot := Some sp\<rparr> else ?n)"
  define c2 where "c2 = (if blobMode c1 then node_put c1 p n' else c1)"
  define reuse where "reuse = (if blobMode c1 then None else Some sp)"
  have N1: "node_at c1 = Map.empty(p \<mapsto> ?n)" using a N by simp
  have N2: "node_at c2 = Map.empty(p \<mapsto> n')"
    using N1 node_at_put [of p c1 n'] by (cases "blobMode c1") (simp_all add: c2_def n'_def)
  have "c2 = ctx\<lparr>heap := heap c2\<rparr>" by (simp add: c2_def node_put_def c1)
  then obtain h2 where c2: "c2 = ctx\<lparr>heap := h2\<rparr>" "node_at c2 = Map.empty(p \<mapsto> n')" using N2 by blast
  have ds: "aDistances c2 = []" "maxCandidates c2 = ?L" using assms(3) c2(1) by (simp_all add: fresh_ctx_def)
  have rel0: "ctx_rel Map.empty ctx no_beam" by (rule fresh_rel [OF assms(3,6)])
  have "insertIdx (aDistances c2) (maxCandidates c2) d = Some 0" using ds assms(5) by (simp add: insertIdx_def)
  moreover have n': "\<not> dn_visited n'" "dn_nRowid n' = r0" by (simp_all add: n'_def)
  moreover have start: "no_beam\<lparr>bm_cands := keep (maxCandidates c2) cand_dist (r0, d, False) (bm_cands no_beam)\<rparr> = beam_start r0 d"
    using ds(2) assms(5) by (simp add: keep_def no_beam_def beam_start_def take_Cons')
  moreover have "bare Map.empty" by (simp add: bare_def)
  ultimately obtain c3 where c3: "diskAnnSearchCtxInsertCandidate c2 0 p d = Some c3" "same_ctx c2 c3"
    "ctx_rel (node_at c3) c3 (beam_start r0 d)" "node_at c3 \<subseteq>\<^sub>m Map.empty(p \<mapsto> n')"
    using insert_candidate [OF rel0 _ _ _ c2(1,2), of r0 d 0] by auto
  have only: "m' = n'" if "node_at c3 q = Some m'" for q m'
    using c3(4) that by (metis domI fun_upd_apply map_le_def option.inject option.distinct(1))
  have sc: "same_ctx ctx c3" using c3(2) c2(1) by (simp add: same_ctx_def)
  have "blobs_ok ix ?kvs (node_at c3) (blobMode ctx) reuse"
  proof (cases "blobMode ctx")
    case True
    then have "case dn_pBlobSpot n' of None \<Rightarrow> \<not> dn_visited n' | Some sp \<Rightarrow> blob_of ix ?kvs (dn_nRowid n') sp \<and> isWritable sp"
      "reuse = None"
      using r(4,6) c1 by (simp_all add: n'_def reuse_def)
    then show ?thesis using only True unfolding blobs_ok_def by metis
  next
    case False
    then have "dn_pBlobSpot n' = None" "reuse = Some sp" "reader_ok ix ?kvs sp"
      using r(6) c1 by (simp_all add: n'_def reuse_def reader_ok_def blob_of_def)
    then show ?thesis using only False unfolding blobs_ok_def by metis
  qed
  moreover have "\<exists>p. dom (node_at c3) = {p}"
  proof -
    note rel = ctx_relD [OF c3(3)] and bufs = bufs_okD [OF ctx_relD(1) [OF c3(3)]]
    have "visitedList c3 = []" using rel(6) by (simp add: beam_start_def)
    moreover have "length (bm_cands (beam_start r0 d)) = length (aCandidates c3)" using rel(5) bufs(1) by simp
    then have "length (aCandidates c3) = 1" by (simp add: beam_start_def)
    ultimately have "visitedList c3 = []" "length (aCandidates c3) = 1" by simp_all
    then show ?thesis using rel(2) by (auto simp: length_Suc_conv)
  qed
  ultimately have inv: "search_inv good contents ix ?kvs ctx (ix1, s1, c3, reuse) (beam_start r0 d)"
    using r(1-3) sc c3(3) by (simp add: search_inv_def)
  obtain b where b: "beam_search ?L ?K G r0 d = Some b"
    using beam_search_ends [OF _ assms(5), of G ?K r0 d] finite_graph assms(8) by blast
  obtain ix2 s2 c4 reuse2 where st: "searchLoop junk m (ix1, s1, c3, reuse) = Some (SQLITE4_OK, ix2, s2, c4, reuse2)"
    "search_inv good contents ix ?kvs ctx (ix2, s2, c4, reuse2) b"
    using search_loop [OF assms(2,4) inv assms(8) beam_ok_start [OF assms(5)] refl refl assms(10) b [unfolded beam_search_def]
        beam_sorted_start [OF cmp(1)] cmp(2) assms(12), of junk]
    by (metis prod_cases4)
  have "diskAnnSearchInternal junk m ix s ctx r0 = Some (SQLITE4_OK, ix2, s2, c4)"
    using p sp0(1) r(5) vec d assms(9) a c1 c3(1) st(1)
    by (simp add: diskAnnSearchInternal_def si c2_def n'_def reuse_def split: if_splits)
  then show ?thesis using d b st(2)
    by (intro exI [of _ d] exI [of _ b] exI [of _ ix2] exI [of _ s2] exI [of _ c4])
      (auto simp: search_inv_def blobs_ok_def)
qed

lemma search_internal_missing:
  assumes "good s" "graph_ok ix (contents s)" "fresh_ctx ctx" "node_table ix (contents s) r0 = None"
  shows "\<exists>ix' s' ctx'. diskAnnSearchInternal junk m ix s ctx r0 = Some (DISKANN_ROW_NOT_FOUND, ix', s', ctx') \<and>
    same_index ix ix' \<and> good s' \<and> contents s' = contents s \<and>
    diskAnnSearchCtxDeinit ctx' = Some (ctx'\<lparr>ctxBuffers := False\<rparr>) \<and> node_at (ctx'\<lparr>ctxBuffers := False\<rparr>) = Map.empty"
proof -
  have t: "table_ok ix (contents s)" "0 < nBlockSize ix" using assms(2) by (simp_all add: graph_ok_def table_ok_def)
  obtain p c1 where p: "diskAnnNodeAlloc ctx r0 = (p, c1)" by (cases "diskAnnNodeAlloc ctx r0")
  have N: "node_at ctx = Map.empty" using assms(3) by (auto simp: fresh_ctx_def node_at_def)
  note a = node_alloc [OF p]
  have "p \<in> dom (node_at c1)" using a by auto
  then obtain h where h: "diskAnnNodeFree c1 p = Some (c1\<lparr>heap := h\<rparr>)" "node_at (c1\<lparr>heap := h\<rparr>) = (node_at c1)(p := None)"
    using node_free by blast
  obtain sp where sp: "blobSpotCreate junk r0 (nBlockSize ix) (blobMode c1) = Some sp" "reader_ok ix (contents s) sp"
    using create_reader [OF t(2)] by blast
  obtain ix' s' sp' where "same_index ix ix'" "good s'" "contents s' = contents s"
    "blobSpotReload m ix s sp r0 (nBlockSize ix) = Some (DISKANN_ROW_NOT_FOUND, ix', s', sp')"
    using reload_reader [OF assms(1) t(1) sp(2), of r0] assms(4) by auto
  moreover obtain h1 where "c1 = ctx\<lparr>heap := h1\<rparr>" using a by blast
  moreover have "node_at (c1\<lparr>heap := h, ctxBuffers := False\<rparr>) = node_at (c1\<lparr>heap := h\<rparr>)" by (rule node_at_cong) simp
  ultimately show ?thesis
    using p sp(1) h a N assms(3) by (simp add: diskAnnSearchInternal_def diskAnnSearchCtxDeinit_def fresh_ctx_def)
qed

end

subsection \<open>Properties\<close>

lemma init_same_type:
  assumes "nNodeVectorType ix = nEdgeVectorType ix" "fits (nNodeVectorType ix) (nVectorDims ix) v"
    and "0 < L" "L < 2 ^ 27" "0 < K" "K < 2 ^ 27"
  shows "\<exists>ctx. diskAnnSearchCtxInit junk ix v L K mode = Some (SQLITE4_OK, ctx) \<and> pair_ok ix (query ctx)"
  using assms
  by (simp add: diskAnnSearchCtxInit_def loadVectorPair_def initVectorPair_def pair_ok_def sqlite4Malloc_def)

lemma index_ok_kv: "index_ok kv_index"
  by (simp add: index_ok_def kv_index_def max_edges_def nodeOverhead_def nodeEdgeOverhead_def
      nodeMetadataSize_def edgeMetadataSize_def MAX_VECTOR_SZ_def)

lemma dist_ok_kv: "dist_ok kv_index"
  by (simp add: dist_ok_def kv_index_def)

text \<open>A store with one row, 7, whose vector is 0 and which has no edges.\<close>

lemma kv_seven:
  obtains s where "kvmem_good s" "graph_ok kv_index (kvmem_contents s)"
    "node_table kv_index (kvmem_contents s) = Map.empty(7 \<mapsto> replicate 60 0)"
proof -
  have n: "nBlockSize kv_index = 60" by (simp add: kv_index_def)
  have t: "table_ok kv_index (kvmem_contents kv_begun)" "spot_sized kv_index ex_block"
    "node_table kv_index (kvmem_contents kv_begun) = Map.empty"
    by (simp_all add: table_ok_def kv_begun(2) n spot_sized_def node_table_def fun_eq_iff) (simp_all add: ex_block_def)
  obtain ix' s' where s': "same_index kv_index ix'" "kvmem_good s'" "table_ok kv_index (kvmem_contents s')"
    "node_table kv_index (kvmem_contents s') = Map.empty(7 \<mapsto> replicate 60 0)"
    using kvmem.flush_ok [OF kv_begun(1) t(1,2)] t(3) by (auto simp: ex_block_def)
  have "edge_count (replicate 60 0) = 0" by code_simp
  then show thesis using that s' index_ok_kv by (auto simp: graph_ok_def)
qed

abbreviation (input) ex_query :: vector where "ex_query \<equiv> vectorInit FLOAT32 1 [0, 0, 128, 63]"

lemma ex_query_fits: "fits (nNodeVectorType kv_index) (nVectorDims kv_index) ex_query"
  by (simp add: fits_def kv_index_def vectorInit_def well_sized_def)

lemma ex_distance:
  "diskAnnVectorDistance kv_index (vectorInit FLOAT32 1 [0, 0, 128, 63]) (block_vec kv_index (replicate 60 0)) = Some 0x3F800000"
proof -
  have b: "block_vec kv_index (replicate 60 0) = \<lparr>vflags = VECTOR_FLAGS_STATIC, vtype = FLOAT32, vdims = 1, vdata = replicate 44 0\<rparr>"
    by (simp add: block_vec_def vectorInitStatic_def hdr_size_def kv_index_def)
  have "le_bytes 4 (0x3F800000::u32) = [0, 0, 128, 63]" "le_bytes 4 (0::u32) = [0, 0, 0, 0]" by code_simp+
  then have "load 4 (replicate 44 0) 1 = Some [0::u32]" "load 4 [0, 0, 128, 63] 1 = Some [0x3F800000::u32]"
    using load_concat [of 4 "[0::u32]" "replicate 40 0"] load_concat [of 4 "[0x3F800000::u32]" "[]"]
    by (simp_all add: numeral_eq_Suc)
  moreover have "l2_result (l2_loop [(0x3F800000, 0)] 0) = 0x3F800000" by code_simp
  ultimately show ?thesis
    by (simp add: diskAnnVectorDistance_def b vectorDistanceL2_def vectorF32DistanceL2_def vectorInit_def pair_asserts_def)
      (simp add: kv_index_def)
qed

text \<open>A store with one row and no edges compares with \<open>ex_query\<close>, from any row.\<close>

lemma comparable_row:
  assumes "node_table kv_index kvs = Map.empty(7 \<mapsto> blk)" "edge_count blk = 0"
    and "diskAnnVectorDistance kv_index ex_query (block_vec kv_index blk) = Some d" "\<not> f32_nan d"
    and "pair_ok kv_index q" "vp_pNode q = Some ex_query"
  shows "comparable kv_index kvs q r0"
proof -
  have "vp_nodeType q = vp_edgeType q" using assms(5) by (simp add: pair_ok_def kv_index_def)
  then have "search_graph kv_index kvs q = Map.empty(7 \<mapsto> (None, []))"
    using assms(1,2) by (simp add: fun_eq_iff search_graph_def node_dist_def)
  then show ?thesis using assms(1,3,4,6) by (auto simp: comparable_def numbers_def split: if_splits)
qed

lemma comparable_query:
  assumes "node_table kv_index kvs = Map.empty(7 \<mapsto> blk)" "edge_count blk = 0"
    and "diskAnnVectorDistance kv_index ex_query (block_vec kv_index blk) = Some d" "\<not> f32_nan d"
  shows "comparable_vector junk kv_index kvs ex_query"
proof -
  have "\<exists>q. query_pair junk kv_index ex_query = Some q \<and> pair_ok kv_index q \<and> vp_pNode q = Some ex_query"
    using ex_query_fits by (simp add: query_pair_def loadVectorPair_def initVectorPair_def pair_ok_def) (simp add: kv_index_def)
  then show ?thesis using comparable_row [OF assms] by (auto simp: comparable_vector_def)
qed

lemma ex_zero: "edge_count (replicate 60 0) = 0" "\<not> f32_nan 0x3F800000"
  by code_simp+

lemmas comparable_seven = comparable_row [OF _ ex_zero(1) ex_distance ex_zero(2)]

text \<open>
  C11. The search is a beam search: on a graph in the store, the search of \<open>vectordiskann.c\<close>
  started at a row that exists ends with \<open>SQLITE4_OK\<close> and its buffers hold exactly what the
  beam search over the abstract graph computes: the rows visited, in their order, and the best
  of them with their distances. The store is unchanged, no assertion fails and no freed node is
  used, and tearing the context down frees every node exactly once. The metric must be defined
  for the types of the index and the distances the search meets must be numbers, which the
  assertions on sorted buffers rely on; a writer also needs that no edge leads to a missing row.
\<close>

theorem search_refines_beam:
  assumes "kvmem_good s" "graph_ok ix (kvmem_contents s)" "dist_ok ix"
    and "diskAnnSearchCtxInit junk ix v L K mode = Some (SQLITE4_OK, ctx)" "pair_ok ix (query ctx)"
    and "G = search_graph ix (kvmem_contents s) (query ctx)" "node_table ix (kvmem_contents s) r0 = Some blk"
    and "mode \<longrightarrow> beam_reach G r0 \<subseteq> dom G" "comparable ix (kvmem_contents s) (query ctx) r0"
  shows "\<exists>d b ix' s' ctx' ctx2. diskAnnVectorDistance ix v (block_vec ix blk) = Some d \<and>
    beam_search L K G r0 d = Some b \<and>
    diskAnnSearchInternal junk kvmemMethods ix s ctx r0 = Some (SQLITE4_OK, ix', s', ctx') \<and>
    kvmem_good s' \<and> kvmem_contents s' = kvmem_contents s \<and>
    map (row_of (node_at ctx')) (visitedList ctx') = map fst (bm_log b) \<and>
    map (row_of (node_at ctx')) (aTopCandidates ctx') = map fst (bm_top b) \<and> aTopDistances ctx' = map snd (bm_top b) \<and>
    diskAnnSearchCtxDeinit ctx' = Some ctx2 \<and> node_at ctx2 = Map.empty"
proof -
  note i = init_fresh [OF assms(4)]
  obtain d b ix' s' ctx' where r: "diskAnnVectorDistance ix v (block_vec ix blk) = Some d"
    "beam_search L K G r0 d = Some b" "diskAnnSearchInternal junk kvmemMethods ix s ctx r0 = Some (SQLITE4_OK, ix', s', ctx')"
    "kvmem_good s'" "kvmem_contents s' = kvmem_contents s" "ctx_rel (node_at ctx') ctx' b" "same_ctx ctx ctx'"
    using kvmem.search_internal [OF assms(1,2) i(1) assms(5), of r0 blk G v junk] assms(3,6-9) i by auto
  note rel = ctx_relD [OF r(6)] and bufs = bufs_okD [OF ctx_relD(1) [OF r(6)]]
  obtain ctx2 where h: "diskAnnSearchCtxDeinit ctx' = Some ctx2" "node_at ctx2 = Map.empty"
    using deinit_ok [OF r(6)] r(7) i(9) by (auto simp: same_ctx_def)
  have "map fst (bm_top b) = map (row_of (node_at ctx')) (map fst (zip (aTopCandidates ctx') (aTopDistances ctx')))"
    "map snd (bm_top b) = map snd (zip (aTopCandidates ctx') (aTopDistances ctx'))"
    by (simp_all add: rel(7) top_view_def split_def)
  then show ?thesis using r h rel(6) bufs(2) by auto
qed

lemma search_refines_beam_witness:
  "\<exists>s ctx ix' s' ctx'. diskAnnSearchCtxInit (\<lambda>_. 0) kv_index ex_query 10 2 False = Some (SQLITE4_OK, ctx) \<and>
     diskAnnSearchInternal (\<lambda>_. 0) kvmemMethods kv_index s ctx 7 = Some (SQLITE4_OK, ix', s', ctx')"
proof -
  obtain s where s: "kvmem_good s" "graph_ok kv_index (kvmem_contents s)"
    "node_table kv_index (kvmem_contents s) = Map.empty(7 \<mapsto> replicate 60 0)" by (rule kv_seven)
  obtain ctx where c: "diskAnnSearchCtxInit (\<lambda>_. 0) kv_index ex_query 10 2 False = Some (SQLITE4_OK, ctx)" "pair_ok kv_index (query ctx)"
    using init_same_type [OF _ ex_query_fits, of 10 2 "\<lambda>_. 0" False] by (auto simp: kv_index_def)
  have "comparable kv_index (kvmem_contents s) (query ctx) 7"
    using comparable_seven [OF s(3) c(2)] init_fresh(5) [OF c(1)] by simp
  with search_refines_beam [OF s(1,2) dist_ok_kv c refl, of 7 "replicate 60 0"]
  show ?thesis using s(3) c by auto
qed

text \<open>
  C13. Reading always ends: whatever the graph - cycles, edges to rows that are gone - a reading
  search whose distances are numbers returns, with \<open>SQLITE4_OK\<close> if its start row exists and with
  "not found" if it does not, leaves the store as it was, and its context can be torn down
  without freeing anything twice. (A distance that is not a number fails an assertion of a debug
  build.)
\<close>

theorem search_always_returns:
  assumes "kvmem_good s" "graph_ok ix (kvmem_contents s)" "dist_ok ix"
    and "diskAnnSearchCtxInit junk ix v L K False = Some (SQLITE4_OK, ctx)" "pair_ok ix (query ctx)"
    and "comparable ix (kvmem_contents s) (query ctx) r0"
  shows "\<exists>ix' s' ctx' ctx2. diskAnnSearchInternal junk kvmemMethods ix s ctx r0 =
      Some (if node_table ix (kvmem_contents s) r0 = None then DISKANN_ROW_NOT_FOUND else SQLITE4_OK, ix', s', ctx') \<and>
    kvmem_contents s' = kvmem_contents s \<and> diskAnnSearchCtxDeinit ctx' = Some ctx2 \<and> node_at ctx2 = Map.empty"
proof (cases "node_table ix (kvmem_contents s) r0")
  case None
  then show ?thesis
    using kvmem.search_internal_missing [OF assms(1,2) init_fresh(1) [OF assms(4)] None, of junk] by auto
next
  case (Some blk)
  note i = init_fresh [OF assms(4)]
  obtain b ix' s' ctx' where r: "diskAnnSearchInternal junk kvmemMethods ix s ctx r0 = Some (SQLITE4_OK, ix', s', ctx')"
    "kvmem_contents s' = kvmem_contents s" "ctx_rel (node_at ctx') ctx' b" "same_ctx ctx ctx'"
    using kvmem.search_internal [OF assms(1,2) i(1) assms(5) _ _ Some refl i(5), of junk] i assms(3,6) by auto
  then show ?thesis using deinit_ok [OF r(3)] Some i(9) by (auto simp: same_ctx_def)
qed

lemma search_always_returns_witness:
  "\<exists>s ctx ix' s' ctx'. diskAnnSearchCtxInit (\<lambda>_. 0) kv_index ex_query 10 2 False = Some (SQLITE4_OK, ctx) \<and>
     diskAnnSearchInternal (\<lambda>_. 0) kvmemMethods kv_index s ctx 8 = Some (DISKANN_ROW_NOT_FOUND, ix', s', ctx')"
proof -
  obtain s where s: "kvmem_good s" "graph_ok kv_index (kvmem_contents s)"
    "node_table kv_index (kvmem_contents s) = Map.empty(7 \<mapsto> replicate 60 0)" by (rule kv_seven)
  obtain ctx where c: "diskAnnSearchCtxInit (\<lambda>_. 0) kv_index ex_query 10 2 False = Some (SQLITE4_OK, ctx)" "pair_ok kv_index (query ctx)"
    using init_same_type [OF _ ex_query_fits, of 10 2 "\<lambda>_. 0" False] by (auto simp: kv_index_def)
  have "comparable kv_index (kvmem_contents s) (query ctx) 8"
    using comparable_seven [OF s(3) c(2)] init_fresh(5) [OF c(1)] by simp
  from search_always_returns [OF s(1,2) dist_ok_kv c this] show ?thesis using s(3) c by auto
qed

text \<open>
  C12. What a search finds: if edges have consistent distances that are numbers and lead to rows
  that exist, the result is the \<open>K\<close> closest of the rows visited, sorted by distance; every
  visited row - the start is one - is reachable from the start; the target of an edge from a visited row that was
  not visited is no closer than any of the \<open>L\<close> candidates; and if the candidates do not fill
  their buffer, every reachable row was visited, so that the result is exact.
\<close>

theorem search_local_optimum:
  assumes "kvmem_good s" "graph_ok ix (kvmem_contents s)" "dist_ok ix"
    and "diskAnnSearchCtxInit junk ix v L K mode = Some (SQLITE4_OK, ctx)" "pair_ok ix (query ctx)"
    and "G = search_graph ix (kvmem_contents s) (query ctx)" "node_table ix (kvmem_contents s) r0 = Some blk"
    and "beam_clean G \<delta>" "diskAnnVectorDistance ix v (block_vec ix blk) = Some d0" "\<not> f32_nan d0"
  shows "\<exists>ix' s' ctx' visited best. diskAnnSearchInternal junk kvmemMethods ix s ctx r0 = Some (SQLITE4_OK, ix', s', ctx') \<and>
    visited = map (row_of (node_at ctx')) (visitedList ctx') \<and> distinct visited \<and> r0 \<in> set visited \<and>
    set visited \<subseteq> beam_reach G r0 \<and>
    best = take K (dist_sort snd (map (\<lambda>r. (r, row_dist G \<delta> r0 d0 r)) visited)) \<and> by_dist snd best \<and>
    map (row_of (node_at ctx')) (aTopCandidates ctx') = map fst best \<and> aTopDistances ctx' = map snd best \<and>
    (\<forall>r \<in> set visited. \<forall>x es. G r = Some (x, es) \<longrightarrow> (\<forall>y \<in> fst ` set es. y \<in> set visited \<or>
       length (aCandidates ctx') = L \<and> (\<forall>d \<in> set (aDistances ctx'). f32_le d (\<delta> y)))) \<and>
    (length (aCandidates ctx') < L \<longrightarrow> set visited = beam_reach G r0)"
proof -
  note i = init_fresh [OF assms(4)]
  have r0: "r0 \<in> dom G" using assms(6,7) by (auto simp: search_graph_def)
  have dom: "beam_reach G r0 \<subseteq> dom G" using reach_dom [OF assms(8) r0] by blast
  obtain b ix' s' ctx' where r: "beam_search L K G r0 d0 = Some b"
    "diskAnnSearchInternal junk kvmemMethods ix s ctx r0 = Some (SQLITE4_OK, ix', s', ctx')" "ctx_rel (node_at ctx') ctx' b"
    using kvmem.search_internal [OF assms(1,2) i(1) assms(5), of r0 blk G v junk] assms(3,6,7,9,10) clean_numbers [OF assms(8), of r0] dom i
    by (auto simp: comparable_def)
  note rel = ctx_relD [OF r(3)] and bufs = bufs_okD [OF ctx_relD(1) [OF r(3)]]
  have fin: "finite (dom G)" using finite_graph assms(6) by blast
  from beam_search_best [OF fin i(6) assms(8) r0 assms(10), of K] r(1)
  have b: "\<forall>e \<in> set (bm_log b). snd e = row_dist G \<delta> r0 d0 (fst e)"
    "bm_top b = take K (dist_sort snd (bm_log b))" "by_dist snd (bm_top b)" "distinct (map fst (bm_log b))"
    "r0 \<in> fst ` set (bm_log b)" "fst ` set (bm_log b) \<subseteq> beam_reach G r0"
    "\<forall>r \<in> fst ` set (bm_log b). \<forall>x es. G r = Some (x, es) \<longrightarrow> (\<forall>y \<in> fst ` set es. y \<in> fst ` set (bm_log b) \<or>
       length (bm_cands b) = L \<and> (\<forall>c \<in> set (bm_cands b). f32_le (cand_dist c) (\<delta> y)))"
    "length (bm_cands b) < L \<longrightarrow> fst ` set (bm_log b) = beam_reach G r0"
    by auto
  let ?vis = "map fst (bm_log b)"
  have log: "bm_log b = map (\<lambda>r. (r, row_dist G \<delta> r0 d0 r)) ?vis"
    using b(1) by (simp add: map_idI prod_eq_iff)
  have tops: "map fst (bm_top b) = map (row_of (node_at ctx')) (map fst (zip (aTopCandidates ctx') (aTopDistances ctx')))"
    "map snd (bm_top b) = map snd (zip (aTopCandidates ctx') (aTopDistances ctx'))"
    by (simp_all add: rel(7) top_view_def split_def)
  have cands: "length (bm_cands b) = length (aCandidates ctx')" "map cand_dist (bm_cands b) = aDistances ctx'"
    using rel(5) bufs(1) by (simp_all add: cand_view_def cand_dist_def comp_def split_def)
  have far: "(\<forall>c \<in> set (bm_cands b). f32_le (cand_dist c) z) \<longleftrightarrow> (\<forall>d \<in> set (aDistances ctx'). f32_le d z)" for z
    unfolding cands(2) [symmetric] by simp
  have best: "bm_top b = take K (dist_sort snd (map (\<lambda>r. (r, row_dist G \<delta> r0 d0 r)) ?vis))"
    using b(2) log by argo
  have V: "set ?vis = fst ` set (bm_log b)" by simp
  have tops': "map (row_of (node_at ctx')) (aTopCandidates ctx') = map fst (bm_top b)" "aTopDistances ctx' = map snd (bm_top b)"
    using tops bufs(2) by simp_all
  show ?thesis
    using r(2) rel(6) b(3,4) b(5-8) [folded V, unfolded far cands(1)] best tops'
    by - (intro exI [of _ ix'] exI [of _ s'] exI [of _ ctx'] exI [of _ ?vis] exI [of _ "bm_top b"] conjI; assumption)
qed

lemma search_local_optimum_witness:
  "\<exists>s ctx ix' s' ctx'. diskAnnSearchCtxInit (\<lambda>_. 0) kv_index ex_query 10 2 False = Some (SQLITE4_OK, ctx) \<and>
     diskAnnSearchInternal (\<lambda>_. 0) kvmemMethods kv_index s ctx 7 = Some (SQLITE4_OK, ix', s', ctx') \<and>
     map (row_of (node_at ctx')) (aTopCandidates ctx') = [7] \<and> aTopDistances ctx' = [0x3F800000]"
proof -
  obtain s where s: "kvmem_good s" "graph_ok kv_index (kvmem_contents s)"
    "node_table kv_index (kvmem_contents s) = Map.empty(7 \<mapsto> replicate 60 0)" by (rule kv_seven)
  obtain ctx where c: "diskAnnSearchCtxInit (\<lambda>_. 0) kv_index ex_query 10 2 False = Some (SQLITE4_OK, ctx)" "pair_ok kv_index (query ctx)"
    using init_same_type [OF _ ex_query_fits, of 10 2 "\<lambda>_. 0" False] by (auto simp: kv_index_def)
  let ?G = "search_graph kv_index (kvmem_contents s) (query ctx)"
  have d: "\<not> f32_nan 0x3F800000" "edge_count (replicate 60 0) = 0" by code_simp+
  have t: "vp_nodeType (query ctx) = vp_edgeType (query ctx)" using c(2) by (simp add: pair_ok_def kv_index_def)
  have G: "?G = Map.empty(7 \<mapsto> (None, []))"
    using s(3) d(2) t by (simp add: fun_eq_iff search_graph_def node_dist_def)
  have clean: "beam_clean ?G (\<lambda>_. 0)" unfolding G beam_clean_def by simp
  have reach: "beam_reach ?G 7 = {7}"
  proof -
    have "r = 7" if "r \<in> beam_reach ?G 7" for r
      using that by induction (simp_all add: G split: if_splits)
    then show ?thesis using reach_start by blast
  qed
  have dist: "row_dist ?G (\<lambda>_. 0) 7 0x3F800000 7 = 0x3F800000" by (simp add: row_dist_def G)
  obtain ix' s' ctx' visited best where r: "diskAnnSearchInternal (\<lambda>_. 0) kvmemMethods kv_index s ctx 7 = Some (SQLITE4_OK, ix', s', ctx')"
    "distinct visited" "7 \<in> set visited" "set visited \<subseteq> {7}"
    "best = take 2 (dist_sort snd (map (\<lambda>r. (r, row_dist ?G (\<lambda>_. 0) 7 0x3F800000 r)) visited))"
    "map (row_of (node_at ctx')) (aTopCandidates ctx') = map fst best" "aTopDistances ctx' = map snd best"
    using search_local_optimum [OF s(1,2) dist_ok_kv c refl _ clean ex_distance d(1), of 7] s(3) unfolding reach by auto
  have "visited = [7]" using r(2-4) by (cases visited; cases "tl visited") auto
  then have "best = [(7, 0x3F800000)]" using r(5) dist by (simp add: dist_sort_def)
  then have "map (row_of (node_at ctx')) (aTopCandidates ctx') = [7]" "aTopDistances ctx' = [0x3F800000]"
    using r(6,7) by simp_all
  then show ?thesis
    using c(1) r(1) by - (intro exI [of _ s] exI [of _ ctx] exI [of _ ix'] exI [of _ s'] exI [of _ ctx'] conjI; assumption)
qed

end
