(* ===== verification/EdgePrune.thy ===== *)
theory EdgePrune
  imports SearchLoop
begin

unbundle bit_operations_syntax

text \<open>
  Choosing and pruning the edges of a node (\<open>vectordiskann.c\<close>): where a new edge goes, and which
  of the others it makes superfluous. The specification works on the list of edges; the byte
  level is shown to be that, in another order of the edges.
\<close>

subsection \<open>The code\<close>

text \<open>
  The loop of \<open>diskAnnReplaceEdgeIdx\<close> over the positions \<open>is\<close>; -1 is no position. \<open>node\<close> is the
  edge vector of the node itself, \<open>new\<close> that of the new one.
\<close>

fun replaceLoop ::
  "'c DiskAnnIndex \<Rightarrow> BlobSpot \<Rightarrow> u64 \<Rightarrow> vector \<Rightarrow> vector \<Rightarrow> f32 \<Rightarrow> int \<Rightarrow> int \<Rightarrow> nat list \<Rightarrow> int \<Rightarrow> f32
     \<Rightarrow> int option" where
  "replaceLoop ix sp newRowid node new nodeToNew nEdges nMaxEdges [] iReplace nodeToReplace =
     Some (if nEdges < nMaxEdges then nEdges else iReplace)"
| "replaceLoop ix sp newRowid node new nodeToNew nEdges nMaxEdges (i # is) iReplace nodeToReplace =
     do { (edgeRowid, nodeToEdge, edgeVector) \<leftarrow> nodeBinEdge ix sp (int i);
          if edgeRowid = newRowid then Some (int i)
          else do {
            nodeToEdge \<leftarrow> (if nFormatVersion ix = VECTOR_FORMAT_V1 then diskAnnVectorDistance ix node edgeVector
                          else nodeToEdge);
            edgeToNew \<leftarrow> diskAnnVectorDistance ix edgeVector new;
            if f32_lt (f32_mul (pruningAlpha ix) edgeToNew) nodeToNew then Some (-1)
            else if f32_lt nodeToNew nodeToEdge \<and> (iReplace = -1 \<or> f32_lt nodeToReplace nodeToEdge)
            then replaceLoop ix sp newRowid node new nodeToNew nEdges nMaxEdges is (int i) nodeToEdge
            else replaceLoop ix sp newRowid node new nodeToNew nEdges nMaxEdges is iReplace nodeToReplace } }"

text \<open>The position (or -1), the distance of the node to the new one, the placeholder as it is left.\<close>

definition diskAnnReplaceEdgeIdx ::
  "'c DiskAnnIndex \<Rightarrow> BlobSpot \<Rightarrow> u64 \<Rightarrow> VectorPair \<Rightarrow> VectorPair \<Rightarrow> (int \<times> f32 \<times> VectorPair) option" where
  "diskAnnReplaceEdgeIdx ix sp newRowid pNewVector pPlaceholder =
     do { n \<leftarrow> nodeBinEdges ix sp;
          nMaxEdges \<leftarrow> nodeEdgesMaxCount ix;
          nodeVector \<leftarrow> nodeBinVector ix sp;
          pPlaceholder \<leftarrow> loadVectorPair pPlaceholder nodeVector;
          node \<leftarrow> vp_pEdge pPlaceholder;
          new \<leftarrow> vp_pEdge pNewVector;
          nodeToNew \<leftarrow> diskAnnVectorDistance ix node new;
          i \<leftarrow> replaceLoop ix sp newRowid node new nodeToNew (int (unat n)) nMaxEdges (rev [0..<unat n]) (-1) 0;
          Some (i, nodeToNew, pPlaceholder) }"

text \<open>
  The loop of \<open>diskAnnPruneEdges\<close>. The hint vector points into the block, at the offset
  \<open>hintOff\<close> of the slot it was read from, and shows what the slot holds when it is used; the
  placeholder shows the vector of the node, which no operation on edges touches.
\<close>

function pruneLoop ::
  "'c DiskAnnIndex \<Rightarrow> u64 \<Rightarrow> int \<Rightarrow> vector \<Rightarrow> nat \<Rightarrow> nat \<Rightarrow> BlobSpot \<Rightarrow> (nat \<times> BlobSpot) option" where
  "pruneLoop ix hintRowid hintOff node i nEdges sp =
     (if i < nEdges then
        do { (edgeRowid, nodeToEdge, edgeVector) \<leftarrow> nodeBinEdge ix sp (int i);
             if hintRowid = edgeRowid then pruneLoop ix hintRowid hintOff node (i + 1) nEdges sp
             else do {
               nodeToEdge \<leftarrow> (if nFormatVersion ix = VECTOR_FORMAT_V1 then diskAnnVectorDistance ix node edgeVector
                             else nodeToEdge);
               hintEdgeVector \<leftarrow> vector_in (nEdgeVectorType ix) (nVectorDims ix) (pBuffer sp) hintOff;
               hintToEdge \<leftarrow> diskAnnVectorDistance ix hintEdgeVector edgeVector;
               if f32_lt (f32_mul (pruningAlpha ix) hintToEdge) nodeToEdge
               then do { sp \<leftarrow> nodeBinDeleteEdge ix sp (int i);
                         pruneLoop ix hintRowid hintOff node i (nEdges - 1) sp }
               else pruneLoop ix hintRowid hintOff node (i + 1) nEdges sp } }
      else Some (nEdges, sp))"
  by pat_completeness auto
termination
  by (relation "measure (\<lambda>(ix, hintRowid, hintOff, node, i, nEdges, sp). nEdges - i)") auto

declare pruneLoop.simps [simp del]

definition diskAnnPruneEdges ::
  "'c DiskAnnIndex \<Rightarrow> BlobSpot \<Rightarrow> int \<Rightarrow> VectorPair \<Rightarrow> (BlobSpot \<times> VectorPair) option" where
  "diskAnnPruneEdges ix sp iInserted pPlaceholder =
     do { nodeVector \<leftarrow> nodeBinVector ix sp;
          pPlaceholder \<leftarrow> loadVectorPair pPlaceholder nodeVector;
          n \<leftarrow> nodeBinEdges ix sp;
          c_assert (0 \<le> iInserted \<and> iInserted < int (unat n));
          hintRowid \<leftarrow> nodeBinEdgeRowid ix sp iInserted;
          hintOff \<leftarrow> nodeBinEdgeVectorOffset ix iInserted;
          node \<leftarrow> vp_pEdge pPlaceholder;
          (nEdges, sp) \<leftarrow> pruneLoop ix hintRowid hintOff node 0 (unat n) sp;
          c_assert (nEdges > 0);
          Some (sp, pPlaceholder) }"

subsection \<open>Pruning, on the list of edges\<close>

text \<open>The vector an edge holds, and distances as numbers.\<close>

definition edge_bytes :: "edge \<Rightarrow> bytes" where "edge_bytes e = snd (snd e)"

definition ev :: "'c DiskAnnIndex \<Rightarrow> edge \<Rightarrow> vector" where
  "ev ix e = vectorInitStatic (nEdgeVectorType ix) (nVectorDims ix) (edge_bytes e)"

definition vdist :: "'c DiskAnnIndex \<Rightarrow> vector \<Rightarrow> vector \<Rightarrow> f32" where
  "vdist ix u v = the (diskAnnVectorDistance ix u v)"

definition metric_ok :: "'c DiskAnnIndex \<Rightarrow> bool" where
  "metric_ok ix \<longleftrightarrow> index_ok ix \<and> dist_ok ix"

abbreviation (input) edge_fits :: "'c DiskAnnIndex \<Rightarrow> vector \<Rightarrow> bool" where
  "edge_fits ix v \<equiv> fits (nEdgeVectorType ix) (nVectorDims ix) v"

lemma diskann_trim:
  assumes "metric_ok ix" "edge_fits ix u" "edge_fits ix v"
  shows "diskAnnVectorDistance ix (trim u) (trim v) = diskAnnVectorDistance ix u v"
  using assms distance_trim [of u v] by (simp add: diskAnnVectorDistance_def metric_ok_def fits_def index_ok_def)

lemma ev_fits:
  assumes "index_ok ix" "int (length blk) = nBlockSize ix" "i < max_edges ix"
  shows "edge_fits ix (ev ix (edge_at ix blk i))" "trim (edge_vec ix blk i) = ev ix (edge_at ix blk i)"
    "trim (ev ix (edge_at ix blk i)) = ev ix (edge_at ix blk i)"
  using block_bounds(1) [OF assms]
  by (simp_all add: fits_def vectorInitStatic_def well_sized_def ev_def edge_bytes_def edge_at_def edge_vec_def trim_def
      edge_size_def [symmetric] field_def)

text \<open>What the code computes from a slot is the distance of the edge in it.\<close>

lemma slot_dist:
  assumes "metric_ok ix" "int (length blk) = nBlockSize ix" "i < max_edges ix" "edge_fits ix u"
  shows "diskAnnVectorDistance ix u (edge_vec ix blk i) = Some (vdist ix u (ev ix (edge_at ix blk i)))"
    "diskAnnVectorDistance ix (edge_vec ix blk i) u = Some (vdist ix (ev ix (edge_at ix blk i)) u)"
proof -
  have ix: "index_ok ix" "dist_ok ix" using assms(1) by (simp_all add: metric_ok_def)
  note e = ev_fits [OF ix(1) assms(2,3)] and f = block_vec_fits(2) [OF ix(1) assms(2,3)]
  have "diskAnnVectorDistance ix u (edge_vec ix blk i) = diskAnnVectorDistance ix u (ev ix (edge_at ix blk i))"
    using diskann_trim [OF assms(1,4) f] diskann_trim [OF assms(1,4) e(1)] e(2,3) by simp
  then show "diskAnnVectorDistance ix u (edge_vec ix blk i) = Some (vdist ix u (ev ix (edge_at ix blk i)))"
    using distance_some(2) [OF ix assms(4) f] by (auto simp: vdist_def)
  have "diskAnnVectorDistance ix (edge_vec ix blk i) u = diskAnnVectorDistance ix (ev ix (edge_at ix blk i)) u"
    using diskann_trim [OF assms(1) f assms(4)] diskann_trim [OF assms(1) e(1) assms(4)] e(2,3) by simp
  then show "diskAnnVectorDistance ix (edge_vec ix blk i) u = Some (vdist ix (ev ix (edge_at ix blk i)) u)"
    using distance_some(2) [OF ix f assms(4)] by (auto simp: vdist_def)
qed

lemma slot_slot_dist:
  assumes "metric_ok ix" "int (length blk) = nBlockSize ix" "i < max_edges ix" "k < max_edges ix"
  shows "diskAnnVectorDistance ix (edge_vec ix blk k) (edge_vec ix blk i) =
    Some (vdist ix (ev ix (edge_at ix blk k)) (ev ix (edge_at ix blk i)))"
proof -
  have ix: "index_ok ix" using assms(1) by (simp add: metric_ok_def)
  note f = block_vec_fits(2) [OF ix assms(2,3)] block_vec_fits(2) [OF ix assms(2,4)]
    and e = ev_fits [OF ix assms(2,3)] ev_fits [OF ix assms(2,4)]
  show ?thesis
    using slot_dist(1) [OF assms(1-3) e(4)] diskann_trim [OF assms(1) f(2,1)] diskann_trim [OF assms(1) e(4) f(1)] e(2,5,6) by simp
qed

text \<open>
  The distance of the node to an edge: computed from the vectors in the first format, stored
  with the edge in the later ones. An edge is superfluous beside the edge \<open>hint\<close> if the detour
  over \<open>hint\<close> is shorter, by the factor \<open>pruningAlpha\<close>.
\<close>

definition far :: "'c DiskAnnIndex \<Rightarrow> vector \<Rightarrow> edge \<Rightarrow> f32" where
  "far ix node e = (if nFormatVersion ix = 1 then vdist ix node (ev ix e) else fst (snd e))"

definition superfluous :: "'c DiskAnnIndex \<Rightarrow> vector \<Rightarrow> edge \<Rightarrow> edge \<Rightarrow> bool" where
  "superfluous ix node hint e \<longleftrightarrow> fst e \<noteq> fst hint \<and>
     f32_lt (f32_mul (pruningAlpha ix) (vdist ix (ev ix hint) (ev ix e))) (far ix node e)"

text \<open>Moving the last element onto position \<open>i\<close> and cutting it off removes that element.\<close>

lemma swap_delete:
  assumes "i < length es"
  shows "take i (butlast (es[i := last es])) = take i es"
    "mset (drop i (butlast (es[i := last es]))) = mset (drop (Suc i) es)"
    "mset (butlast (es[i := last es])) = mset es - {# es ! i #}"
proof -
  obtain xs x ys where es: "es = xs @ x # ys" "length xs = i" using assms id_take_nth_drop length_take
    by (metis less_or_eq_imp_le min.absorb2)
  show "take i (butlast (es[i := last es])) = take i es"
    using es by (cases ys rule: rev_cases) (auto simp: butlast_append list_update_append)
  show "mset (drop i (butlast (es[i := last es]))) = mset (drop (Suc i) es)"
    using es by (cases ys rule: rev_cases) (auto simp: butlast_append list_update_append)
  show "mset (butlast (es[i := last es])) = mset es - {# es ! i #}"
    using es by (cases ys rule: rev_cases) (auto simp: butlast_append list_update_append nth_append)
qed

lemma prune_loop:
  assumes "metric_ok ix" "node_ok ix sp" "edge_fits ix node" "k < max_edges ix"
    and "edge_at ix (pBuffer sp) k = h" "hintOff = int (vec_off ix k)" "n = edge_count (pBuffer sp)" "i \<le> n"
  shows "\<exists>sp'. pruneLoop ix (fst h) hintOff node i n sp = Some (length (edges ix sp'), sp') \<and> node_ok ix sp' \<and>
    mset (edges ix sp') = mset (take i (edges ix sp)) +
      filter_mset (\<lambda>e. \<not> superfluous ix node h e) (mset (drop i (edges ix sp))) \<and>
    node_rowid sp' = node_rowid sp \<and> node_vec ix sp' = node_vec ix sp \<and> sp' = sp\<lparr>pBuffer := pBuffer sp'\<rparr>"
  using assms(2,5,7,8)
proof (induction "n - i" arbitrary: i n sp rule: less_induct)
  case less
  have ix: "index_ok ix" using assms(1) by (simp add: metric_ok_def)
  have len: "int (length (pBuffer sp)) = nBlockSize ix" using less.prems(1) by (simp add: node_ok_def)
  let ?es = "edges ix sp"
  show ?case
  proof (cases "i < n")
    case False
    then have "drop i ?es = []" "take i ?es = ?es" using less.prems(3) by simp_all
    then show ?thesis
      using less.prems(1,3) False by (intro exI [of _ sp]) (simp add: pruneLoop.simps)
  next
    case True
    then have im: "i < max_edges ix" using less.prems(1,3) by (simp add: node_ok_def)
    let ?e = "edge_at ix (pBuffer sp) i"
    have e: "?es ! i = ?e" "i < length ?es" using True less.prems(3) by simp_all
    then have split: "drop i ?es = ?e # drop (Suc i) ?es" "take (Suc i) ?es = take i ?es @ [?e]"
      by (metis Cons_nth_drop_Suc, metis take_Suc_conv_app_nth)
    note b = nodeBinEdge_ok [OF ix less.prems(1) im]
    have be: "nodeBinEdge ix sp (int i) =
        Some (fst ?e, if nFormatVersion ix = 1 then None else Some (fst (snd ?e)), edge_vec ix (pBuffer sp) i)"
      by (simp add: nodeBinEdge_def b edge_vec_def)
    have f: "(if nFormatVersion ix = 1 then diskAnnVectorDistance ix node (edge_vec ix (pBuffer sp) i)
              else (if nFormatVersion ix = 1 then None else Some (fst (snd ?e)))) = Some (far ix node ?e)"
      using slot_dist(1) [OF assms(1) len im assms(3)] by (simp add: far_def)
    have h: "vector_in (nEdgeVectorType ix) (nVectorDims ix) (pBuffer sp) hintOff = Some (edge_vec ix (pBuffer sp) k)"
      using block_bounds(1) [OF ix len assms(4)] by (simp add: vector_in_def assms(6) edge_vec_def)
    have d: "diskAnnVectorDistance ix (edge_vec ix (pBuffer sp) k) (edge_vec ix (pBuffer sp) i) = Some (vdist ix (ev ix h) (ev ix ?e))"
      using slot_slot_dist [OF assms(1) len im assms(4)] less.prems(2) by simp
    have step: "pruneLoop ix (fst h) hintOff node i n sp =
        (if superfluous ix node h ?e
         then do { sp \<leftarrow> nodeBinDeleteEdge ix sp (int i); pruneLoop ix (fst h) hintOff node i (n - 1) sp }
         else pruneLoop ix (fst h) hintOff node (i + 1) n sp)"
      using True by (subst pruneLoop.simps) (auto simp: be f h d superfluous_def)
    show ?thesis
    proof (cases "superfluous ix node h ?e")
      case False
      have "n - (i + 1) < n - i" "i + 1 \<le> n" using True by simp_all
      from less.hyps [OF this(1) less.prems(1-3) this(2)] obtain sp' where
        "pruneLoop ix (fst h) hintOff node (i + 1) n sp = Some (length (edges ix sp'), sp')" "node_ok ix sp'"
        "mset (edges ix sp') = mset (take (i + 1) ?es) + filter_mset (\<lambda>e. \<not> superfluous ix node h e) (mset (drop (i + 1) ?es))"
        "node_rowid sp' = node_rowid sp" "node_vec ix sp' = node_vec ix sp" "sp' = sp\<lparr>pBuffer := pBuffer sp'\<rparr>"
        by blast
      then show ?thesis using False step split by (intro exI [of _ sp']) simp
    next
      case True': True
      have ik: "k \<noteq> i" using True' less.prems(2) by (auto simp: superfluous_def)
      obtain sp1 where sp1: "nodeBinDeleteEdge ix sp (int i) = Some sp1" "node_ok ix sp1"
        "edges ix sp1 = butlast (?es[i := last ?es])" "node_rowid sp1 = node_rowid sp" "node_vec ix sp1 = node_vec ix sp"
        "sp1 = sp\<lparr>pBuffer := pBuffer sp1\<rparr>" "edge_at ix (pBuffer sp1) k = edge_at ix (pBuffer sp) k"
        using nodeBinDeleteEdge_ok [OF ix less.prems(1), of i] e(2) ik assms(4) by auto
      note sw = swap_delete [OF e(2), folded sp1(3)]
      have "edge_count (pBuffer sp1) = length (edges ix sp1)" by simp
      also have "\<dots> = n - 1" using sp1(3) less.prems(3) by simp
      finally have cnt: "n - 1 = edge_count (pBuffer sp1)" ..
      have "n - 1 - i < n - i" "i \<le> n - 1" "edge_at ix (pBuffer sp1) k = h" using True sp1(7) less.prems(2) by simp_all
      from less.hyps [OF this(1) sp1(2) this(3) cnt this(2)] obtain sp' where
        "pruneLoop ix (fst h) hintOff node i (n - 1) sp1 = Some (length (edges ix sp'), sp')" "node_ok ix sp'"
        "mset (edges ix sp') = mset (take i (edges ix sp1)) + filter_mset (\<lambda>e. \<not> superfluous ix node h e) (mset (drop i (edges ix sp1)))"
        "node_rowid sp' = node_rowid sp1" "node_vec ix sp' = node_vec ix sp1" "sp' = sp1\<lparr>pBuffer := pBuffer sp'\<rparr>"
        by blast
      moreover from this(6) sp1(6) have "sp' = sp\<lparr>pBuffer := pBuffer sp'\<rparr>"
        by (metis BlobSpot.surjective BlobSpot.update_convs(2) BlobSpot.select_convs)
      ultimately show ?thesis using True' step split sw sp1(1,4,5) by (intro exI [of _ sp']) simp
    qed
  qed
qed

text \<open>
  A pair that can be loaded: it has a vector of its own for the compressed form where the types
  differ. Quantising to eight bits is left out, it is undefined for some vectors.
\<close>

definition can_compress :: "'c DiskAnnIndex \<Rightarrow> bool" where
  "can_compress ix \<longleftrightarrow> nEdgeVectorType ix = nNodeVectorType ix \<or> nEdgeVectorType ix \<noteq> FLOAT8"

definition holder_ok :: "'c DiskAnnIndex \<Rightarrow> VectorPair \<Rightarrow> bool" where
  "holder_ok ix h \<longleftrightarrow> vp_nodeType h = nNodeVectorType ix \<and> vp_edgeType h = nEdgeVectorType ix \<and>
     (nNodeVectorType ix \<noteq> nEdgeVectorType ix \<longrightarrow> (\<exists>e. vp_pEdge h = Some e \<and> edge_fits ix e))"

lemma holder_pair: "pair_ok ix h \<Longrightarrow> holder_ok ix h"
  by (auto simp: holder_ok_def pair_ok_def)

lemma init_holder:
  "holder_ok ix (initVectorPair junk (nNodeVectorType ix) (nEdgeVectorType ix) (nVectorDims ix))"
  by (simp add: holder_ok_def initVectorPair_def fits_def vectorAlloc_def vectorInit_def well_sized_def length_malloc)

lemma load_holder:
  assumes "index_ok ix" "can_compress ix" "holder_ok ix h" "fits (nNodeVectorType ix) (nVectorDims ix) v"
  shows "\<exists>h' e. loadVectorPair h v = Some h' \<and> holder_ok ix h' \<and> pair_ok ix h' \<and> vp_pNode h' = Some v \<and>
    vp_pEdge h' = Some e \<and> edge_fits ix e \<and> (nNodeVectorType ix = nEdgeVectorType ix \<longrightarrow> e = v)"
proof (cases "nNodeVectorType ix = nEdgeVectorType ix")
  case True
  then show ?thesis using assms(3,4) by (simp add: loadVectorPair_def holder_ok_def pair_ok_def)
next
  case False
  then obtain e where e: "vp_pEdge h = Some e" "edge_fits ix e" using assms(3) by (auto simp: holder_ok_def)
  have "\<exists>e'. vectorConvert v e = Some e'"
    using assms e False by (intro convert_defined) (auto simp: fits_def index_ok_def can_compress_def)
  then obtain e' where e': "vectorConvert v e = Some e'" by blast
  then have "same_shape e e'" by (rule convert_shape)
  then have "e' = e\<lparr>vdata := vdata e'\<rparr>" "length (vdata e') = length (vdata e)" by (simp_all add: same_shape_def)
  then have "edge_fits ix e'" using e(2) by (cases e, cases e') (simp add: fits_def well_sized_def)
  then show ?thesis
    using False assms(3,4) e(1) e' by (simp add: loadVectorPair_def holder_ok_def pair_ok_def)
qed

lemma prune_edges:
  assumes "metric_ok ix" "can_compress ix" "node_ok ix sp" "holder_ok ix h" "k < edge_count (pBuffer sp)"
  shows "\<exists>sp' h' node. diskAnnPruneEdges ix sp (int k) h = Some (sp', h') \<and> node_ok ix sp' \<and> holder_ok ix h' \<and>
    vp_pEdge h' = Some node \<and> edge_fits ix node \<and>
    (nNodeVectorType ix = nEdgeVectorType ix \<longrightarrow> node = block_vec ix (pBuffer sp)) \<and>
    mset (edges ix sp') = filter_mset (\<lambda>e. \<not> superfluous ix node (edges ix sp ! k) e) (mset (edges ix sp)) \<and>
    node_rowid sp' = node_rowid sp \<and> node_vec ix sp' = node_vec ix sp \<and> sp' = sp\<lparr>pBuffer := pBuffer sp'\<rparr>"
proof -
  have ix: "index_ok ix" using assms(1) by (simp add: metric_ok_def)
  have km: "k < max_edges ix" and len: "int (length (pBuffer sp)) = nBlockSize ix"
    using assms(3,5) by (simp_all add: node_ok_def)
  let ?e = "edge_at ix (pBuffer sp) k"
  obtain w where w: "nodeBinEdges ix sp = Some w" "unat w = edge_count (pBuffer sp)"
    using nodeBinEdges_ok [OF ix assms(3)] by blast
  obtain h' node where h: "loadVectorPair h (block_vec ix (pBuffer sp)) = Some h'" "holder_ok ix h'"
    "vp_pEdge h' = Some node" "edge_fits ix node"
    "nNodeVectorType ix = nEdgeVectorType ix \<longrightarrow> node = block_vec ix (pBuffer sp)"
    using load_holder [OF ix assms(2,4) block_vec_fits(1) [OF ix len]] by blast
  obtain sp' where sp': "pruneLoop ix (fst ?e) (int (vec_off ix k)) node 0 (unat w) sp = Some (length (edges ix sp'), sp')"
    "node_ok ix sp'" "mset (edges ix sp') = filter_mset (\<lambda>e. \<not> superfluous ix node ?e e) (mset (edges ix sp))"
    "node_rowid sp' = node_rowid sp" "node_vec ix sp' = node_vec ix sp" "sp' = sp\<lparr>pBuffer := pBuffer sp'\<rparr>"
    using prune_loop [OF assms(1,3) h(4) km refl refl w(2), of 0] by auto
  have "?e \<in> set (edges ix sp)" using assms(5) by (metis edges_nth length_edges nth_mem)
  then have "?e \<in># mset (edges ix sp')" using sp'(3) by (simp add: superfluous_def)
  then have "0 < length (edges ix sp')" by (cases "edges ix sp'") (simp_all del: length_edges)
  moreover have lt: "int k < uint w" using assms(5) w(2) by (simp only: uint_nat of_nat_less_iff)
  ultimately have "diskAnnPruneEdges ix sp (int k) h = Some (sp', h')"
    using assms(5) w h(1,3) sp'(1) nodeBinEdge_ok [OF ix assms(3) km]
    by (simp add: diskAnnPruneEdges_def nodeBinVector_ok [OF ix assms(3)] lt)
  then show ?thesis using sp' h assms(5) by (intro exI [of _ sp'] exI [of _ h'] exI [of _ node]) simp
qed

subsection \<open>The place of a new edge\<close>

text \<open>
  \<open>shortcut\<close>: the detour to the new vector over the edge \<open>e\<close> is short enough, so the node needs
  no edge to it.
\<close>

definition shortcut :: "'c DiskAnnIndex \<Rightarrow> vector \<Rightarrow> f32 \<Rightarrow> edge \<Rightarrow> bool" where
  "shortcut ix new d e \<longleftrightarrow> f32_lt (f32_mul (pruningAlpha ix) (vdist ix (ev ix e) new)) d"

lemma f32_lt_trans: "f32_lt x y \<Longrightarrow> f32_lt y z \<Longrightarrow> f32_lt x z"
  by (auto simp: f32_lt_def)

lemma f32_lt_irrefl [simp]: "\<not> f32_lt x x"
  by (simp add: f32_lt_def)

text \<open>The farthest of the edges \<open>es\<close> that is farther than \<open>d\<close>, or -1.\<close>

definition farthest :: "'c DiskAnnIndex \<Rightarrow> vector \<Rightarrow> f32 \<Rightarrow> edge list \<Rightarrow> nat set \<Rightarrow> int \<Rightarrow> bool" where
  "farthest ix node d es I r \<longleftrightarrow>
     (r = -1 \<and> (\<forall>i \<in> I. \<not> f32_lt d (far ix node (es ! i)))) \<or>
     (\<exists>q \<in> I. r = int q \<and> f32_lt d (far ix node (es ! q)) \<and>
        (\<forall>i \<in> I. \<not> f32_lt (far ix node (es ! q)) (far ix node (es ! i))))"

lemma farthest_insert:
  assumes "farthest ix node d es I r" "m = (if r = -1 then z else far ix node (es ! nat r))" "f = far ix node (es ! i)"
  shows "farthest ix node d es (insert i I) (if f32_lt d f \<and> (r = -1 \<or> f32_lt m f) then int i else r)"
  using assms(1) unfolding farthest_def
proof (elim disjE conjE bexE)
  assume r: "r = -1" "\<forall>i \<in> I. \<not> f32_lt d (far ix node (es ! i))"
  then show "((if f32_lt d f \<and> (r = -1 \<or> f32_lt m f) then int i else r) = -1 \<and>
      (\<forall>i \<in> insert i I. \<not> f32_lt d (far ix node (es ! i)))) \<or>
     (\<exists>q \<in> insert i I. (if f32_lt d f \<and> (r = -1 \<or> f32_lt m f) then int i else r) = int q \<and> f32_lt d (far ix node (es ! q)) \<and>
        (\<forall>i \<in> insert i I. \<not> f32_lt (far ix node (es ! q)) (far ix node (es ! i))))"
    using assms(3) by (cases "f32_lt d f") (auto dest: f32_lt_trans)
next
  fix q assume q: "q \<in> I" "r = int q" "f32_lt d (far ix node (es ! q))"
    "\<forall>i \<in> I. \<not> f32_lt (far ix node (es ! q)) (far ix node (es ! i))"
  then have m: "m = far ix node (es ! q)" using assms(2) by simp
  show "((if f32_lt d f \<and> (r = -1 \<or> f32_lt m f) then int i else r) = -1 \<and>
      (\<forall>i \<in> insert i I. \<not> f32_lt d (far ix node (es ! i)))) \<or>
     (\<exists>q \<in> insert i I. (if f32_lt d f \<and> (r = -1 \<or> f32_lt m f) then int i else r) = int q \<and> f32_lt d (far ix node (es ! q)) \<and>
        (\<forall>i \<in> insert i I. \<not> f32_lt (far ix node (es ! q)) (far ix node (es ! i))))"
  proof (cases "f32_lt m f")
    case True
    then have "f32_lt d f" using f32_lt_trans [OF q(3)] m by simp
    moreover have "\<not> f32_lt f (far ix node (es ! j))" if "j \<in> I" for j
      using that q(4) True m f32_lt_trans by blast
    ultimately show ?thesis using True assms(3) by auto
  next
    case False
    then show ?thesis using q m assms(3) by auto
  qed
qed

lemma replace_loop:
  assumes "metric_ok ix" "node_ok ix sp" "edge_fits ix node" "edge_fits ix new" "n = edge_count (pBuffer sp)"
    and "set is \<subseteq> {0..<n}" "farthest ix node d (edges ix sp) I r" "m = (if r = -1 then z else far ix node (edges ix sp ! nat r))"
  shows "\<exists>k. replaceLoop ix sp rid node new d (int n) N is r m = Some k \<and>
    ((\<exists>i \<in> set is. k = int i \<and> fst (edges ix sp ! i) = rid) \<or>
     (k = -1 \<and> (\<exists>i \<in> set is. shortcut ix new d (edges ix sp ! i))) \<or>
     ((\<forall>i \<in> set is. fst (edges ix sp ! i) \<noteq> rid \<and> \<not> shortcut ix new d (edges ix sp ! i)) \<and>
      (if int n < N then k = int n else farthest ix node d (edges ix sp) (set is \<union> I) k)))"
  using assms(6-)
proof (induction "is" arbitrary: I r m)
  case Nil
  then show ?case by simp
next
  case (Cons i "is")
  have ix: "index_ok ix" using assms(1) by (simp add: metric_ok_def)
  have len: "int (length (pBuffer sp)) = nBlockSize ix" and im: "i < max_edges ix" "i < n"
    using Cons.prems(1) assms(2,5) by (simp_all add: node_ok_def)
  let ?e = "edges ix sp ! i"
  have e: "?e = edge_at ix (pBuffer sp) i" using im(2) assms(5) by simp
  have be: "nodeBinEdge ix sp (int i) =
      Some (fst ?e, if nFormatVersion ix = 1 then None else Some (fst (snd ?e)), edge_vec ix (pBuffer sp) i)"
    using nodeBinEdge_ok [OF ix assms(2) im(1)] by (simp add: nodeBinEdge_def edge_vec_def e)
  have f: "(if nFormatVersion ix = 1 then diskAnnVectorDistance ix node (edge_vec ix (pBuffer sp) i)
            else (if nFormatVersion ix = 1 then None else Some (fst (snd ?e)))) = Some (far ix node ?e)"
    using slot_dist(1) [OF assms(1) len im(1) assms(3)] by (simp add: far_def e)
  have g: "diskAnnVectorDistance ix (edge_vec ix (pBuffer sp) i) new = Some (vdist ix (ev ix ?e) new)"
    using slot_dist(2) [OF assms(1) len im(1) assms(4)] by (simp add: e)
  let ?r = "if f32_lt d (far ix node ?e) \<and> (r = -1 \<or> f32_lt m (far ix node ?e)) then int i else r"
  let ?m = "if f32_lt d (far ix node ?e) \<and> (r = -1 \<or> f32_lt m (far ix node ?e)) then far ix node ?e else m"
  have step: "replaceLoop ix sp rid node new d (int n) N (i # is) r m =
      (if fst ?e = rid then Some (int i)
       else if shortcut ix new d ?e then Some (-1)
       else replaceLoop ix sp rid node new d (int n) N is ?r ?m)"
    by (auto simp: be f g shortcut_def)
  have far': "farthest ix node d (edges ix sp) (insert i I) ?r"
    using farthest_insert [OF Cons.prems(2,3) refl] .
  have m': "?m = (if ?r = -1 then z else far ix node (edges ix sp ! nat ?r))" using Cons.prems(3) by auto
  show ?case
  proof (cases "fst ?e = rid \<or> shortcut ix new d ?e")
    case True
    then show ?thesis unfolding step by auto
  next
    case False
    have sub: "set is \<subseteq> {0..<n}" using Cons.prems(1) by simp
    show ?thesis using Cons.IH [OF sub far' m'] False unfolding step by auto
  qed
qed

text \<open>
  Where the edge to \<open>rid\<close> goes: to the slot it has; nowhere if an edge is a shortcut to it; at the
  end if there is room; else in place of the farthest edge, if that is farther.
\<close>

definition slot_choice :: "'c DiskAnnIndex \<Rightarrow> vector \<Rightarrow> vector \<Rightarrow> u64 \<Rightarrow> edge list \<Rightarrow> int \<Rightarrow> bool" where
  "slot_choice ix node new rid es k \<longleftrightarrow>
     (\<exists>i < length es. k = int i \<and> fst (es ! i) = rid) \<or>
     (k = -1 \<and> (\<exists>e \<in> set es. shortcut ix new (vdist ix node new) e)) \<or>
     ((\<forall>e \<in> set es. fst e \<noteq> rid \<and> \<not> shortcut ix new (vdist ix node new) e) \<and>
      (if length es < max_edges ix then k = int (length es)
       else farthest ix node (vdist ix node new) es {0..<length es} k))"

lemma bex_set_nth: "(\<exists>x \<in> set xs. P x) = (\<exists>i < length xs. P (xs ! i))"
  by (metis in_set_conv_nth)

lemma replace_idx:
  assumes "metric_ok ix" "can_compress ix" "node_ok ix sp" "holder_ok ix h" "vp_pEdge nv = Some new" "edge_fits ix new"
  shows "\<exists>k h' node. diskAnnReplaceEdgeIdx ix sp rid nv h = Some (k, vdist ix node new, h') \<and> holder_ok ix h' \<and>
    vp_pEdge h' = Some node \<and> edge_fits ix node \<and>
    (nNodeVectorType ix = nEdgeVectorType ix \<longrightarrow> node = block_vec ix (pBuffer sp)) \<and>
    slot_choice ix node new rid (edges ix sp) k"
proof -
  have ix: "index_ok ix" "dist_ok ix" using assms(1) by (simp_all add: metric_ok_def)
  have len: "int (length (pBuffer sp)) = nBlockSize ix" using assms(3) by (simp add: node_ok_def)
  let ?n = "edge_count (pBuffer sp)" and ?es = "edges ix sp"
  obtain w where w: "nodeBinEdges ix sp = Some w" "unat w = ?n" using nodeBinEdges_ok [OF ix(1) assms(3)] by blast
  obtain h' node where h: "loadVectorPair h (block_vec ix (pBuffer sp)) = Some h'" "holder_ok ix h'"
    "vp_pEdge h' = Some node" "edge_fits ix node"
    "nNodeVectorType ix = nEdgeVectorType ix \<longrightarrow> node = block_vec ix (pBuffer sp)"
    using load_holder [OF ix(1) assms(2,4) block_vec_fits(1) [OF ix(1) len]] by blast
  let ?d = "vdist ix node new"
  have d: "diskAnnVectorDistance ix node new = Some ?d"
    using distance_some(2) [OF ix h(4) assms(6)] by (auto simp: vdist_def)
  have "farthest ix node ?d ?es {} (-1)" by (simp add: farthest_def)
  moreover have s: "set (rev [0..<?n]) = {0..<?n}" by simp
  moreover have "set (rev [0..<?n]) \<subseteq> {0..<?n}" by simp
  ultimately obtain k where k: "replaceLoop ix sp rid node new ?d (int ?n) (int (max_edges ix)) (rev [0..<?n]) (-1) 0 = Some k"
    "(\<exists>i \<in> {0..<?n}. k = int i \<and> fst (?es ! i) = rid) \<or>
     (k = -1 \<and> (\<exists>i \<in> {0..<?n}. shortcut ix new ?d (?es ! i))) \<or>
     ((\<forall>i \<in> {0..<?n}. fst (?es ! i) \<noteq> rid \<and> \<not> shortcut ix new ?d (?es ! i)) \<and>
      (if int ?n < int (max_edges ix) then k = int ?n else farthest ix node ?d ?es ({0..<?n} \<union> {}) k))"
    using replace_loop [OF assms(1,3) h(4) assms(6) refl, of "rev [0..<?n]" ?d "{}" "-1" 0 0 rid "int (max_edges ix)"]
    unfolding s by metis
  have "slot_choice ix node new rid ?es k"
    using k(2) by (simp only: slot_choice_def all_set_conv_all_nth bex_set_nth length_edges of_nat_less_iff Un_empty_right)
      (simp add: Ball_def Bex_def del: edges_nth)
  moreover have "diskAnnReplaceEdgeIdx ix sp rid nv h = Some (k, ?d, h')"
    using h(1,3) d k(1) assms(5)
    unfolding diskAnnReplaceEdgeIdx_def w(1) bind.bind_lunit nodeEdgesMaxCount_ok [OF ix(1)] nodeBinVector_ok [OF ix(1) assms(3)] w(2)
    by (simp only: bind.bind_lunit prod.case)
  ultimately show ?thesis using h by blast
qed

subsection \<open>Linking a node to another\<close>

text \<open>
  What placing an edge and pruning beside it does to the rows a node points to: the new one is
  among them, no other one is added, and no row appears twice if none did.
\<close>

definition linked :: "u64 \<Rightarrow> edge list \<Rightarrow> edge list \<Rightarrow> bool" where
  "linked rid es es' \<longleftrightarrow> rid \<in> fst ` set es' \<and> fst ` set es' \<subseteq> insert rid (fst ` set es) \<and>
     (distinct (map fst es) \<longrightarrow> distinct (map fst es'))"

lemma distinct_sub_mset:
  assumes "distinct (map f xs)" "mset ys \<subseteq># mset xs" shows "distinct (map f ys)"
proof -
  obtain N where "mset xs = mset ys + N" using assms(2) by (auto simp: mset_subset_eq_exists_conv)
  moreover obtain zs where "mset zs = N" using ex_mset by blast
  ultimately have "mset (map f xs) = mset (map f (ys @ zs))" by simp
  then have "distinct (map f (ys @ zs))" using assms(1) mset_eq_imp_distinct_iff by blast
  then show ?thesis by simp
qed

lemma distinct_replace:
  assumes "distinct (map fst es)" "i \<le> length es" "\<And>j. j < length es \<Longrightarrow> j \<noteq> i \<Longrightarrow> fst (es ! j) \<noteq> fst e"
  shows "distinct (map fst (take i es @ e # drop (Suc i) es))"
proof -
  have n: "fst x \<noteq> fst e" if "x = es ! j" "j < length es" "j \<noteq> i" for x j using assms(3) that by simp
  have t: "fst e \<notin> fst ` set (take i es)" using n assms(2) by (auto simp: set_conv_nth) (metis nat_neq_iff order_less_le_trans)
  have d: "fst e \<notin> fst ` set (drop (Suc i) es)" using n by (auto simp: set_conv_nth) (metis add_Suc less_add_Suc1 less_diff_conv add.commute nat_neq_iff)
  have "distinct (map fst (take i es @ drop i es))" using assms(1) by simp
  then have s: "distinct (map fst (take i es))" "fst ` set (take i es) \<inter> fst ` set (drop i es) = {}"
    unfolding map_append distinct_append by simp_all
  have "fst ` set (drop (Suc i) es) \<subseteq> fst ` set (drop i es)" by (intro image_mono set_drop_subset_set_drop) simp
  then have "fst ` set (take i es) \<inter> fst ` set (drop (Suc i) es) = {}" using s(2) by blast
  moreover have "distinct (map fst (drop (Suc i) es))" using assms(1) by (simp flip: drop_map)
  ultimately show ?thesis using t d s(1) by simp
qed

lemma slot_choice_place:
  assumes "slot_choice ix node new rid es k" "k \<noteq> -1" "length es \<le> max_edges ix"
  shows "\<exists>i. k = int i \<and> i < max_edges ix \<and> i \<le> length es \<and>
    (distinct (map fst es) \<longrightarrow> (\<forall>j < length es. j \<noteq> i \<longrightarrow> fst (es ! j) \<noteq> rid))"
proof -
  consider i where "i < length es" "k = int i" "fst (es ! i) = rid"
    | "\<forall>e \<in> set es. fst e \<noteq> rid" "length es < max_edges ix" "k = int (length es)"
    | i where "\<forall>e \<in> set es. fst e \<noteq> rid" "i < length es" "k = int i"
    using assms(1,2) unfolding slot_choice_def farthest_def by (auto split: if_splits)
  then show ?thesis
  proof cases
    case (1 i)
    then have "\<forall>j < length es. j \<noteq> i \<longrightarrow> fst (es ! j) \<noteq> rid" if "distinct (map fst es)"
      using that nth_eq_iff_index_eq [OF that, of _ i] by fastforce
    then show ?thesis using 1 assms(3) by auto
  qed (use assms(3) in \<open>auto simp: all_set_conv_all_nth\<close>)
qed

lemma slot_choice_empty: "slot_choice ix node new rid [] k \<Longrightarrow> 0 < max_edges ix \<Longrightarrow> k = 0"
  by (simp add: slot_choice_def)

lemma link_edge:
  assumes "metric_ok ix" "can_compress ix" "node_ok ix sp" "holder_ok ix h" "edge_fits ix new"
    and "slot_choice ix node new' rid (edges ix sp) k" "k \<noteq> -1"
  shows "\<exists>sp1 sp2 h2. nodeBinReplaceEdge ix sp k rid d new = Some sp1 \<and> diskAnnPruneEdges ix sp1 k h = Some (sp2, h2) \<and>
    node_ok ix sp2 \<and> holder_ok ix h2 \<and> linked rid (edges ix sp) (edges ix sp2) \<and>
    node_rowid sp2 = node_rowid sp \<and> node_vec ix sp2 = node_vec ix sp \<and> sp2 = sp\<lparr>pBuffer := pBuffer sp2\<rparr>"
proof -
  have ix: "index_ok ix" using assms(1) by (simp add: metric_ok_def)
  have "length (edges ix sp) \<le> max_edges ix" using assms(3) by (simp add: node_ok_def)
  from slot_choice_place [OF assms(6,7) this] obtain i where i: "k = int i" "i < max_edges ix" "i \<le> edge_count (pBuffer sp)"
    "distinct (map fst (edges ix sp)) \<longrightarrow> (\<forall>j < length (edges ix sp). j \<noteq> i \<longrightarrow> fst (edges ix sp ! j) \<noteq> rid)" by auto
  define e where "e = new_edge rid d new (snd (snd (edge_at ix (pBuffer sp) i)))"
  have fe: "fst e = rid" by (simp add: e_def new_edge_def)
  obtain sp1 where sp1: "nodeBinReplaceEdge ix sp (int i) rid d new = Some sp1" "node_ok ix sp1"
    "edges ix sp1 = take i (edges ix sp) @ e # drop (Suc i) (edges ix sp)"
    "node_rowid sp1 = node_rowid sp" "node_vec ix sp1 = node_vec ix sp" "sp1 = sp\<lparr>pBuffer := pBuffer sp1\<rparr>"
    using nodeBinReplaceEdge_ok [OF ix assms(3) i(2,3) assms(5), of rid d] e_def by blast
  have len1: "length (take i (edges ix sp)) = i" using i(3) by simp
  have "i < length (edges ix sp1)" unfolding sp1(3) using len1 by simp
  then have ic: "i < edge_count (pBuffer sp1)" by simp
  have at: "edges ix sp1 ! i = e" unfolding sp1(3) using len1 by (metis nth_append_length)
  obtain sp2 h2 n2 where sp2: "diskAnnPruneEdges ix sp1 (int i) h = Some (sp2, h2)" "node_ok ix sp2" "holder_ok ix h2"
    "mset (edges ix sp2) = filter_mset (\<lambda>x. \<not> superfluous ix n2 e x) (mset (edges ix sp1))"
    "node_rowid sp2 = node_rowid sp1" "node_vec ix sp2 = node_vec ix sp1" "sp2 = sp1\<lparr>pBuffer := pBuffer sp2\<rparr>"
    using prune_edges [OF assms(1,2) sp1(2) assms(4) ic] unfolding at by blast
  have sub: "mset (edges ix sp2) \<subseteq># mset (edges ix sp1)" unfolding sp2(4) by (rule multiset_filter_subset)
  have "e \<in># filter_mset (\<lambda>x. \<not> superfluous ix n2 e x) (mset (edges ix sp1))"
    unfolding sp1(3) by (simp add: superfluous_def)
  then have "e \<in> set (edges ix sp2)" unfolding sp2(4) [symmetric] by simp
  then have "rid \<in> fst ` set (edges ix sp2)" using fe by force
  moreover have "set (edges ix sp2) \<subseteq> set (edges ix sp1)" using set_mset_mono [OF sub] by simp
  then have "fst ` set (edges ix sp2) \<subseteq> insert rid (fst ` set (edges ix sp))"
    unfolding sp1(3) using fe by (auto dest!: in_set_takeD in_set_dropD)
  moreover have "distinct (map fst (edges ix sp2))" if d: "distinct (map fst (edges ix sp))"
  proof -
    have "distinct (map fst (edges ix sp1))"
      unfolding sp1(3) using i(3,4) d fe by (intro distinct_replace) auto
    then show ?thesis using distinct_sub_mset sub by blast
  qed
  ultimately have "linked rid (edges ix sp) (edges ix sp2)" by (simp add: linked_def)
  moreover have "sp2 = sp\<lparr>pBuffer := pBuffer sp2\<rparr>" using sp1(6) sp2(7) 
    by (metis BlobSpot.surjective BlobSpot.update_convs(2) BlobSpot.select_convs)
  ultimately show ?thesis using sp1 sp2 i(1) by (intro exI [of _ sp1] exI [of _ sp2] exI [of _ h2]) simp
qed

subsection \<open>Properties\<close>

text \<open>
  C10. Where a new edge goes: if the metric of the index is defined for its types (there is no L2
  distance of 1-bit vectors), \<open>diskAnnReplaceEdgeIdx\<close> fails no assertion and leaves no buffer, and
  answers the position of the edge if the node has it already; -1 if going over an edge the node
  has is nearly as short (by the factor \<open>pruningAlpha\<close>); else the end if the block has room, or
  the farthest edge that is farther than the new one, or -1 if there is none.
\<close>

theorem replace_edge_choice:
  assumes "metric_ok ix" "can_compress ix" "node_ok ix sp" "holder_ok ix h" "vp_pEdge nv = Some new" "edge_fits ix new"
  shows "\<exists>k h' node. diskAnnReplaceEdgeIdx ix sp rid nv h = Some (k, vdist ix node new, h') \<and> holder_ok ix h' \<and>
    vp_pEdge h' = Some node \<and> (nNodeVectorType ix = nEdgeVectorType ix \<longrightarrow> node = block_vec ix (pBuffer sp)) \<and>
    slot_choice ix node new rid (edges ix sp) k"
  using replace_idx [OF assms, of rid] by blast

text \<open>A node with the vector 0 and edges to 1 (row 8) and to 2 (row 9).\<close>

definition ex_two :: BlobSpot where
  "ex_two = ex_block\<lparr>pBuffer :=
     [7, 0, 0, 0, 0, 0, 0, 0, 2, 0, 0, 0, 0, 0, 0, 0, 0, 0, 0, 0, 0, 0, 128, 63, 0, 0, 0, 64] @
     [0, 0, 0, 0, 0, 0, 128, 63, 8, 0, 0, 0, 0, 0, 0, 0, 0, 0, 0, 0, 0, 0, 0, 64, 9, 0, 0, 0, 0, 0, 0, 0]\<rparr>"

abbreviation (input) ex_pair :: VectorPair where
  "ex_pair \<equiv> \<lparr>vp_nodeType = FLOAT32, vp_edgeType = FLOAT32, vp_pNode = None, vp_pEdge = Some (vectorInit FLOAT32 1 [0, 0, 0, 191])\<rparr>"

lemma ex_two_ok: "node_ok ex_index ex_two" "metric_ok ex_index" "can_compress ex_index" "holder_ok ex_index ex_pair"
  "edges ex_index ex_two = [(8, 0x3F800000, [0, 0, 128, 63]), (9, 0x40000000, [0, 0, 0, 64])]"
proof -
  have n: "edge_count (pBuffer ex_two) = 2" by code_simp
  have z: "edge_size ex_index = 4" "vec_off ex_index i = 20 + i * 4" "meta_off ex_index i = 28 + i * 16" for i
    by (simp_all add: vec_off_def meta_off_def ex_index_ok(2)) (simp_all add: edge_size_def hdr_size_def node_size_def ex_index_def)
  have "edge_at ex_index (pBuffer ex_two) 0 = (8, 0x3F800000, [0, 0, 128, 63])"
    "edge_at ex_index (pBuffer ex_two) 1 = (9, 0x40000000, [0, 0, 0, 64])"
    unfolding edge_at_def z by (simp_all add: field_def ex_two_def ex_block_def le_word_def be_word_simps)
  then show "edges ex_index ex_two = [(8, 0x3F800000, [0, 0, 128, 63]), (9, 0x40000000, [0, 0, 0, 64])]"
    by (simp add: edges_def n upt_rec)
  note n
  moreover have "max_edges ex_index = 2" by (rule ex_index_ok)
  moreover have "nBufferSize ex_two = 60 \<and> nBlockSize ex_index = 60 \<and> length (pBuffer ex_two) = 60"
    by (simp add: ex_two_def ex_block_def ex_index_def)
  ultimately show "node_ok ex_index ex_two" by (simp add: node_ok_def)
  show "metric_ok ex_index" using ex_index_ok by (simp add: metric_ok_def) (simp add: ex_index_def dist_ok_def)
  show "can_compress ex_index" "holder_ok ex_index ex_pair" by (simp_all add: can_compress_def holder_ok_def ex_index_def)
qed

lemma replace_edge_choice_witness:
  "\<exists>k d h'. diskAnnReplaceEdgeIdx ex_index ex_block 10 ex_pair ex_pair = Some (k, d, h') \<and> k = 0"
proof -
  have "edge_fits ex_index (vectorInit FLOAT32 1 [0, 0, 0, 191])"
    by (simp add: fits_def well_sized_def vectorInit_def ex_index_def)
  then obtain k d h' node where "diskAnnReplaceEdgeIdx ex_index ex_block 10 ex_pair ex_pair = Some (k, d, h')"
    "slot_choice ex_index node (vectorInit FLOAT32 1 [0, 0, 0, 191]) 10 [] k"
    using replace_edge_choice [OF ex_two_ok(2,3) ex_block_ok(1) ex_two_ok(4), of ex_pair _ 10] ex_block_ok(2) by auto
  then show ?thesis using slot_choice_empty ex_index_ok(2) by fastforce
qed

text \<open>
  C9. Pruning beside a new edge is exact: if the metric of the index is defined for its types,
  \<open>diskAnnPruneEdges\<close> fails no assertion, leaves no buffer,
  and deletes exactly the edges that the edge at \<open>iInserted\<close> makes superfluous, although it moves
  edges while it reads that one from its slot. The edge itself stays, and so do the row id and
  the vector of the node.
\<close>

theorem prune_is_exact:
  assumes "metric_ok ix" "can_compress ix" "node_ok ix sp" "holder_ok ix h" "k < length (edges ix sp)"
  shows "\<exists>sp' h' node. diskAnnPruneEdges ix sp (int k) h = Some (sp', h') \<and> node_ok ix sp' \<and>
    vp_pEdge h' = Some node \<and> (nNodeVectorType ix = nEdgeVectorType ix \<longrightarrow> node = block_vec ix (pBuffer sp)) \<and>
    mset (edges ix sp') = filter_mset (\<lambda>e. \<not> superfluous ix node (edges ix sp ! k) e) (mset (edges ix sp)) \<and>
    edges ix sp ! k \<in> set (edges ix sp') \<and>
    node_rowid sp' = node_rowid sp \<and> node_vec ix sp' = node_vec ix sp"
proof -
  obtain sp' h' node where p: "diskAnnPruneEdges ix sp (int k) h = Some (sp', h')" "node_ok ix sp'" "vp_pEdge h' = Some node"
    "nNodeVectorType ix = nEdgeVectorType ix \<longrightarrow> node = block_vec ix (pBuffer sp)"
    "mset (edges ix sp') = filter_mset (\<lambda>e. \<not> superfluous ix node (edges ix sp ! k) e) (mset (edges ix sp))"
    "node_rowid sp' = node_rowid sp" "node_vec ix sp' = node_vec ix sp"
    using prune_edges [OF assms(1-4), of k] assms(5) by auto
  have "edges ix sp ! k \<in># mset (edges ix sp')"
    unfolding p(5) using nth_mem [OF assms(5)] by (simp add: superfluous_def)
  then have "edges ix sp ! k \<in> set (edges ix sp')" by simp
  then show ?thesis using p by blast
qed

lemma prune_is_exact_witness:
  "\<exists>sp' h'. diskAnnPruneEdges ex_index ex_two 0 ex_pair = Some (sp', h') \<and> node_ok ex_index sp' \<and>
     (8, 0x3F800000, [0, 0, 128, 63]) \<in> set (edges ex_index sp')"
  using prune_is_exact [OF ex_two_ok(2,3,1,4), of 0] ex_two_ok(5) by auto

end
