(* ===== verification/DiskAnn.thy ===== *)
theory DiskAnn
  imports EdgePrune
begin

unbundle bit_operations_syntax

text \<open>
  The operations of the DiskANN index (\<open>vectordiskann.c\<close>, \<open>vectorIndex.c\<close>): choosing a random
  start row, searching, inserting and deleting. The two SQL statements on the shadow table are
  run by the SQL engine, which is a parameter; \<open>randVal\<close> is the random number drawn, and
  \<open>junk k\<close> is what the \<open>k\<close>-th allocation finds in its memory. Messages, timing and counters of
  the statistics are left out.
\<close>

subsection \<open>The SQL engine\<close>

datatype shadow_stmt = InsertRow i64 bytes | DeleteRow i64

record 's sql_engine =
  sqlPrepare :: "'s \<Rightarrow> shadow_stmt \<Rightarrow> int"
  sqlStep :: "'s \<Rightarrow> shadow_stmt \<Rightarrow> int \<times> 's"

record VectorInRow =
  vr_pVector :: "vector option"
  vr_nRowid :: u64

definition vectorInRowTryGetRowid :: "VectorInRow \<Rightarrow> int \<times> u64" where
  "vectorInRowTryGetRowid pVectorInRow = (0, vr_nRowid pVectorInRow)"

definition diskAnnInsertShadowRow ::
  "'s sql_engine \<Rightarrow> 'c DiskAnnIndex \<Rightarrow> 's \<Rightarrow> VectorInRow \<Rightarrow> int \<times> u64 \<times> 's" where
  "diskAnnInsertShadowRow sql ix s pVectorInRow =
     (let nRowid = vr_nRowid pVectorInRow;
          stmt = InsertRow nRowid (replicate (nat (nBlockSize ix)) 0);
          rc = sqlPrepare sql s stmt in
      if rc \<noteq> SQLITE4_OK then (rc, nRowid, s)
      else if \<not> sqlite4Malloc (nat (nBlockSize ix)) then (SQLITE4_NOMEM, nRowid, s)
      else let (rc, s) = sqlStep sql s stmt in
           (if rc \<noteq> SQLITE4_DONE then SQLITE4_ERROR else SQLITE4_OK, nRowid, s))"

definition diskAnnDeleteShadowRow :: "'s sql_engine \<Rightarrow> 's \<Rightarrow> i64 \<Rightarrow> int \<times> 's" where
  "diskAnnDeleteShadowRow sql s nRowid =
     (let rc = sqlPrepare sql s (DeleteRow nRowid) in
      if rc \<noteq> SQLITE4_OK then (rc, s)
      else let (rc, s) = sqlStep sql s (DeleteRow nRowid) in
           (if rc \<noteq> SQLITE4_DONE then SQLITE4_ERROR else SQLITE4_OK, s))"

subsection \<open>A random start row\<close>

definition in_table :: "'c DiskAnnIndex \<Rightarrow> bytes \<Rightarrow> bool" where
  "in_table ix pKey \<longleftrightarrow> length (aKeyPrefix ix) < length pKey \<and> take (length (aKeyPrefix ix)) pKey = aKeyPrefix ix"

definition decodeRowid :: "'c DiskAnnIndex \<Rightarrow> bytes \<Rightarrow> (int \<times> u64) option" where
  "decodeRowid ix pKey =
     do { r \<leftarrow> sqlite4VdbeDecodeNumericKey (drop (length (aKeyPrefix ix)) pKey);
          Some (case r of
                  None \<Rightarrow> (SQLITE4_ERROR, 0)
                | Some (decRc, num) \<Rightarrow>
                    if decRc \<le> 0 then (SQLITE4_ERROR, 0) else (SQLITE4_OK, fst (sqlite4_num_to_int64 num))) }"

text \<open>Closing the cursor before a return.\<close>

definition closeReturn ::
  "('s, 'c) KVStoreMethods \<Rightarrow> 's \<Rightarrow> 'c \<Rightarrow> int \<times> u64 \<Rightarrow> (int \<times> u64 \<times> 's) option" where
  "closeReturn m s c r = (let (_, s) = sqlite4KVCursorClose m s (Some c) in Some (fst r, snd r, s))"

definition diskAnnSelectRandomShadowRow ::
  "('s, 'c) KVStoreMethods \<Rightarrow> 'c DiskAnnIndex \<Rightarrow> 's \<Rightarrow> u64 \<Rightarrow> (int \<times> u64 \<times> 's) option" where
  "diskAnnSelectRandomShadowRow m ix s randVal =
     (if sint (nShadowRows ix) \<le> 0 then
        do { let (rc, s, c) = sqlite4KVStoreOpenCursor m s;
             if rc \<noteq> SQLITE4_OK then Some (rc, 0, s) else do {
               (rc, c) \<leftarrow> sqlite4KVCursorSeek m s c (aKeyPrefix ix) 1;
               if rc = SQLITE4_NOTFOUND then closeReturn m s c (SQLITE4_DONE, 0)
               else if rc \<noteq> SQLITE4_OK \<and> rc \<noteq> SQLITE4_INEXACT then closeReturn m s c (rc, 0)
               else do {
                 let (rc, pKey) = sqlite4KVCursorKey m s c;
                 if rc \<noteq> SQLITE4_OK then closeReturn m s c (rc, 0)
                 else if \<not> in_table ix pKey then closeReturn m s c (SQLITE4_DONE, 0)
                 else do { r \<leftarrow> decodeRowid ix pKey; closeReturn m s c r } } } }
      else
        do { let aKey = blobSpotBuildKey ix (randVal mod nShadowRows ix + 1);
             let (rc, s, c) = sqlite4KVStoreOpenCursor m s;
             if rc \<noteq> SQLITE4_OK then Some (rc, 0, s) else do {
               (rc, c) \<leftarrow> sqlite4KVCursorSeek m s c aKey 1;
               (rc, c) \<leftarrow> (if rc = SQLITE4_NOTFOUND then sqlite4KVCursorSeek m s c (aKeyPrefix ix) 1 else Some (rc, c));
               if rc \<noteq> SQLITE4_OK \<and> rc \<noteq> SQLITE4_INEXACT then closeReturn m s c (rc, 0)
               else do {
                 let (rc, pKey) = sqlite4KVCursorKey m s c;
                 if rc \<noteq> SQLITE4_OK then closeReturn m s c (rc, 0)
                 else if in_table ix pKey then do { r \<leftarrow> decodeRowid ix pKey; closeReturn m s c r }
                 else do {
                   (rc, c) \<leftarrow> sqlite4KVCursorSeek m s c (aKeyPrefix ix) 1;
                   if rc = SQLITE4_NOTFOUND then closeReturn m s c (SQLITE4_DONE, 0)
                   else if rc \<noteq> SQLITE4_OK \<and> rc \<noteq> SQLITE4_INEXACT then closeReturn m s c (rc, 0)
                   else do {
                     let (rc, pKey) = sqlite4KVCursorKey m s c;
                     if rc \<noteq> SQLITE4_OK then closeReturn m s c (rc, 0)
                     else do { r \<leftarrow> decodeRowid ix pKey; closeReturn m s c r } } } } } })"

subsection \<open>Searching\<close>

record VectorOutRows =
  or_nRows :: nat
  or_nCols :: int
  or_aIntValues :: "i64 list option"

text \<open>Rows without values of their own (\<open>ppValues\<close>) keep no list here.\<close>

definition vectorOutRowsAlloc :: "(nat \<Rightarrow> i64) \<Rightarrow> nat \<Rightarrow> int \<Rightarrow> bool \<Rightarrow> (int \<times> VectorOutRows) option" where
  "vectorOutRowsAlloc garbage nRows nCols rowidLike =
     do { c_assert (nCols > 0);
          let pRows = \<lparr>or_nRows = nRows, or_nCols = nCols, or_aIntValues = None\<rparr>;
          if int nRows * nCols > 2 ^ 30 then Some (SQLITE4_NOMEM, pRows)
          else if rowidLike then
            do { c_assert (nCols = 1);
                 let n = to_int32 (int nRows * 8);
                 if n < 0 \<or> 0x7fffff00 \<le> n then Some (SQLITE4_NOMEM, pRows)
                 else Some (SQLITE4_OK, pRows\<lparr>or_aIntValues := Some (map garbage [0..<nat n div 8])\<rparr>) }
          else Some (SQLITE4_OK, pRows) }"

definition vectorOutRowsPut :: "VectorOutRows \<Rightarrow> nat \<Rightarrow> int \<Rightarrow> u64 \<Rightarrow> VectorOutRows option" where
  "vectorOutRowsPut pRows iRow iCol pInt =
     do { c_assert (iRow < or_nRows pRows); c_assert (0 \<le> iCol \<and> iCol < or_nCols pRows);
          vs \<leftarrow> or_aIntValues pRows;
          c_assert (or_nCols pRows = 1 \<and> iRow < length vs);
          Some (pRows\<lparr>or_aIntValues := Some (vs[iRow := pInt])\<rparr>) }"

text \<open>The result rows; a table whose key is not a row id is not supported by an \<open>assert(0)\<close>.\<close>

fun putRows :: "DiskAnnSearchCtx \<Rightarrow> VectorOutRows \<Rightarrow> nat list \<Rightarrow> VectorOutRows option" where
  "putRows ctx pRows [] = Some pRows"
| "putRows ctx pRows (i # is) =
     do { c_assert (or_aIntValues pRows \<noteq> None);
          c_assert (i < length (aTopCandidates ctx));
          n \<leftarrow> node_at ctx (aTopCandidates ctx ! i);
          pRows \<leftarrow> vectorOutRowsPut pRows i 0 (dn_nRowid n);
          putRows ctx pRows is }"

definition diskAnnSearch ::
  "(nat \<Rightarrow> nat \<Rightarrow> u8) \<Rightarrow> (nat \<Rightarrow> i64) \<Rightarrow> ('s, 'c) KVStoreMethods \<Rightarrow> u64 \<Rightarrow> 'c DiskAnnIndex \<Rightarrow> 's \<Rightarrow> vector \<Rightarrow> int
     \<Rightarrow> int \<Rightarrow> bool \<Rightarrow> (int \<times> 'c DiskAnnIndex \<times> 's \<times> VectorOutRows option) option" where
  "diskAnnSearch junk garbage m randVal ix s pVector k nKeyColumns rowidLike =
     (if k < 0 then Some (SQLITE4_ERROR, ix, s, None)
      else if vdims pVector \<noteq> nVectorDims ix then Some (SQLITE4_ERROR, ix, s, None)
      else if vtype pVector \<noteq> nNodeVectorType ix then Some (SQLITE4_ERROR, ix, s, None)
      else do {
        (rc, nStartRowid, s) \<leftarrow> diskAnnSelectRandomShadowRow m ix s randVal;
        if rc = SQLITE4_DONE then
          Some (SQLITE4_OK, ix, s, Some \<lparr>or_nRows = 0, or_nCols = nKeyColumns, or_aIntValues = None\<rparr>)
        else if rc \<noteq> SQLITE4_OK then Some (rc, ix, s, None)
        else do {
          (rc, ctx) \<leftarrow> diskAnnSearchCtxInit (junk 0) ix pVector (searchL ix) (nat k) DISKANN_BLOB_READONLY;
          (rc, ix, s, ctx, pRows) \<leftarrow>
            (if rc \<noteq> SQLITE4_OK then Some (rc, ix, s, ctx, None)
             else do {
               (rc, ix, s, ctx) \<leftarrow> diskAnnSearchInternal (junk 1) m ix s ctx nStartRowid;
               if rc \<noteq> SQLITE4_OK then Some (rc, ix, s, ctx, None)
               else do {
                 let nOutRows = min (nat k) (length (aTopCandidates ctx));
                 (rc, pRows) \<leftarrow> vectorOutRowsAlloc garbage nOutRows nKeyColumns rowidLike;
                 if rc \<noteq> SQLITE4_OK then Some (rc, ix, s, ctx, None)
                 else do { pRows \<leftarrow> putRows ctx pRows [0..<nOutRows]; Some (SQLITE4_OK, ix, s, ctx, Some pRows) } } });
          _ \<leftarrow> diskAnnSearchCtxDeinit ctx;
          Some (rc, ix, s, pRows) } })"

subsection \<open>The start row exists\<close>

text \<open>Nothing but the rows of the index has a key under its prefix.\<close>

definition rows_only :: "'c DiskAnnIndex \<Rightarrow> (bytes \<times> bytes) list \<Rightarrow> bool" where
  "rows_only ix kvs \<longleftrightarrow>
     (\<forall>k \<in> fst ` set kvs. take (length (aKeyPrefix ix)) k = aKeyPrefix ix \<longrightarrow> (\<exists>r. k = blobSpotBuildKey ix r))"

lemma append_less_cancel: "p @ k < p @ (k' :: bytes) \<longleftrightarrow> k < k'"
  by (induction p) auto

lemma between_prefix:
  assumes "p \<le> k" "k \<le> p @ x" shows "\<exists>y. k = p @ (y :: bytes)"
  using assms
proof (induction p arbitrary: k)
  case (Cons a p)
  then show ?case by (cases k) auto
qed simp

lemma ceil_row:
  assumes "sorted_keys kvs" "rows_only ix kvs" "map_of kvs (blobSpotBuildKey ix r) \<noteq> None"
    and "k \<le> blobSpotBuildKey ix r" "aKeyPrefix ix \<le> k"
  shows "\<exists>r' v. kv_ceil k kvs = Some (blobSpotBuildKey ix r', v) \<and> map_of kvs (blobSpotBuildKey ix r') = Some v"
proof -
  from assms(3) have i: "blobSpotBuildKey ix r \<in> fst ` set kvs" by (simp add: map_of_eq_None_iff)
  with assms(4) obtain k' v where c: "kv_ceil k kvs = Some (k', v)"
    by (metis kv_ceil_None not_le option.exhaust surj_pair)
  from kv_ceil_Some [OF assms(1) c] i assms(4) have k': "k \<le> k'" "k' \<le> blobSpotBuildKey ix r" "map_of kvs k' = Some v"
    by auto
  from k'(1,2) assms(5) obtain y where "k' = aKeyPrefix ix @ y"
    using between_prefix [of "aKeyPrefix ix" k' "sqlite4VdbeEncodeIntKey r"]
    by (metis blobSpotBuildKey_def order_trans)
  moreover from k'(3) have "k' \<in> fst ` set kvs" by (metis map_of_eq_None_iff option.distinct(1))
  ultimately obtain r' where "k' = blobSpotBuildKey ix r'"
    using assms(2) unfolding rows_only_def by (metis append_eq_conv_conj)
  with c k'(3) show ?thesis by auto
qed

lemma build_key_props:
  "aKeyPrefix ix \<le> blobSpotBuildKey ix r" "in_table ix (blobSpotBuildKey ix r)"
  "decodeRowid ix (blobSpotBuildKey ix r) = Some (SQLITE4_OK, r)"
proof -
  obtain num where n: "sqlite4VdbeDecodeNumericKey (sqlite4VdbeEncodeIntKey r) =
      Some (Some (length (sqlite4VdbeEncodeIntKey r), num))" "sqlite4_num_to_int64 num = (r, 0)"
    using int_key_roundtrip [of r "[]"] by auto
  have l: "sqlite4VdbeEncodeIntKey r \<noteq> []"
    using n(1) by (auto simp: sqlite4VdbeDecodeNumericKey_def)
  show "aKeyPrefix ix \<le> blobSpotBuildKey ix r"
    using append_less_cancel [of "aKeyPrefix ix" "[]"] l
    by (cases "sqlite4VdbeEncodeIntKey r") (auto simp: blobSpotBuildKey_def less_imp_le)
  show "in_table ix (blobSpotBuildKey ix r)" using l by (simp add: in_table_def blobSpotBuildKey_def)
  show "decodeRowid ix (blobSpotBuildKey ix r) = Some (SQLITE4_OK, r)"
    using n l by (simp add: decodeRowid_def blobSpotBuildKey_def)
qed

lemma no_row_ceil:
  assumes "sorted_keys kvs" "rows_only ix kvs" "\<forall>r. map_of kvs (blobSpotBuildKey ix r) = None"
    and "kv_ceil k kvs = Some (k', v)"
  shows "\<not> in_table ix k'"
proof
  assume "in_table ix k'"
  moreover from kv_ceil_Some [OF assms(1,4)] have k: "map_of kvs k' = Some v" by simp
  then have "k' \<in> fst ` set kvs" by (metis map_of_eq_None_iff option.distinct(1))
  ultimately obtain r' where "k' = blobSpotBuildKey ix r'"
    using assms(2) by (auto simp: rows_only_def in_table_def)
  with k assms(3) show False by simp
qed

context kv_store
begin

lemma seek_hit:
  assumes "good s" "kv_ceil k (contents s) = Some (k', v)"
  shows "\<exists>c'. sqlite4KVCursorSeek m s c k 1 = Some (if k' = k then SQLITE4_OK else SQLITE4_INEXACT, c') \<and>
    sqlite4KVCursorKey m s c' = (SQLITE4_OK, k')"
  using seek_up [OF assms(1), of c k] assms(2)
  by (auto simp: sqlite4KVCursorSeek_def sqlite4KVCursorKey_def)

lemma seek_miss:
  assumes "good s" "kv_ceil k (contents s) = None"
  shows "\<exists>c'. sqlite4KVCursorSeek m s c k 1 = Some (SQLITE4_NOTFOUND, c')"
  using seek_up [OF assms(1), of c k] assms(2) by (auto simp: sqlite4KVCursorSeek_def)

lemma close_return:
  assumes "good s"
  shows "\<exists>s'. (\<forall>rc r. closeReturn m s c (rc, r) = Some (rc, r, s')) \<and> good s' \<and> contents s' = contents s"
  using close_cursor [OF assms, of c] by (auto simp: closeReturn_def sqlite4KVCursorClose_def)

lemma random_row:
  assumes "good s" "rows_only ix (contents s)" "node_table ix (contents s) r \<noteq> None"
  shows "\<exists>r' s'. diskAnnSelectRandomShadowRow m ix s randVal = Some (SQLITE4_OK, r', s') \<and>
    node_table ix (contents s) r' \<noteq> None \<and> good s' \<and> contents s' = contents s"
proof -
  let ?P = "aKeyPrefix ix"
  obtain s1 c1 where o1: "xOpenCursor m s = (SQLITE4_OK, s1, c1)" and g: "good s1" and ct: "contents s1 = contents s"
    using open_cursor [OF assms(1)] by metis
  note so = sorted [OF assms(1)]
  from assms(3) have mr: "map_of (contents s) (blobSpotBuildKey ix r) \<noteq> None" by (simp add: node_table_None)
  obtain r' v where ce: "kv_ceil ?P (contents s1) = Some (blobSpotBuildKey ix r', v)"
    and r': "node_table ix (contents s) r' \<noteq> None"
    using ceil_row [OF so assms(2) mr build_key_props(1) order_refl] by (auto simp: ct node_table_None)
  define rcP where "rcP = (if blobSpotBuildKey ix r' = ?P then SQLITE4_OK else SQLITE4_INEXACT)"
  have rcP: "rcP = SQLITE4_OK \<or> rcP = SQLITE4_INEXACT" by (simp add: rcP_def)
  have hit: "\<exists>c'. sqlite4KVCursorSeek m s1 c ?P 1 = Some (rcP, c') \<and>
      sqlite4KVCursorKey m s1 c' = (SQLITE4_OK, blobSpotBuildKey ix r')" for c
    unfolding rcP_def by (rule seek_hit [OF g ce])
  note simps = diskAnnSelectRandomShadowRow_def sqlite4KVStoreOpenCursor_def o1 build_key_props(2,3)
  show ?thesis
  proof (cases "sint (nShadowRows ix) \<le> 0")
    case True
    obtain c' where h: "sqlite4KVCursorSeek m s1 c1 ?P 1 = Some (rcP, c')"
      "sqlite4KVCursorKey m s1 c' = (SQLITE4_OK, blobSpotBuildKey ix r')" using hit by blast
    obtain s2 where s2: "\<forall>rc r. closeReturn m s1 c' (rc, r) = Some (rc, r, s2)" "good s2" "contents s2 = contents s1"
      using close_return [OF g, of c'] by blast
    show ?thesis using True rcP r' s2 ct by (auto simp: simps h)
  next
    case False
    let ?k = "blobSpotBuildKey ix (randVal mod nShadowRows ix + 1)"
    show ?thesis
    proof (cases "kv_ceil ?k (contents s1)")
      case None
      obtain c2 where m: "sqlite4KVCursorSeek m s1 c1 ?k 1 = Some (SQLITE4_NOTFOUND, c2)"
        using seek_miss [OF g None] by blast
      obtain c' where h: "sqlite4KVCursorSeek m s1 c2 ?P 1 = Some (rcP, c')"
        "sqlite4KVCursorKey m s1 c' = (SQLITE4_OK, blobSpotBuildKey ix r')" using hit by blast
      obtain s2 where s2: "\<forall>rc r. closeReturn m s1 c' (rc, r) = Some (rc, r, s2)" "good s2" "contents s2 = contents s1"
        using close_return [OF g, of c'] by blast
      show ?thesis using False rcP r' s2 ct by (auto simp: simps h m Let_def)
    next
      case (Some kv)
      then obtain k' v' where c: "kv_ceil ?k (contents s1) = Some (k', v')" by (cases kv) auto
      define rc1 where "rc1 = (if k' = ?k then SQLITE4_OK else SQLITE4_INEXACT)"
      have rc1: "rc1 = SQLITE4_OK \<or> rc1 = SQLITE4_INEXACT" by (simp add: rc1_def)
      obtain c2 where m: "sqlite4KVCursorSeek m s1 c1 ?k 1 = Some (rc1, c2)"
        "sqlite4KVCursorKey m s1 c2 = (SQLITE4_OK, k')" using seek_hit [OF g c] unfolding rc1_def by blast
      show ?thesis
      proof (cases "in_table ix k'")
        case True
        have mk: "map_of (contents s) k' = Some v'" using kv_ceil_Some [OF so] c ct by auto
        then have "k' \<in> fst ` set (contents s)" by (metis map_of_eq_None_iff option.distinct(1))
        with True assms(2) obtain r2 where r2: "k' = blobSpotBuildKey ix r2" by (auto simp: rows_only_def in_table_def)
        obtain s2 where s2: "\<forall>rc r. closeReturn m s1 c2 (rc, r) = Some (rc, r, s2)" "good s2" "contents s2 = contents s1"
          using close_return [OF g, of c2] by blast
        have "node_table ix (contents s) r2 \<noteq> None" using mk r2 by (simp add: node_table_None)
        then show ?thesis using False rc1 s2 ct r2 by (auto simp: simps m Let_def)
      next
        case out: False
        obtain c' where h: "sqlite4KVCursorSeek m s1 c2 ?P 1 = Some (rcP, c')"
          "sqlite4KVCursorKey m s1 c' = (SQLITE4_OK, blobSpotBuildKey ix r')" using hit by blast
        obtain s2 where s2: "\<forall>rc r. closeReturn m s1 c' (rc, r) = Some (rc, r, s2)" "good s2" "contents s2 = contents s1"
          using close_return [OF g, of c'] by blast
        show ?thesis using False rc1 rcP r' s2 ct out by (auto simp: simps m h Let_def)
      qed
    qed
  qed
qed

lemma random_none:
  assumes "good s" "rows_only ix (contents s)" "\<forall>r. node_table ix (contents s) r = None" "sint (nShadowRows ix) \<le> 0"
  shows "\<exists>s'. diskAnnSelectRandomShadowRow m ix s randVal = Some (SQLITE4_DONE, 0, s') \<and> good s' \<and> contents s' = contents s"
proof -
  let ?P = "aKeyPrefix ix"
  obtain s1 c1 where o1: "xOpenCursor m s = (SQLITE4_OK, s1, c1)" and g: "good s1" and ct: "contents s1 = contents s"
    using open_cursor [OF assms(1)] by metis
  note simps = diskAnnSelectRandomShadowRow_def sqlite4KVStoreOpenCursor_def o1
  show ?thesis
  proof (cases "kv_ceil ?P (contents s1)")
    case None
    obtain c2 where m: "sqlite4KVCursorSeek m s1 c1 ?P 1 = Some (SQLITE4_NOTFOUND, c2)"
      using seek_miss [OF g None] by blast
    obtain s2 where "\<forall>rc r. closeReturn m s1 c2 (rc, r) = Some (rc, r, s2)" "good s2" "contents s2 = contents s1"
      using close_return [OF g, of c2] by blast
    then show ?thesis using assms(4) ct by (simp add: simps m)
  next
    case (Some kv)
    then obtain k' v' where c: "kv_ceil ?P (contents s1) = Some (k', v')" by (cases kv) auto
    define rc1 where "rc1 = (if k' = ?P then SQLITE4_OK else SQLITE4_INEXACT)"
    have rc1: "rc1 = SQLITE4_OK \<or> rc1 = SQLITE4_INEXACT" by (simp add: rc1_def)
    obtain c2 where m: "sqlite4KVCursorSeek m s1 c1 ?P 1 = Some (rc1, c2)"
      "sqlite4KVCursorKey m s1 c2 = (SQLITE4_OK, k')" using seek_hit [OF g c] unfolding rc1_def by blast
    have out: "\<not> in_table ix k'"
      using no_row_ceil [OF sorted [OF assms(1)] assms(2) _ c [unfolded ct]] assms(3) by (simp add: node_table_None)
    obtain s2 where "\<forall>rc r. closeReturn m s1 c2 (rc, r) = Some (rc, r, s2)" "good s2" "contents s2 = contents s1"
      using close_return [OF g, of c2] by blast
    then show ?thesis using assms(4) ct out rc1 by (auto simp: simps m)
  qed
qed

text \<open>A count of rows that are not there, as after a rollback, is an error.\<close>

lemma random_stale:
  assumes "good s" "\<forall>k \<in> fst ` set (contents s). k < aKeyPrefix ix" "0 < sint (nShadowRows ix)"
  shows "\<exists>s'. diskAnnSelectRandomShadowRow m ix s randVal = Some (SQLITE4_NOTFOUND, 0, s') \<and> good s' \<and> contents s' = contents s"
proof -
  obtain s1 c1 where o1: "xOpenCursor m s = (SQLITE4_OK, s1, c1)" and g: "good s1" and ct: "contents s1 = contents s"
    using open_cursor [OF assms(1)] by metis
  have none: "kv_ceil k (contents s1) = None" if "aKeyPrefix ix \<le> k" for k
    using assms(2) that unfolding ct kv_ceil_None by (meson less_le_trans)
  obtain c2 where c2: "sqlite4KVCursorSeek m s1 c1 (blobSpotBuildKey ix (randVal mod nShadowRows ix + 1)) 1 = Some (SQLITE4_NOTFOUND, c2)"
    using seek_miss [OF g none [OF build_key_props(1)]] by blast
  obtain c3 where c3: "sqlite4KVCursorSeek m s1 c2 (aKeyPrefix ix) 1 = Some (SQLITE4_NOTFOUND, c3)"
    using seek_miss [OF g none [OF order_refl]] by blast
  obtain s2 where "\<forall>rc r. closeReturn m s1 c3 (rc, r) = Some (rc, r, s2)" "good s2" "contents s2 = contents s1"
    using close_return [OF g, of c3] by blast
  then show ?thesis using assms(3) ct
    by (simp add: diskAnnSelectRandomShadowRow_def sqlite4KVStoreOpenCursor_def o1 c2 c3 Let_def)
qed

end

subsection \<open>What a search returns\<close>

lemma beam_step_log: "set (bm_log b) \<subseteq> set (bm_log (beam_step L K G b))"
  by (auto simp: beam_step_def beam_visit_def Let_def split: list.splits option.splits)

lemma beam_visits_start:
  assumes "G r0 \<noteq> None" "beam_search L K G r0 d = Some b"
  shows "r0 \<in> fst ` set (bm_log b)"
proof -
  from assms(2) have "while_option beam_open (beam_step L K G) (beam_step L K G (beam_start r0 d)) = Some b"
    unfolding beam_search_def by (subst (asm) while_option_unfold) (simp add: beam_open_def beam_start_def)
  moreover have "r0 \<in> fst ` set (bm_log (beam_step L K G (beam_start r0 d)))"
    using assms(1) by (auto simp: beam_step_def beam_start_def beam_visit_def)
  ultimately show ?thesis
    by (rule while_option_rule [where P = "\<lambda>b. r0 \<in> fst ` set (bm_log b)", rotated])
      (use beam_step_log in blast)
qed

lemma dom_graph: "dom (search_graph ix kvs q) = dom (node_table ix kvs)"
  by (auto simp: search_graph_def)

lemma init_ok:
  assumes "index_ok ix" "can_compress ix" "fits (nNodeVectorType ix) (nVectorDims ix) v"
    and "sqlite4Malloc (L * 8)" "sqlite4Malloc (K * 8)"
  shows "\<exists>ctx. diskAnnSearchCtxInit junk ix v L K mode = Some (SQLITE4_OK, ctx) \<and> pair_ok ix (query ctx)"
proof -
  obtain q where q: "loadVectorPair (initVectorPair junk (nNodeVectorType ix) (nEdgeVectorType ix) (nVectorDims ix)) v = Some q"
    "pair_ok ix q" using load_holder [OF assms(1,2) init_holder assms(3)] by metis
  with assms(4,5) show ?thesis by (auto simp: diskAnnSearchCtxInit_def sqlite4Malloc_def)
qed

lemma init_no_memory:
  assumes "index_ok ix" "can_compress ix" "fits (nNodeVectorType ix) (nVectorDims ix) v" "L * 8 < 2 ^ 31"
  shows "\<exists>ctx. diskAnnSearchCtxInit junk ix v L 0 mode = Some (SQLITE4_NOMEM, ctx) \<and> diskAnnSearchCtxDeinit ctx = None"
proof -
  obtain q where q: "loadVectorPair (initVectorPair junk (nNodeVectorType ix) (nEdgeVectorType ix) (nVectorDims ix)) v = Some q"
    using load_holder [OF assms(1,2) init_holder assms(3)] by metis
  with assms(4) show ?thesis
    by (auto simp: diskAnnSearchCtxInit_def sqlite4Malloc_def diskAnnSearchCtxDeinit_def)
qed

lemma put_rows:
  assumes "set is \<subseteq> {0..<n}" "n \<le> length (aTopCandidates ctx)" "set (aTopCandidates ctx) \<subseteq> dom (node_at ctx)"
    and "or_nRows pRows = n" "or_nCols pRows = 1" "or_aIntValues pRows = Some vs" "length vs = n"
  shows "putRows ctx pRows is =
    Some (pRows\<lparr>or_aIntValues := Some (foldl (\<lambda>vs i. vs[i := row_of (node_at ctx) (aTopCandidates ctx ! i)]) vs is)\<rparr>)"
  using assms
proof (induction "is" arbitrary: pRows vs)
  case (Cons i "is")
  then have i: "i < n" "i < length (aTopCandidates ctx)" by auto
  with Cons.prems(3) obtain nd where nd: "node_at ctx (aTopCandidates ctx ! i) = Some nd" by (meson domD nth_mem subsetD)
  have "putRows ctx (pRows\<lparr>or_aIntValues := Some (vs[i := dn_nRowid nd])\<rparr>) is =
    Some (pRows\<lparr>or_aIntValues := Some (vs[i := dn_nRowid nd]),
      or_aIntValues := Some (foldl (\<lambda>vs i. vs[i := row_of (node_at ctx) (aTopCandidates ctx ! i)]) (vs[i := dn_nRowid nd]) is)\<rparr>)"
    using Cons.prems by (intro Cons.IH) auto
  then show ?case using Cons.prems(4-7) i nd by (simp add: vectorOutRowsPut_def row_of_def)
qed simp

lemma foldl_set_all:
  assumes "length vs = n" shows "foldl (\<lambda>vs i. vs[i := f i]) vs [0..<n] = map f [0..<n]"
proof -
  have "k \<le> n \<Longrightarrow> foldl (\<lambda>vs i. vs[i := f i]) vs [0..<k] = map f [0..<k] @ drop k vs" for k
    by (induction k) (auto simp: assms list_update_append Cons_nth_drop_Suc [symmetric])
  with assms show ?thesis by simp
qed

text \<open>The visited rows, when the search is through.\<close>

lemma visited_rows:
  assumes "ctx_rel (node_at ctx) ctx b" "beam_search L K (search_graph ix kvs q) r0 d = Some b" "0 < L" "node_table ix kvs r0 \<noteq> None"
  shows "distinct (map (row_of (node_at ctx)) (visitedList ctx))"
    "r0 \<in> row_of (node_at ctx) ` set (visitedList ctx)"
    "row_of (node_at ctx) ` set (visitedList ctx) \<subseteq> dom (node_table ix kvs)"
    "map (row_of (node_at ctx)) (aTopCandidates ctx) = map fst (bm_top b)"
    "mset (bm_top b) \<subseteq># mset (bm_log b)" "length (bm_top b) = min K (length (bm_log b))"
proof -
  let ?G = "search_graph ix kvs q"
  have ok: "beam_ok L K ?G r0 b"
    using beam_search_ends [OF finite_graph assms(3)] assms(2) by (metis option.inject)
  note v = ctx_relD(6) [OF assms(1)]
  show "distinct (map (row_of (node_at ctx)) (visitedList ctx))" using beam_okD(2) [OF ok] v by simp
  show "r0 \<in> row_of (node_at ctx) ` set (visitedList ctx)"
    using beam_visits_start [OF _ assms(2)] assms(4) seen_rows(1) [OF assms(1)] by (simp add: search_graph_def)
  show "row_of (node_at ctx) ` set (visitedList ctx) \<subseteq> dom (node_table ix kvs)"
    using beam_okD(6) [OF ok] seen_rows(1) [OF assms(1)] dom_graph by metis
  show "map (row_of (node_at ctx)) (aTopCandidates ctx) = map fst (bm_top b)"
    using ctx_relD(7) [OF assms(1)] bufs_okD(2) [OF ctx_relD(1) [OF assms(1)]]
    by (auto simp: top_view_def split_def intro!: nth_equalityI)
  show "mset (bm_top b) \<subseteq># mset (bm_log b)"
    using beam_okD(5) [OF ok] dist_sort_props(1) [of snd "bm_log b"] by (metis append_take_drop_id mset_append mset_subset_eq_add_left)
  show "length (bm_top b) = min K (length (bm_log b))"
    using beam_okD(5) [OF ok] dist_sort_props(1) [of snd "bm_log b"] by (metis length_take min.commute size_mset)
qed

context kv_store
begin

lemma disk_ann_search:
  assumes "good s" "graph_ok ix (contents s)" "rows_only ix (contents s)" "can_compress ix"
    and "fits (nNodeVectorType ix) (nVectorDims ix) v" "node_table ix (contents s) r \<noteq> None"
    and "0 < k" "sqlite4Malloc (searchL ix * 8)" "sqlite4Malloc (nat k * 8)"
    and "dist_ok ix" "comparable_vector (junk 0) ix (contents s) v"
  shows "\<exists>r0 q d b ix' s' pRows. node_table ix (contents s) r0 \<noteq> None \<and> query_pair (junk 0) ix v = Some q \<and>
    beam_search (searchL ix) (nat k) (search_graph ix (contents s) q) r0 d = Some b \<and>
    diskAnnSearch junk garbage m randVal ix s v k 1 True = Some (SQLITE4_OK, ix', s', Some pRows) \<and>
    good s' \<and> contents s' = contents s \<and> same_index ix ix' \<and>
    or_nRows pRows = length (bm_top b) \<and> or_aIntValues pRows = Some (map fst (bm_top b)) \<and>
    r0 \<in> fst ` set (bm_log b) \<and> distinct (map fst (bm_log b)) \<and> fst ` set (bm_log b) \<subseteq> dom (node_table ix (contents s)) \<and>
    mset (bm_top b) \<subseteq># mset (bm_log b) \<and> length (bm_top b) = min (nat k) (length (bm_log b))"
proof -
  let ?G = "search_graph ix (contents s)" and ?L = "searchL ix" and ?K = "nat k"
  from assms(2) have ix: "index_ok ix" by (simp add: graph_ok_def)
  obtain r0 s1 where r0: "diskAnnSelectRandomShadowRow m ix s randVal = Some (SQLITE4_OK, r0, s1)"
    "node_table ix (contents s) r0 \<noteq> None" "good s1" "contents s1 = contents s"
    using random_row [OF assms(1,3,6)] by metis
  obtain blk where blk: "node_table ix (contents s1) r0 = Some blk" using r0(2,4) by auto
  obtain ctx where ctx: "diskAnnSearchCtxInit (junk 0) ix v ?L ?K False = Some (SQLITE4_OK, ctx)" "pair_ok ix (query ctx)"
    using init_ok [OF ix assms(4,5,8,9)] by metis
  note f = init_fresh [OF ctx(1)]
  have L: "0 < maxCandidates ctx" "maxCandidates ctx < 2 ^ 31" using f(2,6,8) by simp_all
  have cmp: "comparable ix (contents s1) (query ctx) r0"
    using assms(11) init_query [OF ctx(1)] by (simp add: comparable_vector_def r0(4))
  obtain d b ix2 s2 ctx2 where i: "beam_search (maxCandidates ctx) (maxTopCandidates ctx) (?G (query ctx)) r0 d = Some b"
    "diskAnnSearchInternal (junk 1) m ix s1 ctx r0 = Some (SQLITE4_OK, ix2, s2, ctx2)"
    "same_index ix ix2" "good s2" "contents s2 = contents s1" "same_ctx ctx ctx2" "ctx_rel (node_at ctx2) ctx2 b"
    using search_internal [OF r0(3) assms(2) [folded r0(4)] f(1) ctx(2) L blk refl f(5) _ cmp assms(10)] f(4) r0(4) by metis
  note b = i(1) [unfolded f(2,3)]
  note v = visited_rows [OF i(7) b f(6) r0(2)]
  have bf: "ctxBuffers ctx2" using i(6) f(9) by (simp add: same_ctx_def)
  obtain ctx3 where d: "diskAnnSearchCtxDeinit ctx2 = Some ctx3" using deinit_ok [OF i(7) bf] by blast
  let ?n = "length (aTopCandidates ctx2)" and ?top = "map (row_of (node_at ctx2)) (aTopCandidates ctx2)"
  have n: "?n = length (bm_top b)" using v(4) by (metis length_map)
  then have nk: "min ?K ?n = ?n" using v(6) by simp
  have mk: "sqlite4Malloc (?K * 8)" by fact
  have t32: "to_int32 (int ?n * 8) = int (?n * 8)" "?n * 8 < 0x7fffff00" "int ?n \<le> 2 ^ 30"
    using v(6) n mk by (auto simp: to_int32_def sqlite4Malloc_def)
  define rows where "rows = \<lparr>or_nRows = ?n, or_nCols = 1, or_aIntValues = Some (map garbage [0..<?n])\<rparr>"
  have al: "vectorOutRowsAlloc garbage ?n 1 True = Some (SQLITE4_OK, rows)"
    using t32 by (simp add: vectorOutRowsAlloc_def rows_def nat_mult_distrib)
  have top: "set (aTopCandidates ctx2) \<subseteq> dom (node_at ctx2)"
    using bufs_okD(8) [OF ctx_relD(1) [OF i(7)]] ctx_relD(2) [OF i(7)] by auto
  have mt: "map (\<lambda>i. row_of (node_at ctx2) (aTopCandidates ctx2 ! i)) [0..<?n] = ?top"
    by (rule nth_equalityI) simp_all
  have "putRows ctx2 rows [0..<?n] = Some (rows\<lparr>or_aIntValues :=
      Some (foldl (\<lambda>vs i. vs[i := row_of (node_at ctx2) (aTopCandidates ctx2 ! i)]) (map garbage [0..<?n]) [0..<?n])\<rparr>)"
    by (rule put_rows [OF _ order_refl top]) (simp_all add: rows_def)
  also have "foldl (\<lambda>vs i. vs[i := row_of (node_at ctx2) (aTopCandidates ctx2 ! i)]) (map garbage [0..<?n]) [0..<?n] = ?top"
    unfolding mt [symmetric] by (rule foldl_set_all) simp
  finally have p: "putRows ctx2 rows [0..<?n] = Some (rows\<lparr>or_aIntValues := Some ?top\<rparr>)" .
  have s: "diskAnnSearch junk garbage m randVal ix s v k 1 True =
      Some (SQLITE4_OK, ix2, s2, Some (rows\<lparr>or_aIntValues := Some ?top\<rparr>))"
    using assms(5,7) nk by (simp add: diskAnnSearch_def fits_def r0(1) ctx(1) i(2) [unfolded One_nat_def] al p d Let_def)
  have lg: "fst ` set (bm_log b) = row_of (node_at ctx2) ` set (visitedList ctx2)" using seen_rows(1) [OF i(7)] .
  show ?thesis
    using s b r0 init_query [OF ctx(1)] i(3-5) v n lg ctx_relD(6) [OF i(7)]
    by (intro exI [of _ r0] exI [of _ "query ctx"] exI [of _ d] exI [of _ b] exI [of _ ix2] exI [of _ s2]
        exI [of _ "rows\<lparr>or_aIntValues := Some ?top\<rparr>"]) (simp add: rows_def)
qed

lemma search_zero:
  assumes "good s" "index_ok ix" "rows_only ix (contents s)" "can_compress ix"
    and "fits (nNodeVectorType ix) (nVectorDims ix) v" "node_table ix (contents s) r \<noteq> None" "searchL ix * 8 < 2 ^ 31"
  shows "diskAnnSearch junk garbage m randVal ix s v 0 nKeyColumns rowidLike = None"
proof -
  obtain r0 s1 where r0: "diskAnnSelectRandomShadowRow m ix s randVal = Some (SQLITE4_OK, r0, s1)"
    using random_row [OF assms(1,3,6)] by metis
  obtain ctx where "diskAnnSearchCtxInit (junk 0) ix v (searchL ix) 0 False = Some (SQLITE4_NOMEM, ctx)"
    "diskAnnSearchCtxDeinit ctx = None" using init_no_memory [OF assms(2,4,5,7)] by blast
  with r0 assms(5) show ?thesis by (simp add: diskAnnSearch_def fits_def)
qed

lemma search_empty:
  assumes "good s" "rows_only ix (contents s)" "\<forall>r. node_table ix (contents s) r = None" "sint (nShadowRows ix) \<le> 0"
    and "0 \<le> k" "vdims v = nVectorDims ix" "vtype v = nNodeVectorType ix"
  shows "\<exists>s'. diskAnnSearch junk garbage m randVal ix s v k nKeyColumns rowidLike =
      Some (SQLITE4_OK, ix, s', Some \<lparr>or_nRows = 0, or_nCols = nKeyColumns, or_aIntValues = None\<rparr>) \<and> good s' \<and> contents s' = contents s"
  using random_none [OF assms(1-4), of randVal] assms(5-) by (auto simp: diskAnnSearch_def)

end

lemma rows_only_put: "rows_only ix kvs \<Longrightarrow> rows_only ix (kv_put (blobSpotBuildKey ix r) v kvs)"
  by (auto simp: rows_only_def kv_put_keys)

lemma same_index_rows:
  assumes "same_index ix ix'"
  shows "rows_only ix' = rows_only ix" "can_compress ix' = can_compress ix" "metric_ok ix' = metric_ok ix"
  using same_index_sel [OF assms] same_index_layout [OF assms]
  by (auto simp: fun_eq_iff rows_only_def can_compress_def metric_ok_def dist_ok_def)

context kv_store
begin

lemma flush_rows:
  assumes "good s" "table_ok ix (contents s)" "spot_sized ix sp" "rows_only ix (contents s)"
  shows "\<exists>ix' s'. blobSpotFlush m ix s sp = Some (SQLITE4_OK, ix', s') \<and> same_index ix ix' \<and> good s' \<and>
    table_ok ix (contents s') \<and> rows_only ix (contents s') \<and>
    node_table ix (contents s') = (node_table ix (contents s))(bs_nRowid sp \<mapsto> pBuffer sp)"
proof -
  obtain ix' s' where f: "blobSpotFlush m ix s sp = Some (SQLITE4_OK, ix', s')" "same_index ix ix'" "good s'"
    "table_ok ix (contents s')"
    "node_table ix (contents s') = (node_table ix (contents s))(bs_nRowid sp \<mapsto> pBuffer sp)"
    using flush_ok [OF assms(1-3)] by blast
  from f(1) obtain v where "sqlite4KVStoreReplace m s (blobSpotBuildKey ix (bs_nRowid sp)) v = Some (SQLITE4_OK, s')"
    by (auto simp: blobSpotFlush_def split: bind_splits if_splits prod.splits)
  then have "contents s' = kv_put (blobSpotBuildKey ix (bs_nRowid sp)) v (contents s)"
    using replace [OF assms(1), of "blobSpotBuildKey ix (bs_nRowid sp)" v] by (auto simp: sqlite4KVStoreReplace_def)
  with f show ?thesis using rows_only_put [OF assms(4)] by auto
qed

end

subsection \<open>Properties\<close>

text \<open>
  C4. The start row exists: whatever the random number and the count of rows, choosing a random
  row of an index that has rows ends with \<open>SQLITE4_OK\<close> and a row that is in it, wrapping around
  to the first one; it reads no key of another table as a row, and leaves the store as it was.
\<close>

theorem random_start:
  assumes "kvmem_good s" "rows_only ix (kvmem_contents s)" "node_table ix (kvmem_contents s) r \<noteq> None"
  shows "\<exists>r' s'. diskAnnSelectRandomShadowRow kvmemMethods ix s randVal = Some (SQLITE4_OK, r', s') \<and>
    node_table ix (kvmem_contents s) r' \<noteq> None \<and> kvmem_good s' \<and> kvmem_contents s' = kvmem_contents s"
  by (rule kvmem.random_row [OF assms])

lemma kv_seven_rows:
  obtains s where "kvmem_good s" "graph_ok kv_index (kvmem_contents s)" "rows_only kv_index (kvmem_contents s)"
    "node_table kv_index (kvmem_contents s) = Map.empty(7 \<mapsto> replicate 60 0)"
proof -
  have n: "nBlockSize kv_index = 60" by (simp add: kv_index_def)
  have t: "table_ok kv_index (kvmem_contents kv_begun)" "spot_sized kv_index ex_block" "rows_only kv_index (kvmem_contents kv_begun)"
    "node_table kv_index (kvmem_contents kv_begun) = Map.empty"
    by (simp_all add: table_ok_def kv_begun(2) n spot_sized_def node_table_def fun_eq_iff rows_only_def) (simp_all add: ex_block_def)
  obtain ix' s' where s': "kvmem_good s'" "table_ok kv_index (kvmem_contents s')" "rows_only kv_index (kvmem_contents s')"
    "node_table kv_index (kvmem_contents s') = Map.empty(7 \<mapsto> replicate 60 0)"
    using kvmem.flush_rows [OF kv_begun(1) t(1-3)] t(4) by (auto simp: ex_block_def)
  have "edge_count (replicate 60 0) = 0" by code_simp
  then show thesis using that s' index_ok_kv by (auto simp: graph_ok_def)
qed

lemma random_start_witness:
  "\<exists>s s'. diskAnnSelectRandomShadowRow kvmemMethods (kv_index\<lparr>nShadowRows := 3\<rparr>) s 10 = Some (SQLITE4_OK, 7, s')"
proof -
  obtain s where s: "kvmem_good s" "rows_only kv_index (kvmem_contents s)"
    "node_table kv_index (kvmem_contents s) = Map.empty(7 \<mapsto> replicate 60 0)" by (rule kv_seven_rows) auto
  have e: "rows_only (kv_index\<lparr>nShadowRows := 3\<rparr>) = rows_only kv_index"
    "node_table (kv_index\<lparr>nShadowRows := 3\<rparr>) = node_table kv_index"
    by (simp_all add: fun_eq_iff rows_only_def node_table_def blobSpotBuildKey_def)
  have n: "node_table (kv_index\<lparr>nShadowRows := 3\<rparr>) (kvmem_contents s) 7 \<noteq> None" by (simp add: e s(3))
  from random_start [OF s(1) s(2) [folded e(1)] n, of 10] show ?thesis by (auto simp: e s(3) split: if_splits)
qed

text \<open>
  C3. What an application gets: a search of a non-empty index for \<open>k > 0\<close> rows, whose distances
  are numbers, returns \<open>SQLITE4_OK\<close> and the row ids of the best rows of the beam search from some
  row of the index: as many as asked for unless fewer were visited, all different, all in the
  index and the start row visited. The store is unchanged, no assertion fails, every buffer and
  node is freed once.
\<close>

theorem disk_ann_search_result:
  assumes "kvmem_good s" "graph_ok ix (kvmem_contents s)" "rows_only ix (kvmem_contents s)" "can_compress ix"
    and "fits (nNodeVectorType ix) (nVectorDims ix) v" "node_table ix (kvmem_contents s) r \<noteq> None"
    and "0 < k" "sqlite4Malloc (searchL ix * 8)" "sqlite4Malloc (nat k * 8)"
    and "dist_ok ix" "comparable_vector (junk 0) ix (kvmem_contents s) v"
  shows "\<exists>r0 q d b ix' s' pRows rows. diskAnnSearch junk garbage kvmemMethods randVal ix s v k 1 True = Some (SQLITE4_OK, ix', s', Some pRows) \<and>
    kvmem_contents s' = kvmem_contents s \<and> query_pair (junk 0) ix v = Some q \<and>
    beam_search (searchL ix) (nat k) (search_graph ix (kvmem_contents s) q) r0 d = Some b \<and>
    r0 \<in> fst ` set (bm_log b) \<and> or_aIntValues pRows = Some rows \<and> rows = map fst (bm_top b) \<and>
    or_nRows pRows = length rows \<and> length rows = min (nat k) (length (bm_log b)) \<and>
    distinct rows \<and> set rows \<subseteq> dom (node_table ix (kvmem_contents s))"
proof -
  obtain r0 q d b ix' s' pRows where o1: "query_pair (junk 0) ix v = Some q"
    "beam_search (searchL ix) (nat k) (search_graph ix (kvmem_contents s) q) r0 d = Some b"
    "diskAnnSearch junk garbage kvmemMethods randVal ix s v k 1 True = Some (SQLITE4_OK, ix', s', Some pRows)"
    "kvmem_contents s' = kvmem_contents s" "or_nRows pRows = length (bm_top b)" "or_aIntValues pRows = Some (map fst (bm_top b))"
    "r0 \<in> fst ` set (bm_log b)"
    and l: "distinct (map fst (bm_log b))" "fst ` set (bm_log b) \<subseteq> dom (node_table ix (kvmem_contents s))"
    "mset (bm_top b) \<subseteq># mset (bm_log b)" "length (bm_top b) = min (nat k) (length (bm_log b))"
    using kvmem.disk_ann_search [where junk = junk and garbage = garbage and randVal = randVal, OF assms]
    by (elim exE conjE) (rule that; assumption)
  have "distinct (map fst (bm_top b))" "set (map fst (bm_top b)) \<subseteq> dom (node_table ix (kvmem_contents s))"
    using distinct_sub_mset [OF l(1,3)] l(2) set_mset_mono [OF l(3)] by auto
  with o1 l(4) show ?thesis
    by (intro exI [of _ r0] exI [of _ q] exI [of _ d] exI [of _ b] exI [of _ ix'] exI [of _ s'] exI [of _ pRows]
        exI [of _ "map fst (bm_top b)"]) simp
qed

lemma disk_ann_search_result_witness:
  "\<exists>s ix' s' pRows. diskAnnSearch (\<lambda>_ _. 0) (\<lambda>_. 0) kvmemMethods 5 kv_index s ex_query 3 1 True = Some (SQLITE4_OK, ix', s', Some pRows) \<and>
     or_aIntValues pRows = Some [7]"
proof -
  obtain s where s: "kvmem_good s" "graph_ok kv_index (kvmem_contents s)" "rows_only kv_index (kvmem_contents s)"
    "node_table kv_index (kvmem_contents s) = Map.empty(7 \<mapsto> replicate 60 0)" by (rule kv_seven_rows)
  have c: "can_compress kv_index" "node_table kv_index (kvmem_contents s) 7 \<noteq> None"
    "sqlite4Malloc (searchL kv_index * 8)" "sqlite4Malloc (nat 3 * 8)"
    by (simp add: can_compress_def kv_index_def, simp add: s(4), simp_all add: kv_index_def sqlite4Malloc_def)
  have cmp: "comparable_vector ((\<lambda>_ _. 0) 0) kv_index (kvmem_contents s) ex_query" by (rule comparable_query [OF s(4) ex_zero(1) ex_distance ex_zero(2)])
  show ?thesis
    using disk_ann_search_result [OF s(1-3) c(1) ex_query_fits c(2) zero_less_numeral c(3,4) dist_ok_kv cmp, of "\<lambda>_. 0" 5]
  proof (elim exE conjE, goal_cases)
    case (1 r0 q d b ix' s' pRows rows)
    from 1(5) have "length (bm_log b) \<noteq> 0" by auto
    then have "0 < min (nat 3) (length (bm_log b))" by simp
    with 1(9-11) have "rows = [7]" by (cases rows; cases "tl rows") (auto simp: s(4))
    with 1(1,6) show ?case by blast
  qed
qed

text \<open>
  C17. Asking for no rows is fatal: a search for \<open>k = 0\<close> rows, which the check of \<open>k\<close> lets pass,
  of an index with rows frees its buffers twice - the allocation of none fails, the
  initialisation frees what it had, and the clean-up after it does so again.
\<close>

theorem search_k_zero:
  assumes "kvmem_good s" "index_ok ix" "rows_only ix (kvmem_contents s)" "can_compress ix"
    and "fits (nNodeVectorType ix) (nVectorDims ix) v" "node_table ix (kvmem_contents s) r \<noteq> None"
    and "0 < searchL ix" "searchL ix * 8 < 2 ^ 31"
  shows "diskAnnSearch junk garbage kvmemMethods randVal ix s v 0 nKeyColumns rowidLike = None"
  by (rule kvmem.search_zero [OF assms(1-6,8)])

lemma search_k_zero_witness:
  "\<exists>s. diskAnnSearch (\<lambda>_ _. 0) (\<lambda>_. 0) kvmemMethods 5 kv_index s ex_query 0 1 True = None"
proof -
  obtain s where s: "kvmem_good s" "rows_only kv_index (kvmem_contents s)"
    "node_table kv_index (kvmem_contents s) = Map.empty(7 \<mapsto> replicate 60 0)" by (rule kv_seven_rows) auto
  have c: "can_compress kv_index" "node_table kv_index (kvmem_contents s) 7 \<noteq> None" "0 < searchL kv_index" "searchL kv_index * 8 < 2 ^ 31"
    by (simp add: can_compress_def kv_index_def, simp add: s(3), simp_all add: kv_index_def)
  show ?thesis using search_k_zero [OF s(1) index_ok_kv s(2) c(1) ex_query_fits c(2-4)] by blast
qed

end
