(* ===== verification/DiskUpdate.thy ===== *)
theory DiskUpdate
  imports DiskAnn
begin

unbundle bit_operations_syntax

text \<open>
  Insertion into and deletion from the DiskANN graph (\<open>vectordiskann.c\<close>): the search for the
  neighbours of a new row, the two passes that link them, and the removal of the edges back to
  a row that is deleted. What each of them keeps of the graph in the store is shown for every
  store that obeys the contract.
\<close>

subsection \<open>Insertion\<close>

text \<open>First pass: the visited nodes \<open>ps\<close> become neighbours of the new node, whose block is \<open>sp\<close>.\<close>

fun firstPass ::
  "'c DiskAnnIndex \<Rightarrow> DiskAnnSearchCtx \<Rightarrow> nat list \<Rightarrow> BlobSpot \<Rightarrow> VectorPair \<Rightarrow> VectorPair
     \<Rightarrow> (BlobSpot \<times> VectorPair \<times> VectorPair) option" where
  "firstPass ix ctx [] sp vInsert vCandidate = Some (sp, vInsert, vCandidate)"
| "firstPass ix ctx (p # ps) sp vInsert vCandidate =
     do { n \<leftarrow> node_at ctx p;
          visitedSpot \<leftarrow> dn_pBlobSpot n;
          nodeVector \<leftarrow> nodeBinVector ix visitedSpot;
          vCandidate \<leftarrow> loadVectorPair vCandidate nodeVector;
          (iReplace, nodeToNew, vInsert) \<leftarrow> diskAnnReplaceEdgeIdx ix sp (dn_nRowid n) vCandidate vInsert;
          if iReplace = -1 then firstPass ix ctx ps sp vInsert vCandidate
          else do {
            e \<leftarrow> vp_pEdge vCandidate;
            sp \<leftarrow> nodeBinReplaceEdge ix sp iReplace (dn_nRowid n) nodeToNew e;
            (sp, vInsert) \<leftarrow> diskAnnPruneEdges ix sp iReplace vInsert;
            firstPass ix ctx ps sp vInsert vCandidate } }"

text \<open>Second pass: the new node becomes a neighbour of the visited ones.\<close>

fun secondPass ::
  "('s, 'c) KVStoreMethods \<Rightarrow> 'c DiskAnnIndex \<Rightarrow> 's \<Rightarrow> DiskAnnSearchCtx \<Rightarrow> nat list \<Rightarrow> u64 \<Rightarrow> VectorPair \<Rightarrow> VectorPair
     \<Rightarrow> (int \<times> 'c DiskAnnIndex \<times> 's \<times> DiskAnnSearchCtx) option" where
  "secondPass m ix s ctx [] nNewRowid vInsert vCandidate = Some (SQLITE4_OK, ix, s, ctx)"
| "secondPass m ix s ctx (p # ps) nNewRowid vInsert vCandidate =
     do { n \<leftarrow> node_at ctx p;
          sp \<leftarrow> dn_pBlobSpot n;
          (iReplace, nodeToNew, vCandidate) \<leftarrow> diskAnnReplaceEdgeIdx ix sp nNewRowid vInsert vCandidate;
          if iReplace = -1 then secondPass m ix s ctx ps nNewRowid vInsert vCandidate
          else do {
            e \<leftarrow> vp_pEdge vInsert;
            sp \<leftarrow> nodeBinReplaceEdge ix sp iReplace nNewRowid nodeToNew e;
            (sp, vCandidate) \<leftarrow> diskAnnPruneEdges ix sp iReplace vCandidate;
            let ctx = node_put ctx p (n\<lparr>dn_pBlobSpot := Some sp\<rparr>);
            (rc, ix, s) \<leftarrow> blobSpotFlush m ix s sp;
            if rc \<noteq> SQLITE4_OK then Some (rc, ix, s, ctx)
            else secondPass m ix s ctx ps nNewRowid vInsert vCandidate } }"

text \<open>The code at \<open>out\<close>: the block of the new node is written if all went well.\<close>

definition insertOut ::
  "('s, 'c) KVStoreMethods \<Rightarrow> int \<Rightarrow> 'c DiskAnnIndex \<Rightarrow> 's \<Rightarrow> BlobSpot option \<Rightarrow> DiskAnnSearchCtx
     \<Rightarrow> (int \<times> 'c DiskAnnIndex \<times> 's) option" where
  "insertOut m rc ix s pBlobSpot ctx =
     do { (rc, ix, s) \<leftarrow> (if rc = SQLITE4_OK then do { sp \<leftarrow> pBlobSpot; blobSpotFlush m ix s sp } else Some (rc, ix, s));
          _ \<leftarrow> diskAnnSearchCtxDeinit ctx;
          Some (rc, ix, s) }"

definition diskAnnInsert ::
  "(nat \<Rightarrow> nat \<Rightarrow> u8) \<Rightarrow> ('s, 'c) KVStoreMethods \<Rightarrow> 's sql_engine \<Rightarrow> u64 \<Rightarrow> 'c DiskAnnIndex \<Rightarrow> 's \<Rightarrow> VectorInRow
     \<Rightarrow> (int \<times> 'c DiskAnnIndex \<times> 's) option" where
  "diskAnnInsert junk m sql randVal ix s pVectorInRow =
     do { pVector \<leftarrow> vr_pVector pVectorInRow;
          if vdims pVector \<noteq> nVectorDims ix then Some (SQLITE4_ERROR, ix, s)
          else if vtype pVector \<noteq> nNodeVectorType ix then Some (SQLITE4_ERROR, ix, s)
          else do {
            (rc, ctx) \<leftarrow> diskAnnSearchCtxInit (junk 0) ix pVector (insertL ix) 1 DISKANN_BLOB_WRITABLE;
            if rc \<noteq> SQLITE4_OK then Some (rc, ix, s)
            else do {
              let vInsert = initVectorPair (junk 1) (nNodeVectorType ix) (nEdgeVectorType ix) (nVectorDims ix);
              let vCandidate = initVectorPair (junk 2) (nNodeVectorType ix) (nEdgeVectorType ix) (nVectorDims ix);
              (rc, nStartRowid, s) \<leftarrow> diskAnnSelectRandomShadowRow m ix s randVal;
              let first = (rc = SQLITE4_DONE);
              if \<not> first \<and> rc \<noteq> SQLITE4_OK then insertOut m SQLITE4_ERROR ix s None ctx
              else do {
                (rc, ix, s, ctx) \<leftarrow> (if first then Some (SQLITE4_OK, ix, s, ctx)
                                    else diskAnnSearchInternal (junk 3) m ix s ctx nStartRowid);
                if rc \<noteq> SQLITE4_OK then insertOut m rc ix s None ctx
                else do {
                  let (rc, nNewRowid, s) = diskAnnInsertShadowRow sql ix s pVectorInRow;
                  if rc \<noteq> SQLITE4_OK then insertOut m rc ix s None ctx
                  else do {
                    let ix = ix\<lparr>nShadowRows := nShadowRows ix + 1\<rparr>;
                    sp \<leftarrow> blobSpotCreate (junk 4) nNewRowid (nBlockSize ix) True;
                    sp \<leftarrow> nodeBinInit ix sp nNewRowid pVector;
                    if first then insertOut m SQLITE4_OK ix s (Some sp) ctx
                    else do {
                      (sp, vInsert, vCandidate) \<leftarrow> firstPass ix ctx (visitedList ctx) sp vInsert vCandidate;
                      vInsert \<leftarrow> loadVectorPair vInsert pVector;
                      (rc, ix, s, ctx) \<leftarrow> secondPass m ix s ctx (visitedList ctx) nNewRowid vInsert vCandidate;
                      insertOut m rc ix s (Some sp) ctx } } } } } } }"

subsection \<open>Deletion\<close>

text \<open>The edges \<open>is\<close> of the block \<open>sp\<close> of the row \<open>nodeRowid\<close>; \<open>eb\<close> is the blob for its neighbours.\<close>

fun deleteLoop ::
  "('s, 'c) KVStoreMethods \<Rightarrow> 'c DiskAnnIndex \<Rightarrow> 's \<Rightarrow> u64 \<Rightarrow> BlobSpot \<Rightarrow> BlobSpot \<Rightarrow> nat list
     \<Rightarrow> (int \<times> 'c DiskAnnIndex \<times> 's) option" where
  "deleteLoop m ix s nodeRowid sp eb [] = Some (SQLITE4_OK, ix, s)"
| "deleteLoop m ix s nodeRowid sp eb (i # is) =
     do { edgeRowid \<leftarrow> nodeBinEdgeRowid ix sp (int i);
          (rc, ix, s, eb) \<leftarrow> blobSpotReload m ix s eb edgeRowid (nBlockSize ix);
          if rc = DISKANN_ROW_NOT_FOUND then deleteLoop m ix s nodeRowid sp eb is
          else if rc \<noteq> SQLITE4_OK then Some (rc, ix, s)
          else do {
            iDelete \<leftarrow> nodeBinEdgeFindIdx ix eb nodeRowid;
            if iDelete = -1 then deleteLoop m ix s nodeRowid sp eb is
            else do {
              eb \<leftarrow> nodeBinDeleteEdge ix eb iDelete;
              (rc, ix, s) \<leftarrow> blobSpotFlush m ix s eb;
              if rc \<noteq> SQLITE4_OK then Some (rc, ix, s)
              else deleteLoop m ix s nodeRowid sp eb is } } }"

definition diskAnnDelete ::
  "(nat \<Rightarrow> nat \<Rightarrow> u8) \<Rightarrow> ('s, 'c) KVStoreMethods \<Rightarrow> 's sql_engine \<Rightarrow> 'c DiskAnnIndex \<Rightarrow> 's \<Rightarrow> VectorInRow
     \<Rightarrow> (int \<times> 'c DiskAnnIndex \<times> 's) option" where
  "diskAnnDelete junk m sql ix s pInRow =
     do { let (_, nodeRowid) = vectorInRowTryGetRowid pInRow;
          sp \<leftarrow> blobSpotCreate (junk 0) nodeRowid (nBlockSize ix) DISKANN_BLOB_WRITABLE;
          (rc, ix, s, sp) \<leftarrow> blobSpotReload m ix s sp nodeRowid (nBlockSize ix);
          if rc = DISKANN_ROW_NOT_FOUND then Some (SQLITE4_OK, ix, s)
          else if rc \<noteq> SQLITE4_OK then Some (rc, ix, s)
          else do {
            eb \<leftarrow> blobSpotCreate (junk 1) nodeRowid (nBlockSize ix) DISKANN_BLOB_WRITABLE;
            nNeighbours \<leftarrow> nodeBinEdges ix sp;
            (rc, ix, s) \<leftarrow> deleteLoop m ix s nodeRowid sp eb [0..<unat nNeighbours];
            if rc \<noteq> SQLITE4_OK then Some (rc, ix, s)
            else do {
              let (rc, s) = diskAnnDeleteShadowRow sql s nodeRowid;
              if rc \<noteq> SQLITE4_OK then Some (rc, ix, s)
              else Some (SQLITE4_OK, if sint (nShadowRows ix) > 0 then ix\<lparr>nShadowRows := nShadowRows ix - 1\<rparr> else ix, s) } } }"

subsection \<open>The graph in the store\<close>

text \<open>The edges of a block; what an operation on the edges of a block leaves alone.\<close>

definition block_edges :: "'c DiskAnnIndex \<Rightarrow> bytes \<Rightarrow> edge list" where
  "block_edges ix blk = map (edge_at ix blk) [0..<edge_count blk]"

definition same_node :: "'c DiskAnnIndex \<Rightarrow> bytes \<Rightarrow> bytes \<Rightarrow> bool" where
  "same_node ix blk blk' \<longleftrightarrow> length blk' = length blk \<and> edge_count blk' \<le> max_edges ix \<and>
     le_word (field blk' 0 8) = (le_word (field blk 0 8) :: u64) \<and>
     field blk' (hdr_size ix) (node_size ix) = field blk (hdr_size ix) (node_size ix)"

lemma edges_block: "edges ix sp = block_edges ix (pBuffer sp)"
  by (simp add: edges_def block_edges_def)

definition rows_of :: "edge list \<Rightarrow> u64 set" where
  "rows_of es = fst ` set es"

text \<open>
  The graph of an index: on top of what a search needs, every node knows its row id, has one edge
  to a row at most, none to itself, and none to a row that is not there.
\<close>

definition node_inv :: "'c DiskAnnIndex \<Rightarrow> u64 set \<Rightarrow> u64 \<Rightarrow> bytes \<Rightarrow> bool" where
  "node_inv ix R r blk \<longleftrightarrow> le_word (field blk 0 8) = r \<and> distinct (map fst (block_edges ix blk)) \<and>
     r \<notin> rows_of (block_edges ix blk) \<and> rows_of (block_edges ix blk) \<subseteq> R"

definition graph_inv :: "'c DiskAnnIndex \<Rightarrow> (bytes \<times> bytes) list \<Rightarrow> bool" where
  "graph_inv ix kvs \<longleftrightarrow> graph_ok ix kvs \<and> rows_only ix kvs \<and>
     (\<forall>r blk. node_table ix kvs r = Some blk \<longrightarrow> node_inv ix (dom (node_table ix kvs)) r blk)"

text \<open>Linking the new row to a node, if it is linked at all.\<close>

definition relinked :: "'c DiskAnnIndex \<Rightarrow> u64 \<Rightarrow> bytes \<Rightarrow> bytes \<Rightarrow> bool" where
  "relinked ix rid blk blk' \<longleftrightarrow> same_node ix blk blk' \<and>
     (block_edges ix blk' = block_edges ix blk \<or> linked rid (block_edges ix blk) (block_edges ix blk'))"

lemma relinked_refl: "edge_count blk \<le> max_edges ix \<Longrightarrow> relinked ix rid blk blk"
  by (simp add: relinked_def same_node_def)

lemma relinked_inv:
  assumes "relinked ix rid blk blk'" "node_inv ix R r blk" "rid \<noteq> r"
  shows "node_inv ix (insert rid R) r blk'"
proof -
  have "block_edges ix blk' = block_edges ix blk \<or> linked rid (block_edges ix blk) (block_edges ix blk')"
    "le_word (field blk' 0 8) = (le_word (field blk 0 8) :: u64)"
    using assms(1) by (auto simp: relinked_def same_node_def)
  then have "rows_of (block_edges ix blk') \<subseteq> insert rid (rows_of (block_edges ix blk))"
    "distinct (map fst (block_edges ix blk))  \<longrightarrow> distinct (map fst (block_edges ix blk'))"
    by (auto simp: linked_def rows_of_def)
  with assms(2,3) \<open>le_word (field blk' 0 8) = _\<close> show ?thesis by (auto simp: node_inv_def)
qed

lemma first_pass:
  assumes "metric_ok ix" "can_compress ix" "node_ok ix sp" "holder_ok ix hI" "holder_ok ix hC"
    and "\<forall>p \<in> set ps. \<exists>n vs. node_at ctx p = Some n \<and> dn_pBlobSpot n = Some vs \<and> node_ok ix vs"
  shows "\<exists>sp' hI' hC'. firstPass ix ctx ps sp hI hC = Some (sp', hI', hC') \<and> node_ok ix sp' \<and>
    holder_ok ix hI' \<and> holder_ok ix hC' \<and>
    rows_of (edges ix sp') \<subseteq> rows_of (edges ix sp) \<union> row_of (node_at ctx) ` set ps \<and>
    (distinct (map fst (edges ix sp)) \<longrightarrow> distinct (map fst (edges ix sp'))) \<and>
    (edges ix sp \<noteq> [] \<or> ps \<noteq> [] \<longrightarrow> edges ix sp' \<noteq> []) \<and>
    node_rowid sp' = node_rowid sp \<and> node_vec ix sp' = node_vec ix sp \<and> sp' = sp\<lparr>pBuffer := pBuffer sp'\<rparr>"
  using assms(3-6)
proof (induction ps arbitrary: sp hI hC)
  case Nil
  then show ?case by auto
next
  case (Cons p ps)
  from assms(1) have ix: "index_ok ix" by (simp add: metric_ok_def)
  obtain n vs where n: "node_at ctx p = Some n" "dn_pBlobSpot n = Some vs" "node_ok ix vs" using Cons.prems(4) by auto
  have nv: "nodeBinVector ix vs = Some (block_vec ix (pBuffer vs))" by (rule nodeBinVector_ok [OF ix n(3)])
  have fv: "fits (nNodeVectorType ix) (nVectorDims ix) (block_vec ix (pBuffer vs))"
    using block_vec_fits(1) [OF ix] n(3) by (simp add: node_ok_def)
  obtain hC1 e where l: "loadVectorPair hC (block_vec ix (pBuffer vs)) = Some hC1" "holder_ok ix hC1"
    "vp_pEdge hC1 = Some e" "edge_fits ix e" using load_holder [OF ix assms(2) Cons.prems(3) fv] by metis
  obtain k hI1 node where k: "diskAnnReplaceEdgeIdx ix sp (dn_nRowid n) hC1 hI = Some (k, vdist ix node e, hI1)"
    "holder_ok ix hI1" "slot_choice ix node e (dn_nRowid n) (edges ix sp) k"
    using replace_idx [OF assms(1,2) Cons.prems(1,2) l(3,4), of "dn_nRowid n"] by metis
  have row: "row_of (node_at ctx) p = dn_nRowid n" using n(1) by (simp add: row_of_def)
  have ps: "\<forall>p \<in> set ps. \<exists>n vs. node_at ctx p = Some n \<and> dn_pBlobSpot n = Some vs \<and> node_ok ix vs"
    using Cons.prems(4) by simp
  show ?case
  proof (cases "k = -1")
    case True
    have ne: "edges ix sp \<noteq> []" using slot_choice_empty [of ix node e "dn_nRowid n" k] k(3) True ok_block(1) [OF ix] by auto
    show ?thesis
      using Cons.IH [OF Cons.prems(1) k(2) l(2) ps] n nv l(1) k(1) True ne row by (auto split: prod.splits)
  next
    case False
    obtain sp1 sp2 hI2 where s: "nodeBinReplaceEdge ix sp k (dn_nRowid n) (vdist ix node e) e = Some sp1"
      "diskAnnPruneEdges ix sp1 k hI1 = Some (sp2, hI2)" "node_ok ix sp2" "holder_ok ix hI2"
      "linked (dn_nRowid n) (edges ix sp) (edges ix sp2)"
      "node_rowid sp2 = node_rowid sp" "node_vec ix sp2 = node_vec ix sp" "sp2 = sp\<lparr>pBuffer := pBuffer sp2\<rparr>"
      using link_edge [OF assms(1,2) Cons.prems(1) k(2) l(4) k(3) False, of "vdist ix node e"] by metis
    obtain sp' hI' hC' where f: "firstPass ix ctx ps sp2 hI2 hC1 = Some (sp', hI', hC')" "node_ok ix sp'"
      "holder_ok ix hI'" "holder_ok ix hC'" "rows_of (edges ix sp') \<subseteq> rows_of (edges ix sp2) \<union> row_of (node_at ctx) ` set ps"
      "distinct (map fst (edges ix sp2)) \<longrightarrow> distinct (map fst (edges ix sp'))"
      "edges ix sp2 \<noteq> [] \<or> ps \<noteq> [] \<longrightarrow> edges ix sp' \<noteq> []"
      "node_rowid sp' = node_rowid sp2" "node_vec ix sp' = node_vec ix sp2" "sp' = sp2\<lparr>pBuffer := pBuffer sp'\<rparr>"
      using Cons.IH [OF s(3,4) l(2) ps] by metis
    have "firstPass ix ctx (p # ps) sp hI hC = Some (sp', hI', hC')"
      using n nv l(1,3) k(1) False s(1,2) f(1) by simp
    moreover have "sp' = sp\<lparr>pBuffer := pBuffer sp'\<rparr>" using f(10) s(8) by (metis BlobSpot.surjective BlobSpot.update_convs(2))
    moreover have "edges ix sp2 \<noteq> []" using s(5) by (auto simp: linked_def)
    moreover have "rows_of (edges ix sp2) \<subseteq> insert (row_of (node_at ctx) p) (rows_of (edges ix sp))"
      "distinct (map fst (edges ix sp)) \<longrightarrow> distinct (map fst (edges ix sp2))"
      using s(5) row by (auto simp: linked_def rows_of_def)
    then have "rows_of (edges ix sp') \<subseteq> rows_of (edges ix sp) \<union> row_of (node_at ctx) ` set (p # ps)"
      "distinct (map fst (edges ix sp)) \<longrightarrow> distinct (map fst (edges ix sp'))" using f(5,6) by auto
    ultimately show ?thesis using f(2-4,7-9) s(6,7) by metis
  qed
qed

lemma same_index_node:
  assumes "same_index ix ix'"
  shows "block_edges ix' = block_edges ix" "same_node ix' = same_node ix" "relinked ix' = relinked ix"
    "node_inv ix' = node_inv ix" "holder_ok ix' = holder_ok ix"
proof -
  note s = same_index_sel [OF assms] same_index_layout [OF assms]
  show be: "block_edges ix' = block_edges ix" by (simp add: fun_eq_iff block_edges_def s)
  show sn: "same_node ix' = same_node ix" by (simp add: fun_eq_iff same_node_def hdr_size_def node_size_def s)
  show "relinked ix' = relinked ix" by (simp add: fun_eq_iff relinked_def be sn)
  show "node_inv ix' = node_inv ix" by (simp add: fun_eq_iff node_inv_def be)
  show "holder_ok ix' = holder_ok ix" by (simp add: fun_eq_iff holder_ok_def s)
qed

lemma graph_okD:
  assumes "graph_ok ix kvs"
  shows "index_ok ix" "table_ok ix kvs" "dist_ok ix \<Longrightarrow> metric_ok ix"
    "node_table ix kvs r = Some blk \<Longrightarrow> edge_count blk \<le> max_edges ix"
    "node_table ix kvs r = Some blk \<Longrightarrow> int (length blk) = nBlockSize ix"
  using assms table_entry(1) by (auto simp: graph_ok_def metric_ok_def)

text \<open>Writing the block of a node keeps the graph readable.\<close>

lemma graph_ok_put:
  assumes "graph_ok ix kvs" "table_ok ix kvs'" "node_table ix kvs' = (node_table ix kvs)(r \<mapsto> pBuffer sp)" "node_ok ix sp"
  shows "graph_ok ix kvs'"
  using assms by (auto simp: graph_ok_def node_ok_def)

definition own_block :: "'c DiskAnnIndex \<Rightarrow> (bytes \<times> bytes) list \<Rightarrow> DiskAnnSearchCtx \<Rightarrow> nat \<Rightarrow> bool" where
  "own_block ix kvs ctx p \<longleftrightarrow> (\<exists>n vs. node_at ctx p = Some n \<and> dn_pBlobSpot n = Some vs \<and> spot_sized ix vs \<and>
     bs_nRowid vs = dn_nRowid n \<and> node_table ix kvs (dn_nRowid n) = Some (pBuffer vs))"

text \<open>The tables before and after: some rows of \<open>R\<close> may have been linked to the new row.\<close>

definition linked_table ::
  "'c DiskAnnIndex \<Rightarrow> u64 \<Rightarrow> u64 set \<Rightarrow> (u64 \<Rightarrow> bytes option) \<Rightarrow> (u64 \<Rightarrow> bytes option) \<Rightarrow> bool" where
  "linked_table ix rid R T T' \<longleftrightarrow> dom T' = dom T \<and>
     (\<forall>r blk. T r = Some blk \<longrightarrow> (\<exists>blk'. T' r = Some blk' \<and> (if r \<in> R then relinked ix rid blk blk' else blk' = blk)))"

lemma same_index_linked: "same_index ix ix' \<Longrightarrow> linked_table ix' = linked_table ix"
  by (simp add: fun_eq_iff linked_table_def same_index_node)

lemma linked_table_refl:
  "graph_ok ix kvs \<Longrightarrow> linked_table ix rid R (node_table ix kvs) (node_table ix kvs)"
  using graph_okD(4) [of ix kvs] by (auto simp: linked_table_def intro: relinked_refl)

lemma linked_table_step:
  assumes "linked_table ix rid R (T(r \<mapsto> blk')) T'" "T r = Some blk" "relinked ix rid blk blk'" "r \<notin> R"
  shows "linked_table ix rid (insert r R) T T'"
proof -
  have "dom T' = dom T" using assms(1,2) by (auto simp: linked_table_def)
  moreover have "\<exists>y. T' x = Some y \<and> (if x \<in> insert r R then relinked ix rid b y else y = b)" if "T x = Some b" for x b
    using assms that unfolding linked_table_def by (cases "x = r") (auto split: if_splits)
  ultimately show ?thesis unfolding linked_table_def by blast
qed

context kv_store
begin

lemma second_pass:
  assumes "good s" "graph_ok ix (contents s)" "rows_only ix (contents s)" "can_compress ix" "pair_ok ix vI" "holder_ok ix hC" "dist_ok ix"
    and "ctx_rel (node_at ctx) ctx b" "distinct (map (row_of (node_at ctx)) ps)" "\<forall>p \<in> set ps. own_block ix (contents s) ctx p"
  shows "\<exists>ix' s' ctx'. secondPass m ix s ctx ps rid vI hC = Some (SQLITE4_OK, ix', s', ctx') \<and> same_index ix ix' \<and>
    good s' \<and> graph_ok ix (contents s') \<and> rows_only ix (contents s') \<and> ctx_rel (node_at ctx') ctx' b \<and>
    ctxBuffers ctx' = ctxBuffers ctx \<and>
    linked_table ix rid (row_of (node_at ctx) ` set ps) (node_table ix (contents s)) (node_table ix (contents s'))"
  using assms
proof (induction ps arbitrary: ix s ctx hC)
  case Nil
  show ?case using Nil.prems(1,2,3,8) linked_table_refl [OF Nil.prems(2)]
    by (intro exI [of _ ix] exI [of _ s] exI [of _ ctx]) simp
next
  case (Cons p ps)
  note g = graph_okD [OF Cons.prems(2)]
  note met = g(3) [OF Cons.prems(7)]
  obtain n vs where n: "node_at ctx p = Some n" "dn_pBlobSpot n = Some vs" "spot_sized ix vs" "bs_nRowid vs = dn_nRowid n"
    "node_table ix (contents s) (dn_nRowid n) = Some (pBuffer vs)"
    using Cons.prems(10) by (auto simp: own_block_def)
  have vok: "node_ok ix vs" using n(3) g(4) [OF n(5)] by (simp add: node_ok_def spot_sized_def)
  obtain e where e: "vp_pEdge vI = Some e" "edge_fits ix e" using Cons.prems(5) by (auto simp: pair_ok_def)
  obtain k hC1 node where k: "diskAnnReplaceEdgeIdx ix vs rid vI hC = Some (k, vdist ix node e, hC1)"
    "holder_ok ix hC1" "slot_choice ix node e rid (edges ix vs) k"
    using replace_idx [OF met Cons.prems(4) vok Cons.prems(6) e, of rid] by metis
  have row: "row_of (node_at ctx) p = dn_nRowid n" using n(1) by (simp add: row_of_def)
  have d: "distinct (map (row_of (node_at ctx)) ps)" "dn_nRowid n \<notin> row_of (node_at ctx) ` set ps"
    using Cons.prems(9) row by auto
  show ?case
  proof (cases "k = -1")
    case True
    have own: "\<forall>p \<in> set ps. own_block ix (contents s) ctx p" using Cons.prems(10) by simp
    obtain ix' s' ctx' where r: "secondPass m ix s ctx ps rid vI hC1 = Some (SQLITE4_OK, ix', s', ctx')" "same_index ix ix'"
      "good s'" "graph_ok ix (contents s')" "rows_only ix (contents s')" "ctx_rel (node_at ctx') ctx' b"
      "ctxBuffers ctx' = ctxBuffers ctx"
      and lt: "linked_table ix rid (row_of (node_at ctx) ` set ps) (node_table ix (contents s)) (node_table ix (contents s'))"
      using Cons.IH [OF Cons.prems(1-5) k(2) Cons.prems(7,8) d(1) own] by blast
    have "linked_table ix rid (insert (dn_nRowid n) (row_of (node_at ctx) ` set ps)) (node_table ix (contents s)) (node_table ix (contents s'))"
    proof (rule linked_table_step)
      show "linked_table ix rid (row_of (node_at ctx) ` set ps) ((node_table ix (contents s))(dn_nRowid n \<mapsto> pBuffer vs)) (node_table ix (contents s'))"
        using lt n(5) by (simp add: fun_upd_idem)
    qed (use n(5) relinked_refl [OF g(4) [OF n(5)]] d(2) in auto)
    moreover have "secondPass m ix s ctx (p # ps) rid vI hC = Some (SQLITE4_OK, ix', s', ctx')"
      using n(1,2) k(1) True r(1) by simp
    ultimately show ?thesis using r(2-) row by (metis image_insert list.simps(15))
  next
    case False
    obtain sp1 sp2 hC2 where l: "nodeBinReplaceEdge ix vs k rid (vdist ix node e) e = Some sp1"
      "diskAnnPruneEdges ix sp1 k hC1 = Some (sp2, hC2)" "node_ok ix sp2" "holder_ok ix hC2"
      "linked rid (edges ix vs) (edges ix sp2)"
      "node_rowid sp2 = node_rowid vs" "node_vec ix sp2 = node_vec ix vs" "sp2 = vs\<lparr>pBuffer := pBuffer sp2\<rparr>"
      using link_edge [OF met Cons.prems(4) vok k(2) e(2) k(3) False, of "vdist ix node e"] by metis
    have sp2: "spot_sized ix sp2" "bs_nRowid sp2 = dn_nRowid n"
      using l(3) n(4) arg_cong [OF l(8), of bs_nRowid] by (simp_all add: spot_sized_def node_ok_def)
    obtain ix1 s1 where f: "blobSpotFlush m ix s sp2 = Some (SQLITE4_OK, ix1, s1)" "same_index ix ix1" "good s1"
      "table_ok ix (contents s1)" "rows_only ix (contents s1)"
      "node_table ix (contents s1) = (node_table ix (contents s))(dn_nRowid n \<mapsto> pBuffer sp2)"
      using flush_rows [OF Cons.prems(1) g(2) sp2(1) Cons.prems(3)] unfolding sp2(2) by blast
    define ctx1 where "ctx1 = node_put ctx p (n\<lparr>dn_pBlobSpot := Some sp2\<rparr>)"
    have c1: "ctx_rel (node_at ctx1) ctx1 b" "node_at ctx1 = (node_at ctx)(p \<mapsto> n\<lparr>dn_pBlobSpot := Some sp2\<rparr>)"
      "ctxBuffers ctx1 = ctxBuffers ctx"
      unfolding ctx1_def using ctx_rel_blob [OF Cons.prems(8) n(1)] by simp_all
    have rows: "row_of (node_at ctx1) = row_of (node_at ctx)" using n(1) by (simp add: fun_eq_iff c1(2) row_of_def)
    note si = same_index_graph [OF f(2)] same_index_rows [OF f(2)] same_index_layout [OF f(2)] same_index_node [OF f(2)]
    have g1: "graph_ok ix1 (contents s1)" using graph_ok_put [OF Cons.prems(2) f(4,6) l(3)] by (simp add: si)
    have rel: "relinked ix rid (pBuffer vs) (pBuffer sp2)"
      using l(3,5-7) n(3) by (simp add: relinked_def same_node_def node_ok_def spot_sized_def edges_block node_rowid_def node_vec_def)
    have own: "own_block ix1 (contents s1) ctx1 q" if q: "q \<in> set ps" for q
    proof -
      have "q \<noteq> p" "row_of (node_at ctx) q \<noteq> dn_nRowid n" using d(2) q row by (auto simp: image_iff)
      moreover obtain nq vq where "node_at ctx q = Some nq" "dn_pBlobSpot nq = Some vq" "spot_sized ix vq"
        "bs_nRowid vq = dn_nRowid nq" "node_table ix (contents s) (dn_nRowid nq) = Some (pBuffer vq)"
        using bspec [OF Cons.prems(10), of q] q unfolding own_block_def by auto
      ultimately show ?thesis by (simp add: own_block_def c1(2) f(6) si row_of_def)
    qed
    obtain ix' s' ctx' where r: "secondPass m ix1 s1 ctx1 ps rid vI hC2 = Some (SQLITE4_OK, ix', s', ctx')" "same_index ix1 ix'"
      "good s'" "graph_ok ix1 (contents s')" "rows_only ix1 (contents s')" "ctx_rel (node_at ctx') ctx' b"
      "ctxBuffers ctx' = ctxBuffers ctx1"
      and lt: "linked_table ix1 rid (row_of (node_at ctx1) ` set ps) (node_table ix1 (contents s1)) (node_table ix1 (contents s'))"
    proof -
      have "rows_only ix1 (contents s1)" "can_compress ix1" "pair_ok ix1 vI" "holder_ok ix1 hC2" "dist_ok ix1"
        "distinct (map (row_of (node_at ctx1)) ps)"
        using f(5) Cons.prems(4,5,7) l(4) d(1) by (simp_all add: si rows)
      from Cons.IH [OF f(3) g1 this(1-5) c1(1) this(6)] own show ?thesis using that by blast
    qed
    have "linked_table ix rid (insert (dn_nRowid n) (row_of (node_at ctx) ` set ps)) (node_table ix (contents s)) (node_table ix (contents s'))"
    proof (rule linked_table_step)
      show "linked_table ix rid (row_of (node_at ctx) ` set ps) ((node_table ix (contents s))(dn_nRowid n \<mapsto> pBuffer sp2)) (node_table ix (contents s'))"
        using lt same_index_linked [OF f(2)] by (simp only: si rows f(6))
    qed (use n(5) rel d(2) in auto)
    moreover have "secondPass m ix s ctx (p # ps) rid vI hC = Some (SQLITE4_OK, ix', s', ctx')"
      using n(1,2) k(1) False l(1,2) e(1) f(1) r(1) by (simp add: ctx1_def Let_def)
    moreover have "same_index ix ix'" using f(2) r(2) by (rule same_index_trans)
    ultimately show ?thesis using r(3-7) row c1(3)
      by (intro exI [of _ ix'] exI [of _ s'] exI [of _ ctx']) (simp add: si)
  qed
qed

end

subsection \<open>The SQL statements on the shadow table\<close>

text \<open>
  What the index relies on: a statement changes the row it names and no other key under the
  prefix of the shadow table. The record of a row is the one of \<open>BlobSpot\<close>.
\<close>

definition row_change ::
  "'c DiskAnnIndex \<Rightarrow> u64 \<Rightarrow> bytes option \<Rightarrow> (bytes \<times> bytes) list \<Rightarrow> (bytes \<times> bytes) list \<Rightarrow> bool" where
  "row_change ix r x kvs kvs' \<longleftrightarrow>
     (\<forall>k. take (length (aKeyPrefix ix)) k = aKeyPrefix ix \<longrightarrow>
        map_of kvs' k = (if k = blobSpotBuildKey ix r then x else map_of kvs k))"

definition shadow_sql_ok ::
  "('s \<Rightarrow> bool) \<Rightarrow> ('s \<Rightarrow> (bytes \<times> bytes) list) \<Rightarrow> 'c DiskAnnIndex \<Rightarrow> 's sql_engine \<Rightarrow> bool" where
  "shadow_sql_ok good contents ix sql \<longleftrightarrow>
     (\<forall>s st. good s \<longrightarrow> sqlPrepare sql s st = SQLITE4_OK) \<and>
     (\<forall>s r blob. good s \<longrightarrow> map_of (contents s) (blobSpotBuildKey ix r) = None \<longrightarrow>
        (\<exists>s'. sqlStep sql s (InsertRow r blob) = (SQLITE4_DONE, s') \<and> good s' \<and>
           row_change ix r (Some (blobSpotEncodeRecord r blob)) (contents s) (contents s'))) \<and>
     (\<forall>s r. good s \<longrightarrow>
        (\<exists>s'. sqlStep sql s (DeleteRow r) = (SQLITE4_DONE, s') \<and> good s' \<and> row_change ix r None (contents s) (contents s')))"

lemma row_change_map:
  assumes "row_change ix r x kvs kvs'"
  shows "map_of kvs' (blobSpotBuildKey ix r') = (if r' = r then x else map_of kvs (blobSpotBuildKey ix r'))"
  using assms by (auto simp: row_change_def blobSpotBuildKey_def key_inj [unfolded blobSpotBuildKey_def, simplified])

lemma row_change_rows:
  assumes "row_change ix r x kvs kvs'" "rows_only ix kvs" shows "rows_only ix kvs'"
  unfolding rows_only_def
proof (intro ballI impI)
  fix k assume k: "k \<in> fst ` set kvs'" "take (length (aKeyPrefix ix)) k = aKeyPrefix ix"
  from k(1) have "map_of kvs' k \<noteq> None" by (simp add: map_of_eq_None_iff)
  with assms(1) k(2) have "k = blobSpotBuildKey ix r \<or> map_of kvs k \<noteq> None" by (metis row_change_def)
  moreover have "map_of kvs k \<noteq> None \<Longrightarrow> k \<in> fst ` set kvs" by (simp add: map_of_eq_None_iff)
  ultimately show "\<exists>r. k = blobSpotBuildKey ix r" using assms(2) k(2) by (auto simp: rows_only_def)
qed

lemma drop_record: "length blob < 2 ^ 31 \<Longrightarrow> drop (length (blobSpotEncodeRecord r blob) - length blob) (blobSpotEncodeRecord r blob) = blob"
  using decode_encode_record [of blob r] by (metis add_diff_cancel_right')

lemma row_change_insert:
  assumes "row_change ix r (Some (blobSpotEncodeRecord r blob)) kvs kvs'" "table_ok ix kvs" "int (length blob) = nBlockSize ix"
  shows "table_ok ix kvs'" "node_table ix kvs' = (node_table ix kvs)(r \<mapsto> blob)"
proof -
  note c = row_change_map [OF assms(1)]
  show "table_ok ix kvs'" using assms(2,3) by (auto simp: table_ok_def c split: if_splits)
  have "length blob < 2 ^ 31" using assms(2,3) by (simp add: table_ok_def)
  moreover have "nat (nBlockSize ix) = length blob" using assms(3) by linarith
  ultimately show "node_table ix kvs' = (node_table ix kvs)(r \<mapsto> blob)"
    by (auto simp: fun_eq_iff node_table_def c drop_record)
qed

lemma row_change_delete:
  assumes "row_change ix r None kvs kvs'" "table_ok ix kvs"
  shows "table_ok ix kvs'" "node_table ix kvs' = (node_table ix kvs)(r := None)"
  using assms(2) by (auto simp: table_ok_def node_table_def fun_eq_iff row_change_map [OF assms(1)] split: if_splits)

lemma edge_count_zeros: "edge_count (replicate n 0) = 0"
proof -
  have "be_word (replicate k 0) = (0 :: u16)" for k by (induction k) (simp_all add: be_word_simps)
  then show ?thesis by (simp add: edge_count_def field_def le_word_def)
qed

context kv_store
begin

lemma insert_shadow:
  assumes "good s" "graph_ok ix (contents s)" "rows_only ix (contents s)" "shadow_sql_ok good contents ix sql"
    and "node_table ix (contents s) (vr_nRowid v) = None" "sqlite4Malloc (nat (nBlockSize ix))"
  shows "\<exists>s'. diskAnnInsertShadowRow sql ix s v = (SQLITE4_OK, vr_nRowid v, s') \<and> good s' \<and>
    graph_ok ix (contents s') \<and> rows_only ix (contents s') \<and>
    node_table ix (contents s') = (node_table ix (contents s))(vr_nRowid v \<mapsto> replicate (nat (nBlockSize ix)) 0)"
proof -
  let ?z = "replicate (nat (nBlockSize ix)) 0 :: bytes"
  note g = graph_okD [OF assms(2)]
  have z: "int (length ?z) = nBlockSize ix" using g(2) by (simp add: table_ok_def)
  obtain s' where s': "sqlStep sql s (InsertRow (vr_nRowid v) ?z) = (SQLITE4_DONE, s')" "good s'"
    "row_change ix (vr_nRowid v) (Some (blobSpotEncodeRecord (vr_nRowid v) ?z)) (contents s) (contents s')"
    using assms(1,4,5) unfolding shadow_sql_ok_def node_table_None by blast
  note c = row_change_insert [OF s'(3) g(2) z]
  have "graph_ok ix (contents s')" using assms(2) c by (auto simp: graph_ok_def edge_count_zeros)
  with s' c row_change_rows [OF s'(3) assms(3)] assms(1,4,6) show ?thesis
    by (auto simp: diskAnnInsertShadowRow_def shadow_sql_ok_def)
qed

lemma delete_shadow:
  assumes "good s" "graph_ok ix (contents s)" "rows_only ix (contents s)" "shadow_sql_ok good contents ix sql"
  shows "\<exists>s'. diskAnnDeleteShadowRow sql s r = (SQLITE4_OK, s') \<and> good s' \<and>
    graph_ok ix (contents s') \<and> rows_only ix (contents s') \<and>
    node_table ix (contents s') = (node_table ix (contents s))(r := None)"
proof -
  obtain s' where s': "sqlStep sql s (DeleteRow r) = (SQLITE4_DONE, s')" "good s'"
    "row_change ix r None (contents s) (contents s')"
    using assms(1,4) unfolding shadow_sql_ok_def by blast
  note c = row_change_delete [OF s'(3) graph_okD(2) [OF assms(2)]]
  have "graph_ok ix (contents s')" using assms(2) c by (auto simp: graph_ok_def)
  with s' c row_change_rows [OF s'(3) assms(3)] assms(1,4) show ?thesis
    by (auto simp: diskAnnDeleteShadowRow_def shadow_sql_ok_def)
qed

end

text \<open>The count of the rows is all that differs in the index.\<close>

lemma shadow_count [simp]:
  fixes ix :: "'c DiskAnnIndex"
  shows "index_ok (ix\<lparr>nShadowRows := n\<rparr>) = index_ok ix" "max_edges (ix\<lparr>nShadowRows := n\<rparr>) = max_edges ix"
    "blobSpotBuildKey (ix\<lparr>nShadowRows := n\<rparr>) = blobSpotBuildKey ix" "node_table (ix\<lparr>nShadowRows := n\<rparr>) = node_table ix"
    "table_ok (ix\<lparr>nShadowRows := n\<rparr>) = table_ok ix" "graph_ok (ix\<lparr>nShadowRows := n\<rparr>) = graph_ok ix"
    "rows_only (ix\<lparr>nShadowRows := n\<rparr>) = rows_only ix" "can_compress (ix\<lparr>nShadowRows := n\<rparr>) = can_compress ix"
    "pair_ok (ix\<lparr>nShadowRows := n\<rparr>) = pair_ok ix" "holder_ok (ix\<lparr>nShadowRows := n\<rparr>) = holder_ok ix"
    "metric_ok (ix\<lparr>nShadowRows := n\<rparr>) = metric_ok ix" "spot_sized (ix\<lparr>nShadowRows := n\<rparr>) = spot_sized ix"
    "node_ok (ix\<lparr>nShadowRows := n\<rparr>) = node_ok ix" "edge_at (ix\<lparr>nShadowRows := n\<rparr>) = edge_at ix"
    "hdr_size (ix\<lparr>nShadowRows := n\<rparr>) = hdr_size ix" "node_size (ix\<lparr>nShadowRows := n\<rparr>) = node_size ix"
    "dist_ok (ix\<lparr>nShadowRows := n\<rparr>) = dist_ok ix"
proof -
  show i: "index_ok (ix\<lparr>nShadowRows := n\<rparr>) = index_ok ix" "max_edges (ix\<lparr>nShadowRows := n\<rparr>) = max_edges ix"
    by (simp_all add: index_ok_def max_edges_def)
  show k: "blobSpotBuildKey (ix\<lparr>nShadowRows := n\<rparr>) = blobSpotBuildKey ix" by (simp add: fun_eq_iff blobSpotBuildKey_def)
  show t: "node_table (ix\<lparr>nShadowRows := n\<rparr>) = node_table ix" "table_ok (ix\<lparr>nShadowRows := n\<rparr>) = table_ok ix"
    by (simp_all add: fun_eq_iff node_table_def table_ok_def k)
  show "graph_ok (ix\<lparr>nShadowRows := n\<rparr>) = graph_ok ix" by (simp add: fun_eq_iff graph_ok_def i t)
  show "rows_only (ix\<lparr>nShadowRows := n\<rparr>) = rows_only ix" by (simp add: fun_eq_iff rows_only_def k)
  show "can_compress (ix\<lparr>nShadowRows := n\<rparr>) = can_compress ix" by (simp add: can_compress_def)
  show "pair_ok (ix\<lparr>nShadowRows := n\<rparr>) = pair_ok ix" "holder_ok (ix\<lparr>nShadowRows := n\<rparr>) = holder_ok ix"
    by (simp_all add: fun_eq_iff pair_ok_def holder_ok_def)
  show d: "dist_ok (ix\<lparr>nShadowRows := n\<rparr>) = dist_ok ix" by (simp add: dist_ok_def)
  show "metric_ok (ix\<lparr>nShadowRows := n\<rparr>) = metric_ok ix" by (simp add: metric_ok_def i d)
  show "spot_sized (ix\<lparr>nShadowRows := n\<rparr>) = spot_sized ix" "node_ok (ix\<lparr>nShadowRows := n\<rparr>) = node_ok ix"
    by (simp_all add: fun_eq_iff spot_sized_def node_ok_def i)
  show h: "hdr_size (ix\<lparr>nShadowRows := n\<rparr>) = hdr_size ix" "node_size (ix\<lparr>nShadowRows := n\<rparr>) = node_size ix"
    by (simp_all add: hdr_size_def node_size_def)
  show "edge_at (ix\<lparr>nShadowRows := n\<rparr>) = edge_at ix"
    by (simp add: fun_eq_iff edge_at_def meta_off_def vec_off_def edge_size_def h i)
qed

lemma shadow_count_blocks [simp]:
  "block_edges (ix\<lparr>nShadowRows := n\<rparr>) = block_edges ix" "edges (ix\<lparr>nShadowRows := n\<rparr>) = edges ix"
  "node_vec (ix\<lparr>nShadowRows := n\<rparr>) = node_vec ix" "same_node (ix\<lparr>nShadowRows := n\<rparr>) = same_node ix"
  "relinked (ix\<lparr>nShadowRows := n\<rparr>) = relinked ix" "linked_table (ix\<lparr>nShadowRows := n\<rparr>) = linked_table ix"
  "own_block (ix\<lparr>nShadowRows := n\<rparr>) = own_block ix"
proof -
  show b: "block_edges (ix\<lparr>nShadowRows := n\<rparr>) = block_edges ix" by (simp add: fun_eq_iff block_edges_def)
  show "edges (ix\<lparr>nShadowRows := n\<rparr>) = edges ix" by (simp add: fun_eq_iff edges_block b)
  show "node_vec (ix\<lparr>nShadowRows := n\<rparr>) = node_vec ix" by (simp add: fun_eq_iff node_vec_def)
  show s: "same_node (ix\<lparr>nShadowRows := n\<rparr>) = same_node ix" by (simp add: fun_eq_iff same_node_def)
  show r: "relinked (ix\<lparr>nShadowRows := n\<rparr>) = relinked ix" by (simp add: fun_eq_iff relinked_def b s)
  show "linked_table (ix\<lparr>nShadowRows := n\<rparr>) = linked_table ix" by (simp add: fun_eq_iff linked_table_def r)
  show "own_block (ix\<lparr>nShadowRows := n\<rparr>) = own_block ix" by (simp add: fun_eq_iff own_block_def)
qed

lemma same_index_count:
  "same_index ix ix' \<Longrightarrow> same_index (ix\<lparr>nShadowRows := n\<rparr>) (ix'\<lparr>nShadowRows := n\<rparr>)"
  by (cases ix; cases ix') (simp add: same_index_def base_index_def)

subsection \<open>An insertion\<close>

text \<open>No edge of the graph leads out of it.\<close>

lemma reach_rows:
  assumes "graph_inv ix kvs" "r0 \<in> dom (node_table ix kvs)"
  shows "beam_reach (search_graph ix kvs q) r0 \<subseteq> dom (search_graph ix kvs q)"
proof
  fix r assume "r \<in> beam_reach (search_graph ix kvs q) r0"
  then show "r \<in> dom (search_graph ix kvs q)"
  proof induction
    case reach_start
    then show ?case using assms(2) by (simp add: dom_graph)
  next
    case (reach_edge r x es r' d)
    then obtain blk where blk: "node_table ix kvs r = Some blk" "es = map (edge_dist ix q blk) [0..<edge_count blk]"
      by (auto simp: search_graph_def)
    then have "r' \<in> rows_of (block_edges ix blk)"
      using reach_edge.hyps(3) by (auto simp: rows_of_def block_edges_def edge_dist_def)
    with assms(1) blk(1) show ?case by (auto simp: graph_inv_def node_inv_def dom_graph)
  qed
qed

text \<open>What the insertion makes of the table: the new block and some of the others linked to it.\<close>

definition inserted ::
  "'c DiskAnnIndex \<Rightarrow> u64 \<Rightarrow> vector \<Rightarrow> (u64 \<Rightarrow> bytes option) \<Rightarrow> (u64 \<Rightarrow> bytes option) \<Rightarrow> bool" where
  "inserted ix rid v T T' \<longleftrightarrow> (\<exists>R blk T2. linked_table ix rid R T T2 \<and> R \<subseteq> dom T \<and> T' = T2(rid \<mapsto> blk) \<and>
     int (length blk) = nBlockSize ix \<and> edge_count blk \<le> max_edges ix \<and> le_word (field blk 0 8) = rid \<and>
     field blk (hdr_size ix) (node_size ix) = data_part v (replicate (node_size ix) 0) \<and>
     distinct (map fst (block_edges ix blk)) \<and> rows_of (block_edges ix blk) \<subseteq> R \<and> (R \<noteq> {} \<longrightarrow> block_edges ix blk \<noteq> []) \<and>
     (dom T \<noteq> {} \<longrightarrow> R \<noteq> {}))"

lemma inserted_inv:
  assumes "graph_inv ix kvs" "inserted ix rid v (node_table ix kvs) (node_table ix kvs')" "rid \<notin> dom (node_table ix kvs)"
    and "graph_ok ix kvs'" "rows_only ix kvs'"
  shows "graph_inv ix kvs'"
proof -
  let ?T = "node_table ix kvs" and ?T' = "node_table ix kvs'"
  obtain R blk T2 where i: "linked_table ix rid R ?T T2" "R \<subseteq> dom ?T" "?T' = T2(rid \<mapsto> blk)"
    "le_word (field blk 0 8) = rid" "distinct (map fst (block_edges ix blk))" "rows_of (block_edges ix blk) \<subseteq> R"
    using assms(2) unfolding inserted_def by blast
  have d: "dom ?T' = insert rid (dom ?T)" "dom T2 = dom ?T" using i(1,3) by (auto simp: linked_table_def)
  have "node_inv ix (dom ?T') r b" if b: "?T' r = Some b" for r b
  proof (cases "r = rid")
    case True
    with b i assms(3) show ?thesis unfolding d(1) by (auto simp: node_inv_def)
  next
    case False
    with b i(3) have "T2 r = Some b" by simp
    then have "r \<in> dom ?T" using d(2) by blast
    then obtain b0 where b0: "?T r = Some b0" by auto
    have "relinked ix rid b0 b \<or> b = b0" using i(1) b0 \<open>T2 r = Some b\<close> by (fastforce simp: linked_table_def split: if_splits)
    then have "relinked ix rid b0 b"
      using relinked_refl [of b0 ix rid] graph_okD(4) [OF _ b0] assms(1) by (auto simp: graph_inv_def)
    moreover have "node_inv ix (dom ?T) r b0" using assms(1) b0 by (simp add: graph_inv_def)
    ultimately show ?thesis unfolding d(1) using relinked_inv False by blast
  qed
  with assms(4,5) show ?thesis by (simp add: graph_inv_def)
qed

text \<open>The blocks of the visited nodes after a search that writes.\<close>

lemma visited_own:
  assumes "ctx_rel (node_at ctx) ctx b" "blobs_ok ix kvs (node_at ctx) True None"
    and "node_table ix kvs rid = None" "node_table ix kvs' = (node_table ix kvs)(rid \<mapsto> z)" "p \<in> set (visitedList ctx)"
  shows "own_block ix kvs' ctx p"
proof -
  obtain n where n: "node_at ctx p = Some n" using ctx_relD(2) [OF assms(1)] assms(5) by blast
  then have "dn_visited n" using ctx_relD(3) [OF assms(1) n] assms(5) by simp
  with assms(2) n obtain vs where vs: "dn_pBlobSpot n = Some vs" "blob_of ix kvs (dn_nRowid n) vs"
    by (auto simp: blobs_ok_def split: option.splits)
  have "dn_nRowid n \<noteq> rid" using vs(2) assms(3) by (auto simp: blob_of_def)
  with vs n assms(4) show ?thesis by (auto simp: own_block_def blob_of_def)
qed

context kv_store
begin

lemma insert_out:
  assumes "good s" "graph_ok ix (contents s)" "rows_only ix (contents s)" "node_ok ix sp" "ctx_rel (node_at ctx) ctx b" "ctxBuffers ctx"
  shows "\<exists>ix' s'. insertOut m SQLITE4_OK ix s (Some sp) ctx = Some (SQLITE4_OK, ix', s') \<and> same_index ix ix' \<and> good s' \<and>
    graph_ok ix (contents s') \<and> rows_only ix (contents s') \<and>
    node_table ix (contents s') = (node_table ix (contents s))(bs_nRowid sp \<mapsto> pBuffer sp)"
proof -
  have sz: "spot_sized ix sp" using assms(4) by (simp add: spot_sized_def node_ok_def)
  obtain ix' s' where f: "blobSpotFlush m ix s sp = Some (SQLITE4_OK, ix', s')" "same_index ix ix'" "good s'"
    "table_ok ix (contents s')" "rows_only ix (contents s')"
    "node_table ix (contents s') = (node_table ix (contents s))(bs_nRowid sp \<mapsto> pBuffer sp)"
    using flush_rows [OF assms(1) graph_okD(2) [OF assms(2)] sz assms(3)] by blast
  obtain c where "diskAnnSearchCtxDeinit ctx = Some c" using deinit_ok [OF assms(5,6)] by blast
  with f show ?thesis using graph_ok_put [OF assms(2) f(4,6) assms(4)] by (auto simp: insertOut_def)
qed

lemma new_block:
  assumes "graph_ok ix kvs" "fits (nNodeVectorType ix) (nVectorDims ix) v"
  shows "\<exists>sp0 sp. blobSpotCreate junk rid (nBlockSize ix) True = Some sp0 \<and> nodeBinInit ix sp0 rid v = Some sp \<and>
    node_ok ix sp \<and> edges ix sp = [] \<and> node_rowid sp = rid \<and> node_vec ix sp = data_part v (replicate (node_size ix) 0) \<and>
    bs_nRowid sp = rid"
proof -
  note gd = graph_okD [OF assms(1)]
  obtain sp0 where sp0: "blobSpotCreate junk rid (nBlockSize ix) True = Some sp0" "spot_sized ix sp0" "bs_nRowid sp0 = rid"
    using gd(2) by (auto simp: blobSpotCreate_def table_ok_def spot_sized_def malloc_def)
  have sp0z: "nBufferSize sp0 = nBlockSize ix" "int (length (pBuffer sp0)) = nBlockSize ix"
    using sp0(2) by (simp_all add: spot_sized_def)
  obtain sp where sp: "nodeBinInit ix sp0 rid v = Some sp" "node_ok ix sp" "edges ix sp = []" "node_rowid sp = rid"
    "node_vec ix sp = data_part v (replicate (node_size ix) 0)" "sp = sp0\<lparr>pBuffer := pBuffer sp\<rparr>"
    using nodeBinInit_ok [OF gd(1) sp0z assms(2), of rid] by blast
  have "bs_nRowid sp = rid" using sp0(3) arg_cong [OF sp(6), of bs_nRowid] by simp
  with sp0(1) sp show ?thesis by blast
qed

lemma insert_first:
  assumes "good s" "graph_inv ix (contents s)" "can_compress ix" "shadow_sql_ok good contents ix sql"
    and "vr_pVector vr = Some v" "fits (nNodeVectorType ix) (nVectorDims ix) v"
    and "\<forall>r. node_table ix (contents s) r = None" "sint (nShadowRows ix) \<le> 0"
    and "sqlite4Malloc (insertL ix * 8)" "sqlite4Malloc (nat (nBlockSize ix))"
  shows "\<exists>ix' s'. diskAnnInsert junk m sql randVal ix s vr = Some (SQLITE4_OK, ix', s') \<and> good s' \<and>
    same_index (ix\<lparr>nShadowRows := nShadowRows ix + 1\<rparr>) ix' \<and> graph_inv ix (contents s') \<and>
    inserted ix (vr_nRowid vr) v (node_table ix (contents s)) (node_table ix (contents s'))"
proof -
  let ?rid = "vr_nRowid vr" and ?T = "node_table ix (contents s)"
  from assms(2) have g: "graph_ok ix (contents s)" "rows_only ix (contents s)" by (simp_all add: graph_inv_def)
  note gd = graph_okD [OF g(1)]
  have k1: "sqlite4Malloc (1 * 8)" by (simp add: sqlite4Malloc_def)
  obtain ctx where ctx: "diskAnnSearchCtxInit (junk 0) ix v (insertL ix) 1 True = Some (SQLITE4_OK, ctx)"
    using init_ok [OF gd(1) assms(3,6,9) k1] by blast
  note f = init_fresh [OF ctx]
  have rel: "ctx_rel (node_at ctx) ctx no_beam"
    using fresh_rel [OF f(1)] f(1,2,8) by (simp add: node_at_def [abs_def] fresh_ctx_def)
  obtain s1 where s1: "diskAnnSelectRandomShadowRow m ix s randVal = Some (SQLITE4_DONE, 0, s1)" "good s1" "contents s1 = contents s"
    using random_none [OF assms(1) g(2) assms(7,8)] by blast
  obtain s2 where s2: "diskAnnInsertShadowRow sql ix s1 vr = (SQLITE4_OK, ?rid, s2)" "good s2" "graph_ok ix (contents s2)"
    "rows_only ix (contents s2)" "node_table ix (contents s2) = ?T(?rid \<mapsto> replicate (nat (nBlockSize ix)) 0)"
    using insert_shadow [OF s1(2) g [folded s1(3)] assms(4) spec [OF assms(7) [folded s1(3)]] assms(10)] unfolding s1(3) by blast
  define ix1 where "ix1 = ix\<lparr>nShadowRows := nShadowRows ix + 1\<rparr>"
  have b: "nBlockSize ix1 = nBlockSize ix" "nNodeVectorType ix1 = nNodeVectorType ix" "nVectorDims ix1 = nVectorDims ix"
    by (simp_all add: ix1_def)
  obtain sp0 sp where sp: "blobSpotCreate (junk 4) ?rid (nBlockSize ix1) True = Some sp0" "nodeBinInit ix1 sp0 ?rid v = Some sp"
    "node_ok ix1 sp" "edges ix1 sp = []" "node_rowid sp = ?rid" "node_vec ix1 sp = data_part v (replicate (node_size ix1) 0)"
    "bs_nRowid sp = ?rid"
    using new_block [of ix1 "contents s" v "junk 4" ?rid] g(1) assms(6) by (auto simp: ix1_def)
  obtain ix' s' where o: "insertOut m SQLITE4_OK ix1 s2 (Some sp) ctx = Some (SQLITE4_OK, ix', s')" "same_index ix1 ix'" "good s'"
    "graph_ok ix1 (contents s')" "rows_only ix1 (contents s')"
    "node_table ix1 (contents s') = (node_table ix1 (contents s2))(?rid \<mapsto> pBuffer sp)"
    using insert_out [OF s2(2) _ _ sp(3) rel f(9)] s2(3,4) sp(7) by (auto simp: ix1_def)
  have t: "node_table ix (contents s') = ?T(?rid \<mapsto> pBuffer sp)" using o(6) s2(5) by (simp add: ix1_def)
  have ins: "inserted ix ?rid v ?T (node_table ix (contents s'))"
    unfolding inserted_def
  proof (intro exI conjI)
    show "linked_table ix ?rid {} ?T ?T" using linked_table_refl [OF g(1)] .
  qed (use t sp(3-6) assms(7) in \<open>auto simp: ix1_def node_ok_def edges_block node_vec_def node_rowid_def rows_of_def\<close>)
  have inv: "graph_inv ix (contents s')"
    using inserted_inv [OF assms(2) ins] assms(7) o(4,5) by (simp add: ix1_def domIff)
  have "diskAnnInsert junk m sql randVal ix s vr = Some (SQLITE4_OK, ix', s')"
    using assms(5,6) ctx s1(1) s2(1) sp(1,2) o(1) by (simp add: diskAnnInsert_def fits_def ix1_def [symmetric] b)
  with o(2,3) ins inv show ?thesis by (auto simp: ix1_def)
qed

lemma insert_next:
  assumes "good s" "graph_inv ix (contents s)" "can_compress ix" "shadow_sql_ok good contents ix sql"
    and "vr_pVector vr = Some v" "fits (nNodeVectorType ix) (nVectorDims ix) v"
    and "node_table ix (contents s) r1 \<noteq> None" "node_table ix (contents s) (vr_nRowid vr) = None"
    and "sqlite4Malloc (insertL ix * 8)" "sqlite4Malloc (nat (nBlockSize ix))"
    and "dist_ok ix" "comparable_vector (junk 0) ix (contents s) v"
  shows "\<exists>ix' s'. diskAnnInsert junk m sql randVal ix s vr = Some (SQLITE4_OK, ix', s') \<and> good s' \<and>
    same_index (ix\<lparr>nShadowRows := nShadowRows ix + 1\<rparr>) ix' \<and> graph_inv ix (contents s') \<and>
    inserted ix (vr_nRowid vr) v (node_table ix (contents s)) (node_table ix (contents s'))"
proof -
  let ?rid = "vr_nRowid vr" and ?T = "node_table ix (contents s)"
  from assms(2) have g: "graph_ok ix (contents s)" "rows_only ix (contents s)" by (simp_all add: graph_inv_def)
  note gd = graph_okD [OF g(1)]
  note met = gd(3) [OF assms(11)]
  have k1: "sqlite4Malloc (1 * 8)" by (simp add: sqlite4Malloc_def)
  obtain ctx where ctx: "diskAnnSearchCtxInit (junk 0) ix v (insertL ix) 1 True = Some (SQLITE4_OK, ctx)" "pair_ok ix (query ctx)"
    using init_ok [OF gd(1) assms(3,6,9) k1] by blast
  note f = init_fresh [OF ctx(1)]
  have L: "0 < maxCandidates ctx" "maxCandidates ctx < 2 ^ 31" using f(2,6,8) by simp_all
  obtain r0 s1 where r0: "diskAnnSelectRandomShadowRow m ix s randVal = Some (SQLITE4_OK, r0, s1)"
    "?T r0 \<noteq> None" "good s1" "contents s1 = contents s"
    using random_row [OF assms(1) g(2) assms(7)] by blast
  obtain blk0 where blk0: "node_table ix (contents s1) r0 = Some blk0" using r0(2,4) by auto
  have cmp: "comparable ix (contents s1) (query ctx) r0"
    using assms(12) init_query [OF ctx(1)] by (simp add: comparable_vector_def r0(4))
  have reach: "blobMode ctx \<longrightarrow> beam_reach (search_graph ix (contents s1) (query ctx)) r0 \<subseteq> dom (search_graph ix (contents s1) (query ctx))"
    using reach_rows [OF assms(2), of r0] r0(2,4) by (simp add: domIff)
  obtain d b ix2 s2 ctx2 where i: "beam_search (maxCandidates ctx) (maxTopCandidates ctx) (search_graph ix (contents s) (query ctx)) r0 d = Some b"
    "diskAnnSearchInternal (junk 3) m ix s1 ctx r0 = Some (SQLITE4_OK, ix2, s2, ctx2)"
    "same_index ix ix2" "good s2" "contents s2 = contents s" "same_ctx ctx ctx2" "ctx_rel (node_at ctx2) ctx2 b"
    "blobs_ok ix (contents s) (node_at ctx2) True None"
    using search_internal [OF r0(3) g(1) [folded r0(4)] f(1) ctx(2) L blk0 refl f(5) reach cmp assms(11)] f(4) unfolding r0(4) by blast
  note v = visited_rows [OF i(7) i(1) L(1) r0(2)]
  note si = same_index_graph [OF i(3)] same_index_rows [OF i(3)] same_index_layout [OF i(3)] same_index_node [OF i(3)] same_index_sel [OF i(3)]
    same_index_linked [OF i(3)]
  let ?ps = "visitedList ctx2" and ?R = "row_of (node_at ctx2) ` set (visitedList ctx2)"
  obtain s3 where s3: "diskAnnInsertShadowRow sql ix s2 vr = (SQLITE4_OK, ?rid, s3)" "good s3" "graph_ok ix (contents s3)"
    "rows_only ix (contents s3)" "node_table ix (contents s3) = ?T(?rid \<mapsto> replicate (nat (nBlockSize ix)) 0)"
    using insert_shadow [OF i(4) g [folded i(5)] assms(4) assms(8) [folded i(5)] assms(10)] unfolding i(5) by blast
  have s3': "diskAnnInsertShadowRow sql ix2 s2 vr = (SQLITE4_OK, ?rid, s3)"
    using s3(1) unfolding diskAnnInsertShadowRow_def si .
  define ix3 where "ix3 = ix2\<lparr>nShadowRows := nShadowRows ix2 + 1\<rparr>"
  have b3: "nBlockSize ix3 = nBlockSize ix" "nNodeVectorType ix3 = nNodeVectorType ix" "nVectorDims ix3 = nVectorDims ix"
    "nEdgeVectorType ix3 = nEdgeVectorType ix"
    by (simp_all add: ix3_def si)
  have e3: "graph_ok ix3 = graph_ok ix" "rows_only ix3 = rows_only ix" "can_compress ix3 = can_compress ix" "metric_ok ix3 = metric_ok ix"
    "node_ok ix3 = node_ok ix" "edges ix3 = edges ix" "node_vec ix3 = node_vec ix" "node_size ix3 = node_size ix"
    "pair_ok ix3 = pair_ok ix" "holder_ok ix3 = holder_ok ix" "node_table ix3 = node_table ix" "linked_table ix3 = linked_table ix"
    "own_block ix3 = own_block ix" "dist_ok ix3 = dist_ok ix"
    by (simp_all add: ix3_def si node_size_def own_block_def [abs_def])
  obtain sp0 sp where sp: "blobSpotCreate (junk 4) ?rid (nBlockSize ix) True = Some sp0" "nodeBinInit ix3 sp0 ?rid v = Some sp"
    "node_ok ix sp" "edges ix sp = []" "node_rowid sp = ?rid" "node_vec ix sp = data_part v (replicate (node_size ix) 0)"
    "bs_nRowid sp = ?rid"
    using new_block [of ix3 "contents s" v "junk 4" ?rid] g(1) assms(6) unfolding e3 b3 by blast
  define vI where "vI = initVectorPair (junk 1) (nNodeVectorType ix) (nEdgeVectorType ix) (nVectorDims ix)"
  define vC where "vC = initVectorPair (junk 2) (nNodeVectorType ix) (nEdgeVectorType ix) (nVectorDims ix)"
  have h: "holder_ok ix vI" "holder_ok ix vC" by (simp_all add: vI_def vC_def init_holder)
  have own: "\<forall>p \<in> set ?ps. own_block ix (contents s3) ctx2 p"
    using visited_own [OF i(7,8) assms(8) s3(5)] by blast
  have vs: "\<forall>p \<in> set ?ps. \<exists>n vs. node_at ctx2 p = Some n \<and> dn_pBlobSpot n = Some vs \<and> node_ok ix vs"
  proof
    fix p assume "p \<in> set ?ps"
    then obtain n vs where n: "node_at ctx2 p = Some n" "dn_pBlobSpot n = Some vs" "spot_sized ix vs"
      "node_table ix (contents s3) (dn_nRowid n) = Some (pBuffer vs)" using own by (auto simp: own_block_def)
    then have "node_ok ix vs" using graph_okD(4) [OF s3(3) n(4)] by (simp add: node_ok_def spot_sized_def)
    with n show "\<exists>n vs. node_at ctx2 p = Some n \<and> dn_pBlobSpot n = Some vs \<and> node_ok ix vs" by blast
  qed
  obtain sp1 vI1 vC1 where p1: "firstPass ix3 ctx2 ?ps sp vI vC = Some (sp1, vI1, vC1)" "node_ok ix sp1"
    "holder_ok ix vI1" "holder_ok ix vC1" "rows_of (edges ix sp1) \<subseteq> ?R" "distinct (map fst (edges ix sp1))"
    "?ps \<noteq> [] \<longrightarrow> edges ix sp1 \<noteq> []" "node_rowid sp1 = ?rid" "node_vec ix sp1 = data_part v (replicate (node_size ix) 0)"
    "bs_nRowid sp1 = ?rid"
  proof -
    have "metric_ok ix3" "can_compress ix3" "node_ok ix3 sp" "holder_ok ix3 vI" "holder_ok ix3 vC"
      "\<forall>p \<in> set ?ps. \<exists>n vs. node_at ctx2 p = Some n \<and> dn_pBlobSpot n = Some vs \<and> node_ok ix3 vs"
      unfolding e3 using met assms(3) sp(3) h vs by blast+
    from first_pass [OF this] obtain sp1 vI1 vC1 where q: "firstPass ix3 ctx2 ?ps sp vI vC = Some (sp1, vI1, vC1)" "node_ok ix sp1"
      "holder_ok ix vI1" "holder_ok ix vC1" "rows_of (edges ix sp1) \<subseteq> rows_of (edges ix sp) \<union> ?R"
      "distinct (map fst (edges ix sp)) \<longrightarrow> distinct (map fst (edges ix sp1))"
      "edges ix sp \<noteq> [] \<or> ?ps \<noteq> [] \<longrightarrow> edges ix sp1 \<noteq> []" "node_rowid sp1 = node_rowid sp" "node_vec ix sp1 = node_vec ix sp"
      "sp1 = sp\<lparr>pBuffer := pBuffer sp1\<rparr>" unfolding e3 by blast
    have "bs_nRowid sp1 = ?rid" using sp(7) arg_cong [OF q(10), of bs_nRowid] by simp
    then show ?thesis using that [OF q(1-4)] q(5-9) sp(4-6) by (simp add: rows_of_def)
  qed
  obtain vI2 where vI2: "loadVectorPair vI1 v = Some vI2" "pair_ok ix vI2"
    using load_holder [OF gd(1) assms(3) p1(3) assms(6)] by blast
  obtain ix4 s4 ctx4 where p2: "secondPass m ix3 s3 ctx2 ?ps ?rid vI2 vC1 = Some (SQLITE4_OK, ix4, s4, ctx4)" "same_index ix3 ix4"
    "good s4" "graph_ok ix (contents s4)" "rows_only ix (contents s4)" "ctx_rel (node_at ctx4) ctx4 b" "ctxBuffers ctx4"
    "linked_table ix ?rid ?R (node_table ix (contents s3)) (node_table ix (contents s4))"
  proof -
    have "graph_ok ix3 (contents s3)" "rows_only ix3 (contents s3)" "can_compress ix3" "pair_ok ix3 vI2" "holder_ok ix3 vC1" "dist_ok ix3"
      "\<forall>p \<in> set ?ps. own_block ix3 (contents s3) ctx2 p"
      unfolding e3 using s3(3,4) assms(3,11) vI2(2) p1(4) own by blast+
    from second_pass [OF s3(2) this(1-6) i(7) v(1) this(7), of ?rid] show ?thesis
      using that i(6) f(9) unfolding e3 by (auto simp: same_ctx_def)
  qed
  note s4 = same_index_graph [OF p2(2)] same_index_rows [OF p2(2)] same_index_layout [OF p2(2)]
  obtain ix' s' where o: "insertOut m SQLITE4_OK ix4 s4 (Some sp1) ctx4 = Some (SQLITE4_OK, ix', s')" "same_index ix4 ix'" "good s'"
    "graph_ok ix (contents s')" "rows_only ix (contents s')"
    "node_table ix (contents s') = (node_table ix (contents s4))(?rid \<mapsto> pBuffer sp1)"
  proof -
    have "graph_ok ix4 (contents s4)" "rows_only ix4 (contents s4)" "node_ok ix4 sp1"
      unfolding s4 e3 using p2(4,5) p1(2) by blast+
    from insert_out [OF p2(3) this p2(6,7)] show ?thesis using that unfolding s4 e3 p1(10) by blast
  qed
  have run: "diskAnnInsert junk m sql randVal ix s vr = Some (SQLITE4_OK, ix', s')"
    using assms(5,6) ctx(1) r0(1) i(2) s3' sp(1,2) p1(1) vI2(1) p2(1) o(1)
    by (simp add: diskAnnInsert_def fits_def b3 ix3_def [symmetric] vI_def [symmetric, unfolded One_nat_def] vC_def [symmetric])
  have lt: "linked_table ix ?rid ?R ?T ((node_table ix (contents s4))(?rid := None))"
  proof -
    have d: "?rid \<notin> ?R" using v(3) assms(8) by (auto simp: domIff)
    have "dom (node_table ix (contents s4)) = insert ?rid (dom ?T)" using p2(8) s3(5) by (simp add: linked_table_def)
    with p2(8) s3(5) assms(8) d show ?thesis
      by (auto simp: linked_table_def domIff split: if_splits)
  qed
  have t: "node_table ix (contents s') = ((node_table ix (contents s4))(?rid := None))(?rid \<mapsto> pBuffer sp1)" using o(6) by simp
  have ps: "?ps \<noteq> []" using v(2) by auto
  have ins: "inserted ix ?rid v ?T (node_table ix (contents s'))"
    unfolding inserted_def
  proof (intro exI conjI)
    show "linked_table ix ?rid ?R ?T ((node_table ix (contents s4))(?rid := None))" by (rule lt)
  qed (use t v(3) p1 ps in \<open>auto simp: node_ok_def edges_block node_vec_def node_rowid_def\<close>)
  have "graph_inv ix (contents s')"
    using inserted_inv [OF assms(2) ins] assms(8) o(4,5) by (simp add: domIff)
  moreover have "same_index (ix\<lparr>nShadowRows := nShadowRows ix + 1\<rparr>) ix'"
    using same_index_count [OF i(3), of "nShadowRows ix2 + 1"] p2(2) o(2) same_index_sel(9) [OF i(3)]
    unfolding ix3_def by (metis same_index_trans)
  ultimately show ?thesis using run o(3) ins by blast
qed

lemma insert_row:
  assumes "good s" "graph_inv ix (contents s)" "can_compress ix" "shadow_sql_ok good contents ix sql"
    and "vr_pVector vr = Some v" "fits (nNodeVectorType ix) (nVectorDims ix) v"
    and "node_table ix (contents s) (vr_nRowid vr) = None"
    and "node_table ix (contents s) = Map.empty \<longrightarrow> sint (nShadowRows ix) \<le> 0"
    and "sqlite4Malloc (insertL ix * 8)" "sqlite4Malloc (nat (nBlockSize ix))"
    and "dist_ok ix" "comparable_vector (junk 0) ix (contents s) v"
  shows "\<exists>ix' s'. diskAnnInsert junk m sql randVal ix s vr = Some (SQLITE4_OK, ix', s') \<and> good s' \<and>
    same_index (ix\<lparr>nShadowRows := nShadowRows ix + 1\<rparr>) ix' \<and> graph_inv ix (contents s') \<and>
    inserted ix (vr_nRowid vr) v (node_table ix (contents s)) (node_table ix (contents s'))"
proof (cases "\<forall>r. node_table ix (contents s) r = None")
  case True
  then have "sint (nShadowRows ix) \<le> 0" using assms(8) by (simp add: fun_eq_iff)
  from insert_first [OF assms(1-6) True this assms(9,10)] show ?thesis .
next
  case False
  then obtain r1 where "node_table ix (contents s) r1 \<noteq> None" by blast
  from insert_next [where junk = junk, OF assms(1-6) this assms(7,9-12)] show ?thesis .
qed

end

subsection \<open>A deletion\<close>

text \<open>
  A deletion leaves edges to the row it deletes, so it is studied on graphs whose edges may lead
  anywhere.
\<close>

definition graph_loose :: "'c DiskAnnIndex \<Rightarrow> (bytes \<times> bytes) list \<Rightarrow> bool" where
  "graph_loose ix kvs \<longleftrightarrow> graph_ok ix kvs \<and> rows_only ix kvs \<and>
     (\<forall>r blk. node_table ix kvs r = Some blk \<longrightarrow> node_inv ix UNIV r blk)"

lemma graph_inv_loose: "graph_inv ix kvs \<Longrightarrow> graph_loose ix kvs"
  by (auto simp: graph_inv_def graph_loose_def node_inv_def)

text \<open>The blocks of the rows \<open>X\<close> lose their edge to \<open>rid\<close>, the others keep theirs.\<close>

definition unlinked_table ::
  "'c DiskAnnIndex \<Rightarrow> u64 \<Rightarrow> u64 set \<Rightarrow> (u64 \<Rightarrow> bytes option) \<Rightarrow> (u64 \<Rightarrow> bytes option) \<Rightarrow> bool" where
  "unlinked_table ix rid X T T' \<longleftrightarrow> dom T' = dom T \<and>
     (\<forall>x blk. T x = Some blk \<longrightarrow> (\<exists>blk'. T' x = Some blk' \<and> same_node ix blk blk' \<and>
        mset (block_edges ix blk') =
          (if x \<in> X then filter_mset (\<lambda>e. fst e \<noteq> rid) (mset (block_edges ix blk)) else mset (block_edges ix blk))))"

lemma unlinked_table_refl:
  assumes "graph_ok ix kvs" shows "unlinked_table ix rid {} (node_table ix kvs) (node_table ix kvs)"
  using graph_okD(4) [OF assms] by (auto simp: unlinked_table_def same_node_def)

lemma unlinked_one:
  assumes "graph_ok ix kvs" "node_table ix kvs x = Some blk" "same_node ix blk blk'"
    and "mset (block_edges ix blk') = filter_mset (\<lambda>e. fst e \<noteq> rid) (mset (block_edges ix blk))"
  shows "unlinked_table ix rid {x} (node_table ix kvs) ((node_table ix kvs)(x \<mapsto> blk'))"
  using unlinked_table_refl [OF assms(1), of rid] assms(2-4) by (auto simp: unlinked_table_def)

lemma same_node_trans: "same_node ix a b \<Longrightarrow> same_node ix b c \<Longrightarrow> same_node ix a c"
  by (simp add: same_node_def)

lemma unlinked_table_trans:
  assumes "unlinked_table ix rid X T T1" "unlinked_table ix rid Y T1 T2"
  shows "unlinked_table ix rid (X \<union> Y) T T2"
proof -
  have "\<exists>c. T2 x = Some c \<and> same_node ix a c \<and> mset (block_edges ix c) =
      (if x \<in> X \<union> Y then filter_mset (\<lambda>e. fst e \<noteq> rid) (mset (block_edges ix a)) else mset (block_edges ix a))"
    if a: "T x = Some a" for x a
  proof -
    obtain b where b: "T1 x = Some b" "same_node ix a b" "mset (block_edges ix b) =
      (if x \<in> X then filter_mset (\<lambda>e. fst e \<noteq> rid) (mset (block_edges ix a)) else mset (block_edges ix a))"
      using assms(1) a unfolding unlinked_table_def by blast
    obtain c where c: "T2 x = Some c" "same_node ix b c" "mset (block_edges ix c) =
      (if x \<in> Y then filter_mset (\<lambda>e. fst e \<noteq> rid) (mset (block_edges ix b)) else mset (block_edges ix b))"
      using assms(2) b(1) unfolding unlinked_table_def by blast
    with b same_node_trans show ?thesis by (auto simp: filter_filter_mset)
  qed
  with assms show ?thesis by (simp add: unlinked_table_def)
qed

lemma same_index_unlinked: "same_index ix ix' \<Longrightarrow> unlinked_table ix' = unlinked_table ix"
  by (simp add: fun_eq_iff unlinked_table_def same_index_node)

lemma remove_edge:
  assumes "distinct (map fst es)" "i < length es"
  shows "mset es - {# es ! i #} = filter_mset (\<lambda>e. fst e \<noteq> fst (es ! i)) (mset es)"
proof -
  have es: "es = take i es @ es ! i # drop (Suc i) es" using assms(2) by (simp add: id_take_nth_drop)
  have "distinct (map fst (take i es @ es ! i # drop (Suc i) es))" using assms(1) es by metis
  then have "filter (\<lambda>e. fst e \<noteq> fst (es ! i)) (take i es) = take i es"
    "filter (\<lambda>e. fst e \<noteq> fst (es ! i)) (drop (Suc i) es) = drop (Suc i) es"
    by (auto simp: image_iff intro!: filter_True)
  then have "filter (\<lambda>e. fst e \<noteq> fst (es ! i)) (take i es @ es ! i # drop (Suc i) es) = take i es @ drop (Suc i) es"
    by simp
  then have "filter_mset (\<lambda>e. fst e \<noteq> fst (es ! i)) (mset es) = mset (take i es @ drop (Suc i) es)"
    using es by (metis mset_filter)
  moreover have "mset es = add_mset (es ! i) (mset (take i es @ drop (Suc i) es))" using es by (metis mset.simps(2) mset_append union_mset_add_mset_right)
  ultimately show ?thesis by simp
qed

context kv_store
begin

lemma delete_loop:
  assumes "good s" "graph_ok ix (contents s)" "rows_only ix (contents s)" "node_ok ix sp" "reader_ok ix (contents s) eb"
    and "set is \<subseteq> {0..<edge_count (pBuffer sp)}"
    and "\<forall>x blk. node_table ix (contents s) x = Some blk \<longrightarrow> distinct (map fst (block_edges ix blk))"
  shows "\<exists>ix' s'. deleteLoop m ix s rid sp eb is = Some (SQLITE4_OK, ix', s') \<and> same_index ix ix' \<and> good s' \<and>
    graph_ok ix (contents s') \<and> rows_only ix (contents s') \<and>
    unlinked_table ix rid ((\<lambda>i. fst (edges ix sp ! i)) ` set is) (node_table ix (contents s)) (node_table ix (contents s'))"
  using assms
proof (induction "is" arbitrary: ix s eb)
  case Nil
  show ?case using Nil.prems(1-3) unlinked_table_refl [OF Nil.prems(2)]
    by (intro exI [of _ ix] exI [of _ s]) simp
next
  case (Cons i "is")
  note gd = graph_okD [OF Cons.prems(2)]
  let ?x = "fst (edges ix sp ! i)" and ?T = "node_table ix (contents s)"
  have i: "i < edge_count (pBuffer sp)" "i < max_edges ix" using Cons.prems(4,6) by (auto simp: node_ok_def)
  have er: "nodeBinEdgeRowid ix sp (int i) = Some ?x" using nodeBinEdge_ok(1) [OF gd(1) Cons.prems(4) i(2)] i(1) by simp
  obtain ix1 s1 eb1 where rl: "same_index ix ix1" "good s1" "contents s1 = contents s" "reader_ok ix (contents s) eb1"
    and rlc: "case ?T ?x of
       Some blk \<Rightarrow> blobSpotReload m ix s eb ?x (nBlockSize ix) = Some (SQLITE4_OK, ix1, s1, eb1) \<and> blob_of ix (contents s) ?x eb1
     | None \<Rightarrow> blobSpotReload m ix s eb ?x (nBlockSize ix) = Some (DISKANN_ROW_NOT_FOUND, ix1, s1, eb1)"
    using reload_reader [OF Cons.prems(1) gd(2) Cons.prems(5), of ?x] by blast
  note si = same_index_graph [OF rl(1)] same_index_rows [OF rl(1)] same_index_layout [OF rl(1)] same_index_node [OF rl(1)]
    same_index_unlinked [OF rl(1)]
  have ro: "reader_ok ix1 = reader_ok ix" by (simp add: fun_eq_iff reader_ok_def si)
  text \<open>Going on with the rest, in a store whose blocks lost at most their edge to the row.\<close>
  have goes: "\<exists>ix' s'. deleteLoop m ix2 s2 rid sp eb2 is = Some (SQLITE4_OK, ix', s') \<and> same_index ix ix' \<and> good s' \<and>
    graph_ok ix (contents s') \<and> rows_only ix (contents s') \<and>
    unlinked_table ix rid (X \<union> (\<lambda>i. fst (edges ix sp ! i)) ` set is) ?T (node_table ix (contents s'))"
    if "same_index ix ix2" "good s2" "graph_ok ix (contents s2)" "rows_only ix (contents s2)" "reader_ok ix (contents s2) eb2"
      "unlinked_table ix rid X ?T (node_table ix (contents s2))" for ix2 s2 eb2 X
  proof -
    note s2 = same_index_graph [OF that(1)] same_index_rows [OF that(1)] same_index_layout [OF that(1)] same_index_node [OF that(1)]
      same_index_unlinked [OF that(1)]
    have ro2: "reader_ok ix2 = reader_ok ix" by (simp add: fun_eq_iff reader_ok_def s2)
    have dd: "distinct (map fst (block_edges ix blk))" if T2: "node_table ix (contents s2) x = Some blk" for x blk
    proof -
      obtain a where a: "?T x = Some a" using T2 \<open>unlinked_table ix rid X ?T (node_table ix (contents s2))\<close>
        unfolding unlinked_table_def by (metis domD domI)
      then have "mset (block_edges ix blk) \<subseteq># mset (block_edges ix a)"
        using T2 \<open>unlinked_table ix rid X ?T (node_table ix (contents s2))\<close> unfolding unlinked_table_def
        by (metis (no_types, lifting) multiset_filter_subset option.inject subset_mset.order_refl)
      with Cons.prems(7) a show ?thesis by (blast intro: distinct_sub_mset)
    qed
    have "set is \<subseteq> {0..<edge_count (pBuffer sp)}" using Cons.prems(6) by simp
    from Cons.IH [OF that(2), of ix2 eb2, unfolded s2 ro2, OF that(3,4) Cons.prems(4) that(5) this] dd
    obtain ix' s' where "deleteLoop m ix2 s2 rid sp eb2 is = Some (SQLITE4_OK, ix', s')" "same_index ix2 ix'" "good s'"
      "graph_ok ix (contents s')" "rows_only ix (contents s')"
      "unlinked_table ix rid ((\<lambda>i. fst (edges ix sp ! i)) ` set is) (node_table ix (contents s2)) (node_table ix (contents s'))"
      by blast
    then show ?thesis using unlinked_table_trans [OF that(6)] same_index_trans [OF that(1)] by blast
  qed
  show ?case
  proof (cases "?T ?x")
    case None
    have u: "unlinked_table ix rid {?x} ?T (node_table ix (contents s1))"
      using unlinked_table_refl [OF Cons.prems(2), of rid] None unfolding rl(3) unlinked_table_def
      by (metis option.distinct(1) singletonD empty_iff)
    obtain ix' s' where "deleteLoop m ix1 s1 rid sp eb1 is = Some (SQLITE4_OK, ix', s')" "same_index ix ix'" "good s'"
      "graph_ok ix (contents s')" "rows_only ix (contents s')"
      "unlinked_table ix rid ({?x} \<union> (\<lambda>i. fst (edges ix sp ! i)) ` set is) ?T (node_table ix (contents s'))"
      using goes [OF rl(1,2) _ _ _ u, of eb1] Cons.prems(2,3) rl(3,4) by auto
    moreover have "deleteLoop m ix s rid sp eb (i # is) = deleteLoop m ix1 s1 rid sp eb1 is"
      using er rlc None by simp
    ultimately show ?thesis by auto
  next
    case (Some blk)
    have e1: "blobSpotReload m ix s eb ?x (nBlockSize ix) = Some (SQLITE4_OK, ix1, s1, eb1)" "blob_of ix (contents s) ?x eb1"
      using rlc Some by simp_all
    have bl: "spot_sized ix eb1" "bs_nRowid eb1 = ?x" "isInitialized eb1" "pBuffer eb1 = blk"
      using e1(2) Some by (simp_all add: blob_of_def)
    have ok: "node_ok ix eb1" by (rule blob_node_ok [OF Cons.prems(2) e1(2)])
    have eb: "edges ix eb1 = block_edges ix blk" by (simp add: edges_block bl(4))
    have dist: "distinct (map fst (edges ix eb1))" using Cons.prems(7) Some by (simp add: eb)
    have find: "nodeBinEdgeFindIdx ix1 eb1 rid =
      Some (case List.find (\<lambda>i. fst (edges ix eb1 ! i) = rid) [0..<length (edges ix eb1)] of Some i \<Rightarrow> int i | None \<Rightarrow> -1)"
      using nodeBinEdgeFindIdx_ok [of ix1 eb1 rid] gd(1) ok by (simp only: si)
    show ?thesis
    proof (cases "List.find (\<lambda>i. fst (edges ix eb1 ! i) = rid) [0..<length (edges ix eb1)]")
      case None
      then have no: "\<forall>j < length (edges ix eb1). fst (edges ix eb1 ! j) \<noteq> rid" by (auto simp: find_None_iff simp del: edges_nth)
      then have "filter_mset (\<lambda>e. fst e \<noteq> rid) (mset (block_edges ix blk)) = mset (block_edges ix blk)"
        unfolding eb by (metis (mono_tags, lifting) filter_True in_set_conv_nth mset_filter)
      moreover have "same_node ix blk blk" using gd(4) [OF Some] by (simp add: same_node_def)
      ultimately have u: "unlinked_table ix rid {?x} ?T (node_table ix (contents s1))"
        using unlinked_one [OF Cons.prems(2) Some, of blk rid] Some unfolding rl(3) by (simp add: fun_upd_idem)
      obtain ix' s' where "deleteLoop m ix1 s1 rid sp eb1 is = Some (SQLITE4_OK, ix', s')" "same_index ix ix'" "good s'"
        "graph_ok ix (contents s')" "rows_only ix (contents s')"
        "unlinked_table ix rid ({?x} \<union> (\<lambda>i. fst (edges ix sp ! i)) ` set is) ?T (node_table ix (contents s'))"
        using goes [OF rl(1,2) _ _ _ u, of eb1] Cons.prems(2,3) rl(3,4) by auto
      moreover have "deleteLoop m ix s rid sp eb (i # is) = deleteLoop m ix1 s1 rid sp eb1 is"
        using er e1(1) find None by simp
      ultimately show ?thesis by auto
    next
      case found: (Some j)
      then have j: "j < length (edges ix eb1)" "fst (edges ix eb1 ! j) = rid" by (auto simp: find_Some_iff simp del: edges_nth)
      then have jc: "j < edge_count (pBuffer eb1)" by simp
      obtain eb2 where d: "nodeBinDeleteEdge ix1 eb1 (int j) = Some eb2" "node_ok ix eb2"
        "edges ix eb2 = butlast ((edges ix eb1)[j := last (edges ix eb1)])"
        "node_rowid eb2 = node_rowid eb1" "node_vec ix eb2 = node_vec ix eb1" "eb2 = eb1\<lparr>pBuffer := pBuffer eb2\<rparr>"
        using nodeBinDeleteEdge_ok [of ix1 eb1 j, unfolded si, OF gd(1) ok jc] by blast
      have eb2: "spot_sized ix eb2" "bs_nRowid eb2 = ?x" "isInitialized eb2"
        using d(2) bl(2,3) arg_cong [OF d(6), of bs_nRowid] arg_cong [OF d(6), of isInitialized]
        by (simp_all add: spot_sized_def node_ok_def)
      obtain ix2 s2 where f: "blobSpotFlush m ix1 s1 eb2 = Some (SQLITE4_OK, ix2, s2)" "same_index ix1 ix2" "good s2"
        "table_ok ix (contents s2)" "rows_only ix (contents s2)" "node_table ix (contents s2) = ?T(?x \<mapsto> pBuffer eb2)"
        using flush_rows [OF rl(2), of ix1 eb2] gd(2) eb2(1) Cons.prems(3) unfolding si rl(3) eb2(2) by blast
      have g2: "graph_ok ix (contents s2)" by (rule graph_ok_put [OF Cons.prems(2) f(4,6) d(2)])
      have r2: "reader_ok ix (contents s2) eb2" using eb2 f(6) by (simp add: reader_ok_def)
      have "mset (block_edges ix (pBuffer eb2)) = filter_mset (\<lambda>e. fst e \<noteq> rid) (mset (block_edges ix blk))"
        using swap_delete(3) [OF j(1)] remove_edge [OF dist j(1)] d(3) unfolding j(2) by (simp add: edges_block bl(4))
      moreover have "same_node ix blk (pBuffer eb2)"
        using d(2,4,5) bl(1,4) by (simp add: same_node_def node_ok_def spot_sized_def node_rowid_def node_vec_def)
      ultimately have u: "unlinked_table ix rid {?x} ?T (node_table ix (contents s2))"
        using unlinked_one [OF Cons.prems(2) Some] unfolding f(6) by blast
      obtain ix' s' where "deleteLoop m ix2 s2 rid sp eb2 is = Some (SQLITE4_OK, ix', s')" "same_index ix ix'" "good s'"
        "graph_ok ix (contents s')" "rows_only ix (contents s')"
        "unlinked_table ix rid ({?x} \<union> (\<lambda>i. fst (edges ix sp ! i)) ` set is) ?T (node_table ix (contents s'))"
        using goes [OF same_index_trans [OF rl(1) f(2)] f(3) g2 f(5) r2 u] by blast
      moreover have "deleteLoop m ix s rid sp eb (i # is) = deleteLoop m ix2 s2 rid sp eb2 is"
        using er e1(1) find found d(1) f(1) by simp
      ultimately show ?thesis by auto
    qed
  qed
qed

lemma delete_row:
  assumes "good s" "graph_loose ix (contents s)" "shadow_sql_ok good contents ix sql"
  shows "\<exists>ix' s' T. diskAnnDelete junk m sql ix s vr = Some (SQLITE4_OK, ix', s') \<and> good s' \<and> graph_loose ix (contents s') \<and>
    unlinked_table ix (vr_nRowid vr)
      (case node_table ix (contents s) (vr_nRowid vr) of None \<Rightarrow> {} | Some blk \<Rightarrow> rows_of (block_edges ix blk))
      (node_table ix (contents s)) T \<and>
    node_table ix (contents s') = T(vr_nRowid vr := None)"
proof -
  let ?r = "vr_nRowid vr" and ?T = "node_table ix (contents s)"
  from assms(2) have g: "graph_ok ix (contents s)" "rows_only ix (contents s)" by (simp_all add: graph_loose_def)
  note gd = graph_okD [OF g(1)]
  from gd(2) have pos: "0 < nBlockSize ix" by (simp add: table_ok_def)
  obtain sp where sp: "blobSpotCreate (junk 0) ?r (nBlockSize ix) True = Some sp" "reader_ok ix (contents s) sp"
    using create_reader [OF pos] by blast
  obtain ix1 s1 sp1 where rl: "same_index ix ix1" "good s1" "contents s1 = contents s" "reader_ok ix (contents s) sp1"
    and rlc: "case ?T ?r of
       Some blk \<Rightarrow> blobSpotReload m ix s sp ?r (nBlockSize ix) = Some (SQLITE4_OK, ix1, s1, sp1) \<and> blob_of ix (contents s) ?r sp1
     | None \<Rightarrow> blobSpotReload m ix s sp ?r (nBlockSize ix) = Some (DISKANN_ROW_NOT_FOUND, ix1, s1, sp1)"
    using reload_reader [OF assms(1) gd(2) sp(2), of ?r] by blast
  note si = same_index_graph [OF rl(1)] same_index_rows [OF rl(1)] same_index_layout [OF rl(1)] same_index_node [OF rl(1)]
    same_index_unlinked [OF rl(1)] same_index_sel [OF rl(1)]
  show ?thesis
  proof (cases "?T ?r")
    case None
    have "diskAnnDelete junk m sql ix s vr = Some (SQLITE4_OK, ix1, s1)"
      using sp(1) rlc None by (simp add: diskAnnDelete_def vectorInRowTryGetRowid_def)
    moreover have "?T(?r := None) = ?T" using None by (simp add: fun_upd_idem)
    ultimately show ?thesis using rl(2,3) assms(2) unlinked_table_refl [OF g(1), of ?r] None
      by (intro exI [of _ ix1] exI [of _ s1] exI [of _ ?T]) simp
  next
    case (Some blk)
    have e1: "blobSpotReload m ix s sp ?r (nBlockSize ix) = Some (SQLITE4_OK, ix1, s1, sp1)" "blob_of ix (contents s) ?r sp1"
      using rlc Some by simp_all
    have ok: "node_ok ix sp1" by (rule blob_node_ok [OF g(1) e1(2)])
    have eb: "edges ix sp1 = block_edges ix blk" using e1(2) Some by (simp add: edges_block blob_of_def)
    obtain eb where eb0: "blobSpotCreate (junk 1) ?r (nBlockSize ix) True = Some eb" "reader_ok ix (contents s) eb"
      using create_reader [OF pos] by blast
    obtain w where w: "nodeBinEdges ix1 sp1 = Some w" "unat w = edge_count (pBuffer sp1)"
      using nodeBinEdges_ok [of ix1 sp1] gd(1) ok unfolding si by blast
    have ro: "reader_ok ix1 = reader_ok ix" by (simp add: fun_eq_iff reader_ok_def si)
    have dd: "\<forall>x b. ?T x = Some b \<longrightarrow> distinct (map fst (block_edges ix b))"
      using assms(2) by (simp add: graph_loose_def node_inv_def)
    have sub: "set [0..<unat w] \<subseteq> {0..<edge_count (pBuffer sp1)}" using w(2) by simp
    obtain ix2 s2 where lp: "deleteLoop m ix1 s1 ?r sp1 eb [0..<unat w] = Some (SQLITE4_OK, ix2, s2)" "same_index ix1 ix2" "good s2"
      "graph_ok ix (contents s2)" "rows_only ix (contents s2)"
      "unlinked_table ix ?r ((\<lambda>i. fst (edges ix sp1 ! i)) ` set [0..<unat w]) ?T (node_table ix (contents s2))"
      using delete_loop [OF rl(2), of ix1 sp1 eb, unfolded si rl(3) ro, OF g ok eb0(2) sub dd] unfolding si by blast
    have im: "(\<lambda>i. fst (edges ix sp1 ! i)) ` set [0..<unat w] = rows_of (block_edges ix blk)"
    proof -
      have "set (edges ix sp1) = (!) (edges ix sp1) ` set [0..<unat w]"
        unfolding w(2) by (metis length_edges list.set_map map_nth)
      then show ?thesis unfolding eb [symmetric] rows_of_def by (simp only: image_image)
    qed
    obtain s3 where s3: "diskAnnDeleteShadowRow sql s2 ?r = (SQLITE4_OK, s3)" "good s3" "graph_ok ix (contents s3)"
      "rows_only ix (contents s3)" "node_table ix (contents s3) = (node_table ix (contents s2))(?r := None)"
      using delete_shadow [OF lp(3-5) assms(3)] by blast
    have u: "unlinked_table ix ?r (rows_of (block_edges ix blk)) ?T (node_table ix (contents s2))" using lp(6) unfolding im .
    have "node_inv ix UNIV x b" if b: "node_table ix (contents s3) x = Some b" for x b
    proof -
      from b s3(5) have b2: "node_table ix (contents s2) x = Some b" by (auto split: if_splits)
      then obtain a where a: "?T x = Some a" using u unfolding unlinked_table_def by (metis domD domI)
      then have sn: "same_node ix a b" "mset (block_edges ix b) \<subseteq># mset (block_edges ix a)"
        using u b2 unfolding unlinked_table_def
        by (metis option.inject, metis (no_types, lifting) multiset_filter_subset option.inject subset_mset.order_refl)
      have "node_inv ix UNIV x a" using assms(2) a by (simp add: graph_loose_def)
      moreover have "distinct (map fst (block_edges ix b))" using dd a sn(2) by (blast intro: distinct_sub_mset)
      moreover have "rows_of (block_edges ix b) \<subseteq> rows_of (block_edges ix a)"
        using set_mset_mono [OF sn(2)] by (auto simp: rows_of_def)
      ultimately show ?thesis using sn(1) by (auto simp: node_inv_def same_node_def)
    qed
    then have gl: "graph_loose ix (contents s3)" using s3(3,4) by (simp add: graph_loose_def)
    have "\<exists>ix'. diskAnnDelete junk m sql ix s vr = Some (SQLITE4_OK, ix', s3)"
      using sp(1) e1(1) eb0(1) w(1) lp(1) s3(1)
      by (simp add: diskAnnDelete_def vectorInRowTryGetRowid_def si)
    with s3(2,5) gl u Some show ?thesis by auto
  qed
qed

end

context kv_store
begin

text \<open>A count that is too high makes the insertion into an empty index fail.\<close>

lemma insert_stale:
  assumes "good s" "\<forall>k \<in> fst ` set (contents s). k < aKeyPrefix ix" "0 < sint (nShadowRows ix)" "index_ok ix" "can_compress ix"
    and "vr_pVector vr = Some v" "fits (nNodeVectorType ix) (nVectorDims ix) v" "sqlite4Malloc (insertL ix * 8)"
  shows "\<exists>s'. diskAnnInsert junk m sql randVal ix s vr = Some (SQLITE4_ERROR, ix, s') \<and> good s' \<and> contents s' = contents s"
proof -
  have k1: "sqlite4Malloc (1 * 8)" by (simp add: sqlite4Malloc_def)
  obtain ctx where ctx: "diskAnnSearchCtxInit (junk 0) ix v (insertL ix) 1 True = Some (SQLITE4_OK, ctx)"
    using init_ok [OF assms(4,5,7,8) k1] by blast
  note f = init_fresh [OF ctx]
  have rel: "ctx_rel (node_at ctx) ctx no_beam"
    using fresh_rel [OF f(1)] f(1,2,8) by (simp add: node_at_def [abs_def] fresh_ctx_def)
  obtain c where c: "diskAnnSearchCtxDeinit ctx = Some c" using deinit_ok [OF rel f(9)] by blast
  obtain s' where "diskAnnSelectRandomShadowRow m ix s randVal = Some (SQLITE4_NOTFOUND, 0, s')" "good s'" "contents s' = contents s"
    using random_stale [OF assms(1-3)] by blast
  then show ?thesis using assms(6,7) ctx c by (auto simp: diskAnnInsert_def fits_def insertOut_def)
qed

text \<open>The assertion that the candidates are sorted looks at neighbours only.\<close>

lemma cands_sorted_iff:
  assumes "ctx_rel N ctx b"
  shows "successively f32_le (aDistances ctx) = by_dist cand_dist (bm_cands b)"
proof -
  have "aDistances ctx = map cand_dist (bm_cands b)"
    using ctx_relD(5) [OF assms] bufs_okD(1) [OF ctx_relD(1) [OF assms]]
    by (simp add: cand_view_def cand_dist_def comp_def split_def)
  moreover have "transp f32_le" by (auto intro: transpI f32_le_trans)
  ultimately show ?thesis by (simp add: by_dist_def successively_conv_sorted_wrt sorted_wrt_map)
qed

text \<open>A search that writes must not meet a row that is gone.\<close>

lemma writer_step:
  assumes "good s" "graph_ok ix (contents s)" "ctx_rel (node_at ctx) ctx b" "blobs_ok ix (contents s) (node_at ctx) True None" "blobMode ctx"
    and "bm_cands b = pre @ (r, d, False) # rest" "\<forall>c \<in> set pre. \<not> cand_open c" "node_table ix (contents s) r = None"
  shows "searchStep junk m (ix, s, ctx, None) = None"
proof -
  let ?p = "aCandidates ctx ! length pre"
  obtain zp p zr n where z: "aCandidates ctx = map fst zp @ p # map fst zr" "length zp = length pre" "node_at ctx p = Some n"
    "dn_nRowid n = r" "\<not> dn_visited n" "aDistances ctx = map snd zp @ d # map snd zr"
    using split_view [OF assms(3,6)] by metis
  have p: "?p = p" using z(1,2) by (simp add: nth_append)
  have nb: "dn_pBlobSpot n = None"
  proof (cases "dn_pBlobSpot n")
    case (Some vs)
    with assms(4) z(3) have "blob_of ix (contents s) (dn_nRowid n) vs" by (auto simp: blobs_ok_def split: option.splits)
    with z(4) assms(8) show ?thesis by (simp add: blob_of_def)
  qed
  have op: "beam_open b" using assms(6) by (simp add: beam_open_def)
  obtain sp where sp: "blobSpotCreate junk r (nBlockSize ix) True = Some sp" "reader_ok ix (contents s) sp" "\<not> isInitialized sp"
    using create_reader [of ix junk r True "contents s"] graph_okD(2) [OF assms(2)]
    by (auto simp: table_ok_def blobSpotCreate_def)
  obtain ix1 s1 sp1 where rl: "blobSpotReload m ix s sp r (nBlockSize ix) = Some (DISKANN_ROW_NOT_FOUND, ix1, s1, sp1)"
    using reload_reader [OF assms(1) graph_okD(2) [OF assms(2)] sp(2), of r] assms(8) by auto
  let ?ctx = "node_put ctx p (n\<lparr>dn_pBlobSpot := Some sp1\<rparr>)"
  have "node_at ?ctx p = Some (n\<lparr>dn_pBlobSpot := Some sp1\<rparr>)"
    using ctx_rel_blob(2) [OF assms(3) z(3)] by simp
  then have "diskAnnSearchCtxDeleteCandidate ?ctx (length pre) = None"
    using p z(5) by (simp add: diskAnnSearchCtxDeleteCandidate_def c_assert_bind)
  note fails = this
  show ?thesis
  proof (cases "by_dist cand_dist (bm_cands b)")
    case True
    note fc = find_closest [OF assms(3,6,7) True]
    show ?thesis
      using fails fc p hasUnvisited_eq [OF assms(3)] op z(3,4) nb sp(1) rl assms(5)
      by (simp add: searchStep_def loadCandidate_def Let_def)
  next
    case False
    then have "\<not> successively f32_le (aDistances ctx)" using cands_sorted_iff [OF assms(3)] by simp
    then show ?thesis using hasUnvisited_eq [OF assms(3)] op
      by (simp add: searchStep_def diskAnnSearchCtxFindClosestCandidateIdx_def c_assert_bind)
  qed
qed

end

subsection \<open>SQL on the in-memory engine\<close>

text \<open>
  An engine that does what the statements say, by the routines of \<open>kv.c\<close>; it shows that the
  assumption on the SQL engine can be met.
\<close>

definition kv_sql :: "'c DiskAnnIndex \<Rightarrow> KVMem sql_engine" where
  "kv_sql ix = \<lparr>sqlPrepare = (\<lambda>s st. SQLITE4_OK),
     sqlStep = (\<lambda>s st. (SQLITE4_DONE, snd (the (case st of
        InsertRow r blob \<Rightarrow> sqlite4KVStoreReplace kvmemMethods s (blobSpotBuildKey ix r) (blobSpotEncodeRecord r blob)
      | DeleteRow r \<Rightarrow> delete_key s (blobSpotBuildKey ix r)))))\<rparr>"

lemma kv_sql_ok: "shadow_sql_ok kvmem_good kvmem_contents ix (kv_sql ix)"
  unfolding shadow_sql_ok_def
proof (intro conjI allI impI)
  fix s r blob assume g: "kvmem_good s"
  note so = kvmem.sorted [OF g]
  obtain s' where "xReplace kvmemMethods s (blobSpotBuildKey ix r) (blobSpotEncodeRecord r blob) = Some (SQLITE4_OK, s')" "kvmem_good s'"
    "kvmem_contents s' = kv_put (blobSpotBuildKey ix r) (blobSpotEncodeRecord r blob) (kvmem_contents s)"
    using kvmem.replace [OF g] by blast
  then show "\<exists>s'. sqlStep (kv_sql ix) s (InsertRow r blob) = (SQLITE4_DONE, s') \<and> kvmem_good s' \<and>
      row_change ix r (Some (blobSpotEncodeRecord r blob)) (kvmem_contents s) (kvmem_contents s')"
    using so by (simp add: kv_sql_def sqlite4KVStoreReplace_def row_change_def)
next
  fix s r assume g: "kvmem_good s"
  then obtain Ms where "kv_inv s Ms" "iTransLevel s \<ge> 2" by (auto simp: kvmem_good_def)
  then obtain s' where "delete_key s (blobSpotBuildKey ix r) = Some (SQLITE4_OK, s')" "kv_inv s' Ms" "iTransLevel s' = iTransLevel s"
    "kvmem_contents s' = kv_del (blobSpotBuildKey ix r) (kvmem_contents s)" using exec_delete by blast
  then show "\<exists>s'. sqlStep (kv_sql ix) s (DeleteRow r) = (SQLITE4_DONE, s') \<and> kvmem_good s' \<and>
      row_change ix r None (kvmem_contents s) (kvmem_contents s')"
    using \<open>iTransLevel s \<ge> 2\<close> by (auto simp: kv_sql_def row_change_def kvmem_good_def)
qed (simp add: kv_sql_def)

subsection \<open>Properties\<close>

text \<open>
  C1. Insertion keeps the graph: inserting a row that is not there, whose distances are numbers,
  ends with \<open>SQLITE4_OK\<close>, fails no assertion, frees everything once, and leaves a graph in which
  every node knows its row id, has at most one edge to a row, none to itself and none to a missing
  row. Exactly the new row is added, with the vector given and, if there were rows, with an edge;
  the other nodes keep their vectors, and their edges too unless they are linked to the new row.
\<close>

theorem insert_keeps_graph:
  assumes "kvmem_good s" "graph_inv ix (kvmem_contents s)" "can_compress ix"
    and "shadow_sql_ok kvmem_good kvmem_contents ix sql"
    and "vr_pVector vr = Some v" "fits (nNodeVectorType ix) (nVectorDims ix) v"
    and "T = node_table ix (kvmem_contents s)" "T (vr_nRowid vr) = None" "T = Map.empty \<longrightarrow> sint (nShadowRows ix) \<le> 0"
    and "sqlite4Malloc (insertL ix * 8)" "sqlite4Malloc (nat (nBlockSize ix))"
    and "dist_ok ix" "comparable_vector (junk 0) ix (kvmem_contents s) v"
  shows "\<exists>ix' s' T' blk. diskAnnInsert junk kvmemMethods sql randVal ix s vr = Some (SQLITE4_OK, ix', s') \<and>
    kvmem_good s' \<and> graph_inv ix (kvmem_contents s') \<and> nShadowRows ix' = nShadowRows ix + 1 \<and>
    T' = node_table ix (kvmem_contents s') \<and> dom T' = insert (vr_nRowid vr) (dom T) \<and> T' (vr_nRowid vr) = Some blk \<and>
    field blk (hdr_size ix) (node_size ix) = data_part v (replicate (node_size ix) 0) \<and>
    (dom T \<noteq> {} \<longrightarrow> block_edges ix blk \<noteq> []) \<and>
    (\<forall>x a. T x = Some a \<longrightarrow> (\<exists>c. T' x = Some c \<and> relinked ix (vr_nRowid vr) a c))"
proof -
  let ?r = "vr_nRowid vr"
  obtain ix' s' where i: "diskAnnInsert junk kvmemMethods sql randVal ix s vr = Some (SQLITE4_OK, ix', s')" "kvmem_good s'"
    "same_index (ix\<lparr>nShadowRows := nShadowRows ix + 1\<rparr>) ix'" "graph_inv ix (kvmem_contents s')"
    "inserted ix ?r v T (node_table ix (kvmem_contents s'))"
    using kvmem.insert_row [where junk = junk, OF assms(1-6) assms(8,9) [unfolded assms(7)] assms(10-13)]
    unfolding assms(7) by blast
  obtain R blk T2 where n: "linked_table ix ?r R T T2" "node_table ix (kvmem_contents s') = T2(?r \<mapsto> blk)"
    "field blk (hdr_size ix) (node_size ix) = data_part v (replicate (node_size ix) 0)"
    "R \<noteq> {} \<longrightarrow> block_edges ix blk \<noteq> []" "dom T \<noteq> {} \<longrightarrow> R \<noteq> {}"
    using i(5) unfolding inserted_def by blast
  have old: "\<exists>c. (T2(?r \<mapsto> blk)) x = Some c \<and> relinked ix ?r a c" if a: "T x = Some a" for x a
  proof -
    have "edge_count a \<le> max_edges ix"
      using graph_okD(4) [of ix "kvmem_contents s" x a] assms(2,7) a by (simp add: graph_inv_def)
    moreover obtain c where "T2 x = Some c" "if x \<in> R then relinked ix ?r a c else c = a"
      using n(1) a unfolding linked_table_def by blast
    moreover have "x \<noteq> ?r" using a assms(8) by auto
    ultimately show ?thesis using relinked_refl by (cases "x \<in> R") auto
  qed
  have "nShadowRows ix' = nShadowRows ix + 1" using same_index_sel(9) [OF i(3)] by simp
  moreover have "dom (T2(?r \<mapsto> blk)) = insert ?r (dom T)" using n(1) by (simp add: linked_table_def)
  ultimately show ?thesis using i(1,2,4) n(2-5) old
    by (intro exI [of _ ix'] exI [of _ s'] exI [of _ "T2(?r \<mapsto> blk)"] exI [of _ blk]) auto
qed

abbreviation (input) ex_row :: "u64 \<Rightarrow> VectorInRow" where
  "ex_row r \<equiv> \<lparr>vr_pVector = Some ex_query, vr_nRowid = r\<rparr>"

lemma kv_index_inv: "graph_inv kv_index (kvmem_contents kv_begun)" "can_compress kv_index"
  "node_table kv_index (kvmem_contents kv_begun) = Map.empty" "sint (nShadowRows kv_index) \<le> 0"
  "sqlite4Malloc (insertL kv_index * 8)" "sqlite4Malloc (nat (nBlockSize kv_index))"
proof -
  show t: "node_table kv_index (kvmem_contents kv_begun) = Map.empty" by (simp add: fun_eq_iff node_table_def kv_begun(2))
  have n: "nBlockSize kv_index = 60" by (simp add: kv_index_def)
  then show "graph_inv kv_index (kvmem_contents kv_begun)"
    by (simp add: graph_inv_def graph_ok_def index_ok_kv table_ok_def rows_only_def t) (simp add: kv_begun(2))
qed (simp_all add: can_compress_def kv_index_def sqlite4Malloc_def)

lemma comparable_empty:
  assumes "node_table ix kvs = Map.empty" shows "comparable_vector junk ix kvs v"
proof -
  have "search_graph ix kvs q = Map.empty" for q using assms by (simp add: fun_eq_iff search_graph_def)
  then show ?thesis using assms by (simp add: comparable_vector_def comparable_def numbers_def)
qed

text \<open>The store with the row 7 compares with \<open>ex_query\<close>.\<close>

lemma comparable_inserted:
  assumes "graph_inv kv_index kvs" "dom (node_table kv_index kvs) = {7}" "node_table kv_index kvs 7 = Some blk"
    and "field blk (hdr_size kv_index) (node_size kv_index) = data_part ex_query (replicate (node_size kv_index) 0)"
  shows "comparable_vector junk kv_index kvs ex_query"
proof -
  have T: "node_table kv_index kvs = Map.empty(7 \<mapsto> blk)"
    using assms(2,3) by (metis dom_eq_singleton_conv option.inject fun_upd_same)
  have "node_inv kv_index {7} 7 blk" using assms(1-3) by (simp add: graph_inv_def)
  then have "rows_of (block_edges kv_index blk) = {}" unfolding node_inv_def by blast
  then have e: "edge_count blk = 0" by (simp add: rows_of_def block_edges_def)
  have n: "hdr_size kv_index = 16" "node_size kv_index = 4" by (simp_all add: hdr_size_def node_size_def kv_index_def)
  have "data_part ex_query (replicate 4 0) = [0, 0, 128, 63]" by code_simp
  then have "take 4 (drop 16 blk) = [0, 0, 128, 63]" using assms(4) by (simp add: n field_def)
  then have b: "drop 16 blk = [0, 0, 128, 63] @ drop 20 blk"
    using append_take_drop_id [of 4 "drop 16 blk"] by (simp add: drop_drop)
  have bv: "block_vec kv_index blk = \<lparr>vflags = VECTOR_FLAGS_STATIC, vtype = FLOAT32, vdims = 1, vdata = [0, 0, 128, 63] @ drop 20 blk\<rparr>"
    by (simp add: block_vec_def vectorInitStatic_def n b) (simp add: kv_index_def)
  have "le_bytes 4 (0x3F800000::u32) = [0, 0, 128, 63]" by code_simp
  then have l: "load 4 ([0, 0, 128, 63] @ x) 1 = Some [0x3F800000::u32]" for x
    using load_concat [of 4 "[0x3F800000::u32]" x] by (simp add: numeral_eq_Suc)
  have "l2_result (l2_loop [(0x3F800000, 0x3F800000)] 0) = 0" by code_simp
  then have "diskAnnVectorDistance kv_index ex_query (block_vec kv_index blk) = Some 0"
    using l [of "[]"] l [of "drop 20 blk"]
    by (simp add: diskAnnVectorDistance_def bv vectorDistanceL2_def vectorF32DistanceL2_def vectorInit_def pair_asserts_def)
      (simp add: kv_index_def)
  moreover have "\<not> f32_nan 0" by code_simp
  ultimately show ?thesis using comparable_query [OF T e] by blast
qed

lemma insert_keeps_graph_witness:
  "\<exists>ix1 s1 ix2 s2 blk. diskAnnInsert (\<lambda>_ _. 0) kvmemMethods (kv_sql kv_index) 3 kv_index kv_begun (ex_row 7) = Some (SQLITE4_OK, ix1, s1) \<and>
     diskAnnInsert (\<lambda>_ _. 0) kvmemMethods (kv_sql kv_index) 3 kv_index s1 (ex_row 8) = Some (SQLITE4_OK, ix2, s2) \<and>
     dom (node_table kv_index (kvmem_contents s2)) = {7, 8} \<and>
     node_table kv_index (kvmem_contents s2) 8 = Some blk \<and> block_edges kv_index blk \<noteq> []"
proof -
  note k = kv_index_inv
  have r: "vr_pVector (ex_row r) = Some ex_query" "vr_nRowid (ex_row r) = r" for r by simp_all
  have e0: "node_table kv_index (kvmem_contents kv_begun) (vr_nRowid (ex_row 7)) = None"
    "node_table kv_index (kvmem_contents kv_begun) = Map.empty \<longrightarrow> sint (nShadowRows kv_index) \<le> 0" using k(3,4) by simp_all
  note ins = insert_keeps_graph [where junk = "\<lambda>_ _. 0" and randVal = 3, OF _ _ k(2) kv_sql_ok r(1) ex_query_fits refl _ _ k(5,6) dist_ok_kv]
  obtain ix1 s1 b1 where i1: "diskAnnInsert (\<lambda>_ _. 0) kvmemMethods (kv_sql kv_index) 3 kv_index kv_begun (ex_row 7) = Some (SQLITE4_OK, ix1, s1)"
    "kvmem_good s1" "graph_inv kv_index (kvmem_contents s1)" "dom (node_table kv_index (kvmem_contents s1)) = {7}"
    "node_table kv_index (kvmem_contents s1) 7 = Some b1"
    "field b1 (hdr_size kv_index) (node_size kv_index) = data_part ex_query (replicate (node_size kv_index) 0)"
    using ins [OF kv_begun(1) k(1) e0 comparable_empty [OF k(3)]] by (auto simp: k(3))
  have e1: "node_table kv_index (kvmem_contents s1) (vr_nRowid (ex_row 8)) = None"
    using i1(4) domIff [of 8 "node_table kv_index (kvmem_contents s1)"] by simp
  have e2: "node_table kv_index (kvmem_contents s1) = Map.empty \<longrightarrow> sint (nShadowRows kv_index) \<le> 0"
    using i1(4) by auto
  obtain ix2 s2 blk where "diskAnnInsert (\<lambda>_ _. 0) kvmemMethods (kv_sql kv_index) 3 kv_index s1 (ex_row 8) = Some (SQLITE4_OK, ix2, s2)"
    "dom (node_table kv_index (kvmem_contents s2)) = {8, 7}" "node_table kv_index (kvmem_contents s2) 8 = Some blk" "block_edges kv_index blk \<noteq> []"
    using ins [OF i1(2,3) e1 e2 comparable_inserted [OF i1(3-6)]] by (auto simp: i1(4))
  with i1(1) show ?thesis by (intro exI [of _ ix1] exI [of _ s1] exI [of _ ix2] exI [of _ s2] exI [of _ blk]) auto
qed

text \<open>Two rows.\<close>

lemma kv_two:
  obtains s where "kvmem_good s" "graph_inv kv_index (kvmem_contents s)" "dom (node_table kv_index (kvmem_contents s)) = {7, 8}"
proof -
  note k = kv_index_inv
  let ?T = "\<lambda>s. node_table kv_index (kvmem_contents s)"
  have r: "vr_pVector (ex_row r) = Some ex_query" "vr_nRowid (ex_row r) = r" for r by simp_all
  have d: "dom T' = insert rid (dom T) \<and> (\<exists>blk. T' rid = Some blk \<and>
      field blk (hdr_size ix) (node_size ix) = data_part v (replicate (node_size ix) 0))"
    if "inserted ix rid v T T'" for ix rid v and T T' :: "u64 \<Rightarrow> bytes option"
  proof -
    from that obtain R blk T2 where "linked_table ix rid R T T2" "T' = T2(rid \<mapsto> blk)"
      "field blk (hdr_size ix) (node_size ix) = data_part v (replicate (node_size ix) 0)" unfolding inserted_def by blast
    then show ?thesis by (simp add: linked_table_def)
  qed
  have e0: "?T kv_begun (vr_nRowid (ex_row 7)) = None" "?T kv_begun = Map.empty \<longrightarrow> sint (nShadowRows kv_index) \<le> 0"
    using k(3,4) by simp_all
  note ins = kvmem.insert_row [where junk = "\<lambda>_ _. 0", OF _ _ k(2) kv_sql_ok r(1) ex_query_fits _ _ k(5,6) dist_ok_kv]
  obtain s1 where i1: "kvmem_good s1" "graph_inv kv_index (kvmem_contents s1)"
    "inserted kv_index (vr_nRowid (ex_row 7)) ex_query (?T kv_begun) (?T s1)"
    using ins [OF kv_begun(1) k(1) e0 comparable_empty [OF k(3)]] by blast
  obtain b1 where d1: "dom (?T s1) = {7}" "?T s1 7 = Some b1"
    "field b1 (hdr_size kv_index) (node_size kv_index) = data_part ex_query (replicate (node_size kv_index) 0)"
    using d [OF i1(3)] k(3) by auto
  have e1: "?T s1 (vr_nRowid (ex_row 8)) = None" using d1(1) domIff [of 8 "?T s1"] by simp
  have e2: "?T s1 = Map.empty \<longrightarrow> sint (nShadowRows kv_index) \<le> 0" using d1 by auto
  obtain s2 where i2: "kvmem_good s2" "graph_inv kv_index (kvmem_contents s2)"
    "inserted kv_index (vr_nRowid (ex_row 8)) ex_query (?T s1) (?T s2)"
    using ins [OF i1(1,2) e1 e2 comparable_inserted [OF i1(2) d1]] by blast
  have "dom (?T s2) = {7, 8}" using d [OF i2(3)] d1 by auto
  with i2(1,2) show thesis using that by blast
qed

text \<open>
  C2. What a deletion does to the graph: it ends with \<open>SQLITE4_OK\<close> whether the row is there or
  not, removes exactly that row, takes the edges back to it out of exactly the nodes it has an
  edge to, and leaves all other edges, the vectors and the row ids alone.
\<close>

theorem delete_unlinks:
  assumes "kvmem_good s" "graph_loose ix (kvmem_contents s)" "shadow_sql_ok kvmem_good kvmem_contents ix sql"
    and "T = node_table ix (kvmem_contents s)" "r = vr_nRowid vr"
    and "outs = (case T r of None \<Rightarrow> {} | Some blk \<Rightarrow> rows_of (block_edges ix blk))"
  shows "\<exists>ix' s' T'. diskAnnDelete junk kvmemMethods sql ix s vr = Some (SQLITE4_OK, ix', s') \<and> kvmem_good s' \<and>
    graph_loose ix (kvmem_contents s') \<and> T' = node_table ix (kvmem_contents s') \<and> dom T' = dom T - {r} \<and>
    (\<forall>x a. T x = Some a \<and> x \<noteq> r \<longrightarrow> (\<exists>c. T' x = Some c \<and> same_node ix a c \<and>
       mset (block_edges ix c) =
         (if x \<in> outs then filter_mset (\<lambda>e. fst e \<noteq> r) (mset (block_edges ix a)) else mset (block_edges ix a))))"
proof -
  obtain ix' s' T2 where d: "diskAnnDelete junk kvmemMethods sql ix s vr = Some (SQLITE4_OK, ix', s')" "kvmem_good s'"
    "graph_loose ix (kvmem_contents s')" "unlinked_table ix r outs T T2" "node_table ix (kvmem_contents s') = T2(r := None)"
    using kvmem.delete_row [OF assms(1-3)] unfolding assms(4-6) by blast
  then show ?thesis
    by (intro exI [of _ ix'] exI [of _ s'] exI [of _ "T2(r := None)"]) (auto simp: unlinked_table_def)
qed

lemma delete_unlinks_witness:
  "\<exists>s ix' s'. diskAnnDelete (\<lambda>_ _. 0) kvmemMethods (kv_sql kv_index) kv_index s (ex_row 7) = Some (SQLITE4_OK, ix', s') \<and>
     dom (node_table kv_index (kvmem_contents s)) = {7, 8} \<and> dom (node_table kv_index (kvmem_contents s')) = {8}"
proof -
  obtain s where s: "kvmem_good s" "graph_inv kv_index (kvmem_contents s)" "dom (node_table kv_index (kvmem_contents s)) = {7, 8}"
    by (rule kv_two)
  from delete_unlinks [OF s(1) graph_inv_loose [OF s(2)] kv_sql_ok refl refl refl, where vr = "ex_row 7" and junk = "\<lambda>_ _. 0"]
  obtain ix' s' where "diskAnnDelete (\<lambda>_ _. 0) kvmemMethods (kv_sql kv_index) kv_index s (ex_row 7) = Some (SQLITE4_OK, ix', s')"
    "dom (node_table kv_index (kvmem_contents s')) = dom (node_table kv_index (kvmem_contents s)) - {7}" by auto
  with s(3) show ?thesis by (intro exI [of _ s] exI [of _ ix'] exI [of _ s']) auto
qed

text \<open>
  C15. When a deletion leaves dangling edges: a graph without edges to missing rows stays one if
  and only if every node with an edge to the deleted row is one that row had an edge to, for no
  other node is looked at. Pruning makes one-way edges, so this is not always so.
\<close>

theorem delete_dangling:
  assumes "kvmem_good s" "graph_inv ix (kvmem_contents s)" "shadow_sql_ok kvmem_good kvmem_contents ix sql"
    and "T = node_table ix (kvmem_contents s)" "r = vr_nRowid vr"
    and "outs = (case T r of None \<Rightarrow> {} | Some blk \<Rightarrow> rows_of (block_edges ix blk))"
  shows "\<exists>ix' s'. diskAnnDelete junk kvmemMethods sql ix s vr = Some (SQLITE4_OK, ix', s') \<and>
    (graph_inv ix (kvmem_contents s') \<longleftrightarrow> (\<forall>x a. T x = Some a \<longrightarrow> r \<in> rows_of (block_edges ix a) \<longrightarrow> x \<in> outs))"
proof -
  obtain ix' s' T2 where d: "diskAnnDelete junk kvmemMethods sql ix s vr = Some (SQLITE4_OK, ix', s')"
    "graph_loose ix (kvmem_contents s')" "unlinked_table ix r outs T T2" "node_table ix (kvmem_contents s') = T2(r := None)"
    using kvmem.delete_row [OF assms(1) graph_inv_loose [OF assms(2)] assms(3)] unfolding assms(4-6) by blast
  have inv: "rows_of (block_edges ix a) \<subseteq> dom T" "x \<notin> rows_of (block_edges ix a)" if "T x = Some a" for x a
    using assms(2) that by (auto simp: graph_inv_def node_inv_def assms(4))
  have "graph_inv ix (kvmem_contents s') \<longleftrightarrow>
      (\<forall>x c. x \<noteq> r \<and> T2 x = Some c \<longrightarrow> rows_of (block_edges ix c) \<subseteq> dom T2 - {r})"
  proof -
    let ?T' = "T2(r := None)"
    have l: "graph_ok ix (kvmem_contents s')" "rows_only ix (kvmem_contents s')"
      "\<forall>x c. ?T' x = Some c \<longrightarrow> le_word (field c 0 8) = x \<and> distinct (map fst (block_edges ix c)) \<and> x \<notin> rows_of (block_edges ix c)"
      using d(2) unfolding graph_loose_def node_inv_def d(4) by blast+
    have "graph_inv ix (kvmem_contents s') \<longleftrightarrow> (\<forall>x c. ?T' x = Some c \<longrightarrow> rows_of (block_edges ix c) \<subseteq> dom ?T')"
      unfolding graph_inv_def node_inv_def d(4) using l by blast
    also have "\<dots> \<longleftrightarrow> (\<forall>x c. x \<noteq> r \<and> T2 x = Some c \<longrightarrow> rows_of (block_edges ix c) \<subseteq> dom T2 - {r})"
      by (simp only: dom_fun_upd fun_upd_apply if_True split: if_split) auto
    finally show ?thesis .
  qed
  also have "\<dots> \<longleftrightarrow> (\<forall>x a. T x = Some a \<longrightarrow> r \<in> rows_of (block_edges ix a) \<longrightarrow> x \<in> outs)"
  proof (intro iffI allI impI)
    fix x a assume c: "\<forall>x c. x \<noteq> r \<and> T2 x = Some c \<longrightarrow> rows_of (block_edges ix c) \<subseteq> dom T2 - {r}"
      and a: "T x = Some a" "r \<in> rows_of (block_edges ix a)"
    obtain b where b: "T2 x = Some b" "mset (block_edges ix b) =
      (if x \<in> outs then filter_mset (\<lambda>e. fst e \<noteq> r) (mset (block_edges ix a)) else mset (block_edges ix a))"
      using d(3) a(1) unfolding unlinked_table_def by blast
    have "x \<noteq> r" using inv(2) [OF a(1)] a(2) by auto
    with c b(1) have "r \<notin> rows_of (block_edges ix b)" by blast
    with a(2) b(2) show "x \<in> outs" by (metis mset_eq_setD rows_of_def)
  next
    fix x c assume a: "\<forall>x a. T x = Some a \<longrightarrow> r \<in> rows_of (block_edges ix a) \<longrightarrow> x \<in> outs" and c: "x \<noteq> r \<and> T2 x = Some c"
    then have "x \<in> dom T" using d(3) unfolding unlinked_table_def by blast
    then obtain b where b: "T x = Some b" by auto
    then obtain c' where c': "T2 x = Some c'" and m: "mset (block_edges ix c') =
      (if x \<in> outs then filter_mset (\<lambda>e. fst e \<noteq> r) (mset (block_edges ix b)) else mset (block_edges ix b))"
      using d(3) unfolding unlinked_table_def by blast
    have "c' = c" using c c' by simp
    note m = m [unfolded this]
    have "rows_of (block_edges ix c) = fst ` set_mset (mset (block_edges ix c))" by (simp add: rows_of_def)
    also have "\<dots> \<subseteq> rows_of (block_edges ix b) - {r}"
      using a b unfolding m by (auto simp: rows_of_def)
    also have "\<dots> \<subseteq> dom T2 - {r}" using inv(1) [OF b] d(3) by (auto simp: unlinked_table_def)
    finally show "rows_of (block_edges ix c) \<subseteq> dom T2 - {r}" .
  qed
  finally show ?thesis using d(1) by blast
qed

lemma delete_dangling_witness:
  "\<exists>s ix' s'. diskAnnDelete (\<lambda>_ _. 0) kvmemMethods (kv_sql kv_index) kv_index s (ex_row 9) = Some (SQLITE4_OK, ix', s') \<and>
     dom (node_table kv_index (kvmem_contents s)) = {7, 8} \<and> graph_inv kv_index (kvmem_contents s')"
proof -
  obtain s where s: "kvmem_good s" "graph_inv kv_index (kvmem_contents s)" "dom (node_table kv_index (kvmem_contents s)) = {7, 8}"
    by (rule kv_two)
  have "\<forall>x a. node_table kv_index (kvmem_contents s) x = Some a \<longrightarrow> 9 \<notin> rows_of (block_edges kv_index a)"
    using s(2,3) by (fastforce simp: graph_inv_def node_inv_def)
  with delete_dangling [OF s(1,2) kv_sql_ok refl refl refl, where vr = "ex_row 9" and junk = "\<lambda>_ _. 0"] s(3)
  show ?thesis by (intro exI [of _ s]) auto
qed

text \<open>
  C16. An insertion cannot pass a deleted row: when the closest candidate not visited of a search
  that writes is a row that is gone, the assertion of \<open>diskAnnSearchCtxDeleteCandidate\<close> that the
  candidate has no blob fails, for the blob was created to look for the row.
\<close>

theorem writer_needs_rows:
  assumes "kvmem_good s" "graph_ok ix (kvmem_contents s)" "ctx_rel (node_at ctx) ctx b"
    and "blobs_ok ix (kvmem_contents s) (node_at ctx) True None" "blobMode ctx"
    and "bm_cands b = pre @ (r, d, False) # rest" "\<forall>c \<in> set pre. \<not> cand_open c" "node_table ix (kvmem_contents s) r = None"
  shows "searchStep junk kvmemMethods (ix, s, ctx, None) = None"
  by (rule kvmem.writer_step [OF assms])

lemma writer_needs_rows_witness:
  "searchStep (\<lambda>_. 0) kvmemMethods (kv_index, kv_begun,
     \<lparr>heap = [Some \<lparr>dn_nRowid = 8, dn_visited = False, dn_pBlobSpot = None\<rparr>], query = ex_pair, aCandidates = [0],
      aDistances = [0], maxCandidates = 10, aTopCandidates = [], aTopDistances = [], maxTopCandidates = 2,
      visitedList = [], nUnvisited = 1, blobMode = True, ctxBuffers = True\<rparr>, None) = None"
proof (rule writer_needs_rows [OF kv_begun(1), where b = "\<lparr>bm_cands = [(8, 0, False)], bm_log = [], bm_top = []\<rparr>" and pre = "[]"])
  show "graph_ok kv_index (kvmem_contents kv_begun)" using kv_index_inv(1) by (simp add: graph_inv_def)
qed (auto simp: kv_index_inv(3) ctx_rel_def bufs_ok_def node_at_def cand_view_def row_of_def opens_def blobs_ok_def split: if_splits)

text \<open>
  C18. A count of rows that is too high: if the store has no key at or after the prefix of the index
  - its rows were inserted and rolled back, say, which does not take the count back - but the
  count is positive, an insertion is refused with \<open>SQLITE4_ERROR\<close> and stores nothing.
\<close>

theorem insert_stale_count:
  assumes "kvmem_good s" "\<forall>k \<in> fst ` set (kvmem_contents s). k < aKeyPrefix ix" "0 < sint (nShadowRows ix)"
    and "index_ok ix" "can_compress ix" "vr_pVector vr = Some v" "fits (nNodeVectorType ix) (nVectorDims ix) v"
    and "sqlite4Malloc (insertL ix * 8)"
  shows "\<exists>s'. diskAnnInsert junk kvmemMethods sql randVal ix s vr = Some (SQLITE4_ERROR, ix, s') \<and>
    kvmem_contents s' = kvmem_contents s"
  using kvmem.insert_stale [OF assms] by blast

lemma insert_stale_count_witness:
  "\<exists>s'. diskAnnInsert (\<lambda>_ _. 0) kvmemMethods (kv_sql kv_index) 3 (kv_index\<lparr>nShadowRows := 1\<rparr>) kv_begun (ex_row 7) =
     Some (SQLITE4_ERROR, kv_index\<lparr>nShadowRows := 1\<rparr>, s')"
  using insert_stale_count [OF kv_begun(1), where ix = "kv_index\<lparr>nShadowRows := 1\<rparr>" and vr = "ex_row 7" and v = ex_query
      and junk = "\<lambda>_ _. 0" and sql = "kv_sql kv_index" and randVal = 3] kv_index_inv(2,5) index_ok_kv ex_query_fits
  by (auto simp: kv_begun(2))

end
