(* ===== verification/Spec2Isabelle.thy ===== *)
theory Spec2Isabelle
  imports Prelude Varint SoftFloat VectorFormats VectorCore KeyCodec RecordCodec KvStore KvTree KvMem KvMemSpec NodeBin BlobSpot DiskSearch BeamSearch SearchRefine SearchLoop EdgePrune DiskAnn DiskUpdate
begin

text \<open>
  A verification development for the vector search engine of LSMoVe (\<open>src/LSMoVe/src\<close>), a
  version of SQLite4 in which a DiskANN graph index is kept in the ordered key-value store
  under the tables. The development follows a vector from its bytes to its place in the store.

  The parts of the program and the theories that model them.

  \<^item> \<open>Prelude\<close>: C integers as machine words, blocks of memory as byte lists with checked reads
    and writes (\<open>memget\<close>, \<open>memput\<close>), byte order, \<open>memcmp\<close>.
  \<^item> \<open>Varint\<close> (\<open>varint.c\<close>, \<open>lsm_varint.c\<close>): both encoders and decoders of variable-length
    integers. Decoding inverts encoding, truncated input is refused, \<open>memcmp\<close> order is
    numeric order, and the two files differ where stated.
  \<^item> \<open>SoftFloat\<close>: IEEE binary32 and binary64 arithmetic computed on the bit patterns, with
    round-to-nearest-even; C's \<open>float\<close> and \<open>double\<close> operations in the model are these.
  \<^item> \<open>VectorFormats\<close> (\<open>vectorInt.h\<close>, \<open>vectorfloat*.c\<close>): the six formats of a vector, each on the
    bytes of its buffer: serialising, deserialising, distances.
  \<^item> \<open>VectorCore\<close> (\<open>vector.c\<close>): sizes, dispatch over the formats, the text and blob parsers,
    detection of type and dimensions, conversions between formats, the SQL functions.
  \<^item> \<open>KeyCodec\<close> (\<open>math.c\<close>, \<open>vdbecodec.c\<close>): decimal numbers and the order-preserving keys of
    numbers and row ids.
  \<^item> \<open>RecordCodec\<close> (\<open>vdbecodec.c\<close>): the data record of a row and the decoding of its columns.
  \<^item> \<open>KvStore\<close> (\<open>kv.c\<close>): the methods of a storage engine, the wrappers through which the
    program calls them, the meta-data array; the contract of a store as the locales
    \<open>kv_store\<close> and \<open>kv_store_strict\<close>.
  \<^item> \<open>KvTree\<close>, \<open>KvMem\<close>, \<open>KvMemSpec\<close> (\<open>kvmem.c\<close>): the in-memory engine. The balanced tree with
    parent pointers is a tree with a zipper (the path to a node is the list of frames above
    it); \<open>KvMem\<close> adds the transaction logs and the cursors; \<open>KvMemSpec\<close> interprets the
    contract of a store on the engine and shows that every history of operations refines a
    sorted association list with a stack of saved contents, unless it reaches the one commit
    that uses a freed node.
  \<^item> \<open>NodeBin\<close> (\<open>vectordiskann.c\<close>, \<open>vectorIndexInt.h\<close>): the block of bytes that holds a node of the
    graph. Its abstract view is the list of its edges, and each operation on the bytes is the
    list operation it stands for.
  \<^item> \<open>BlobSpot\<close> (\<open>vectordiskann.c\<close>): how a block is read from and written to the store, by-passing
    SQL: its key, its record, and the cursor the index keeps. The record is the one SQL would
    have written, and blocks survive in the store.
  \<^item> \<open>DiskSearch\<close> (\<open>vectordiskann.c\<close>): pairs of vectors, bounded sorted buffers, the search context
    with its nodes on a heap, and the greedy search over the graph in the store.
  \<^item> \<open>BeamSearch\<close>: the specification of that search, a beam search over an abstract graph; it ends
    on a finite graph and no row it can reach is closer than what it found, unless dropped.
  \<^item> \<open>SearchRefine\<close>, \<open>SearchLoop\<close>: the simulation between the two. A context shows a beam
    (\<open>ctx_rel\<close>), each operation on the context is the operation on the beam, and the loop of the
    code computes what the beam search computes on the graph the store holds (\<open>search_graph\<close>), if
    the metric is defined for the types of the index (\<open>dist_ok\<close>: the code has no L2 distance of
    1-bit vectors) and the distances met are numbers (\<open>comparable\<close>), so that the assertions of a
    debug build that the buffers are sorted hold.
  \<^item> \<open>EdgePrune\<close> (\<open>vectordiskann.c\<close>): replacing the edge to a node and pruning the list of edges of
    a node, with the refinement of both to operations on the list of edges.
  \<^item> \<open>DiskAnn\<close> (\<open>vectordiskann.c\<close>): the random start row, the query as the index answers it
    (\<open>diskAnnSearch\<close>) and the rows it hands out.
  \<^item> \<open>DiskUpdate\<close> (\<open>vectordiskann.c\<close>): insertion and deletion of a row, pass by pass. \<open>graph_inv\<close> (every
    row of the store is a well-formed node and every edge leads to a row) is kept by insertion;
    deletion keeps \<open>graph_loose\<close>, which drops the last conjunct, and the theorems show that it can not
    keep more. The two SQL statements on the shadow table are a parameter \<open>sql_engine\<close> whose contract
    \<open>shadow_sql_ok\<close> says what the statements document (a row is added, a row is removed, nothing
    else changes); \<open>kv_sql\<close> is an instance of it on the in-memory engine.

  Conventions. \<open>None\<close> is undefined behaviour of the C code or a failed \<open>assert\<close>, those of a
  debug build (\<open>SQLITE4_DEBUG\<close>) included, so that a theorem with a result \<open>Some\<close> also says that
  no assertion fails; errors the code reports are values (a return code, or the left side of a sum). Machine integers keep
  their width where wrap-around can matter, and are \<open>nat\<close> or \<open>int\<close> where a guard of the code
  bounds them. Loops are structural recursions on what is left to read, or functions with a
  measure; where the code may run on a malformed structure the model says \<open>None\<close> instead, and
  the theorems about well-formed structures state that the result is \<open>Some\<close>. No fuel is used.

  Not modelled: timing and tracing code, allocation failure (\<open>malloc\<close> succeeds and hands out
  arbitrary bytes), reference counting, the SQL front end and virtual machine, the pages, log
  and checkpoints of the LSM engine, and the baseline system \<open>src/libSQL\<close>. The catalogue side of an
  index (\<open>CREATE INDEX\<close>, the parameters table and the lookup of an index by name in
  \<open>vectorIndex.c\<close>) works on the parser's and the schema's structures and is left out with them.
\<close>

end
